(* ===== verification/Prelude.thy ===== *)
theory Prelude
  imports Main "HOL-Library.Word" "HOL-Library.Monad_Syntax"
begin

section \<open>Shared types, hint collections and generic lemmas\<close>

text \<open>
  Conventions of the development.
  \<^item> A C++ \<open>char\<close> is HOL's \<open>char\<close>, which is exactly a byte; a \<open>string\<close>, a \<open>StringPiece\<close>
    and a \<open>vector<char>\<close> are \<open>char list\<close>.
  \<^item> A \<open>size_t\<close> that counts bytes of memory is a \<open>nat\<close>: no object is larger than the address
    space, so these sums never wrap. Integers whose wrap-around the code can observe are \<open>word\<close>s.
  \<^item> A failed \<open>assert\<close> (or \<open>LOG_FATAL\<close>, or \<open>abort\<close>) ends the process: an operation that contains
    one returns an \<open>option\<close>, and \<open>None\<close> is that end.
  \<^item> A pointer into a buffer is the index it points at.
\<close>

named_theorems const_defs \<open>the constants of the code\<close>
named_theorems op_defs \<open>definitions of operations without branches on the state\<close>

type_synonym byte = char
type_synonym bytes = "char list"

text \<open>\<open>assert(c)\<close>: go on with the state, or end the process.\<close>

definition assert_then :: "bool \<Rightarrow> 'a option \<Rightarrow> 'a option" where
  "assert_then c k = (if c then k else None)"

lemma assert_then_simps [simp]:
  "assert_then True k = k"
  "assert_then False k = None"
  by (simp_all add: assert_then_def)

lemma assert_then_eq_Some [simp]: "assert_then c k = Some y \<longleftrightarrow> c \<and> k = Some y"
  by (simp add: assert_then_def)

lemma assert_then_eq_None [simp]: "assert_then c k = None \<longleftrightarrow> \<not> c \<or> k = None"
  by (simp add: assert_then_def)

subsection \<open>Writing into a vector\<close>

text \<open>\<open>std::copy(d, d+len, begin()+i)\<close> where the destination range lies inside the vector.\<close>

definition write_at :: "nat \<Rightarrow> 'a list \<Rightarrow> 'a list \<Rightarrow> 'a list" where
  "write_at i d xs = take i xs @ d @ drop (i + length d) xs"

lemma length_write_at [simp]:
  "i + length d \<le> length xs \<Longrightarrow> length (write_at i d xs) = length xs"
  by (simp add: write_at_def)

lemma take_write_at [simp]: "n \<le> i \<Longrightarrow> i \<le> length xs \<Longrightarrow> take n (write_at i d xs) = take n xs"
  by (simp add: write_at_def min_absorb1)

lemma drop_write_at:
  "n \<le> i \<Longrightarrow> i + length d \<le> length xs \<Longrightarrow>
     take (i + length d - n) (drop n (write_at i d xs)) = drop n (take i xs) @ d"
  by (simp add: write_at_def)

lemma drop_write_at_after:
  "i + length d \<le> n \<Longrightarrow> n \<le> length xs \<Longrightarrow> drop n (write_at i d xs) = drop n xs"
  by (simp add: write_at_def)

lemma read_write_at: "i \<le> length xs \<Longrightarrow> take (length d) (drop i (write_at i d xs)) = d"
  by (simp add: write_at_def)

text \<open>\<open>vector::resize(n)\<close> with value-initialised new elements.\<close>

definition resize :: "nat \<Rightarrow> 'a \<Rightarrow> 'a list \<Rightarrow> 'a list" where
  "resize n z xs = take n xs @ replicate (n - length xs) z"

lemma length_resize [simp]: "length (resize n z xs) = n"
  by (simp add: resize_def)

lemma take_resize: "k \<le> length xs \<Longrightarrow> k \<le> n \<Longrightarrow> take k (resize n z xs) = take k xs"
  by (simp add: resize_def min_def)

subsection \<open>Searching\<close>

text \<open>\<open>std::find(first, last, c)\<close>: the index of the first occurrence, or the end.\<close>

fun find_index :: "('a \<Rightarrow> bool) \<Rightarrow> 'a list \<Rightarrow> nat" where
  "find_index P [] = 0"
| "find_index P (x # xs) = (if P x then 0 else Suc (find_index P xs))"

lemma find_index_le [simp]: "find_index P xs \<le> length xs"
  by (induction xs) auto

lemma find_index_less: "find_index P xs < length xs \<longleftrightarrow> (\<exists>x \<in> set xs. P x)"
  by (induction xs) auto

lemma find_index_nth: "find_index P xs < length xs \<Longrightarrow> P (xs ! find_index P xs)"
  by (induction xs) auto

lemma find_index_before: "i < find_index P xs \<Longrightarrow> \<not> P (xs ! i)"
  by (induction xs arbitrary: i) (auto simp: nth_Cons split: nat.splits if_splits)

lemma find_index_take: "\<forall>x \<in> set (take (find_index P xs) xs). \<not> P x"
  by (induction xs) auto

lemma find_index_append:
  "find_index P (xs @ ys) =
     (if \<exists>x \<in> set xs. P x then find_index P xs else length xs + find_index P ys)"
  by (induction xs) auto

lemma find_index_append_hit:
  "\<forall>x \<in> set xs. \<not> P x \<Longrightarrow> P y \<Longrightarrow> find_index P (xs @ y # ys) = length xs"
  by (simp add: find_index_append)

text \<open>The pieces of a list between the separators \<open>d\<close>.\<close>

fun split_on :: "'a \<Rightarrow> 'a list \<Rightarrow> 'a list list" where
  "split_on d [] = [[]]"
| "split_on d (c # s) = (if c = d then [] # split_on d s else (case split_on d s of [] \<Rightarrow> [[c]] | p # ps \<Rightarrow> (c # p) # ps))"

lemma split_on_none: "d \<notin> set p \<Longrightarrow> split_on d p = [p]"
  by (induction p) auto

lemma split_on_append: "d \<notin> set p \<Longrightarrow> split_on d (p @ d # s) = p # split_on d s"
  by (induction p) auto

lemma int_length_empty: "int (length xs) \<le> n \<Longrightarrow> \<not> 0 < n \<Longrightarrow> xs = []"
  by (cases xs) auto

subsection \<open>Option chains\<close>

lemma bind_eq_Some [simp]:
  "Option.bind m f = Some y \<longleftrightarrow> (\<exists>x. m = Some x \<and> f x = Some y)"
  by (cases m) auto

subsection \<open>C arithmetic\<close>

text \<open>Integer division of C++ truncates towards zero.\<close>

definition c_div :: "int \<Rightarrow> int \<Rightarrow> int" where
  "c_div a b = sgn a * sgn b * (\<bar>a\<bar> div \<bar>b\<bar>)"

definition c_mod :: "int \<Rightarrow> int \<Rightarrow> int" where
  "c_mod a b = a - c_div a b * b"

lemma c_div_nonneg [simp]: "0 \<le> a \<Longrightarrow> 0 < b \<Longrightarrow> c_div a b = a div b"
  by (cases "a = 0") (auto simp: c_div_def)

lemma c_mod_nonneg [simp]: "0 \<le> a \<Longrightarrow> 0 < b \<Longrightarrow> c_mod a b = a mod b"
  by (simp add: c_mod_def minus_div_mult_eq_mod)

lemma c_div_mod: "c_div a b * b + c_mod a b = a"
  by (simp add: c_mod_def)

lemma c_mod_bound:
  assumes "0 < b" shows "\<bar>c_mod a b\<bar> < b"
proof (cases "0 \<le> a")
  case True
  with assms show ?thesis by simp
next
  case False
  then have "c_mod a b = - ((- a) mod b)"
    using assms by (simp add: c_mod_def c_div_def minus_div_mult_eq_mod [symmetric])
  with assms show ?thesis by simp
qed

text \<open>\<open>static_cast<int>\<close> of a wider integer keeps its low 32 bits, read as two's complement.\<close>

definition to_int32 :: "int \<Rightarrow> int" where
  "to_int32 x = signed_take_bit 31 x"

lemma to_int32_id [simp]: "- (2 ^ 31) \<le> x \<Longrightarrow> x < 2 ^ 31 \<Longrightarrow> to_int32 x = x"
  by (simp add: to_int32_def signed_take_bit_int_eq_self)

end
