(* ===== verification/Net_Endian.thy ===== *)
theory Net_Endian
  imports Prelude
begin

section \<open>Byte order: \<open>net/Endian.h\<close>\<close>

text \<open>
  The host is little-endian (the code's platform is Linux on x86). A machine word in memory is the
  list of its bytes, least significant first; \<open>htobe\<close> and \<open>betoh\<close> reverse the bytes of a word.
  What the network sees is the memory of the converted word.
\<close>

fun le_digits :: "nat \<Rightarrow> nat \<Rightarrow> nat list" where
  "le_digits 0 v = []"
| "le_digits (Suc k) v = v mod 256 # le_digits k (v div 256)"

fun from_le :: "nat list \<Rightarrow> nat" where
  "from_le [] = 0"
| "from_le (d # ds) = d + 256 * from_le ds"

lemma length_le_digits [simp]: "length (le_digits k v) = k"
  by (induction k arbitrary: v) auto

lemma le_digits_lt: "d \<in> set (le_digits k v) \<Longrightarrow> d < 256"
  by (induction k arbitrary: v) auto

lemma from_le_digits: "from_le (le_digits k v) = v mod 256 ^ k"
proof (induction k arbitrary: v)
  case 0
  show ?case by simp
next
  case (Suc k)
  have "v mod 256 + 256 * ((v div 256) mod 256 ^ k) = v mod (256 * 256 ^ k)"
    by (simp add: mod_mult2_eq)
  then show ?case using Suc by simp
qed

lemma le_digits_from_le: "\<forall>d \<in> set ds. d < 256 \<Longrightarrow> le_digits (length ds) (from_le ds) = ds"
  by (induction ds) auto

lemma from_le_lt: "\<forall>d \<in> set ds. d < 256 \<Longrightarrow> from_le ds < 256 ^ length ds"
proof (induction ds)
  case Nil
  show ?case by simp
next
  case (Cons d ds)
  then have "from_le ds + 1 \<le> 256 ^ length ds" and "d < 256" by auto
  then have "d + 256 * from_le ds < 256 * 256 ^ length ds" by linarith
  then show ?case by simp
qed

text \<open>Number of bytes of a word type (\<open>sizeof\<close>).\<close>

definition word_bytes :: "'a::len word \<Rightarrow> nat" where
  "word_bytes x = LENGTH('a) div 8"

text \<open>The memory image of a word and the word of a memory image (\<open>memcpy\<close> to and from it).\<close>

definition mem_of :: "'a::len word \<Rightarrow> bytes" where
  "mem_of x = map char_of (le_digits (word_bytes x) (unat x))"

definition load_mem :: "bytes \<Rightarrow> 'a::len word" where
  "load_mem cs = of_nat (from_le (map of_char cs))"

definition bswap :: "'a::len word \<Rightarrow> 'a word" where
  "bswap x = of_nat (from_le (rev (le_digits (word_bytes x) (unat x))))"

definition hostToNetwork64 :: "64 word \<Rightarrow> 64 word" where
  "hostToNetwork64 host64 = bswap host64"

definition hostToNetwork32 :: "32 word \<Rightarrow> 32 word" where
  "hostToNetwork32 host32 = bswap host32"

definition hostToNetwork16 :: "16 word \<Rightarrow> 16 word" where
  "hostToNetwork16 host16 = bswap host16"

definition networkToHost64 :: "64 word \<Rightarrow> 64 word" where
  "networkToHost64 net64 = bswap net64"

definition networkToHost32 :: "32 word \<Rightarrow> 32 word" where
  "networkToHost32 net32 = bswap net32"

definition networkToHost16 :: "16 word \<Rightarrow> 16 word" where
  "networkToHost16 net16 = bswap net16"

lemmas endian_defs =
  hostToNetwork64_def hostToNetwork32_def hostToNetwork16_def
  networkToHost64_def networkToHost32_def networkToHost16_def

lemma length_mem_of [simp]: "length (mem_of x) = word_bytes x"
  by (simp add: mem_of_def)

lemma word_bytes_numeral [simp]:
  "word_bytes (x :: 64 word) = 8"
  "word_bytes (y :: 32 word) = 4"
  "word_bytes (z :: 16 word) = 2"
  "word_bytes (w :: 8 word) = 1"
  by (simp_all add: word_bytes_def)

lemma of_char_char_of_digits: "\<forall>d \<in> set ds. d < 256 \<Longrightarrow> map of_char (map char_of ds) = (ds :: nat list)"
  by (induction ds) auto

lemma pow256: "8 dvd n \<Longrightarrow> (256::nat) ^ (n div 8) = 2 ^ n"
proof -
  assume "8 dvd n"
  then obtain k where "n = 8 * k" by (elim dvdE)
  then show ?thesis by (simp add: power_mult)
qed

text \<open>The bytes of a word determine it: the digits of \<open>unat x\<close> add up to \<open>unat x\<close> again.\<close>

lemma from_le_word:
  "8 dvd LENGTH('a) \<Longrightarrow> from_le (le_digits (word_bytes x) (unat x)) = unat (x :: 'a::len word)"
  by (simp add: from_le_digits word_bytes_def pow256)

lemma map_of_char_mem_of: "map of_char (mem_of x) = le_digits (word_bytes x) (unat x)"
  unfolding mem_of_def by (rule of_char_char_of_digits) (auto simp: le_digits_lt)

lemma load_mem_of:
  assumes "8 dvd LENGTH('a)"
  shows "load_mem (mem_of x) = (x :: 'a::len word)"
  using from_le_word [OF assms, of x] by (simp add: load_mem_def map_of_char_mem_of)

lemma unat_bswap:
  assumes "8 dvd LENGTH('a)"
  shows "unat (bswap (x :: 'a::len word)) = from_le (rev (le_digits (word_bytes x) (unat x)))"
proof -
  have "from_le (rev (le_digits (word_bytes x) (unat x))) < 256 ^ word_bytes x"
    using from_le_lt [of "rev (le_digits (word_bytes x) (unat x))"] by (auto simp: le_digits_lt)
  then show ?thesis
    using assms by (simp add: bswap_def word_bytes_def pow256 unat_of_nat)
qed

lemma le_digits_bswap:
  assumes "8 dvd LENGTH('a)"
  shows "le_digits (word_bytes x) (unat (bswap (x :: 'a::len word)))
           = rev (le_digits (word_bytes x) (unat x))"
  using le_digits_from_le [of "rev (le_digits (word_bytes x) (unat x))"]
  by (auto simp: unat_bswap [OF assms] le_digits_lt)

text \<open>Swapping twice is the identity, and the memory of a swapped word is the reversed memory.\<close>

lemma bswap_bswap:
  assumes "8 dvd LENGTH('a)"
  shows "bswap (bswap x) = (x :: 'a::len word)"
proof (rule word_unat_eq_iff [THEN iffD2])
  have "unat (bswap (bswap x)) = from_le (le_digits (word_bytes x) (unat x))"
    using le_digits_bswap [OF assms, of x]
    by (simp add: unat_bswap [OF assms, of "bswap x"] word_bytes_def)
  then show "unat (bswap (bswap x)) = unat x" by (simp add: from_le_word [OF assms])
qed

lemma mem_of_bswap:
  assumes "8 dvd LENGTH('a)"
  shows "mem_of (bswap x) = rev (mem_of (x :: 'a::len word))"
  using le_digits_bswap [OF assms, of x] by (simp add: mem_of_def word_bytes_def rev_map)

end
