(* ===== verification/Byte_Queue.thy ===== *)
theory Byte_Queue
  imports Prelude
begin

section \<open>The contract of a byte buffer\<close>

text \<open>
  What the clients of a buffer rely on: its readable part is a queue of bytes. \<open>q_step\<close> says what
  each call does to the queue (\<open>None\<close>: the call breaks its precondition), and the locale
  \<open>byte_queue\<close> asks an implementation to follow it step by step. The clients' facts, on whole
  sequences of calls, are proved once in the locale.
\<close>

datatype q_op = Put bytes | Take nat | Clear | Undo nat | Reserve nat

fun q_step :: "q_op \<Rightarrow> bytes \<Rightarrow> bytes option" where
  "q_step (Put d) q = Some (q @ d)"
| "q_step (Take n) q = (if n \<le> length q then Some (drop n q) else None)"
| "q_step Clear q = Some []"
| "q_step (Undo n) q = (if n \<le> length q then Some (take (length q - n) q) else None)"
| "q_step (Reserve n) q = Some q"

fun run_ops :: "('op \<Rightarrow> 'b \<Rightarrow> 'b option) \<Rightarrow> 'op list \<Rightarrow> 'b \<Rightarrow> 'b option" where
  "run_ops step [] b = Some b"
| "run_ops step (x # xs) b = Option.bind (step x b) (run_ops step xs)"

text \<open>The bytes a sequence of calls puts in, and the bytes its \<open>Take\<close>s consume.\<close>

fun bytes_put :: "q_op list \<Rightarrow> bytes" where
  "bytes_put [] = []"
| "bytes_put (Put d # xs) = d @ bytes_put xs"
| "bytes_put (_ # xs) = bytes_put xs"

fun bytes_taken :: "q_op list \<Rightarrow> bytes \<Rightarrow> bytes" where
  "bytes_taken [] q = []"
| "bytes_taken (Take n # xs) q = take n q @ bytes_taken xs (drop n q)"
| "bytes_taken (x # xs) q = (case q_step x q of None \<Rightarrow> [] | Some q' \<Rightarrow> bytes_taken xs q')"

fun streaming :: "q_op \<Rightarrow> bool" where
  "streaming (Put d) = True"
| "streaming (Take n) = True"
| "streaming (Reserve n) = True"
| "streaming _ = False"

lemma q_run_stream:
  "run_ops q_step xs q = Some q' \<Longrightarrow> list_all streaming xs \<Longrightarrow>
     bytes_taken xs q @ q' = q @ bytes_put xs"
proof (induction xs arbitrary: q)
  case Nil
  then show ?case by simp
next
  case (Cons x xs)
  from Cons.prems obtain q1 where q1: "q_step x q = Some q1" "run_ops q_step xs q1 = Some q'" by auto
  with Cons have IH: "bytes_taken xs q1 @ q' = q1 @ bytes_put xs" by simp
  show ?case
  proof (cases x)
    case (Take n)
    with q1 have "q1 = drop n q" by (simp split: if_splits)
    with IH have "bytes_taken (x # xs) q @ q' = take n q @ drop n q @ bytes_put xs"
      using Take by simp
    also have "\<dots> = q @ bytes_put xs"
      by (simp only: append_assoc [symmetric] append_take_drop_id)
    finally show ?thesis using Take by simp
  qed (use q1 IH Cons.prems in auto)
qed

locale byte_queue =
  fixes inv :: "'b \<Rightarrow> bool"
    and view :: "'b \<Rightarrow> bytes"
    and step :: "q_op \<Rightarrow> 'b \<Rightarrow> 'b option"
  assumes step_Some: "inv b \<Longrightarrow> step x b = Some b' \<Longrightarrow> inv b' \<and> q_step x (view b) = Some (view b')"
    and step_None: "inv b \<Longrightarrow> step x b = None \<Longrightarrow> q_step x (view b) = None"
begin

lemma run_Some:
  "inv b \<Longrightarrow> run_ops step xs b = Some b' \<Longrightarrow> inv b' \<and> run_ops q_step xs (view b) = Some (view b')"
proof (induction xs arbitrary: b)
  case Nil
  then show ?case by simp
next
  case (Cons x xs)
  then obtain b1 where b1: "step x b = Some b1" "run_ops step xs b1 = Some b'" by auto
  with Cons.prems have "inv b1" "q_step x (view b) = Some (view b1)"
    by (auto dest: step_Some)
  with b1 Cons.IH show ?case by simp
qed

lemma run_None: "inv b \<Longrightarrow> run_ops step xs b = None \<Longrightarrow> run_ops q_step xs (view b) = None"
proof (induction xs arbitrary: b)
  case Nil
  then show ?case by simp
next
  case (Cons x xs)
  show ?case
  proof (cases "step x b")
    case None
    with Cons.prems show ?thesis by (simp add: step_None)
  next
    case (Some b1)
    with Cons.prems have "inv b1" "q_step x (view b) = Some (view b1)"
      by (auto dest: step_Some)
    with Some Cons show ?thesis by simp
  qed
qed

lemma refines: "inv b \<Longrightarrow> map_option view (run_ops step xs b) = run_ops q_step xs (view b)"
  by (cases "run_ops step xs b") (auto dest: run_Some run_None)

lemma keeps_inv: "inv b \<Longrightarrow> run_ops step xs b = Some b' \<Longrightarrow> inv b'"
  by (simp add: run_Some)

lemma stream:
  "inv b \<Longrightarrow> run_ops step xs b = Some b' \<Longrightarrow> list_all streaming xs \<Longrightarrow>
     bytes_taken xs (view b) @ view b' = view b @ bytes_put xs"
  using run_Some q_run_stream by blast

end

end
