(* ===== verification/Base_StringPiece.thy ===== *)
theory Base_StringPiece
  imports Prelude "HOL-Library.Char_ord" "HOL-Library.List_Lexorder" "HOL-Library.Sublist"
begin

section \<open>Pieces of strings: \<open>base/StringPiece.h\<close>\<close>

text \<open>
  A \<open>StringPiece\<close> points into memory it does not own and has an \<open>int\<close> length: the field \<open>sp_ptr\<close> is the memory
  from the pointer on. \<open>memcmp\<close> compares bytes as unsigned; only the sign of its result is used. The comparison operators are the
  lexicographic order of the strings.
\<close>

record string_piece =
  sp_ptr :: bytes
  sp_length :: int

text \<open>The constructors, from nothing, a string, and a pointer with a length; a C string ends at its first NUL.\<close>

definition StringPiece_null :: string_piece where
  "StringPiece_null = \<lparr>sp_ptr = [], sp_length = 0\<rparr>"

definition StringPiece_cstr :: "bytes \<Rightarrow> string_piece" where
  "StringPiece_cstr str = \<lparr>sp_ptr = str, sp_length = to_int32 (int (find_index (\<lambda>c. c = CHR 0x00) str))\<rparr>"

definition StringPiece_string :: "string \<Rightarrow> string_piece" where
  "StringPiece_string str = \<lparr>sp_ptr = str, sp_length = to_int32 (int (length str))\<rparr>"

definition StringPiece_range :: "bytes \<Rightarrow> int \<Rightarrow> string_piece" where
  "StringPiece_range offset len = \<lparr>sp_ptr = offset, sp_length = len\<rparr>"

definition sp_empty :: "string_piece \<Rightarrow> bool" where "sp_empty x \<longleftrightarrow> sp_length x = 0"
definition sp_clear :: "string_piece \<Rightarrow> string_piece" where "sp_clear x = x\<lparr>sp_ptr := [], sp_length := 0\<rparr>"
definition sp_set :: "bytes \<Rightarrow> int \<Rightarrow> string_piece \<Rightarrow> string_piece" where "sp_set buffer len x = x\<lparr>sp_ptr := buffer, sp_length := len\<rparr>"
definition sp_at :: "string_piece \<Rightarrow> nat \<Rightarrow> byte" where "sp_at x i = sp_ptr x ! i"

definition remove_prefix :: "nat \<Rightarrow> string_piece \<Rightarrow> string_piece" where
  "remove_prefix n x = x\<lparr>sp_ptr := drop n (sp_ptr x), sp_length := sp_length x - int n\<rparr>"

definition remove_suffix :: "nat \<Rightarrow> string_piece \<Rightarrow> string_piece" where
  "remove_suffix n x = x\<lparr>sp_length := sp_length x - int n\<rparr>"

fun memcmp :: "bytes \<Rightarrow> bytes \<Rightarrow> nat \<Rightarrow> int" where
  "memcmp (a # as) (b # bs) (Suc n) = (if a = b then memcmp as bs n else if (of_char a :: nat) < of_char b then -1 else 1)"
| "memcmp _ _ _ = 0"

definition sp_eq :: "string_piece \<Rightarrow> string_piece \<Rightarrow> bool" where
  "sp_eq p x \<longleftrightarrow> sp_length p = sp_length x \<and> memcmp (sp_ptr p) (sp_ptr x) (nat (sp_length p)) = 0"

definition sp_neq :: "string_piece \<Rightarrow> string_piece \<Rightarrow> bool" where "sp_neq p x \<longleftrightarrow> \<not> sp_eq p x"

text \<open>The macro of the four order operators.\<close>

definition binary_predicate :: "(int \<Rightarrow> int \<Rightarrow> bool) \<Rightarrow> (int \<Rightarrow> int \<Rightarrow> bool) \<Rightarrow> string_piece \<Rightarrow> string_piece \<Rightarrow> bool" where
  "binary_predicate cmp auxcmp p x =
     (let r = memcmp (sp_ptr p) (sp_ptr x) (nat (if sp_length p < sp_length x then sp_length p else sp_length x))
      in auxcmp r 0 \<or> r = 0 \<and> cmp (sp_length p) (sp_length x))"

definition sp_less :: "string_piece \<Rightarrow> string_piece \<Rightarrow> bool" where "sp_less = binary_predicate (<) (<)"
definition sp_le :: "string_piece \<Rightarrow> string_piece \<Rightarrow> bool" where "sp_le = binary_predicate (\<le>) (<)"
definition sp_ge :: "string_piece \<Rightarrow> string_piece \<Rightarrow> bool" where "sp_ge = binary_predicate (\<ge>) (>)"
definition sp_greater :: "string_piece \<Rightarrow> string_piece \<Rightarrow> bool" where "sp_greater = binary_predicate (>) (>)"

definition sp_compare :: "string_piece \<Rightarrow> string_piece \<Rightarrow> int" where
  "sp_compare p x =
     (let r = memcmp (sp_ptr p) (sp_ptr x) (nat (if sp_length p < sp_length x then sp_length p else sp_length x))
      in if r = 0 then if sp_length p < sp_length x then -1 else if sp_length p > sp_length x then 1 else r else r)"

definition as_string :: "string_piece \<Rightarrow> string" where
  "as_string x = take (nat (sp_length x)) (sp_ptr x)"

definition starts_with :: "string_piece \<Rightarrow> string_piece \<Rightarrow> bool" where
  "starts_with p x \<longleftrightarrow> sp_length p \<ge> sp_length x \<and> memcmp (sp_ptr p) (sp_ptr x) (nat (sp_length x)) = 0"

subsection \<open>The order of the strings\<close>

text \<open>The piece lies inside its memory.\<close>

definition wf_piece :: "string_piece \<Rightarrow> bool" where
  "wf_piece x \<longleftrightarrow> 0 \<le> sp_length x \<and> sp_length x \<le> int (length (sp_ptr x))"

lemma as_string_length: "wf_piece x \<Longrightarrow> length (as_string x) = nat (sp_length x)"
  by (auto simp: wf_piece_def as_string_def min_def)

lemma memcmp_take: "memcmp (take n xs) (take n ys) n = memcmp xs ys n"
  by (induction xs ys n rule: memcmp.induct) auto

lemma memcmp_eq: "n \<le> length xs \<Longrightarrow> n \<le> length ys \<Longrightarrow> memcmp xs ys n = 0 \<longleftrightarrow> take n xs = take n ys"
  by (induction xs ys n rule: memcmp.induct) auto

lemma char_less: "(of_char a :: nat) < of_char b \<longleftrightarrow> a < b" for a b :: char
  by (simp add: less_char_def)

lemma memcmp_less:
  "(memcmp xs ys (min (length xs) (length ys)) < 0 \<or> memcmp xs ys (min (length xs) (length ys)) = 0 \<and> length xs < length ys) \<longleftrightarrow> xs < ys"
proof (induction xs arbitrary: ys)
  case Nil
  then show ?case by (cases ys) simp_all
next
  case (Cons x xs)
  show ?case
  proof (cases ys)
    case (Cons y zs)
    then show ?thesis using Cons.IH [of zs] by (auto simp: char_less)
  qed simp
qed

lemma memcmp_swap: "memcmp ys xs n = - memcmp xs ys n"
proof (induction xs ys n rule: memcmp.induct)
  case (1 a as b bs n)
  show ?case
  proof (cases "a = b")
    case True
    then show ?thesis using 1 by simp
  next
    case False
    then have "(of_char a :: nat) \<noteq> of_char b" by simp
    then show ?thesis using False by auto
  qed
qed simp_all

lemma shorter_memcmp:
  assumes "wf_piece p" "wf_piece x"
  shows "memcmp (sp_ptr p) (sp_ptr x) (nat (if sp_length p < sp_length x then sp_length p else sp_length x)) =
    memcmp (as_string p) (as_string x) (min (length (as_string p)) (length (as_string x)))"
proof -
  let ?n = "min (length (as_string p)) (length (as_string x))"
  have n: "nat (if sp_length p < sp_length x then sp_length p else sp_length x) = ?n"
    using as_string_length [OF assms(1)] as_string_length [OF assms(2)] by (auto simp: min_def)
  have "take ?n (as_string p) = take ?n (sp_ptr p)" "take ?n (as_string x) = take ?n (sp_ptr x)"
    using as_string_length [OF assms(1)] as_string_length [OF assms(2)] by (simp_all add: as_string_def min_def)
  then show ?thesis unfolding n by (metis memcmp_take)
qed

text \<open>The operators and \<open>compare\<close> of string pieces are equality and the lexicographic order of their strings, byte by
  byte as unsigned values, and \<open>starts_with\<close> is the prefix order.\<close>

theorem piece_order:
  assumes "wf_piece p" "wf_piece x"
  shows "(sp_eq p x \<longleftrightarrow> as_string p = as_string x) \<and> (sp_less p x \<longleftrightarrow> as_string p < as_string x) \<and>
    (sp_le p x \<longleftrightarrow> as_string p \<le> as_string x) \<and> (sp_greater p x \<longleftrightarrow> as_string p > as_string x) \<and>
    (sp_ge p x \<longleftrightarrow> as_string p \<ge> as_string x) \<and> (sp_compare p x < 0 \<longleftrightarrow> as_string p < as_string x) \<and>
    (sp_compare p x = 0 \<longleftrightarrow> as_string p = as_string x) \<and> (starts_with p x \<longleftrightarrow> prefix (as_string x) (as_string p))"
proof -
  let ?r = "memcmp (as_string p) (as_string x) (min (length (as_string p)) (length (as_string x)))"
  note l = as_string_length [OF assms(1)] as_string_length [OF assms(2)]
  have len: "sp_length p = int (length (as_string p))" "sp_length x = int (length (as_string x))"
    using assms l by (simp_all add: wf_piece_def)
  have eq: "?r = 0 \<and> length (as_string p) = length (as_string x) \<longleftrightarrow> as_string p = as_string x"
    using memcmp_eq [of "length (as_string p)" "as_string p" "as_string x"] by auto
  have lt: "?r < 0 \<or> ?r = 0 \<and> length (as_string p) < length (as_string x) \<longleftrightarrow> as_string p < as_string x" by (rule memcmp_less)
  have gt: "?r > 0 \<or> ?r = 0 \<and> length (as_string p) > length (as_string x) \<longleftrightarrow> as_string x < as_string p"
    using memcmp_less [of "as_string x" "as_string p"] memcmp_swap [of "as_string x" "as_string p"] by (simp add: min.commute)
  have bp: "binary_predicate cmp aux p x \<longleftrightarrow> aux ?r 0 \<or> ?r = 0 \<and> cmp (int (length (as_string p))) (int (length (as_string x)))" for cmp aux
    unfolding binary_predicate_def Let_def shorter_memcmp [OF assms] unfolding len by (rule refl)
  have "sp_less p x \<longleftrightarrow> as_string p < as_string x" using lt by (simp add: sp_less_def bp)
  moreover have "sp_greater p x \<longleftrightarrow> as_string p > as_string x" using gt by (simp add: sp_greater_def bp)
  moreover have "sp_le p x \<longleftrightarrow> as_string p < as_string x \<or> as_string p = as_string x"
    unfolding sp_le_def bp lt [symmetric] eq [symmetric] by (cases "?r = 0") auto
  moreover have "sp_ge p x \<longleftrightarrow> as_string x < as_string p \<or> as_string p = as_string x"
    unfolding sp_ge_def bp gt [symmetric] eq [symmetric] by (cases "?r = 0") auto
  moreover have cmp: "sp_compare p x = (if ?r = 0 then if length (as_string p) < length (as_string x) then -1
      else if length (as_string p) > length (as_string x) then 1 else 0 else ?r)"
    unfolding sp_compare_def Let_def shorter_memcmp [OF assms] unfolding len by simp
  have "sp_compare p x < 0 \<longleftrightarrow> as_string p < as_string x" unfolding lt [symmetric] cmp by (cases "?r = 0") auto
  moreover have "sp_compare p x = 0 \<longleftrightarrow> as_string p = as_string x" unfolding eq [symmetric] cmp by (cases "?r = 0") auto
  moreover have "sp_eq p x \<longleftrightarrow> as_string p = as_string x"
  proof (cases "sp_length p = sp_length x")
    case True
    then show ?thesis
      using memcmp_eq [of "nat (sp_length p)" "sp_ptr p" "sp_ptr x"] assms by (auto simp: sp_eq_def as_string_def wf_piece_def)
  next
    case False
    then have "as_string p \<noteq> as_string x" using len by auto
    then show ?thesis using False by (simp add: sp_eq_def)
  qed
  moreover have "starts_with p x \<longleftrightarrow> prefix (as_string x) (as_string p)"
  proof -
    have "starts_with p x \<longleftrightarrow> length (as_string x) \<le> length (as_string p) \<and> take (length (as_string x)) (as_string p) = as_string x"
    proof (cases "sp_length x \<le> sp_length p")
      case True
      let ?n = "nat (sp_length x)"
      have n: "?n \<le> length (sp_ptr p)" "?n \<le> length (sp_ptr x)" "?n \<le> nat (sp_length p)"
        using True assms by (auto simp: wf_piece_def)
      have "take ?n (as_string p) = take ?n (sp_ptr p)" using n(3) by (simp add: as_string_def min_def)
      moreover have "as_string x = take ?n (sp_ptr x)" by (simp add: as_string_def)
      ultimately show ?thesis using memcmp_eq [OF n(1,2)] True l n(3) by (simp add: starts_with_def)
    next
      case False
      then show ?thesis using len by (simp add: starts_with_def)
    qed
    then show ?thesis by (metis prefix_def prefix_length_le append_eq_conv_conj take_is_prefix)
  qed
  ultimately show ?thesis by (simp only: order_le_less) metis
qed

theorem piece_order_witness:
  "sp_less (StringPiece_string ''abc'') (StringPiece_string ''abd'') \<and> starts_with (StringPiece_string ''abc'') (StringPiece_string ''ab'')"
proof
  have w: "wf_piece (StringPiece_string ''abc'')" "wf_piece (StringPiece_string ''abd'')" "wf_piece (StringPiece_string ''ab'')"
    by (simp_all add: wf_piece_def StringPiece_string_def)
  show "sp_less (StringPiece_string ''abc'') (StringPiece_string ''abd'')"
    using piece_order [OF w(1,2)] by (simp add: as_string_def StringPiece_string_def less_char_def)
  show "starts_with (StringPiece_string ''abc'') (StringPiece_string ''ab'')"
    using piece_order [OF w(1,3)] by (simp add: as_string_def StringPiece_string_def)
qed

text \<open>Cutting a piece.\<close>

lemma remove_prefix_string:
  "wf_piece x \<Longrightarrow> int n \<le> sp_length x \<Longrightarrow> wf_piece (remove_prefix n x) \<and> as_string (remove_prefix n x) = drop n (as_string x)"
  by (auto simp: wf_piece_def remove_prefix_def as_string_def drop_take nat_diff_distrib)

lemma remove_suffix_string:
  assumes "wf_piece x" "int n \<le> sp_length x"
  shows "wf_piece (remove_suffix n x) \<and> as_string (remove_suffix n x) = take (length (as_string x) - n) (as_string x)"
proof -
  have "nat (sp_length x - int n) = length (as_string x) - n" using as_string_length [OF assms(1)] assms(2) by simp
  then have "as_string (remove_suffix n x) = take (length (as_string x) - n) (as_string x)"
    using as_string_length [OF assms(1)] by (simp add: remove_suffix_def as_string_def)
  then show ?thesis using assms by (simp add: wf_piece_def remove_suffix_def)
qed

end
