(* ===== verification/Net_Buffer.thy ===== *)
theory Net_Buffer
  imports Net_Endian Byte_Queue Base_StringPiece
begin

section \<open>The I/O buffer: \<open>net/Buffer.h\<close>, \<open>net/Buffer.cc\<close>\<close>

text \<open>
  A \<open>Buffer\<close> is a byte vector with two indexes that cut it into a prependable, a readable and a
  writable part. The operations are modelled one by one over the vector and the indexes; the
  abstraction \<open>content\<close> is the readable part, and every operation is shown to act on it as on a
  byte queue. An operation whose assertion fails is \<open>None\<close>.
\<close>

record buffer =
  buf :: bytes
  readerIndex :: nat
  writerIndex :: nat

definition kCheapPrepend :: nat where [const_defs]: "kCheapPrepend = 8"
definition kInitialSize :: nat where [const_defs]: "kInitialSize = 1024"
definition kCRLF :: bytes where [const_defs]: "kCRLF = [CHR 0x0D, CHR 0x0A]"

definition nul :: byte where [const_defs]: "nul = CHR 0x00"

definition mk_buffer :: "nat \<Rightarrow> buffer" where
  "mk_buffer initialSize =
     \<lparr>buf = replicate (kCheapPrepend + initialSize) nul,
      readerIndex = kCheapPrepend, writerIndex = kCheapPrepend\<rparr>"

abbreviation new_buffer :: buffer where
  "new_buffer \<equiv> mk_buffer kInitialSize"

definition swap_buf :: "buffer \<times> buffer \<Rightarrow> buffer \<times> buffer" where
  "swap_buf p = (snd p, fst p)"

definition readableBytes :: "buffer \<Rightarrow> nat" where
  "readableBytes b = writerIndex b - readerIndex b"

definition writableBytes :: "buffer \<Rightarrow> nat" where
  "writableBytes b = length (buf b) - writerIndex b"

definition prependableBytes :: "buffer \<Rightarrow> nat" where
  "prependableBytes b = readerIndex b"

definition peek :: "buffer \<Rightarrow> nat" where
  "peek b = readerIndex b"

definition beginWrite :: "buffer \<Rightarrow> nat" where
  "beginWrite b = writerIndex b"

text \<open>The bytes between two pointers into the vector.\<close>

definition bytes_between :: "nat \<Rightarrow> nat \<Rightarrow> buffer \<Rightarrow> bytes" where
  "bytes_between i j b = take (j - i) (drop i (buf b))"

definition content :: "buffer \<Rightarrow> bytes" where
  "content b = bytes_between (readerIndex b) (writerIndex b) b"

text \<open>What the class keeps true of its three fields.\<close>

definition wf_buffer :: "buffer \<Rightarrow> bool" where
  "wf_buffer b \<longleftrightarrow> readerIndex b \<le> writerIndex b \<and> writerIndex b \<le> length (buf b)
     \<and> kCheapPrepend \<le> length (buf b)"

subsection \<open>Searching the readable part\<close>

text \<open>\<open>std::search\<close>: the first position where the pattern starts, or the end.\<close>

fun std_search :: "bytes \<Rightarrow> bytes \<Rightarrow> nat" where
  "std_search pat [] = 0"
| "std_search pat (x # xs) =
     (if take (length pat) (x # xs) = pat then 0 else Suc (std_search pat xs))"

definition findCRLF :: "buffer \<Rightarrow> nat option" where
  "findCRLF b =
     (let crlf = peek b + std_search kCRLF (bytes_between (peek b) (beginWrite b) b)
      in if crlf = beginWrite b then None else Some crlf)"

definition findCRLF_from :: "nat \<Rightarrow> buffer \<Rightarrow> nat option option" where
  "findCRLF_from start b =
     assert_then (peek b \<le> start) (assert_then (start \<le> beginWrite b)
       (let crlf = start + std_search kCRLF (bytes_between start (beginWrite b) b)
        in Some (if crlf = beginWrite b then None else Some crlf)))"

text \<open>\<open>memchr\<close>: the first position of the byte, or null.\<close>

definition memchr :: "byte \<Rightarrow> bytes \<Rightarrow> nat option" where
  "memchr c xs = (let i = find_index (\<lambda>x. x = c) xs in if i < length xs then Some i else None)"

definition findEOL :: "buffer \<Rightarrow> nat option" where
  "findEOL b = map_option (\<lambda>i. peek b + i)
     (memchr (CHR 0x0A) (bytes_between (peek b) (peek b + readableBytes b) b))"

definition findEOL_from :: "nat \<Rightarrow> buffer \<Rightarrow> nat option option" where
  "findEOL_from start b =
     assert_then (peek b \<le> start) (assert_then (start \<le> beginWrite b)
       (Some (map_option (\<lambda>i. start + i)
          (memchr (CHR 0x0A) (bytes_between start (beginWrite b) b)))))"

subsection \<open>Taking bytes out\<close>

definition retrieveAll :: "buffer \<Rightarrow> buffer" where
  "retrieveAll b = b\<lparr>readerIndex := kCheapPrepend, writerIndex := kCheapPrepend\<rparr>"

definition retrieve :: "nat \<Rightarrow> buffer \<Rightarrow> buffer option" where
  "retrieve len b = assert_then (len \<le> readableBytes b)
     (Some (if len < readableBytes b then b\<lparr>readerIndex := readerIndex b + len\<rparr>
            else retrieveAll b))"

definition retrieveUntil :: "nat \<Rightarrow> buffer \<Rightarrow> buffer option" where
  "retrieveUntil endp b =
     assert_then (peek b \<le> endp) (assert_then (endp \<le> beginWrite b) (retrieve (endp - peek b) b))"

definition retrieveInt64 :: "buffer \<Rightarrow> buffer option" where "retrieveInt64 b = retrieve 8 b"
definition retrieveInt32 :: "buffer \<Rightarrow> buffer option" where "retrieveInt32 b = retrieve 4 b"
definition retrieveInt16 :: "buffer \<Rightarrow> buffer option" where "retrieveInt16 b = retrieve 2 b"
definition retrieveInt8 :: "buffer \<Rightarrow> buffer option" where "retrieveInt8 b = retrieve 1 b"

definition retrieveAsString :: "nat \<Rightarrow> buffer \<Rightarrow> (bytes \<times> buffer) option" where
  "retrieveAsString len b = assert_then (len \<le> readableBytes b)
     (let result = bytes_between (peek b) (peek b + len) b
      in map_option (\<lambda>b'. (result, b')) (retrieve len b))"

definition retrieveAllAsString :: "buffer \<Rightarrow> (bytes \<times> buffer) option" where
  "retrieveAllAsString b = retrieveAsString (readableBytes b) b"

subsection \<open>Putting bytes in\<close>

definition hasWritten :: "nat \<Rightarrow> buffer \<Rightarrow> buffer option" where
  "hasWritten len b = assert_then (len \<le> writableBytes b)
     (Some (b\<lparr>writerIndex := writerIndex b + len\<rparr>))"

definition unwrite :: "nat \<Rightarrow> buffer \<Rightarrow> buffer option" where
  "unwrite len b = assert_then (len \<le> readableBytes b)
     (Some (b\<lparr>writerIndex := writerIndex b - len\<rparr>))"

definition makeSpace :: "nat \<Rightarrow> buffer \<Rightarrow> buffer option" where
  "makeSpace len b =
     (if writableBytes b + prependableBytes b < len + kCheapPrepend
      then Some (b\<lparr>buf := resize (writerIndex b + len) nul (buf b)\<rparr>)
      else assert_then (kCheapPrepend < readerIndex b)
        (let readable = readableBytes b;
             b' = b\<lparr>buf := write_at kCheapPrepend
                             (bytes_between (readerIndex b) (writerIndex b) b) (buf b),
                    readerIndex := kCheapPrepend,
                    writerIndex := kCheapPrepend + readable\<rparr>
         in assert_then (readable = readableBytes b') (Some b')))"

definition ensureWritableBytes :: "nat \<Rightarrow> buffer \<Rightarrow> buffer option" where
  "ensureWritableBytes len b = do {
     b' \<leftarrow> (if writableBytes b < len then makeSpace len b else Some b);
     assert_then (len \<le> writableBytes b') (Some b')
   }"

definition append_buf :: "bytes \<Rightarrow> buffer \<Rightarrow> buffer option" where
  "append_buf d b = do {
     b' \<leftarrow> ensureWritableBytes (length d) b;
     hasWritten (length d) (b'\<lparr>buf := write_at (beginWrite b') d (buf b')\<rparr>)
   }"

definition prepend :: "bytes \<Rightarrow> buffer \<Rightarrow> buffer option" where
  "prepend d b = assert_then (length d \<le> prependableBytes b)
     (let r = readerIndex b - length d
      in Some (b\<lparr>readerIndex := r, buf := write_at r d (buf b)\<rparr>))"

subsection \<open>String pieces and shrinking\<close>

text \<open>
  A \<open>StringPiece\<close> is a pointer and an \<open>int\<close> length, so the length of the readable part is
  truncated to 32 bits. Appending a piece of negative length converts it to a \<open>size_t\<close> no vector
  can hold: the resize throws, which is \<open>None\<close>.
\<close>

definition toStringPiece :: "buffer \<Rightarrow> string_piece" where
  "toStringPiece b =
     \<lparr>sp_ptr = content b, sp_length = sint (of_nat (readableBytes b) :: 32 word)\<rparr>"

definition append_piece :: "string_piece \<Rightarrow> buffer \<Rightarrow> buffer option" where
  "append_piece str b =
     (if sp_length str < 0 then None else append_buf (take (nat (sp_length str)) (sp_ptr str)) b)"

definition shrink :: "nat \<Rightarrow> buffer \<Rightarrow> buffer option" where
  "shrink reserve b = do {
     other \<leftarrow> ensureWritableBytes (readableBytes b + reserve) new_buffer;
     other' \<leftarrow> append_piece (toStringPiece b) other;
     Some (fst (swap_buf (b, other')))
   }"

subsection \<open>Integers in network order\<close>

definition appendInt64 :: "64 word \<Rightarrow> buffer \<Rightarrow> buffer option" where
  "appendInt64 x b = append_buf (mem_of (hostToNetwork64 x)) b"
definition appendInt32 :: "32 word \<Rightarrow> buffer \<Rightarrow> buffer option" where
  "appendInt32 x b = append_buf (mem_of (hostToNetwork32 x)) b"
definition appendInt16 :: "16 word \<Rightarrow> buffer \<Rightarrow> buffer option" where
  "appendInt16 x b = append_buf (mem_of (hostToNetwork16 x)) b"
definition appendInt8 :: "8 word \<Rightarrow> buffer \<Rightarrow> buffer option" where
  "appendInt8 x b = append_buf (mem_of x) b"

definition peekInt64 :: "buffer \<Rightarrow> 64 word option" where
  "peekInt64 b = assert_then (8 \<le> readableBytes b)
     (Some (networkToHost64 (load_mem (bytes_between (peek b) (peek b + 8) b))))"
definition peekInt32 :: "buffer \<Rightarrow> 32 word option" where
  "peekInt32 b = assert_then (4 \<le> readableBytes b)
     (Some (networkToHost32 (load_mem (bytes_between (peek b) (peek b + 4) b))))"
definition peekInt16 :: "buffer \<Rightarrow> 16 word option" where
  "peekInt16 b = assert_then (2 \<le> readableBytes b)
     (Some (networkToHost16 (load_mem (bytes_between (peek b) (peek b + 2) b))))"
definition peekInt8 :: "buffer \<Rightarrow> 8 word option" where
  "peekInt8 b = assert_then (1 \<le> readableBytes b)
     (Some (load_mem (bytes_between (peek b) (peek b + 1) b)))"

definition readInt64 :: "buffer \<Rightarrow> (64 word \<times> buffer) option" where
  "readInt64 b = do { x \<leftarrow> peekInt64 b; b' \<leftarrow> retrieveInt64 b; Some (x, b') }"
definition readInt32 :: "buffer \<Rightarrow> (32 word \<times> buffer) option" where
  "readInt32 b = do { x \<leftarrow> peekInt32 b; b' \<leftarrow> retrieveInt32 b; Some (x, b') }"
definition readInt16 :: "buffer \<Rightarrow> (16 word \<times> buffer) option" where
  "readInt16 b = do { x \<leftarrow> peekInt16 b; b' \<leftarrow> retrieveInt16 b; Some (x, b') }"
definition readInt8 :: "buffer \<Rightarrow> (8 word \<times> buffer) option" where
  "readInt8 b = do { x \<leftarrow> peekInt8 b; b' \<leftarrow> retrieveInt8 b; Some (x, b') }"

definition prependInt64 :: "64 word \<Rightarrow> buffer \<Rightarrow> buffer option" where
  "prependInt64 x b = prepend (mem_of (hostToNetwork64 x)) b"
definition prependInt32 :: "32 word \<Rightarrow> buffer \<Rightarrow> buffer option" where
  "prependInt32 x b = prepend (mem_of (hostToNetwork32 x)) b"
definition prependInt16 :: "16 word \<Rightarrow> buffer \<Rightarrow> buffer option" where
  "prependInt16 x b = prepend (mem_of (hostToNetwork16 x)) b"
definition prependInt8 :: "8 word \<Rightarrow> buffer \<Rightarrow> buffer option" where
  "prependInt8 x b = prepend (mem_of x) b"

subsection \<open>Reading from a descriptor\<close>

text \<open>
  \<open>readFd\<close> offers the kernel the writable part and, when that is smaller than 64 KiB, a second
  area of 64 KiB on the stack. The kernel's \<open>readv(2)\<close> is a parameter: given the room offered it
  returns an \<open>errno\<close> or the bytes read, never more than the room. The result is the return value,
  the saved \<open>errno\<close> if one was saved, and the buffer.
\<close>

definition extrabuf_size :: nat where [const_defs]: "extrabuf_size = 65536"

definition readFd :: "(nat \<Rightarrow> int + bytes) \<Rightarrow> buffer \<Rightarrow> (int \<times> int option \<times> buffer) option" where
  "readFd sys_readv b =
     (let writable = writableBytes b;
          room = (if writable < extrabuf_size then writable + extrabuf_size else writable)
      in case sys_readv room of
           Inl e \<Rightarrow> Some (-1, Some e, b)
         | Inr d \<Rightarrow>
             (if length d \<le> writable
              then Some (int (length d), None,
                     b\<lparr>buf := write_at (writerIndex b) d (buf b),
                       writerIndex := writerIndex b + length d\<rparr>)
              else do {
                b' \<leftarrow> append_buf (drop writable d)
                       (b\<lparr>buf := write_at (writerIndex b) (take writable d) (buf b),
                          writerIndex := length (buf b)\<rparr>);
                Some (int (length d), None, b')
              }))"

definition readv_ok :: "(nat \<Rightarrow> int + bytes) \<Rightarrow> bool" where
  "readv_ok sys_readv \<longleftrightarrow> (\<forall>room d. sys_readv room = Inr d \<longrightarrow> length d \<le> room)"

subsection \<open>The readable part under each operation\<close>

lemmas geometry = readableBytes_def writableBytes_def prependableBytes_def peek_def beginWrite_def

lemma length_content [simp]: "wf_buffer b \<Longrightarrow> length (content b) = readableBytes b"
  by (auto simp: wf_buffer_def content_def bytes_between_def geometry)

lemma content_peek_take:
  "wf_buffer b \<Longrightarrow> n \<le> readableBytes b \<Longrightarrow> bytes_between (peek b) (peek b + n) b = take n (content b)"
  by (auto simp: wf_buffer_def content_def bytes_between_def geometry min_absorb2)

lemma content_peek_all: "bytes_between (peek b) (beginWrite b) b = content b"
  by (simp add: content_def peek_def beginWrite_def)

lemma wf_mk_buffer [simp]: "wf_buffer (mk_buffer n)"
  by (simp add: mk_buffer_def wf_buffer_def)

lemma mk_buffer_geometry:
  "readableBytes (mk_buffer n) = 0" "writableBytes (mk_buffer n) = n"
  "prependableBytes (mk_buffer n) = kCheapPrepend" "content (mk_buffer n) = []"
  by (simp_all add: mk_buffer_def geometry content_def bytes_between_def)

lemma wf_retrieveAll [simp]: "wf_buffer b \<Longrightarrow> wf_buffer (retrieveAll b)"
  by (auto simp: retrieveAll_def wf_buffer_def)

lemma content_retrieveAll [simp]: "content (retrieveAll b) = []"
  by (simp add: retrieveAll_def content_def bytes_between_def)

lemma retrieve_contract:
  assumes "wf_buffer b"
  shows "retrieve n b = None \<longleftrightarrow> length (content b) < n"
    and "retrieve n b = Some b' \<Longrightarrow> wf_buffer b' \<and> content b' = drop n (content b)"
proof -
  show "retrieve n b = None \<longleftrightarrow> length (content b) < n"
    using assms by (auto simp: retrieve_def)
  assume r: "retrieve n b = Some b'"
  show "wf_buffer b' \<and> content b' = drop n (content b)"
  proof (cases "n < readableBytes b")
    case True
    with r assms show ?thesis
      by (auto simp: retrieve_def wf_buffer_def content_def bytes_between_def geometry drop_take
          add.commute)
  next
    case False
    with r assms show ?thesis by (auto simp: retrieve_def)
  qed
qed

lemma retrieve_total:
  assumes "wf_buffer b" "n \<le> length (content b)"
  obtains b' where "retrieve n b = Some b'" "wf_buffer b'" "content b' = drop n (content b)"
  using assms retrieve_contract [OF assms(1), of n]
  by (metis leD option.exhaust)

lemma unwrite_contract:
  assumes "wf_buffer b"
  shows "unwrite n b = None \<longleftrightarrow> length (content b) < n"
    and "unwrite n b = Some b' \<Longrightarrow>
           wf_buffer b' \<and> content b' = take (length (content b) - n) (content b)"
proof -
  have len: "length (content b) = writerIndex b - readerIndex b"
    using assms by (simp add: readableBytes_def)
  show "unwrite n b = None \<longleftrightarrow> length (content b) < n"
    using assms by (auto simp: unwrite_def)
  assume "unwrite n b = Some b'"
  then have n: "n \<le> writerIndex b - readerIndex b" and b': "b' = b\<lparr>writerIndex := writerIndex b - n\<rparr>"
    by (auto simp: unwrite_def readableBytes_def)
  have "content b' = take (length (content b) - n) (content b)"
    unfolding len using n by (simp add: b' content_def bytes_between_def min_def add.commute)
  then show "wf_buffer b' \<and> content b' = take (length (content b) - n) (content b)"
    using assms n by (auto simp: b' wf_buffer_def)
qed

lemma retrieveAsString_contract:
  assumes "wf_buffer b" "n \<le> length (content b)"
  obtains b' where "retrieveAsString n b = Some (take n (content b), b')"
    "wf_buffer b'" "content b' = drop n (content b)"
proof -
  obtain b' where "retrieve n b = Some b'" "wf_buffer b'" "content b' = drop n (content b)"
    using retrieve_total [OF assms] .
  then show thesis
    using assms that [of b'] by (auto simp: retrieveAsString_def content_peek_take)
qed

lemma retrieveUntil_eq:
  assumes "wf_buffer b" "peek b + n \<le> beginWrite b"
  shows "retrieveUntil (peek b + n) b = retrieve n b"
  using assms by (simp add: retrieveUntil_def)

subsection \<open>Making room\<close>

text \<open>
  The branch that moves the readable part to the front is taken only when the free space in front
  of it is more than the cheap-prepend area, so its assertion holds; and the move keeps the bytes.
\<close>

lemma makeSpace_contract:
  assumes "wf_buffer b" "writableBytes b < len"
  obtains b' where "makeSpace len b = Some b'" "wf_buffer b'" "content b' = content b"
    "len \<le> writableBytes b'"
proof (cases "writableBytes b + prependableBytes b < len + kCheapPrepend")
  case True
  let ?b = "b\<lparr>buf := resize (writerIndex b + len) nul (buf b)\<rparr>"
  have "writerIndex b \<le> length (buf b)" "length (buf b) < writerIndex b + len"
    using assms by (auto simp: wf_buffer_def geometry)
  then have "content ?b = content b"
    by (auto simp: content_def bytes_between_def resize_def)
  moreover have "wf_buffer ?b"
    using assms by (auto simp: wf_buffer_def geometry)
  ultimately show thesis using that [of ?b] True by (simp add: makeSpace_def geometry)
next
  case False
  let ?c = "bytes_between (readerIndex b) (writerIndex b) b"
  let ?b = "b\<lparr>buf := write_at kCheapPrepend ?c (buf b), readerIndex := kCheapPrepend,
              writerIndex := kCheapPrepend + readableBytes b\<rparr>"
  have len: "length ?c = readableBytes b"
    using assms(1) length_content [of b] by (simp add: content_def)
  have room: "kCheapPrepend < readerIndex b" "kCheapPrepend + readableBytes b \<le> length (buf b)"
    using False assms by (auto simp: wf_buffer_def geometry)
  have "content ?b = take (readableBytes b) (drop kCheapPrepend (write_at kCheapPrepend ?c (buf b)))"
    by (simp add: content_def bytes_between_def)
  also have "\<dots> = ?c"
    using read_write_at [of kCheapPrepend "buf b" ?c] len room by simp
  finally have "content ?b = ?c" .
  moreover have "wf_buffer ?b"
    using assms room by (auto simp: wf_buffer_def len)
  moreover have "len \<le> writableBytes ?b"
    using False assms room by (auto simp: wf_buffer_def geometry len)
  ultimately show thesis
    using that [of ?b] False room assms(1)
    by (simp add: makeSpace_def content_def readableBytes_def)
qed

lemma ensureWritableBytes_contract:
  assumes "wf_buffer b"
  obtains b' where "ensureWritableBytes len b = Some b'" "wf_buffer b'" "content b' = content b"
    "len \<le> writableBytes b'"
proof (cases "writableBytes b < len")
  case True
  obtain b' where "makeSpace len b = Some b'" "wf_buffer b'" "content b' = content b"
    "len \<le> writableBytes b'"
    using makeSpace_contract [OF assms True] .
  with True show thesis using that [of b'] by (simp add: ensureWritableBytes_def)
next
  case False
  with assms show thesis using that [of b] by (simp add: ensureWritableBytes_def)
qed

definition fill_writable :: "bytes \<Rightarrow> buffer \<Rightarrow> buffer" where
  "fill_writable d b = b\<lparr>buf := write_at (writerIndex b) d (buf b),
                         writerIndex := writerIndex b + length d\<rparr>"

lemma fill_writable_contract:
  assumes "wf_buffer b" "length d \<le> writableBytes b"
  shows "wf_buffer (fill_writable d b)" "content (fill_writable d b) = content b @ d"
proof -
  have fits: "writerIndex b + length d \<le> length (buf b)" "readerIndex b \<le> writerIndex b"
    using assms by (auto simp: wf_buffer_def geometry)
  then show "content (fill_writable d b) = content b @ d"
    using drop_write_at [of "readerIndex b" "writerIndex b" d "buf b"]
    by (simp add: content_def bytes_between_def drop_take fill_writable_def)
  show "wf_buffer (fill_writable d b)"
    using assms fits by (auto simp: wf_buffer_def fill_writable_def)
qed

lemma append_contract:
  assumes "wf_buffer b"
  obtains b' where "append_buf d b = Some b'" "wf_buffer b'" "content b' = content b @ d"
proof -
  obtain b1 where b1: "ensureWritableBytes (length d) b = Some b1" "wf_buffer b1"
    "content b1 = content b" "length d \<le> writableBytes b1"
    using ensureWritableBytes_contract [OF assms] .
  then have "writerIndex b1 + length d \<le> length (buf b1)"
    by (auto simp: wf_buffer_def geometry)
  then have "append_buf d b = Some (fill_writable d b1)"
    using b1 by (simp add: append_buf_def hasWritten_def fill_writable_def geometry)
  with fill_writable_contract [OF b1(2,4)] b1 show thesis using that by simp
qed

lemma prepend_contract:
  assumes "wf_buffer b"
  shows "prepend d b = None \<longleftrightarrow> prependableBytes b < length d"
    and "prepend d b = Some b' \<Longrightarrow> wf_buffer b' \<and> content b' = d @ content b"
proof -
  show "prepend d b = None \<longleftrightarrow> prependableBytes b < length d"
    by (auto simp: prepend_def Let_def)
  assume "prepend d b = Some b'"
  then have d: "length d \<le> readerIndex b"
    and b': "b' = b\<lparr>readerIndex := readerIndex b - length d,
                    buf := write_at (readerIndex b - length d) d (buf b)\<rparr>"
    by (auto simp: prepend_def Let_def geometry)
  have bounds: "readerIndex b \<le> writerIndex b" "writerIndex b \<le> length (buf b)"
    using assms by (auto simp: wf_buffer_def)
  have "drop (readerIndex b - length d) (write_at (readerIndex b - length d) d (buf b))
          = d @ drop (readerIndex b) (buf b)"
    using d bounds by (simp add: write_at_def)
  then have "content b' = d @ content b"
    using d bounds by (simp add: b' content_def bytes_between_def)
  then show "wf_buffer b' \<and> content b' = d @ content b"
    using assms d by (auto simp: b' wf_buffer_def)
qed

lemma prepend_total:
  assumes "wf_buffer b" "length d \<le> prependableBytes b"
  obtains b' where "prepend d b = Some b'" "wf_buffer b'" "content b' = d @ content b"
  using assms prepend_contract [OF assms(1), of d] by (metis leD option.exhaust)

subsection \<open>The buffer is a byte queue\<close>

fun buf_step :: "q_op \<Rightarrow> buffer \<Rightarrow> buffer option" where
  "buf_step (Put d) b = append_buf d b"
| "buf_step (Take n) b = retrieve n b"
| "buf_step Clear b = Some (retrieveAll b)"
| "buf_step (Undo n) b = unwrite n b"
| "buf_step (Reserve n) b = ensureWritableBytes n b"

lemma append_Some: "wf_buffer b \<Longrightarrow> append_buf d b = Some b' \<Longrightarrow> wf_buffer b' \<and> content b' = content b @ d"
  by (metis append_contract option.inject)

lemma ensureWritableBytes_Some:
  "wf_buffer b \<Longrightarrow> ensureWritableBytes n b = Some b' \<Longrightarrow>
     wf_buffer b' \<and> content b' = content b \<and> n \<le> writableBytes b'"
  by (metis ensureWritableBytes_contract option.inject)

lemma append_not_None: "wf_buffer b \<Longrightarrow> append_buf d b \<noteq> None"
  by (metis append_contract option.distinct(1))

lemma ensureWritableBytes_not_None: "wf_buffer b \<Longrightarrow> ensureWritableBytes n b \<noteq> None"
  by (metis ensureWritableBytes_contract option.distinct(1))

lemmas buf_contracts =
  append_Some ensureWritableBytes_Some retrieve_contract(2) unwrite_contract(2)

lemma buf_step_Some:
  "wf_buffer b \<Longrightarrow> buf_step x b = Some b' \<Longrightarrow> wf_buffer b' \<and> q_step x (content b) = Some (content b')"
proof (cases x)
  case (Take n)
  assume "wf_buffer b" "buf_step x b = Some b'"
  with Take retrieve_contract(1) [of b n] retrieve_contract(2) [of b n b'] show ?thesis by auto
next
  case (Undo n)
  assume "wf_buffer b" "buf_step x b = Some b'"
  with Undo unwrite_contract(1) [of b n] unwrite_contract(2) [of b n b'] show ?thesis by auto
qed (auto dest: append_Some ensureWritableBytes_Some)

lemma buf_step_None: "wf_buffer b \<Longrightarrow> buf_step x b = None \<Longrightarrow> q_step x (content b) = None"
  using retrieve_contract(1) [of b] unwrite_contract(1) [of b]
  by (cases x) (auto simp: append_not_None ensureWritableBytes_not_None)

interpretation bq: byte_queue wf_buffer content buf_step
  by unfold_locales (auto dest: buf_step_Some buf_step_None)

text \<open>C5: Any sequence of append, retrieve, retrieveAll, unwrite and ensureWritableBytes calls on a
  well-formed buffer acts on its readable part exactly as the same sequence acts on a byte queue,
  failing an assertion exactly when the queue operation is not possible: in particular growing
  and moving the vector are never visible and never fail.\<close>

theorem buffer_refines_queue:
  "wf_buffer b \<Longrightarrow>
     map_option content (run_ops buf_step xs b) = run_ops q_step xs (content b)"
  by (rule bq.refines)

theorem buffer_refines_queue_witness:
  "map_option content (run_ops buf_step [Put ''hello'', Take 4, Put ''abcdef'', Undo 1] (mk_buffer 5))
     = Some ''oabcde''"
  by (subst buffer_refines_queue) (simp_all add: mk_buffer_geometry)

text \<open>No byte is lost, duplicated or reordered: over any sequence of append, retrieve and
  ensureWritableBytes calls, the bytes retrieved followed by the readable part at the end are the
  readable part at the start followed by the bytes appended.\<close>

theorem buffer_stream:
  "wf_buffer b \<Longrightarrow> run_ops buf_step xs b = Some b' \<Longrightarrow> list_all streaming xs \<Longrightarrow>
     bytes_taken xs (content b) @ content b' = content b @ bytes_put xs"
  by (rule bq.stream)

theorem buffer_stream_witness:
  "\<exists>b'. run_ops buf_step [Put ''ab'', Take 1] (mk_buffer 2) = Some b' \<and> ''a'' @ content b' = ''ab''"
proof -
  have r: "run_ops buf_step [Put ''ab'', Take 1] (mk_buffer 2)
      = Some \<lparr>buf = replicate 8 nul @ ''ab'', readerIndex = 9, writerIndex = 10\<rparr>"
    by (simp add: append_buf_def ensureWritableBytes_def hasWritten_def retrieve_def mk_buffer_def
        geometry write_at_def const_defs)
  show ?thesis
    by (intro exI conjI, rule r) (use buffer_stream [OF wf_mk_buffer r] in \<open>simp add: mk_buffer_geometry\<close>)
qed

subsection \<open>Making room without growing\<close>

lemma makeSpace_no_grow:
  "wf_buffer b \<Longrightarrow> writableBytes b < len \<Longrightarrow>
     len + kCheapPrepend \<le> writableBytes b + prependableBytes b \<Longrightarrow>
     makeSpace len b = Some b' \<Longrightarrow> length (buf b') = length (buf b)"
  by (auto simp: makeSpace_def Let_def wf_buffer_def geometry bytes_between_def)

text \<open>\<open>ensureWritableBytes\<close> (and with it \<open>makeSpace\<close>, whose assertion never fails) always
  provides the room asked for, keeps the readable bytes, and leaves the vector at its size whenever
  the free space, less the cheap-prepend area, is enough.\<close>

theorem ensureWritableBytes_total:
  assumes "wf_buffer b"
  shows "\<exists>b'. ensureWritableBytes len b = Some b' \<and> wf_buffer b' \<and> content b' = content b
           \<and> len \<le> writableBytes b'
           \<and> (len + kCheapPrepend \<le> writableBytes b + prependableBytes b
                \<longrightarrow> length (buf b') = length (buf b))"
proof -
  obtain b' where b': "ensureWritableBytes len b = Some b'" "wf_buffer b'" "content b' = content b"
    "len \<le> writableBytes b'"
    using ensureWritableBytes_contract [OF assms] .
  then have "length (buf b') = length (buf b)"
    if "len + kCheapPrepend \<le> writableBytes b + prependableBytes b"
    using that makeSpace_no_grow [OF assms, of len b']
    by (auto simp: ensureWritableBytes_def split: if_splits)
  with b' show ?thesis by blast
qed

theorem ensureWritableBytes_total_witness:
  "\<exists>b'. ensureWritableBytes 3 (mk_buffer 2) = Some b' \<and> 3 \<le> writableBytes b'"
  using ensureWritableBytes_total [OF wf_mk_buffer, of 3 2] by blast

subsection \<open>Searching for the end of a line\<close>

lemma std_search_le: "std_search pat xs \<le> length xs"
  by (induction xs) auto

lemma std_search_hit:
  "std_search pat xs < length xs \<Longrightarrow>
     take (length pat) (drop (std_search pat xs) xs) = pat"
  by (induction xs) auto

lemma std_search_first:
  "i < std_search pat xs \<Longrightarrow> take (length pat) (drop i xs) \<noteq> pat"
proof (induction xs arbitrary: i)
  case (Cons x xs)
  then show ?case by (cases i) (auto split: if_splits)
qed simp

lemma std_search_append_hit:
  "pat \<noteq> [] \<Longrightarrow> (\<And>i. i < length xs \<Longrightarrow> take (length pat) (drop i (xs @ pat @ ys)) \<noteq> pat) \<Longrightarrow>
     std_search pat (xs @ pat @ ys) = length xs"
proof (induction xs)
  case Nil
  then show ?case by (cases pat) auto
next
  case (Cons x xs)
  have "std_search pat (xs @ pat @ ys) = length xs"
    using Cons.prems(2) [of "Suc i" for i] by (intro Cons.IH Cons.prems(1)) auto
  then show ?case using Cons.prems(2) [of 0] by simp
qed

text \<open>The offset of the first CR LF in a byte list.\<close>

definition crlf_at :: "bytes \<Rightarrow> nat \<Rightarrow> bool" where
  "crlf_at xs i \<longleftrightarrow> i + 1 < length xs \<and> xs ! i = CHR 0x0D \<and> xs ! (i + 1) = CHR 0x0A"

lemma crlf_at_take: "crlf_at xs i \<longleftrightarrow> take 2 (drop i xs) = kCRLF"
proof (cases "drop i xs")
  case Nil
  then show ?thesis by (simp add: crlf_at_def const_defs)
next
  case (Cons x r)
  then have x: "xs ! i = x" "i < length xs" by (auto simp: nth_via_drop not_le[symmetric])
  have r: "drop (Suc i) xs = r" using Cons by (metis drop_Suc tl_drop list.sel(3))
  show ?thesis
  proof (cases r)
    case Nil
    with r have "length xs \<le> Suc i" by simp
    with Cons Nil show ?thesis by (simp add: crlf_at_def const_defs)
  next
    case (Cons y r')
    with r have "xs ! Suc i = y" "Suc i < length xs" by (auto simp: nth_via_drop not_le[symmetric])
    with Cons x \<open>drop i xs = x # r\<close> show ?thesis by (simp add: crlf_at_def const_defs)
  qed
qed

text \<open>\<open>findCRLF\<close> returns null exactly when the readable part holds no CR LF; otherwise it returns
  the position of the first one, with both of its bytes inside the readable part.\<close>

theorem findCRLF_correct:
  assumes "wf_buffer b"
  shows "(findCRLF b = None \<longleftrightarrow> (\<forall>i. \<not> crlf_at (content b) i))
     \<and> (\<forall>p. findCRLF b = Some p \<longrightarrow>
          peek b \<le> p \<and> p + 2 \<le> beginWrite b \<and> crlf_at (content b) (p - peek b)
          \<and> (\<forall>i < p - peek b. \<not> crlf_at (content b) i))"
proof -
  let ?s = "std_search kCRLF (content b)"
  have len: "length (content b) = writerIndex b - readerIndex b" and le: "readerIndex b \<le> writerIndex b"
    using assms by (auto simp: readableBytes_def wf_buffer_def)
  have two: "length kCRLF = 2" by (simp add: const_defs)
  have f: "findCRLF b = (if ?s = length (content b) then None else Some (readerIndex b + ?s))"
    using len le by (auto simp: findCRLF_def Let_def content_peek_all) (auto simp: geometry)
  have first: "\<not> crlf_at (content b) i" if "i < ?s" for i
    using std_search_first [OF that] two by (simp add: crlf_at_take)
  have hit: "crlf_at (content b) ?s" if "?s \<noteq> length (content b)"
    using std_search_hit [of kCRLF "content b"] std_search_le [of kCRLF "content b"] that two
    by (simp add: crlf_at_take)
  have none: "\<not> crlf_at (content b) i" if "?s = length (content b)" for i
    using first [of i] that by (auto simp: crlf_at_def)
  show ?thesis
    using hit none first len le by (auto simp: f crlf_at_def geometry split: if_splits)
qed

theorem findCRLF_correct_witness:
  "\<exists>p. findCRLF (\<lparr>buf = replicate 8 nul @ ''ab'' @ kCRLF, readerIndex = 8, writerIndex = 12\<rparr>) = Some p
     \<and> p + 2 \<le> 12"
proof -
  let ?b = "\<lparr>buf = replicate 8 nul @ ''ab'' @ kCRLF, readerIndex = 8, writerIndex = 12\<rparr>"
  have w: "wf_buffer ?b" by (simp add: wf_buffer_def const_defs)
  have "findCRLF ?b = Some 10"
    by (simp add: findCRLF_def bytes_between_def geometry const_defs eval_nat_numeral)
  with findCRLF_correct [OF w] show ?thesis by (auto simp: geometry)
qed

subsection \<open>Integers: what is written in network order is read back\<close>

lemma network_inverse [simp]:
  "networkToHost64 (hostToNetwork64 x) = x"
  "networkToHost32 (hostToNetwork32 y) = y"
  "networkToHost16 (hostToNetwork16 z) = z"
  by (simp_all add: endian_defs bswap_bswap)

lemma load_mem_inverse [simp]:
  "load_mem (mem_of (x :: 64 word)) = x"
  "load_mem (mem_of (y :: 32 word)) = y"
  "load_mem (mem_of (z :: 16 word)) = z"
  "load_mem (mem_of (w :: 8 word)) = w"
  by (simp_all add: load_mem_of)

lemma peekInt_contract:
  assumes "wf_buffer b"
  shows "content b = mem_of (hostToNetwork64 x8) @ q \<Longrightarrow> peekInt64 b = Some x8"
    and "content b = mem_of (hostToNetwork32 x4) @ q \<Longrightarrow> peekInt32 b = Some x4"
    and "content b = mem_of (hostToNetwork16 x2) @ q \<Longrightarrow> peekInt16 b = Some x2"
    and "content b = mem_of x1 @ q \<Longrightarrow> peekInt8 b = Some x1"
  using length_content [OF assms] content_peek_take [OF assms, of 2] content_peek_take [OF assms, of 1]
  by (simp_all add: peekInt64_def peekInt32_def peekInt16_def peekInt8_def
      content_peek_take [OF assms])

lemma retrieve_front:
  assumes "wf_buffer b" "content b = d @ q" "length d = n"
  obtains b' where "retrieve n b = Some b'" "wf_buffer b'" "content b' = q"
  using retrieve_total [of b n] assms by auto

lemma readInt_contract:
  assumes "wf_buffer b"
  shows "content b = mem_of (hostToNetwork64 x8) @ q \<Longrightarrow>
           \<exists>b'. readInt64 b = Some (x8, b') \<and> wf_buffer b' \<and> content b' = q"
    and "content b = mem_of (hostToNetwork32 x4) @ q \<Longrightarrow>
           \<exists>b'. readInt32 b = Some (x4, b') \<and> wf_buffer b' \<and> content b' = q"
    and "content b = mem_of (hostToNetwork16 x2) @ q \<Longrightarrow>
           \<exists>b'. readInt16 b = Some (x2, b') \<and> wf_buffer b' \<and> content b' = q"
    and "content b = mem_of x1 @ q \<Longrightarrow>
           \<exists>b'. readInt8 b = Some (x1, b') \<and> wf_buffer b' \<and> content b' = q"
proof -
  note pk = peekInt_contract [OF assms] and rt = retrieve_front [OF assms]
  show "\<exists>b'. readInt64 b = Some (x8, b') \<and> wf_buffer b' \<and> content b' = q"
    if "content b = mem_of (hostToNetwork64 x8) @ q"
    using rt [OF that, of 8] pk(1) [OF that] by (auto simp: readInt64_def retrieveInt64_def)
  show "\<exists>b'. readInt32 b = Some (x4, b') \<and> wf_buffer b' \<and> content b' = q"
    if "content b = mem_of (hostToNetwork32 x4) @ q"
    using rt [OF that, of 4] pk(2) [OF that] by (auto simp: readInt32_def retrieveInt32_def)
  show "\<exists>b'. readInt16 b = Some (x2, b') \<and> wf_buffer b' \<and> content b' = q"
    if "content b = mem_of (hostToNetwork16 x2) @ q"
    using rt [OF that, of 2] pk(3) [OF that] by (auto simp: readInt16_def retrieveInt16_def)
  show "\<exists>b'. readInt8 b = Some (x1, b') \<and> wf_buffer b' \<and> content b' = q"
    if "content b = mem_of x1 @ q"
    using rt [OF that, of 1] pk(4) [OF that] by (auto simp: readInt8_def retrieveInt8_def)
qed

lemma prependInt_contract:
  assumes "wf_buffer b" "8 \<le> prependableBytes b"
  shows "\<exists>b'. prependInt64 x8 b = Some b' \<and> wf_buffer b' \<and> content b' = mem_of (hostToNetwork64 x8) @ content b"
    and "\<exists>b'. prependInt32 x4 b = Some b' \<and> wf_buffer b' \<and> content b' = mem_of (hostToNetwork32 x4) @ content b"
    and "\<exists>b'. prependInt16 x2 b = Some b' \<and> wf_buffer b' \<and> content b' = mem_of (hostToNetwork16 x2) @ content b"
    and "\<exists>b'. prependInt8 x1 b = Some b' \<and> wf_buffer b' \<and> content b' = mem_of x1 @ content b"
proof -
  have p: "\<exists>b'. prepend d b = Some b' \<and> wf_buffer b' \<and> content b' = d @ content b"
    if "length d \<le> 8" for d
    using prepend_total [OF assms(1), of d] assms(2) that by (metis order_trans)
  show "\<exists>b'. prependInt64 x8 b = Some b' \<and> wf_buffer b' \<and> content b' = mem_of (hostToNetwork64 x8) @ content b"
    "\<exists>b'. prependInt32 x4 b = Some b' \<and> wf_buffer b' \<and> content b' = mem_of (hostToNetwork32 x4) @ content b"
    "\<exists>b'. prependInt16 x2 b = Some b' \<and> wf_buffer b' \<and> content b' = mem_of (hostToNetwork16 x2) @ content b"
    "\<exists>b'. prependInt8 x1 b = Some b' \<and> wf_buffer b' \<and> content b' = mem_of x1 @ content b"
    unfolding prependInt64_def prependInt32_def prependInt16_def prependInt8_def
    by (intro p, simp)+
qed

text \<open>C25: An integer prepended in network order is read back as it was, whatever follows it, and the
  bytes that follow are untouched: encoding and decoding are inverse at 64, 32, 16 and 8 bits, and
  the eight prependable bytes of a fresh buffer suffice for every width.\<close>

theorem buffer_int_roundtrip:
  assumes "wf_buffer b" "kCheapPrepend \<le> prependableBytes b"
  shows "(\<exists>b1 b2. prependInt64 x8 b = Some b1 \<and> readInt64 b1 = Some (x8, b2) \<and> content b2 = content b)
    \<and> (\<exists>b1 b2. prependInt32 x4 b = Some b1 \<and> readInt32 b1 = Some (x4, b2) \<and> content b2 = content b)
    \<and> (\<exists>b1 b2. prependInt16 x2 b = Some b1 \<and> readInt16 b1 = Some (x2, b2) \<and> content b2 = content b)
    \<and> (\<exists>b1 b2. prependInt8 x1 b = Some b1 \<and> readInt8 b1 = Some (x1, b2) \<and> content b2 = content b)"
proof -
  have "8 \<le> prependableBytes b" using assms(2) by (simp add: const_defs)
  note pre = prependInt_contract [OF assms(1) this]
  show ?thesis
    using pre(1) [of x8] pre(2) [of x4] pre(3) [of x2] pre(4) [of x1]
    by (meson readInt_contract)
qed

theorem buffer_int_roundtrip_witness:
  "\<exists>b1 b2. prependInt32 0xCAFE0102 (mk_buffer 16) = Some b1 \<and> readInt32 b1 = Some (0xCAFE0102, b2)"
  using buffer_int_roundtrip [OF wf_mk_buffer, of 16 0 "0xCAFE0102" 0 0]
  by (auto simp: mk_buffer_geometry)

text \<open>The wire format is big-endian.\<close>

lemma appendInt32_big_endian:
  assumes "wf_buffer b" "appendInt32 x b = Some b'"
  shows "content b' = content b @ rev (mem_of x)"
  using append_Some [OF assms(1)] assms(2)
  by (auto simp: appendInt32_def hostToNetwork32_def mem_of_bswap)

subsection \<open>Reading from a descriptor\<close>

lemma readFd_contract:
  assumes "wf_buffer b" "readv_ok sys_readv"
  defines "room \<equiv> (if writableBytes b < extrabuf_size then writableBytes b + extrabuf_size
                    else writableBytes b)"
  shows "\<exists>n err b'. readFd sys_readv b = Some (n, err, b') \<and> wf_buffer b' \<and>
     (case sys_readv room of
        Inl e \<Rightarrow> n = -1 \<and> err = Some e \<and> b' = b
      | Inr d \<Rightarrow> n = int (length d) \<and> err = None \<and> content b' = content b @ d)"
proof (cases "sys_readv room")
  case (Inl e)
  then show ?thesis using assms by (simp add: readFd_def)
next
  case (Inr d)
  let ?w = "writableBytes b"
  note fill = fill_writable_contract [OF assms(1)]
  show ?thesis
  proof (cases "length d \<le> ?w")
    case True
    with Inr fill [OF True] show ?thesis by (simp add: readFd_def room_def fill_writable_def)
  next
    case False
    let ?b = "b\<lparr>buf := write_at (writerIndex b) (take ?w d) (buf b), writerIndex := length (buf b)\<rparr>"
    have "writerIndex b + length (take ?w d) = length (buf b)"
      using False assms(1) by (auto simp: wf_buffer_def geometry)
    then have "?b = fill_writable (take ?w d) b" by (simp add: fill_writable_def)
    then have b: "wf_buffer ?b" "content ?b = content b @ take ?w d"
      using fill [of "take ?w d"] by simp_all
    obtain b' where "append_buf (drop ?w d) ?b = Some b'" "wf_buffer b'"
      "content b' = content ?b @ drop ?w d"
      using append_contract [OF b(1)] .
    with b Inr False show ?thesis by (simp add: readFd_def room_def)
  qed
qed

lemma readFd_total:
  "wf_buffer b \<Longrightarrow> readv_ok sys_readv \<Longrightarrow> \<exists>n err b'. readFd sys_readv b = Some (n, err, b') \<and> wf_buffer b'"
  using readFd_contract by blast

text \<open>\<open>readFd\<close> on success returns the number of bytes the kernel gave and appends exactly these
  bytes, in order, to the readable part, whether or not they fit the writable part; on error it
  returns -1, saves \<open>errno\<close> and leaves the buffer as it was. No assertion in it fails.\<close>

theorem readFd_correct:
  assumes "wf_buffer b" "readv_ok sys_readv"
  defines "room \<equiv> (if writableBytes b < extrabuf_size then writableBytes b + extrabuf_size
                    else writableBytes b)"
  shows "\<exists>n err b'. readFd sys_readv b = Some (n, err, b') \<and> wf_buffer b' \<and>
     (case sys_readv room of
        Inl e \<Rightarrow> n = -1 \<and> err = Some e \<and> b' = b
      | Inr d \<Rightarrow> n = int (length d) \<and> err = None \<and> content b' = content b @ d)"
  unfolding room_def by (rule readFd_contract [OF assms(1,2)])

theorem readFd_correct_witness:
  "\<exists>b'. readFd (\<lambda>room. Inr (take room ''GET'')) (mk_buffer 2) = Some (3, None, b') \<and> content b' = ''GET''"
proof -
  have r: "readv_ok (\<lambda>room. Inr (take room ''GET''))" by (simp add: readv_ok_def)
  show ?thesis
    using readFd_correct [OF wf_mk_buffer [of 2] r] by (auto simp: mk_buffer_geometry const_defs)
qed

subsection \<open>Shrinking\<close>

lemma shrink_contract:
  assumes "wf_buffer b" "readableBytes b < 2 ^ 31"
  obtains b' where "shrink reserve b = Some b'" "wf_buffer b'" "content b' = content b"
proof -
  obtain o1 where o1: "ensureWritableBytes (readableBytes b + reserve) new_buffer = Some o1"
    "wf_buffer o1" "content o1 = []"
    using ensureWritableBytes_contract [OF wf_mk_buffer] by (metis mk_buffer_geometry(4))
  have len: "sint (of_nat (readableBytes b) :: 32 word) = int (readableBytes b)"
    using assms(2) by (simp add: signed_of_nat signed_take_bit_int_eq_self)
  obtain o2 where o2: "append_buf (content b) o1 = Some o2" "wf_buffer o2" "content o2 = content b"
    using append_contract [OF o1(2)] o1(3) by (metis append_Nil)
  have "append_piece (toStringPiece b) o1 = Some o2"
    using o2 assms(1) by (simp add: append_piece_def toStringPiece_def len)
  with o1 o2 show thesis using that by (simp add: shrink_def swap_buf_def)
qed

end
