(* ===== verification/Base_Date.thy ===== *)
theory Base_Date
  imports Prelude
begin

section \<open>Calendar dates: \<open>base/Date.h\<close>, \<open>base/Date.cc\<close>\<close>

text \<open>
  A \<open>Date\<close> is a Julian day number. The conversions between it and year, month and day are arithmetic on a 32-bit
  \<open>int\<close> with C's truncating division: \<open>to_int32\<close> is applied to every result that can leave the range (signed
  overflow, which C++ leaves undefined, is taken as wrap-around). The two directions are shown inverse of one another on all
  proleptic Gregorian dates from March of the year -4800 to the end of the year 1465101, the last one for which nothing
  overflows; \<open>civil_jdn\<close> and \<open>civil_ymd\<close> are the same calendar over unbounded integers.
\<close>

record ymd =
  year :: int
  month :: int
  day :: int

record date =
  julianDayNumber :: int

definition kDaysPerWeek :: int where [const_defs]: "kDaysPerWeek = 7"

definition getJulianDayNumber :: "int \<Rightarrow> int \<Rightarrow> int \<Rightarrow> int" where
  "getJulianDayNumber yr mon dy =
     (let a = c_div (to_int32 (14 - mon)) 12;
          y = to_int32 (yr + 4800 - a);
          m = to_int32 (mon + 12 * a - 3)
      in to_int32 (dy + c_div (to_int32 (153 * m + 2)) 5 + y * 365 + c_div y 4 - c_div y 100 + c_div y 400 - 32045))"

definition getYearMonthDay :: "int \<Rightarrow> ymd" where
  "getYearMonthDay jdn =
     (let a = to_int32 (jdn + 32044);
          b = c_div (to_int32 (4 * a + 3)) 146097;
          c = to_int32 (a - c_div (to_int32 (b * 146097)) 4);
          d = c_div (to_int32 (4 * c + 3)) 1461;
          e = to_int32 (c - c_div (to_int32 (1461 * d)) 4);
          m = c_div (to_int32 (5 * e + 2)) 153
      in \<lparr>year = to_int32 (b * 100 + d - 4800 + c_div m 10),
          month = to_int32 (m + 3 - 12 * c_div m 10),
          day = to_int32 (e - c_div (to_int32 (153 * m + 2)) 5 + 1)\<rparr>)"

definition kJulianDayOf1970_01_01 :: int where
  "kJulianDayOf1970_01_01 = getJulianDayNumber 1970 1 1"

definition Date_default :: date where
  "Date_default = \<lparr>julianDayNumber = 0\<rparr>"

definition Date_ymd :: "int \<Rightarrow> int \<Rightarrow> int \<Rightarrow> date" where
  "Date_ymd y m d = \<lparr>julianDayNumber = getJulianDayNumber y m d\<rparr>"

definition Date_jdn :: "int \<Rightarrow> date" where
  "Date_jdn n = \<lparr>julianDayNumber = n\<rparr>"

text \<open>The fields of \<open>struct tm\<close> the code reads and writes.\<close>

record tm =
  tm_sec :: int
  tm_min :: int
  tm_hour :: int
  tm_mday :: int
  tm_mon :: int
  tm_year :: int
  tm_wday :: int
  tm_yday :: int
  tm_isdst :: bool
  tm_gmtoff :: int
  tm_zone :: string

definition zero_tm :: tm where
  "zero_tm = \<lparr>tm_sec = 0, tm_min = 0, tm_hour = 0, tm_mday = 0, tm_mon = 0, tm_year = 0,
              tm_wday = 0, tm_yday = 0, tm_isdst = False, tm_gmtoff = 0, tm_zone = []\<rparr>"

definition Date_tm :: "tm \<Rightarrow> date" where
  "Date_tm t = \<lparr>julianDayNumber = getJulianDayNumber (to_int32 (tm_year t + 1900)) (to_int32 (tm_mon t + 1)) (tm_mday t)\<rparr>"

definition date_swap :: "date \<times> date \<Rightarrow> date \<times> date" where
  "date_swap p = (snd p, fst p)"

definition date_valid :: "date \<Rightarrow> bool" where
  "date_valid x \<longleftrightarrow> 0 < julianDayNumber x"

definition yearMonthDay :: "date \<Rightarrow> ymd" where
  "yearMonthDay x = getYearMonthDay (julianDayNumber x)"

definition date_year :: "date \<Rightarrow> int" where "date_year x = year (yearMonthDay x)"
definition date_month :: "date \<Rightarrow> int" where "date_month x = month (yearMonthDay x)"
definition date_day :: "date \<Rightarrow> int" where "date_day x = day (yearMonthDay x)"

definition weekDay :: "date \<Rightarrow> int" where
  "weekDay x = c_mod (to_int32 (julianDayNumber x + 1)) kDaysPerWeek"

definition date_less :: "date \<Rightarrow> date \<Rightarrow> bool" where
  "date_less x y \<longleftrightarrow> julianDayNumber x < julianDayNumber y"

definition date_eq :: "date \<Rightarrow> date \<Rightarrow> bool" where
  "date_eq x y \<longleftrightarrow> julianDayNumber x = julianDayNumber y"

subsection \<open>The Gregorian calendar\<close>

text \<open>The conversions over unbounded integers.\<close>

definition civil_jdn :: "int \<Rightarrow> int \<Rightarrow> int \<Rightarrow> int" where
  "civil_jdn yr mon dy =
     (let a = c_div (14 - mon) 12;
          y = yr + 4800 - a;
          m = mon + 12 * a - 3
      in dy + c_div (153 * m + 2) 5 + y * 365 + c_div y 4 - c_div y 100 + c_div y 400 - 32045)"

definition civil_ymd :: "int \<Rightarrow> ymd" where
  "civil_ymd jdn =
     (let a = jdn + 32044;
          b = c_div (4 * a + 3) 146097;
          c = a - c_div (b * 146097) 4;
          d = c_div (4 * c + 3) 1461;
          e = c - c_div (1461 * d) 4;
          m = c_div (5 * e + 2) 153
      in \<lparr>year = b * 100 + d - 4800 + c_div m 10,
          month = m + 3 - 12 * c_div m 10,
          day = e - c_div (153 * m + 2) 5 + 1\<rparr>)"

definition leap_year :: "int \<Rightarrow> bool" where
  "leap_year y \<longleftrightarrow> 4 dvd y \<and> (\<not> 100 dvd y \<or> 400 dvd y)"

definition days_in_month :: "int \<Rightarrow> int \<Rightarrow> int" where
  "days_in_month y m =
     (if m = 2 then (if leap_year y then 29 else 28)
      else if m \<in> {4, 6, 9, 11} then 30 else 31)"

definition valid_ymd :: "int \<Rightarrow> int \<Rightarrow> int \<Rightarrow> bool" where
  "valid_ymd y m d \<longleftrightarrow> 1 \<le> m \<and> m \<le> 12 \<and> 1 \<le> d \<and> d \<le> days_in_month y m"

text \<open>
  The algorithm counts years from 1 March of the year -4800. \<open>shifted y m\<close> is that year, \<open>doy\<close> the
  day of that year (0 to 365), \<open>day_count\<close> the days before it.
\<close>

definition shift_year :: "int \<Rightarrow> int \<Rightarrow> int" where
  "shift_year y m = (if m \<le> 2 then y + 4799 else y + 4800)"

definition shift_month :: "int \<Rightarrow> int" where
  "shift_month m = (if m \<le> 2 then m + 9 else m - 3)"

definition day_count :: "int \<Rightarrow> int" where
  "day_count s = 365 * s + s div 4 - s div 100 + s div 400"

definition doy :: "int \<Rightarrow> int \<Rightarrow> int" where
  "doy m d = d - 1 + (153 * shift_month m + 2) div 5"

lemma month_cases:
  assumes "1 \<le> m" "m \<le> (12::int)"
  obtains "m = 1" | "m = 2" | "m = 3" | "m = 4" | "m = 5" | "m = 6"
    | "m = 7" | "m = 8" | "m = 9" | "m = 10" | "m = 11" | "m = 12"
proof -
  have "m = 1 \<or> m = 2 \<or> m = 3 \<or> m = 4 \<or> m = 5 \<or> m = 6 \<or> m = 7 \<or> m = 8 \<or> m = 9
    \<or> m = 10 \<or> m = 11 \<or> m = 12"
    using assms by presburger
  then show thesis using that by blast
qed

lemma civil_jdn_shift:
  assumes "1 \<le> m" "m \<le> 12" "0 \<le> shift_year y m"
  shows "civil_jdn y m d = doy m d + day_count (shift_year y m) - 32044"
  using assms
  by (cases rule: month_cases [of m])
     (simp_all add: civil_jdn_def Let_def shift_year_def shift_month_def doy_def
        day_count_def add.commute)

lemma doy_bounds:
  assumes "valid_ymd y m d"
  shows "0 \<le> doy m d" "doy m d \<le> 365" "doy m d = 365 \<Longrightarrow> leap_year (shift_year y m + 1 - 4800)"
  using assms
  by (auto simp: valid_ymd_def days_in_month_def doy_def shift_month_def shift_year_def
      elim!: month_cases [of m] split: if_splits)

lemma doy_month:
  assumes "valid_ymd y m d"
  shows "(5 * doy m d + 2) div 153 = shift_month m"
proof -
  have "1 \<le> m" "m \<le> 12" "1 \<le> d" "d \<le> 31" using assms
    by (auto simp: valid_ymd_def days_in_month_def split: if_splits)
  moreover have "d \<le> days_in_month y m" using assms by (simp add: valid_ymd_def)
  ultimately show ?thesis
    by (elim month_cases [of m])
       (auto simp: doy_def shift_month_def days_in_month_def split: if_splits)
qed

subsection \<open>From day number to date\<close>

text \<open>
  The century, year and day that \<open>civil_ymd\<close> computes from a day count: with
  \<open>s = 100 * b + r\<close> and a day of the year that exists, the divisions return \<open>b\<close>, \<open>r\<close> and the day.
\<close>

lemma split4:
  obtains k u where "(x::int) = 4 * k + u" "0 \<le> u" "u \<le> 3" "x div 4 = k" "x mod 4 = u"
  using that [of "x div 4" "x mod 4"] by simp

lemma div4_scaled: "146097 * b div 4 = 36524 * b + b div (4::int)" "1461 * b div 4 = 365 * b + b div (4::int)"
proof -
  have "146097 * b = b + 4 * (36524 * b)" "1461 * b = b + 4 * (365 * b)" by simp_all
  then show "146097 * b div 4 = 36524 * b + b div 4" "1461 * b div 4 = 365 * b + b div 4"
    by (simp_all only: div_mult_self2)
qed

lemma leap_facts:
  assumes "leap_year (100 * b + r + 1 - 4800)" "0 \<le> r" "r \<le> 99"
  shows "r mod 4 = 3" "r = 99 \<Longrightarrow> b mod 4 = 3"
proof -
  have "4 dvd 100 * b + r + 1 - 4800" using assms(1) by (simp add: leap_year_def)
  then show "r mod 4 = 3" by presburger
  assume "r = 99"
  have e: "100 * b + r + 1 - 4800 = 100 * (b - 47)" using \<open>r = 99\<close> by simp
  from assms(1) have "400 dvd 100 * (b - 47)"
    unfolding leap_year_def e by simp
  then obtain k where "100 * (b - 47) = 400 * k" by (elim dvdE)
  then have "b = 4 * k + 47" by simp
  then show "b mod 4 = 3" by presburger
qed

lemma leap_shiftI:
  assumes "0 \<le> r" "r \<le> 99" "r mod 4 = 3" "r = 99 \<Longrightarrow> b mod 4 = 3"
  shows "leap_year (100 * b + r + 1 - 4800)"
proof -
  have four: "4 dvd 100 * b + r + 1 - 4800" using assms(3) by presburger
  have hundred: "100 dvd 100 * b + r + 1 - 4800 \<Longrightarrow> r = 99"
  proof -
    assume "100 dvd 100 * b + r + 1 - 4800"
    then obtain k where "100 * b + r + 1 - 4800 = 100 * k" by (elim dvdE)
    then have "r + 1 = 100 * (k - b + 48)" by simp
    then obtain j where "r + 1 = 100 * j" by blast
    with assms(1,2) show "r = 99" by presburger
  qed
  have "400 dvd 100 * b + r + 1 - 4800" if "r = 99"
  proof -
    have "b = 4 * (b div 4) + 3" using assms(4) [OF that] by (metis mult_div_mod_eq)
    then have "100 * b + r + 1 - 4800 = 400 * (b div 4 - 11)" using that by simp
    then show ?thesis by (rule dvdI)
  qed
  with four hundred show ?thesis unfolding leap_year_def by blast
qed

lemma day_count_split:
  assumes "0 \<le> r" "r \<le> 99"
  shows "day_count (100 * b + r) = 36524 * b + b div 4 + 365 * r + r div 4"
proof -
  have e4: "(100 * b + r) div 4 = 25 * b + r div 4"
  proof -
    have "100 * b + r = r + 4 * (25 * b)" by simp
    then show ?thesis by (simp only: div_mult_self2)
  qed
  have hundred: "(100 * b + r) div 100 = b" using assms by simp
  have "(100 * b + r) div (100 * 4) = (100 * b + r) div 100 div 4"
    by (rule zdiv_zmult2_eq) simp
  then have e400: "(100 * b + r) div 400 = b div 4" unfolding hundred by simp
  show ?thesis unfolding day_count_def e4 hundred e400 by simp
qed

lemma century_of:
  assumes "0 \<le> r" "r \<le> 99" "0 \<le> e" "e \<le> 365"
    and "e = 365 \<Longrightarrow> leap_year (100 * b + r + 1 - 4800)"
  shows "(4 * (e + day_count (100 * b + r)) + 3) div 146097 = b"
proof -
  obtain q u where b: "b = 4 * q + u" "0 \<le> u" "u \<le> 3" "b div 4 = q" "b mod 4 = u" by (rule split4)
  obtain k t where r: "r = 4 * k + t" "0 \<le> t" "t \<le> 3" "r div 4 = k" "r mod 4 = t" by (rule split4)
  have "e = 365 \<Longrightarrow> t = 3" and "e = 365 \<Longrightarrow> r = 99 \<Longrightarrow> u = 3"
    using leap_facts [OF assms(5) assms(1,2)] b r by auto
  moreover have "t = 3 \<Longrightarrow> r \<noteq> 99 \<Longrightarrow> r \<le> 95" using r(1) assms(2) by presburger
  moreover have "k \<le> 24" using r(1,2) assms(2) by presburger
  ultimately have "4 * e + 1460 * r + 4 * k + 3 - u < 146097"
    using assms(2,4) b(2) by (smt (verit, best))
  moreover have "0 \<le> k" using r(1,3) assms(1) by presburger
  then have "0 \<le> 4 * e + 1460 * r + 4 * k + 3 - u"
    using assms(1,3) b(3) by linarith
  moreover have "4 * (e + day_count (100 * b + r)) + 3
      = 146097 * b + (4 * e + 1460 * r + 4 * k + 3 - u)"
    unfolding day_count_split [OF assms(1,2)] b(4) r(4) using b(1) r(1) by simp
  ultimately show ?thesis by (intro int_div_pos_eq)
qed

lemma year_of:
  assumes "0 \<le> r" "r \<le> 99" "0 \<le> e" "e \<le> 365"
    and "e = 365 \<Longrightarrow> leap_year (100 * b + r + 1 - 4800)"
  shows "(4 * (e + 365 * r + r div 4) + 3) div 1461 = r"
proof -
  obtain k t where r: "r = 4 * k + t" "0 \<le> t" "t \<le> 3" "r div 4 = k" "r mod 4 = t" by (rule split4)
  have "e = 365 \<Longrightarrow> t = 3" using leap_facts(1) [OF assms(5) assms(1,2)] r by auto
  then have "4 * e + 3 - t < 1461" "0 \<le> 4 * e + 3 - t"
    using assms(3,4) r(2,3) by (cases "e = 365", auto)
  moreover have "4 * (e + 365 * r + r div 4) + 3 = 1461 * r + (4 * e + 3 - t)"
    unfolding r(4) using r(1) by simp
  ultimately show ?thesis by (intro int_div_pos_eq)
qed

lemma civil_ymd_day_count:
  assumes "0 \<le> s" "0 \<le> e" "e \<le> 365" "e = 365 \<Longrightarrow> leap_year (s + 1 - 4800)"
  shows "civil_ymd (e + day_count s - 32044) =
     (let m = (5 * e + 2) div 153
      in \<lparr>year = s - 4800 + m div 10, month = m + 3 - 12 * (m div 10),
          day = e - (153 * m + 2) div 5 + 1\<rparr>)"
proof -
  define b r where "b = s div 100" and "r = s mod 100"
  have s: "s = 100 * b + r" and r: "0 \<le> r" "r \<le> 99" and b0: "0 \<le> b"
    using assms(1) by (auto simp: b_def r_def)
  have leap: "e = 365 \<Longrightarrow> leap_year (100 * b + r + 1 - 4800)" using assms(4) s by simp
  have b: "(4 * (e + day_count s) + 3) div 146097 = b"
    using century_of [OF r assms(2,3) leap] s by simp
  have pos: "0 \<le> e + day_count s"
    using assms(2) r b0 by (simp add: s day_count_split [OF r])
  have r4: "0 \<le> r div 4" using r by simp
  have jd: "e + day_count s - 32044 + 32044 = e + day_count s" by simp
  have b': "c_div (4 * (e + day_count s) + 3) 146097 = b"
    using b pos by simp
  have c': "e + day_count s - c_div (b * 146097) 4 = e + 365 * r + r div 4"
    using b0 unfolding s day_count_split [OF r] mult.commute [of b 146097]
    by (simp add: div4_scaled)
  have d': "c_div (4 * (e + 365 * r + r div 4) + 3) 1461 = r"
    using year_of [OF r assms(2,3) leap] assms(2) r(1) r4 by simp
  have e': "e + 365 * r + r div 4 - c_div (1461 * r) 4 = e"
    using r(1) by (simp add: div4_scaled)
  have m': "c_div (5 * e + 2) 153 = (5 * e + 2) div 153" using assms(2) by simp
  have m0: "0 \<le> (5 * e + 2) div 153" using assms(2) by simp
  show ?thesis
    unfolding civil_ymd_def Let_def jd b' c' d' e' m' using m0 by (simp add: s)
qed

lemma shift_fields:
  assumes "1 \<le> m" "m \<le> 12"
  shows "shift_year y m - 4800 + shift_month m div 10 = y" "shift_month m + 3 - 12 * (shift_month m div 10) = m"
  using assms by (cases rule: month_cases [of m]; simp add: shift_year_def shift_month_def)+

subsection \<open>Within the range of an \<open>int\<close>\<close>

lemma div_bounds: "0 < q \<Longrightarrow> q * (x div q) \<le> x \<and> x < q * (x div q) + (q::int)"
proof -
  assume q: "0 < q"
  show ?thesis
    using pos_mod_bound [OF q, of x] pos_mod_sign [OF q, of x]
    by (simp add: minus_mod_eq_mult_div [symmetric])
qed

lemma day_count_le:
  assumes "0 \<le> s"
  shows "0 \<le> day_count s" "day_count s \<le> 366 * s"
  using assms div_bounds [of 4 s] div_bounds [of 100 s] div_bounds [of 400 s] unfolding day_count_def by simp_all

lemma day_count_mono:
  assumes "0 \<le> s" "s \<le> t"
  shows "day_count s \<le> day_count t"
proof -
  have "s div 4 \<le> t div 4" "s div 400 \<le> t div 400" using assms(2) by (simp_all add: zdiv_mono1)
  moreover have "365 * s - s div 100 \<le> 365 * t - t div 100"
  proof -
    have "t div 100 \<le> s div 100 + (t - s)"
      using assms(2) div_bounds [of 100 s] div_bounds [of 100 t] by (cases "t = s") simp_all
    then show ?thesis using assms(2) by linarith
  qed
  ultimately show ?thesis unfolding day_count_def by linarith
qed

lemma getJulianDayNumber_civil:
  assumes "1 \<le> m" "m \<le> 12" "0 \<le> shift_year y m" "shift_year y m \<le> 2000000" "1 \<le> d" "d \<le> 31"
  shows "getJulianDayNumber y m d = civil_jdn y m d"
proof -
  have "civil_jdn y m d = doy m d + day_count (shift_year y m) - 32044" by (rule civil_jdn_shift [OF assms(1-3)])
  moreover have "0 \<le> doy m d" "doy m d \<le> 1000"
    using assms(1,2,5,6) by (auto simp: doy_def shift_month_def)
  moreover have "day_count (shift_year y m) \<le> 732000000" "0 \<le> day_count (shift_year y m)"
    using day_count_le [OF assms(3)] assms(4) by linarith+
  ultimately have small: "to_int32 (civil_jdn y m d) = civil_jdn y m d" by (intro to_int32_id; simp)
  have y: "- 4800 \<le> y" "y \<le> 2000000" using assms(3,4) by (auto simp: shift_year_def split: if_splits)
  show ?thesis
    using assms(1,2) y small
    by (cases rule: month_cases [of m]) (simp_all add: getJulianDayNumber_def civil_jdn_def Let_def)
qed

lemma getYearMonthDay_civil:
  assumes "- 32044 \<le> n" "n \<le> 536838867"
  shows "getYearMonthDay n = civil_ymd n"
proof -
  define a where "a = n + 32044"
  have a: "0 \<le> a" "a \<le> 536870911" using assms by (simp_all add: a_def)
  define b where "b = (4 * a + 3) div 146097"
  have b: "0 \<le> b" "146097 * b \<le> 4 * a + 3" "4 * a + 3 < 146097 * b + 146097"
    using div_bounds [of 146097 "4 * a + 3"] a by (simp_all add: b_def)
  define q where "q = b * 146097 div 4"
  have q: "0 \<le> q" "4 * q \<le> b * 146097" "b * 146097 < 4 * q + 4"
    using div_bounds [of 4 "b * 146097"] b(1) by (simp_all add: q_def)
  define c where "c = a - q"
  have c: "0 \<le> c" "c \<le> 36525" using b q unfolding c_def by linarith+
  define d where "d = (4 * c + 3) div 1461"
  have d: "0 \<le> d" "1461 * d \<le> 4 * c + 3" "4 * c + 3 < 1461 * d + 1461"
    using div_bounds [of 1461 "4 * c + 3"] c by (simp_all add: d_def)
  define r where "r = 1461 * d div 4"
  have r: "0 \<le> r" "4 * r \<le> 1461 * d" "1461 * d < 4 * r + 4"
    using div_bounds [of 4 "1461 * d"] d(1) by (simp_all add: r_def)
  define e where "e = c - r"
  have e: "0 \<le> e" "e \<le> 366" using d r unfolding e_def by linarith+
  define m where "m = (5 * e + 2) div 153"
  have m: "0 \<le> m" "m \<le> 12" using e div_bounds [of 153 "5 * e + 2"] by (simp_all add: m_def)
  have m10: "0 \<le> m div 10" "m div 10 \<le> 1" using m by simp_all
  define k where "k = (153 * m + 2) div 5"
  have k: "0 \<le> k" "k \<le> 400" using m by (simp_all add: k_def)
  have bd: "b \<le> 14700" "d \<le> 101" using a b(2) c d(2) by linarith+
  have steps: "n + 32044 = a" "to_int32 a = a" "to_int32 (4 * a + 3) = 4 * a + 3" "c_div (4 * a + 3) 146097 = b"
    "to_int32 (b * 146097) = b * 146097" "c_div (b * 146097) 4 = q" "a - q = c" "to_int32 c = c" "to_int32 (4 * c + 3) = 4 * c + 3"
    "c_div (4 * c + 3) 1461 = d" "to_int32 (1461 * d) = 1461 * d" "c_div (1461 * d) 4 = r" "c - r = e" "to_int32 e = e"
    "to_int32 (5 * e + 2) = 5 * e + 2" "c_div (5 * e + 2) 153 = m" "c_div m 10 = m div 10"
    "to_int32 (153 * m + 2) = 153 * m + 2" "c_div (153 * m + 2) 5 = k" "to_int32 (e - k + 1) = e - k + 1"
    "to_int32 (m + 3 - 12 * (m div 10)) = m + 3 - 12 * (m div 10)"
    "to_int32 (b * 100 + d - 4800 + m div 10) = b * 100 + d - 4800 + m div 10"
    using a b q c d r e m m10 k bd
    by (simp_all add: a_def [symmetric] b_def [symmetric] q_def [symmetric] c_def [symmetric] d_def [symmetric] r_def [symmetric]
      e_def [symmetric] m_def [symmetric] k_def [symmetric])
  show ?thesis
    by (simp only: getYearMonthDay_def civil_ymd_def Let_def steps)
qed

text \<open>The two code functions are those of the calendar on every day of the range.\<close>

text \<open>C26: Converting a date to its Julian day number and back gives the date, for every valid date of
  the Gregorian calendar from 1 March -4800 to the end of the year 1465101, leap days included: in this range no
  32-bit computation overflows (in the next year one does).\<close>

theorem date_roundtrip:
  assumes "valid_ymd y m d" "0 \<le> shift_year y m" "y \<le> 1465101"
  shows "yearMonthDay (Date_ymd y m d) = \<lparr>year = y, month = m, day = d\<rparr>"
proof -
  have md: "1 \<le> m" "m \<le> 12" "1 \<le> d" "d \<le> 31"
    using assms(1) by (auto simp: valid_ymd_def days_in_month_def split: if_splits)
  have s: "shift_year y m \<le> 1469901" using assms(3) by (simp add: shift_year_def)
  have n: "civil_jdn y m d = doy m d + day_count (shift_year y m) - 32044" by (rule civil_jdn_shift [OF md(1,2) assms(2)])
  have "day_count (shift_year y m) \<le> day_count 1469901" by (rule day_count_mono [OF assms(2) s])
  then have "day_count (shift_year y m) \<le> 536870315" by (simp add: day_count_def)
  then have "- 32044 \<le> civil_jdn y m d" "civil_jdn y m d \<le> 536838867"
    using doy_bounds(1,2) [OF assms(1)] day_count_le(1) [OF assms(2)] n by linarith+
  then have "getYearMonthDay (getJulianDayNumber y m d) = civil_ymd (civil_jdn y m d)"
    using getJulianDayNumber_civil [OF md(1,2) assms(2) _ md(3,4)] s getYearMonthDay_civil by simp
  also have "\<dots> = \<lparr>year = y, month = m, day = d\<rparr>"
    unfolding n
    using civil_ymd_day_count [OF assms(2) doy_bounds [OF assms(1)]] shift_fields [OF md(1,2)]
    unfolding Let_def doy_month [OF assms(1)] by (simp add: doy_def)
  finally show ?thesis by (simp add: yearMonthDay_def Date_ymd_def)
qed

theorem date_roundtrip_witness:
  "yearMonthDay (Date_ymd 2000 2 29) = \<lparr>year = 2000, month = 2, day = 29\<rparr>"
  by (rule date_roundtrip)
     (simp_all add: valid_ymd_def days_in_month_def leap_year_def shift_year_def)

text \<open>The bound is the last one: at the end of the next year \<open>4 * a + 3\<close> overflows.\<close>

lemma date_overflow: "yearMonthDay (Date_ymd 1465102 12 31) \<noteq> \<lparr>year = 1465102, month = 12, day = 31\<rparr>"
proof -
  have j: "getJulianDayNumber 1465102 12 31 = 536838941" by (simp add: getJulianDayNumber_def Let_def)
  have steps: "(536838941::int) + 32044 = 536870985" "to_int32 536870985 = 536870985" "4 * 536870985 + 3 = (2147483943::int)"
    "to_int32 2147483943 = - 2147483353" "c_div (- 2147483353) 146097 = - 14699" "- 14699 * 146097 = (- 2147479803::int)"
    "to_int32 (- 2147479803) = - 2147479803" "c_div (- 2147479803) 4 = - 536869950" "536870985 - - 536869950 = (1073740935::int)"
    "to_int32 1073740935 = 1073740935" "4 * 1073740935 + 3 = (4294963743::int)" "to_int32 4294963743 = - 3553"
    "c_div (- 3553) 1461 = - 2" "1461 * - 2 = (- 2922::int)" "to_int32 (- 2922) = - 2922" "c_div (- 2922) 4 = - 730"
    "1073740935 - - 730 = (1073741665::int)" "to_int32 1073741665 = 1073741665" "5 * 1073741665 + 2 = (5368708327::int)"
    "to_int32 5368708327 = 1073741031" "c_div 1073741031 153 = 7017915" "c_div 7017915 10 = 701791"
    "- 14699 * 100 + - 2 - 4800 + 701791 = (- 772911::int)" "to_int32 (- 772911) = - 772911"
    by (simp_all add: to_int32_def c_div_def)
  have "year (yearMonthDay (Date_ymd 1465102 12 31)) = - 772911"
    by (simp only: yearMonthDay_def Date_ymd_def date.simps j getYearMonthDay_def Let_def steps ymd.simps)
  then show ?thesis by auto
qed

text \<open>The other direction: every day count is some day of some year.\<close>

lemma day_count_surj:
  assumes "0 \<le> a"
  obtains s e where "a = e + day_count s" "0 \<le> s" "0 \<le> e" "e \<le> 365"
    "e = 365 \<Longrightarrow> leap_year (s + 1 - 4800)"
proof -
  define b where "b = (4 * a + 3) div 146097"
  have b0: "0 \<le> b" using assms by (simp add: b_def)
  have bb: "146097 * b \<le> 4 * a + 3" "4 * a + 3 < 146097 * b + 146097"
    using div_bounds [of 146097 "4 * a + 3"] unfolding b_def by simp_all
  obtain q u where b: "b = 4 * q + u" "0 \<le> u" "u \<le> 3" "b div 4 = q" "b mod 4 = u" by (rule split4)
  define c where "c = a - (36524 * b + q)"
  have c4: "4 * c = 4 * a - 146097 * b + u" using b(1) by (simp add: c_def)
  have c: "0 \<le> c" "c \<le> 36524" using c4 bb b(2,3) by linarith+
  define r where "r = (4 * c + 3) div 1461"
  have r: "0 \<le> r" "r \<le> 99" using c unfolding r_def by simp_all
  have rr: "1461 * r \<le> 4 * c + 3" "4 * c + 3 < 1461 * r + 1461"
    using div_bounds [of 1461 "4 * c + 3"] unfolding r_def by simp_all
  obtain k t where k: "r = 4 * k + t" "0 \<le> t" "t \<le> 3" "r div 4 = k" "r mod 4 = t" by (rule split4)
  define e where "e = c - (365 * r + k)"
  have e4: "4 * e = 4 * c - 1461 * r + t" using k(1) by (simp add: e_def)
  have e: "0 \<le> e" "e \<le> 365" using e4 rr k(2,3) by linarith+
  have "a = e + day_count (100 * b + r)"
    unfolding day_count_split [OF r] b(4) k(4) by (simp add: e_def c_def)
  moreover have "leap_year (100 * b + r + 1 - 4800)" if "e = 365"
  proof (rule leap_shiftI [OF r])
    show "r mod 4 = 3" using that e4 rr k by linarith
    show "b mod 4 = 3" if "r = 99"
    proof -
      have "k = 24" using that k(1,2,3) by presburger
      then have "c = 36524" using that \<open>e = 365\<close> by (simp add: e_def)
      then show ?thesis using c4 bb b by linarith
    qed
  qed
  ultimately show thesis using that [of e "100 * b + r"] b0 r e by simp
qed

lemma shift_back:
  assumes "0 \<le> e" "e \<le> 365" "e = 365 \<Longrightarrow> leap_year (s + 1 - 4800)" "m = (5 * e + 2) div 153"
  shows "valid_ymd (s - 4800 + m div 10) (m + 3 - 12 * (m div 10)) (e - (153 * m + 2) div 5 + 1)"
    "shift_year (s - 4800 + m div 10) (m + 3 - 12 * (m div 10)) = s"
    "doy (m + 3 - 12 * (m div 10)) (e - (153 * m + 2) div 5 + 1) = e"
    "1 \<le> m + 3 - 12 * (m div 10)" "m + 3 - 12 * (m div 10) \<le> 12"
proof -
  have m0: "0 \<le> m" "m \<le> 11" and e: "153 * m \<le> 5 * e + 2" "5 * e + 2 < 153 * m + 153"
    using assms(1,2) div_bounds [of 153 "5 * e + 2"] unfolding assms(4) by simp_all
  from m0 have m: "m = 0 \<or> m = 1 \<or> m = 2 \<or> m = 3 \<or> m = 4 \<or> m = 5 \<or> m = 6 \<or> m = 7 \<or> m = 8 \<or> m = 9
      \<or> m = 10 \<or> m = 11" by presburger
  have leap: "leap_year (s - 4799) \<or> e \<noteq> 365" using assms(3) by (cases "e = 365") simp_all
  show "valid_ymd (s - 4800 + m div 10) (m + 3 - 12 * (m div 10)) (e - (153 * m + 2) div 5 + 1)"
    using m
  proof (elim disjE)
    assume "m = 11"
    with e assms(2) leap show ?thesis by (auto simp: valid_ymd_def days_in_month_def)
  qed (use e in \<open>simp_all add: valid_ymd_def days_in_month_def\<close>)
  show "shift_year (s - 4800 + m div 10) (m + 3 - 12 * (m div 10)) = s"
    using m by (elim disjE) (simp_all add: shift_year_def)
  show "doy (m + 3 - 12 * (m div 10)) (e - (153 * m + 2) div 5 + 1) = e"
    using m by (elim disjE) (simp_all add: doy_def shift_month_def)
  show "1 \<le> m + 3 - 12 * (m div 10)" "m + 3 - 12 * (m div 10) \<le> 12"
    using m by (elim disjE; simp)+
qed

lemma date_of_day_number_lemma:
  assumes "- 32044 \<le> n" "n \<le> 536838867"
  shows "valid_ymd (date_year (Date_jdn n)) (date_month (Date_jdn n)) (date_day (Date_jdn n))
     \<and> Date_ymd (date_year (Date_jdn n)) (date_month (Date_jdn n)) (date_day (Date_jdn n)) = Date_jdn n"
proof -
  have "0 \<le> n + 32044" using assms(1) by simp
  then obtain s e where n: "n + 32044 = e + day_count s" "0 \<le> s" "0 \<le> e" "e \<le> 365"
    and leap: "e = 365 \<Longrightarrow> leap_year (s + 1 - 4800)"
    by (rule day_count_surj) blast
  define m where "m = (5 * e + 2) div 153"
  define d where "d = e - (153 * m + 2) div 5 + 1"
  define mon where "mon = m + 3 - 12 * (m div 10)"
  define y where "y = s - 4800 + m div 10"
  have m: "0 \<le> m" "m \<le> 11" using n(3,4) by (simp_all add: m_def)
  have nn: "n = e + day_count s - 32044" using n(1) by simp
  have x: "civil_ymd n = \<lparr>year = y, month = mon, day = d\<rparr>"
    unfolding y_def mon_def d_def nn
    using civil_ymd_day_count [OF n(2-4) leap] unfolding Let_def m_def .
  have ok: "valid_ymd y mon d" "shift_year y mon = s" "doy mon d = e" "1 \<le> mon" "mon \<le> 12"
    using shift_back [OF n(3,4) leap m_def] by (simp_all add: y_def mon_def d_def)
  have "365 * s \<le> day_count s"
    using n(2) zdiv_mono2 [of s 4 100] unfolding day_count_def by simp
  then have s: "s \<le> 2000000" using n(1,3) assms(2) by linarith
  have "1 \<le> d" "d \<le> 31" using ok(1) by (auto simp: valid_ymd_def days_in_month_def split: if_splits)
  then have "getJulianDayNumber y mon d = n"
    using getJulianDayNumber_civil [OF ok(4,5), of y d] civil_jdn_shift [OF ok(4,5)] ok(2,3) n(2) s nn by simp
  with ok(1) have "valid_ymd y mon d \<and> getJulianDayNumber y mon d = n" by simp
  with x getYearMonthDay_civil [OF assms] show ?thesis
    by (simp add: date_year_def date_month_def date_day_def yearMonthDay_def Date_jdn_def Date_ymd_def)
qed

text \<open>Every day number from 1 March -4800 on, up to the bound, is the number of exactly the date computed from it,
  and that date is a valid calendar date: no day is skipped and no impossible date is produced.\<close>

theorem date_of_day_number:
  assumes "- 32044 \<le> n" "n \<le> 536838867"
  shows "valid_ymd (date_year (Date_jdn n)) (date_month (Date_jdn n)) (date_day (Date_jdn n))
     \<and> Date_ymd (date_year (Date_jdn n)) (date_month (Date_jdn n)) (date_day (Date_jdn n)) = Date_jdn n"
  by (rule date_of_day_number_lemma [OF assms])

theorem date_of_day_number_witness:
  "valid_ymd (date_year (Date_jdn 2451604)) (date_month (Date_jdn 2451604)) (date_day (Date_jdn 2451604))
     \<and> Date_ymd (date_year (Date_jdn 2451604)) (date_month (Date_jdn 2451604)) (date_day (Date_jdn 2451604))
         = Date_jdn 2451604"
  by (rule date_of_day_number) simp_all

end
