(* ===== verification/Base_Time.thy ===== *)
theory Base_Time
  imports Base_Date Net_Endian
begin

section \<open>Time: \<open>base/Timestamp.h\<close>, \<open>base/Timestamp.cc\<close>, \<open>base/TimeZone.cc\<close>\<close>

text \<open>
  A \<open>Timestamp\<close> is a count of microseconds, a \<open>time_t\<close> a count of seconds; both are 64 bits wide
  and are integers here. The zone data of a \<open>TimeZone\<close> is the parsed file: transitions, local time
  types and the string of abbreviations. \<open>findLocaltime\<close> returns \<open>None\<close> where the code reads
  outside of a vector or fails its assertion. \<open>readTimeZoneFile\<close> is modelled on the bytes of the
  file. \<open>gmtime_r\<close> and \<open>timegm\<close> of the C library are the Gregorian conversions of the POSIX standard.
\<close>

subsection \<open>Timestamp\<close>

record timestamp =
  microSecondsSinceEpoch :: int

definition kMicroSecondsPerSecond :: int where [const_defs]: "kMicroSecondsPerSecond = 1000 * 1000"

definition Timestamp_default :: timestamp where
  "Timestamp_default = \<lparr>microSecondsSinceEpoch = 0\<rparr>"

definition Timestamp :: "int \<Rightarrow> timestamp" where
  "Timestamp us = \<lparr>microSecondsSinceEpoch = us\<rparr>"

definition timestamp_swap :: "timestamp \<times> timestamp \<Rightarrow> timestamp \<times> timestamp" where
  "timestamp_swap p = (snd p, fst p)"

definition timestamp_valid :: "timestamp \<Rightarrow> bool" where
  "timestamp_valid t \<longleftrightarrow> 0 < microSecondsSinceEpoch t"

definition secondsSinceEpoch :: "timestamp \<Rightarrow> int" where
  "secondsSinceEpoch t = c_div (microSecondsSinceEpoch t) kMicroSecondsPerSecond"

definition Timestamp_invalid :: timestamp where
  "Timestamp_invalid = Timestamp_default"

definition fromUnixTime_us :: "int \<Rightarrow> int \<Rightarrow> timestamp" where
  "fromUnixTime_us t us = Timestamp (t * kMicroSecondsPerSecond + us)"

definition fromUnixTime :: "int \<Rightarrow> timestamp" where
  "fromUnixTime t = fromUnixTime_us t 0"

text \<open>\<open>now\<close> is a function of what \<open>gettimeofday\<close> wrote into the \<open>timeval\<close>.\<close>

definition Timestamp_now :: "int \<Rightarrow> int \<Rightarrow> timestamp" where
  "Timestamp_now tv_sec tv_usec = Timestamp (tv_sec * kMicroSecondsPerSecond + tv_usec)"

definition timestamp_less :: "timestamp \<Rightarrow> timestamp \<Rightarrow> bool" where
  "timestamp_less l r \<longleftrightarrow> microSecondsSinceEpoch l < microSecondsSinceEpoch r"

definition timestamp_eq :: "timestamp \<Rightarrow> timestamp \<Rightarrow> bool" where
  "timestamp_eq l r \<longleftrightarrow> microSecondsSinceEpoch l = microSecondsSinceEpoch r"

text \<open>The second argument is \<open>static_cast<int64_t>(seconds * kMicroSecondsPerSecond)\<close>: doubles are
  not modelled, and the only thing the code does with the double is that cast.\<close>

definition addTime :: "timestamp \<Rightarrow> int \<Rightarrow> timestamp" where
  "addTime t delta = Timestamp (microSecondsSinceEpoch t + delta)"

text \<open>Timestamps are ordered by their count, so that they can key the standard library's maps.\<close>

instantiation timestamp_ext :: (linorder) linorder
begin

definition less_eq_timestamp_ext :: "'a timestamp_ext \<Rightarrow> 'a timestamp_ext \<Rightarrow> bool" where
  "less_eq_timestamp_ext x y \<longleftrightarrow> microSecondsSinceEpoch x < microSecondsSinceEpoch y
     \<or> microSecondsSinceEpoch x = microSecondsSinceEpoch y \<and> timestamp.more x \<le> timestamp.more y"

definition less_timestamp_ext :: "'a timestamp_ext \<Rightarrow> 'a timestamp_ext \<Rightarrow> bool" where
  "less_timestamp_ext x y \<longleftrightarrow> microSecondsSinceEpoch x < microSecondsSinceEpoch y
     \<or> microSecondsSinceEpoch x = microSecondsSinceEpoch y \<and> timestamp.more x < timestamp.more y"

instance
  by standard (auto simp: less_eq_timestamp_ext_def less_timestamp_ext_def intro: timestamp.equality)

end

lemma timestamp_less_iff: "timestamp_less x y \<longleftrightarrow> x < (y :: timestamp)"
  by (simp add: timestamp_less_def less_timestamp_ext_def)

lemma timestamp_eq_iff: "timestamp_eq x y \<longleftrightarrow> x = (y :: timestamp)"
  by (auto simp: timestamp_eq_def intro: timestamp.equality)

subsection \<open>Broken-down UTC time\<close>

definition kSecondsPerDay :: int where [const_defs]: "kSecondsPerDay = 24 * 60 * 60"

definition fillHMS :: "int \<Rightarrow> tm \<Rightarrow> tm" where
  "fillHMS seconds utc =
     (let utc = utc\<lparr>tm_sec := seconds mod 60\<rparr>;
          minutes = seconds div 60;
          utc = utc\<lparr>tm_min := minutes mod 60\<rparr>
      in utc\<lparr>tm_hour := minutes div 60\<rparr>)"

definition toUtcTime :: "int \<Rightarrow> bool \<Rightarrow> tm" where
  "toUtcTime secs yday =
     (let utc = zero_tm\<lparr>tm_zone := ''GMT''\<rparr>;
          seconds = to_int32 (c_mod secs kSecondsPerDay);
          days = to_int32 (c_div secs kSecondsPerDay);
          (seconds, days) = (if seconds < 0 then (seconds + kSecondsPerDay, to_int32 (days - 1)) else (seconds, days));
          utc = fillHMS seconds utc;
          date = Date_jdn (to_int32 (days + kJulianDayOf1970_01_01));
          ymd = yearMonthDay date;
          utc = utc\<lparr>tm_year := year ymd - 1900, tm_mon := month ymd - 1, tm_mday := day ymd,
                    tm_wday := weekDay date\<rparr>
      in if yday
         then utc\<lparr>tm_yday := julianDayNumber date - julianDayNumber (Date_ymd (year ymd) 1 1)\<rparr>
         else utc)"

definition fromUtcTime :: "int \<Rightarrow> int \<Rightarrow> int \<Rightarrow> int \<Rightarrow> int \<Rightarrow> int \<Rightarrow> int" where
  "fromUtcTime yr mon dy hour minute seconds =
     (let date = Date_ymd yr mon dy;
          secondsInDay = to_int32 (hour * 3600 + minute * 60 + seconds);
          days = to_int32 (julianDayNumber date - kJulianDayOf1970_01_01)
      in days * kSecondsPerDay + secondsInDay)"

definition fromUtcTime_tm :: "tm \<Rightarrow> int" where
  "fromUtcTime_tm utc = fromUtcTime (tm_year utc + 1900) (tm_mon utc + 1) (tm_mday utc)
     (tm_hour utc) (tm_min utc) (tm_sec utc)"

lemma epoch_jdn: "kJulianDayOf1970_01_01 = 2440588"
  by (simp add: kJulianDayOf1970_01_01_def getJulianDayNumber_def Let_def)

lemma c_split:
  assumes "0 < b"
  shows "c_mod a b < 0 \<Longrightarrow> c_mod a b + b = a mod b \<and> c_div a b - 1 = a div b"
    and "0 \<le> c_mod a b \<Longrightarrow> c_mod a b = a mod b \<and> c_div a b = a div b"
proof -
  have eq: "a = c_div a b * b + c_mod a b" by (simp add: c_div_mod)
  have bd: "\<bar>c_mod a b\<bar> < b" by (rule c_mod_bound [OF assms])
  { assume neg: "c_mod a b < 0"
    have a: "a = b * (c_div a b - 1) + (c_mod a b + b)" using eq by (simp add: algebra_simps)
    have "a div b = c_div a b - 1" using int_div_pos_eq [OF a] neg bd by linarith
    moreover have "a mod b = c_mod a b + b" using int_mod_pos_eq [OF a] neg bd by linarith
    ultimately show "c_mod a b + b = a mod b \<and> c_div a b - 1 = a div b" by simp }
  { assume pos: "0 \<le> c_mod a b"
    have a: "a = b * c_div a b + c_mod a b" using eq by (simp add: algebra_simps)
    have "a div b = c_div a b" using int_div_pos_eq [OF a] pos bd by linarith
    moreover have "a mod b = c_mod a b" using int_mod_pos_eq [OF a] pos bd by linarith
    ultimately show "c_mod a b = a mod b \<and> c_div a b = a div b" by simp }
qed

text \<open>The seconds for which the day count fits an \<open>int\<close> and the date algorithm applies.\<close>

definition utc_range :: "int \<Rightarrow> bool" where
  "utc_range s \<longleftrightarrow> - 2472632 \<le> s div 86400 \<and> s div 86400 < 534000000"

lemma toUtcTime_tail:
  assumes "to_int32 (c_mod s 86400) = x" "to_int32 (c_div s 86400) = y"
    "x < 0 \<Longrightarrow> x + 86400 = T \<and> y - 1 = D" "\<not> x < 0 \<Longrightarrow> x = T \<and> y = D" "to_int32 D = D" "to_int32 (D + 2440588) = D + 2440588"
  shows "toUtcTime s yd = (let ymd = yearMonthDay (Date_jdn (D + 2440588)) in
     \<lparr>tm_sec = T mod 60, tm_min = T div 60 mod 60, tm_hour = T div 60 div 60,
      tm_mday = day ymd, tm_mon = month ymd - 1, tm_year = year ymd - 1900,
      tm_wday = weekDay (Date_jdn (D + 2440588)),
      tm_yday = (if yd then D + 2440588 - julianDayNumber (Date_ymd (year ymd) 1 1) else 0),
      tm_isdst = False, tm_gmtoff = 0, tm_zone = ''GMT''\<rparr>)"
proof -
  have P: "(if x < 0 then (x + 86400, to_int32 (y - 1)) else (x, y)) = (T, D)" using assms(3,4,5) by simp
  have K: "kSecondsPerDay = 86400" by (simp add: kSecondsPerDay_def)
  show ?thesis
    unfolding toUtcTime_def Let_def K epoch_jdn assms(1,2) P prod.case assms(6)
    by (simp add: fillHMS_def zero_tm_def Date_jdn_def Let_def)
qed

lemma toUtcTime_split:
  assumes "utc_range s"
  shows "toUtcTime s yd = (let ymd = yearMonthDay (Date_jdn (s div 86400 + 2440588)) in
     \<lparr>tm_sec = s mod 86400 mod 60, tm_min = s mod 86400 div 60 mod 60, tm_hour = s mod 86400 div 60 div 60,
      tm_mday = day ymd, tm_mon = month ymd - 1, tm_year = year ymd - 1900,
      tm_wday = weekDay (Date_jdn (s div 86400 + 2440588)),
      tm_yday = (if yd then s div 86400 + 2440588 - julianDayNumber (Date_ymd (year ymd) 1 1) else 0),
      tm_isdst = False, tm_gmtoff = 0, tm_zone = ''GMT''\<rparr>)"
proof -
  have m: "\<bar>c_mod s 86400\<bar> < 86400" by (rule c_mod_bound) simp
  have r: "- 2472632 \<le> s div 86400" "s div 86400 < 534000000" using assms by (simp_all add: utc_range_def)
  have tm: "to_int32 (c_mod s 86400) = c_mod s 86400" using m by (intro to_int32_id) simp_all
  have neg: "c_mod s 86400 < 0 \<Longrightarrow> c_mod s 86400 + 86400 = s mod 86400 \<and> c_div s 86400 - 1 = s div 86400"
    and pos: "\<not> c_mod s 86400 < 0 \<Longrightarrow> c_mod s 86400 = s mod 86400 \<and> c_div s 86400 = s div 86400"
    using c_split [of 86400 s] by (simp_all add: not_less)
  obtain D where D: "s div 86400 = D" by simp
  have "c_div s 86400 = D \<or> c_div s 86400 = D + 1"
    using neg pos unfolding D by (metis diff_add_cancel)
  then have "to_int32 (c_div s 86400) = c_div s 86400"
    using r unfolding D by (intro to_int32_id) auto
  moreover have "to_int32 (s div 86400) = s div 86400" "to_int32 (s div 86400 + 2440588) = s div 86400 + 2440588"
    using r unfolding D by simp_all
  ultimately show ?thesis using toUtcTime_tail [OF tm _ neg pos] by blast
qed

text \<open>C27: Breaking a time down to UTC fields and back is the identity, for times before 1970 as
  well, and the clock fields stay in their documented ranges.\<close>

theorem utc_roundtrip:
  assumes "utc_range s"
  shows "fromUtcTime_tm (toUtcTime s yd) = s
     \<and> tm_sec (toUtcTime s yd) \<in> {0..59} \<and> tm_min (toUtcTime s yd) \<in> {0..59}
     \<and> tm_hour (toUtcTime s yd) \<in> {0..23} \<and> tm_mon (toUtcTime s yd) \<in> {0..11}"
proof -
  define n where "n = s div 86400 + 2440588"
  define t where "t = s mod 86400"
  have n: "- 32044 \<le> n" "n \<le> 536838867" using assms by (simp_all add: n_def utc_range_def)
  from date_of_day_number_lemma [OF n] obtain v: "valid_ymd (date_year (Date_jdn n)) (date_month (Date_jdn n)) (date_day (Date_jdn n))"
    and d: "Date_ymd (date_year (Date_jdn n)) (date_month (Date_jdn n)) (date_day (Date_jdn n)) = Date_jdn n" by blast
  have t: "0 \<le> t" "t < 86400" by (simp_all add: t_def)
  have hms: "t div 60 div 60 * 3600 + t div 60 mod 60 * 60 + t mod 60 = t"
    using mult_div_mod_eq [of 60 t] mult_div_mod_eq [of 60 "t div 60"] by linarith
  have range: "t mod 60 \<le> 59" "t div 60 mod 60 \<le> 59" "0 \<le> t div 60 div 60" "t div 60 div 60 \<le> 23"
    using t by (auto simp: pos_imp_zdiv_nonneg_iff)
  have s: "s = s div 86400 * 86400 + t" by (simp add: t_def)
  note fields = toUtcTime_split [OF assms, of yd, folded n_def t_def, unfolded Let_def]
  have jd: "getJulianDayNumber (date_year (Date_jdn n)) (date_month (Date_jdn n)) (date_day (Date_jdn n)) = n"
    using d by (simp add: Date_ymd_def Date_jdn_def)
  have small: "to_int32 (n - 2440588) = n - 2440588" "to_int32 t = t" using n t by simp_all
  have "fromUtcTime_tm (toUtcTime s yd) = to_int32 (n - 2440588) * 86400
      + to_int32 (t div 60 div 60 * 3600 + t div 60 mod 60 * 60 + t mod 60)"
    using jd by (simp add: fields fromUtcTime_tm_def fromUtcTime_def Let_def kSecondsPerDay_def epoch_jdn
        Date_ymd_def date_year_def date_month_def date_day_def)
  also note hms
  also note small(1)
  also note small(2)
  also have "n - 2440588 = s div 86400" by (simp add: n_def)
  also note s [symmetric]
  finally have "fromUtcTime_tm (toUtcTime s yd) = s" .
  moreover have "tm_mon (toUtcTime s yd) \<in> {0..11}"
    using v by (simp add: fields valid_ymd_def date_month_def)
  moreover have "0 \<le> t mod 60" "0 \<le> t div 60 mod 60" by simp_all
  moreover have "tm_sec (toUtcTime s yd) = t mod 60" "tm_min (toUtcTime s yd) = t div 60 mod 60"
    "tm_hour (toUtcTime s yd) = t div 60 div 60" by (simp_all add: fields)
  ultimately show ?thesis using range by (simp only: atLeastAtMost_iff)
qed

theorem utc_roundtrip_witness:
  "fromUtcTime_tm (toUtcTime (-1) False) = -1
     \<and> tm_sec (toUtcTime (-1) False) \<in> {0..59} \<and> tm_min (toUtcTime (-1) False) \<in> {0..59}
     \<and> tm_hour (toUtcTime (-1) False) \<in> {0..23} \<and> tm_mon (toUtcTime (-1) False) \<in> {0..11}"
  by (rule utc_roundtrip) (simp add: utc_range_def)

subsection \<open>Time zones\<close>

record transition =
  gmttime :: int
  trans_localtime :: int
  localtimeIdx :: int

record tz_localtime =
  gmtOffset :: int
  isDst :: bool
  arrbIdx :: int

record tz_data =
  transitions :: "transition list"
  localtimes :: "tz_localtime list"
  names :: "string list"
  tz_abbreviation :: string

definition empty_tz :: tz_data where
  "empty_tz = \<lparr>transitions = [], localtimes = [], names = [], tz_abbreviation = []\<rparr>"

text \<open>\<open>Comp(compareGmt)\<close> and \<open>Comp::equal\<close>.\<close>

definition comp_less :: "bool \<Rightarrow> transition \<Rightarrow> transition \<Rightarrow> bool" where
  "comp_less compareGmt lhs rhs =
     (if compareGmt then gmttime lhs < gmttime rhs else trans_localtime lhs < trans_localtime rhs)"

definition comp_equal :: "bool \<Rightarrow> transition \<Rightarrow> transition \<Rightarrow> bool" where
  "comp_equal compareGmt lhs rhs =
     (if compareGmt then gmttime lhs = gmttime rhs else trans_localtime lhs = trans_localtime rhs)"

text \<open>\<open>v[i]\<close> with a signed index; outside of the vector the behaviour is undefined.\<close>

definition vec_at :: "'a list \<Rightarrow> int \<Rightarrow> 'a option" where
  "vec_at xs i = assert_then (0 \<le> i \<and> i < int (length xs)) (Some (xs ! nat i))"

definition std_lower_bound :: "('a \<Rightarrow> 'b \<Rightarrow> bool) \<Rightarrow> 'a list \<Rightarrow> 'b \<Rightarrow> nat" where
  "std_lower_bound lt xs v = find_index (\<lambda>x. \<not> lt x v) xs"

definition findLocaltime :: "tz_data \<Rightarrow> transition \<Rightarrow> bool \<Rightarrow> tz_localtime option" where
  "findLocaltime data sentry cmp =
     (if transitions data = [] \<or> comp_less cmp sentry (hd (transitions data))
      then vec_at (localtimes data) 0
      else let transI = std_lower_bound (comp_less cmp) (transitions data) sentry
           in if transI \<noteq> length (transitions data)
              then if \<not> comp_equal cmp sentry (transitions data ! transI)
                   then assert_then (transI \<noteq> 0)
                          (vec_at (localtimes data) (localtimeIdx (transitions data ! (transI - 1))))
                   else vec_at (localtimes data) (localtimeIdx (transitions data ! transI))
              else vec_at (localtimes data) (localtimeIdx (last (transitions data))))"

text \<open>\<open>data_\<close>: null, or the zone data.\<close>

record time_zone =
  tz_ptr :: "tz_data option"

definition TimeZone_default :: time_zone where
  "TimeZone_default = \<lparr>tz_ptr = None\<rparr>"

definition TimeZone_fixed :: "int \<Rightarrow> string \<Rightarrow> time_zone" where
  "TimeZone_fixed eastOfUtc name =
     \<lparr>tz_ptr = Some (empty_tz\<lparr>localtimes := [\<lparr>gmtOffset = eastOfUtc, isDst = False, arrbIdx = 0\<rparr>],
                            tz_abbreviation := name\<rparr>)\<rparr>"

definition timezone_valid :: "time_zone \<Rightarrow> bool" where
  "timezone_valid z \<longleftrightarrow> tz_ptr z \<noteq> None"

text \<open>The C library: \<open>gmtime_r\<close> breaks down, \<open>timegm\<close> normalises the month and adds up.\<close>

definition gmtime_r :: "int \<Rightarrow> tm" where
  "gmtime_r s =
     (let n = s div 86400 + 2440588; t = s mod 86400; ymd = civil_ymd n
      in zero_tm\<lparr>tm_sec := t mod 60, tm_min := t div 60 mod 60, tm_hour := t div 3600,
            tm_mday := day ymd, tm_mon := month ymd - 1, tm_year := year ymd - 1900,
            tm_wday := (n + 1) mod 7, tm_yday := n - civil_jdn (year ymd) 1 1,
            tm_zone := ''GMT''\<rparr>)"

definition timegm :: "tm \<Rightarrow> int" where
  "timegm t =
     (civil_jdn (tm_year t + 1900 + tm_mon t div 12) (tm_mon t mod 12 + 1) 1
        + tm_mday t - 1 - 2440588) * 86400
     + tm_hour t * 3600 + tm_min t * 60 + tm_sec t"

definition toLocalTime :: "time_zone \<Rightarrow> int \<Rightarrow> tm option" where
  "toLocalTime z seconds =
     do { data \<leftarrow> tz_ptr z;
          local \<leftarrow> findLocaltime data \<lparr>gmttime = seconds, trans_localtime = 0, localtimeIdx = 0\<rparr> True;
          let localTime = gmtime_r (seconds + gmtOffset local);
          assert_then (0 \<le> arrbIdx local \<and> arrbIdx local \<le> int (length (tz_abbreviation data)))
            (Some (localTime\<lparr>tm_isdst := isDst local, tm_gmtoff := gmtOffset local,
                     tm_zone := takeWhile (\<lambda>c. c \<noteq> CHR 0x00) (drop (nat (arrbIdx local)) (tz_abbreviation data))\<rparr>)) }"

definition fromLocalTime :: "time_zone \<Rightarrow> tm \<Rightarrow> int option" where
  "fromLocalTime z localTm =
     do { data \<leftarrow> tz_ptr z;
          let seconds = timegm localTm;
          local \<leftarrow> findLocaltime data \<lparr>gmttime = 0, trans_localtime = seconds, localtimeIdx = 0\<rparr> False;
          if tm_isdst localTm
          then do { tryTm \<leftarrow> toLocalTime z (seconds - gmtOffset local);
                    let seconds = (if \<not> tm_isdst tryTm \<and> tm_hour tryTm = tm_hour localTm
                                      \<and> tm_min tryTm = tm_min localTm
                                   then seconds - 3600 else seconds);
                    Some (seconds - gmtOffset local) }
          else Some (seconds - gmtOffset local) }"

definition trans_key :: "bool \<Rightarrow> transition \<Rightarrow> int" where
  "trans_key compareGmt t = (if compareGmt then gmttime t else trans_localtime t)"

lemma comp_key:
  "comp_less c a b = (trans_key c a < trans_key c b)" "comp_equal c a b = (trans_key c a = trans_key c b)"
  by (simp_all add: comp_less_def comp_equal_def trans_key_def)

lemma comp_fun: "comp_less c = (\<lambda>a b. trans_key c a < trans_key c b)"
  by (intro ext) (simp add: comp_key)

lemma filter_le_lower_bound:
  fixes f :: "'a \<Rightarrow> 'b::linorder"
  assumes "sorted_wrt (\<lambda>a b. f a < f b) xs"
  shows "filter (\<lambda>x. \<not> v < f x) xs =
     (let k = find_index (\<lambda>x. \<not> f x < v) xs
      in take (if k < length xs \<and> f (xs ! k) = v then Suc k else k) xs)"
  using assms
proof (induction xs)
  case (Cons x xs)
  show ?case
  proof (cases "f x < v")
    case True
    with Cons show ?thesis by (auto simp: Let_def)
  next
    case False
    then have "filter (\<lambda>x. \<not> v < f x) xs = []"
      using Cons.prems by (fastforce simp: filter_empty_conv)
    with False show ?thesis by (auto simp: Let_def)
  qed
qed simp

text \<open>\<open>findLocaltime\<close> picks the local time type of the last transition that is not after the
  sentry, and the first local time type when every transition is after it. Its assertion never fails:
  \<open>None\<close> only means a type index outside of the table.\<close>

theorem findLocaltime_correct:
  assumes "sorted_wrt (comp_less c) (transitions d)"
  shows "findLocaltime d s c = vec_at (localtimes d)
     (case filter (\<lambda>t. \<not> comp_less c s t) (transitions d) of [] \<Rightarrow> 0 | t # ts \<Rightarrow> localtimeIdx (last (t # ts)))"
proof (cases "transitions d = [] \<or> comp_less c s (hd (transitions d))")
  case True
  moreover have "filter (\<lambda>t. \<not> comp_less c s t) (transitions d) = []"
  proof (cases "transitions d")
    case (Cons t ts)
    with True assms show ?thesis
      by (auto simp: filter_empty_conv comp_key)
  qed simp
  ultimately show ?thesis by (auto simp: findLocaltime_def)
next
  case False
  define k where "k = std_lower_bound (comp_less c) (transitions d) s"
  have kf: "k = find_index (\<lambda>t. \<not> trans_key c t < trans_key c s) (transitions d)"
    by (simp add: k_def std_lower_bound_def comp_key)
  have kle: "k \<le> length (transitions d)" by (simp add: kf)
  have flt: "filter (\<lambda>t. \<not> comp_less c s t) (transitions d) =
      take (if k < length (transitions d) \<and> trans_key c (transitions d ! k) = trans_key c s then Suc k else k)
        (transitions d)"
    using filter_le_lower_bound [of "trans_key c" "transitions d" "trans_key c s"] assms
    unfolding comp_fun kf Let_def by simp
  have hit: "\<not> trans_key c (transitions d ! k) < trans_key c s" if "k < length (transitions d)"
    using find_index_nth that unfolding kf by blast
  have first: "k = 0 \<Longrightarrow> trans_key c (transitions d ! 0) = trans_key c s"
    using False hit by (cases "transitions d") (auto simp: comp_key not_less)
  have last: "(case take n (transitions d) of [] \<Rightarrow> 0 | t # ts \<Rightarrow> localtimeIdx (last (t # ts)))
        = localtimeIdx (transitions d ! (n - 1))" if n: "n \<noteq> 0" "n \<le> length (transitions d)" for n
  proof -
    have ne: "take n (transitions d) \<noteq> []" using n by (cases "transitions d") auto
    then have "last (take n (transitions d)) = transitions d ! (n - 1)"
      using n by (simp add: last_conv_nth min_absorb2)
    with ne show ?thesis by (cases "take n (transitions d)") auto
  qed
  have unfold: "findLocaltime d s c = (if k \<noteq> length (transitions d)
      then if \<not> comp_equal c s (transitions d ! k)
           then assert_then (k \<noteq> 0) (vec_at (localtimes d) (localtimeIdx (transitions d ! (k - 1))))
           else vec_at (localtimes d) (localtimeIdx (transitions d ! k))
      else vec_at (localtimes d) (localtimeIdx (last (transitions d))))"
    using False by (simp add: findLocaltime_def k_def Let_def)
  consider (all) "k = length (transitions d)"
    | (eq) "k < length (transitions d)" "trans_key c (transitions d ! k) = trans_key c s"
    | (less) "k < length (transitions d)" "trans_key c (transitions d ! k) \<noteq> trans_key c s" "k \<noteq> 0"
    using kle first by (metis le_neq_implies_less)
  then show ?thesis
  proof cases
    case all
    then show ?thesis
      using False last [of k] unfolding unfold flt by (simp add: last_conv_nth)
  next
    case eq
    then show ?thesis
      using last [of "Suc k"] unfolding unfold flt by (simp add: comp_key)
  next
    case less
    then show ?thesis
      using last [of k] unfolding unfold flt by (simp add: comp_key)
  qed
qed

definition sample_zone :: tz_data where
  "sample_zone = \<lparr>transitions = [\<lparr>gmttime = 100, trans_localtime = 110, localtimeIdx = 1\<rparr>,
                                 \<lparr>gmttime = 200, trans_localtime = 205, localtimeIdx = 0\<rparr>],
     localtimes = [\<lparr>gmtOffset = 5, isDst = False, arrbIdx = 0\<rparr>, \<lparr>gmtOffset = 10, isDst = True, arrbIdx = 4\<rparr>],
     names = [], tz_abbreviation = ''XST''\<rparr>"

theorem findLocaltime_correct_witness:
  "findLocaltime sample_zone \<lparr>gmttime = 150, trans_localtime = 0, localtimeIdx = 0\<rparr> True
     = Some \<lparr>gmtOffset = 10, isDst = True, arrbIdx = 4\<rparr>"
  by (subst findLocaltime_correct) (simp_all add: comp_less_def vec_at_def sample_zone_def)

subsection \<open>Reading a zone file\<close>

text \<open>
  \<open>File\<close> is the unread bytes of the file. A read that comes up short throws \<open>logic_error\<close>.
  The handler around the parser prints it and falls through to \<open>return true\<close>; what the parser has
  stored in \<open>data\<close> by then stays there. \<open>None\<close> is undefined behaviour (a negative array size, an
  index outside of \<open>data->localtimes\<close>).
\<close>

datatype logic_error = no_enough_data | bad_int32_t_data | bad_uint8_t_data | bad_head | reserve_length_error

type_synonym tz_file = bytes

definition file_readBytes :: "int \<Rightarrow> tz_file \<Rightarrow> (logic_error + bytes \<times> tz_file) option" where
  "file_readBytes n f = assert_then (0 \<le> n)
     (Some (if int (length f) < n then Inl no_enough_data else Inr (take (nat n) f, drop (nat n) f)))"

definition file_readInt32 :: "tz_file \<Rightarrow> logic_error + int \<times> tz_file" where
  "file_readInt32 f =
     (if length f < 4 then Inl bad_int32_t_data
      else Inr (sint (networkToHost32 (load_mem (take 4 f))), drop 4 f))"

definition file_readUInt8 :: "tz_file \<Rightarrow> logic_error + int \<times> tz_file" where
  "file_readUInt8 f =
     (case f of [] \<Rightarrow> Inl bad_uint8_t_data | c # f' \<Rightarrow> Inr (of_char c, f'))"

fun read_n :: "nat \<Rightarrow> (tz_file \<Rightarrow> logic_error + int \<times> tz_file) \<Rightarrow> tz_file \<Rightarrow> logic_error + int list \<times> tz_file" where
  "read_n 0 rd f = Inr ([], f)"
| "read_n (Suc k) rd f =
     (case rd f of Inl e \<Rightarrow> Inl e
      | Inr (x, f) \<Rightarrow> (case read_n k rd f of Inl e \<Rightarrow> Inl e | Inr (xs, f) \<Rightarrow> Inr (x # xs, f)))"

text \<open>The loop over the local time types stores each as it is read.\<close>

fun read_types :: "nat \<Rightarrow> tz_file \<Rightarrow> tz_data \<Rightarrow> (logic_error + tz_file) \<times> tz_data" where
  "read_types 0 f data = (Inr f, data)"
| "read_types (Suc k) f data =
     (case file_readInt32 f of Inl e \<Rightarrow> (Inl e, data)
      | Inr (gmtoff, f) \<Rightarrow>
     (case file_readUInt8 f of Inl e \<Rightarrow> (Inl e, data)
      | Inr (isdst, f) \<Rightarrow>
     (case file_readUInt8 f of Inl e \<Rightarrow> (Inl e, data)
      | Inr (abbrind, f) \<Rightarrow>
          read_types k f (data\<lparr>localtimes := localtimes data
             @ [\<lparr>gmtOffset = gmtoff, isDst = isdst \<noteq> 0, arrbIdx = abbrind\<rparr>]\<rparr>))))"

fun push_transitions :: "int list \<Rightarrow> int list \<Rightarrow> tz_data \<Rightarrow> tz_data option" where
  "push_transitions (t # ts) (localIdx # ls) data =
     do { lt \<leftarrow> vec_at (localtimes data) localIdx;
          push_transitions ts ls (data\<lparr>transitions := transitions data
            @ [\<lparr>gmttime = t, trans_localtime = t + gmtOffset lt, localtimeIdx = localIdx\<rparr>]\<rparr>) }"
| "push_transitions _ _ data = Some data"

text \<open>The part of the parser after the six counts.\<close>

definition read_body :: "int \<Rightarrow> int \<Rightarrow> int \<Rightarrow> tz_file \<Rightarrow> tz_data \<Rightarrow> ((logic_error + tz_file) \<times> tz_data) option" where
  "read_body timecnt typecnt charcnt f data =
     (if timecnt < 0 then Some (Inl reserve_length_error, data) else
      case read_n (nat timecnt) file_readInt32 f of Inl e \<Rightarrow> Some (Inl e, data)
      | Inr (tms, f) \<Rightarrow>
     (case read_n (nat timecnt) file_readUInt8 f of Inl e \<Rightarrow> Some (Inl e, data)
      | Inr (idxs, f) \<Rightarrow>
     (case read_types (nat typecnt) f data of (Inl e, data) \<Rightarrow> Some (Inl e, data)
      | (Inr f, data) \<Rightarrow>
          do { data \<leftarrow> push_transitions tms idxs data;
               r \<leftarrow> file_readBytes charcnt f;
               Some (case r of Inl e \<Rightarrow> (Inl e, data)
                     | Inr (s, f) \<Rightarrow> (Inr f, data\<lparr>tz_abbreviation := s\<rparr>)) })))"

definition read_zone :: "tz_file \<Rightarrow> tz_data \<Rightarrow> ((logic_error + tz_file) \<times> tz_data) option" where
  "read_zone f data =
     do { r \<leftarrow> file_readBytes 4 f;
          case r of Inl e \<Rightarrow> Some (Inl e, data)
          | Inr (head, f) \<Rightarrow>
            if head \<noteq> ''TZif'' then Some (Inl bad_head, data)
            else do {
              r \<leftarrow> file_readBytes 1 f;
              case r of Inl e \<Rightarrow> Some (Inl e, data)
              | Inr (version, f) \<Rightarrow> do {
                  r \<leftarrow> file_readBytes 15 f;
                  case r of Inl e \<Rightarrow> Some (Inl e, data)
                  | Inr (reserved, f) \<Rightarrow>
                     (case read_n 6 file_readInt32 f of Inl e \<Rightarrow> Some (Inl e, data)
                      | Inr (cnt, f) \<Rightarrow> read_body (cnt ! 3) (cnt ! 4) (cnt ! 5) f data) } } }"

text \<open>The result of the function and the data it leaves; \<open>None\<close> as file when it cannot be opened.\<close>

definition readTimeZoneFile :: "bytes option \<Rightarrow> tz_data \<Rightarrow> (bool \<times> tz_data) option" where
  "readTimeZoneFile zonefile data =
     (case zonefile of None \<Rightarrow> Some (True, data)
      | Some f \<Rightarrow> do { (r, data) \<leftarrow> read_zone f data; Some (True, data) })"

definition TimeZone_file :: "bytes option \<Rightarrow> time_zone option" where
  "TimeZone_file zonefile =
     do { (ok, data) \<leftarrow> readTimeZoneFile zonefile empty_tz;
          Some \<lparr>tz_ptr = (if ok then Some data else None)\<rparr> }"

text \<open>A file that cannot be opened, or is not a zone file, still gives a \<open>valid()\<close> zone, and every
  conversion with it reads the first element of an empty vector.\<close>

lemma bad_zone_file_is_valid:
  "TimeZone_file None = Some \<lparr>tz_ptr = Some empty_tz\<rparr>"
  "TimeZone_file (Some ''garbage'') = Some \<lparr>tz_ptr = Some empty_tz\<rparr>"
  by (simp_all add: TimeZone_file_def readTimeZoneFile_def read_zone_def file_readBytes_def)

lemma empty_zone_conversion_undefined:
  "toLocalTime \<lparr>tz_ptr = Some empty_tz\<rparr> s = None" "fromLocalTime \<lparr>tz_ptr = Some empty_tz\<rparr> t = None"
  by (simp_all add: toLocalTime_def fromLocalTime_def findLocaltime_def empty_tz_def vec_at_def)

lemma missing_zone_file_valid:
  "TimeZone_file None = Some z \<Longrightarrow> timezone_valid z \<and> toLocalTime z s = None"
  using bad_zone_file_is_valid(1) empty_zone_conversion_undefined(1)
  by (auto simp: timezone_valid_def)

end
