(* ===== verification/Net_Timer.thy ===== *)
theory Net_Timer
  imports Base_Time "HOL-Library.Product_Lexorder"
begin

section \<open>Timers: \<open>net/Timer.h\<close>, \<open>net/TimerId.h\<close>, \<open>net/TimerQueue.cc\<close>\<close>

text \<open>
  Timers are heap objects named by their address; \<open>heap\<close> maps the allocated addresses to timers, and
  using any other address is undefined (\<open>None\<close>). \<open>std::set<Entry>\<close> is its strictly ascending list of
  elements, the two sets used for cancelling are HOL sets. The allocator behind \<open>new\<close> is an argument
  (\<open>alloc\<close>) that picks an address from the current heap. Everything here runs in the loop's thread
  (\<open>runInLoop\<close> has handed it over); a user callback is the list of \<open>addTimer\<close> and \<open>cancel\<close> calls it
  makes. The state of the \<open>timerfd\<close> is what the last \<open>timerfd_settime\<close> stored, with its time.
\<close>

type_synonym taddr = nat

record timer =
  callback_id :: nat
  expiration :: timestamp
  interval_us :: int
  repeat :: bool
  sequence :: int

record timespec =
  tv_sec :: int
  tv_nsec :: int

record timer_queue =
  theap :: "taddr \<Rightarrow> timer option"
  numCreated :: int
  timers :: "(timestamp \<times> taddr) list"
  activeTimers :: "(taddr \<times> int) set"
  callingExpiredTimers :: bool
  cancelingTimers :: "(taddr \<times> int) set"
  timerfd :: "(timestamp \<times> timespec) option"

definition mk_timer_queue :: timer_queue where
  "mk_timer_queue = \<lparr>theap = (\<lambda>_. None), numCreated = 0, timers = [], activeTimers = {},
     callingExpiredTimers = False, cancelingTimers = {}, timerfd = None\<rparr>"

definition mk_timer :: "nat \<Rightarrow> timestamp \<Rightarrow> int \<Rightarrow> bool \<Rightarrow> int \<Rightarrow> timer" where
  "mk_timer cb when ival positive seq = \<lparr>callback_id = cb, expiration = when, interval_us = ival,
     repeat = positive, sequence = seq\<rparr>"

definition timer_restart :: "timestamp \<Rightarrow> timer \<Rightarrow> timer" where
  "timer_restart now t =
     (if repeat t then t\<lparr>expiration := addTime now (interval_us t)\<rparr>
      else t\<lparr>expiration := Timestamp_invalid\<rparr>)"

definition howMuchTimeFromNow :: "timestamp \<Rightarrow> timestamp \<Rightarrow> timespec" where
  "howMuchTimeFromNow now when =
     (let microseconds = microSecondsSinceEpoch when - microSecondsSinceEpoch now;
          microseconds = (if microseconds < 100 then 100 else microseconds)
      in \<lparr>tv_sec = c_div microseconds kMicroSecondsPerSecond,
          tv_nsec = c_mod microseconds kMicroSecondsPerSecond * 1000\<rparr>)"

definition resetTimerfd :: "timestamp \<Rightarrow> timestamp \<Rightarrow> timer_queue \<Rightarrow> timer_queue" where
  "resetTimerfd now expir q = q\<lparr>timerfd := Some (now, howMuchTimeFromNow now expir)\<rparr>"

definition sizes_equal :: "timer_queue \<Rightarrow> bool" where
  "sizes_equal q \<longleftrightarrow> length (timers q) = card (activeTimers q)"

text \<open>\<open>timers_.insert\<close> of an absent element.\<close>

definition insert_timer :: "taddr \<Rightarrow> timer_queue \<Rightarrow> (bool \<times> timer_queue) option" where
  "insert_timer a q =
     assert_then (sizes_equal q)
      (do { t \<leftarrow> theap q a;
            let when = expiration t;
            let earliestChanged = (timers q = [] \<or> timestamp_less when (fst (hd (timers q))));
            assert_then ((when, a) \<notin> set (timers q))
             (assert_then ((a, sequence t) \<notin> activeTimers q)
               (let q = q\<lparr>timers := insort (when, a) (timers q),
                          activeTimers := insert (a, sequence t) (activeTimers q)\<rparr>
                in assert_then (sizes_equal q) (Some (earliestChanged, q)))) })"

definition addTimerInLoop :: "timestamp \<Rightarrow> taddr \<Rightarrow> timer_queue \<Rightarrow> timer_queue option" where
  "addTimerInLoop now a q =
     do { (earliestChanged, q) \<leftarrow> insert_timer a q;
          if earliestChanged
          then do { t \<leftarrow> theap q a; Some (resetTimerfd now (expiration t) q) }
          else Some q }"

text \<open>The caller gets the address and the sequence number as its \<open>TimerId\<close>.\<close>

definition addTimer :: "((taddr \<Rightarrow> timer option) \<Rightarrow> taddr) \<Rightarrow> timestamp \<Rightarrow> nat \<Rightarrow> timestamp \<Rightarrow> int \<Rightarrow> bool \<Rightarrow> timer_queue
    \<Rightarrow> (timer_queue \<times> (taddr \<times> int)) option" where
  "addTimer alloc now cb when ival positive q =
     (let a = alloc (theap q);
          seq = numCreated q + 1;
          q = q\<lparr>numCreated := seq, theap := (theap q)(a := Some (mk_timer cb when ival positive seq))\<rparr>
      in do { q \<leftarrow> addTimerInLoop now a q; Some (q, (a, seq)) })"

definition cancelInLoop :: "taddr \<times> int \<Rightarrow> timer_queue \<Rightarrow> timer_queue option" where
  "cancelInLoop tid q =
     assert_then (sizes_equal q)
      (if tid \<in> activeTimers q then
         do { t \<leftarrow> theap q (fst tid);
              assert_then ((expiration t, fst tid) \<in> set (timers q))
               (let q = q\<lparr>timers := remove1 (expiration t, fst tid) (timers q),
                          theap := (theap q)(fst tid := None),
                          activeTimers := activeTimers q - {tid}\<rparr>
                in assert_then (sizes_equal q) (Some q)) }
       else if callingExpiredTimers q
            then Some (q\<lparr>cancelingTimers := insert tid (cancelingTimers q)\<rparr>)
            else Some q)"

text \<open>The loop that takes the expired timers out of \<open>activeTimers_\<close>.\<close>

fun erase_active :: "(timestamp \<times> taddr) list \<Rightarrow> timer_queue \<Rightarrow> timer_queue option" where
  "erase_active [] q = Some q"
| "erase_active ((w, a) # es) q =
     do { t \<leftarrow> theap q a;
          assert_then ((a, sequence t) \<in> activeTimers q)
            (erase_active es (q\<lparr>activeTimers := activeTimers q - {(a, sequence t)}\<rparr>)) }"

text \<open>\<open>entry < sentry\<close> for the sentry \<open>(now, UINTPTR_MAX)\<close>: no object has that address, every address
  is below it.\<close>

definition before_sentry :: "timestamp \<times> taddr \<Rightarrow> timestamp \<Rightarrow> bool" where
  "before_sentry e now \<longleftrightarrow> timestamp_less (fst e) now \<or> timestamp_eq (fst e) now"

definition getExpired :: "timestamp \<Rightarrow> timer_queue \<Rightarrow> ((timestamp \<times> taddr) list \<times> timer_queue) option" where
  "getExpired now q =
     assert_then (sizes_equal q)
      (let k = std_lower_bound before_sentry (timers q) now
       in assert_then (k = length (timers q) \<or> timestamp_less now (fst (timers q ! k)))
          (let expired = take k (timers q);
               q = q\<lparr>timers := drop k (timers q)\<rparr>
           in do { q \<leftarrow> erase_active expired q;
                   assert_then (sizes_equal q) (Some (expired, q)) }))"

fun reset_loop :: "timestamp \<Rightarrow> (timestamp \<times> taddr) list \<Rightarrow> timer_queue \<Rightarrow> timer_queue option" where
  "reset_loop now [] q = Some q"
| "reset_loop now ((w, a) # es) q =
     do { t \<leftarrow> theap q a;
          if repeat t \<and> (a, sequence t) \<notin> cancelingTimers q
          then do { (b, q) \<leftarrow> insert_timer a (q\<lparr>theap := (theap q)(a := Some (timer_restart now t))\<rparr>);
                    reset_loop now es q }
          else reset_loop now es (q\<lparr>theap := (theap q)(a := None)\<rparr>) }"

text \<open>\<open>now'\<close> is the time \<open>howMuchTimeFromNow\<close> reads, later than \<open>now\<close>.\<close>

definition reset_expired :: "timestamp \<Rightarrow> timestamp \<Rightarrow> (timestamp \<times> taddr) list \<Rightarrow> timer_queue \<Rightarrow> timer_queue option" where
  "reset_expired now now' expired q =
     do { q \<leftarrow> reset_loop now expired q;
          nextExpire \<leftarrow> (case timers q of [] \<Rightarrow> Some Timestamp_default
                        | (w, a) # _ \<Rightarrow> map_option expiration (theap q a));
          Some (if timestamp_valid nextExpire then resetTimerfd now' nextExpire q else q) }"

text \<open>What a callback may do with the queue, and a run of callbacks.\<close>

datatype timer_action = Act_add nat timestamp int bool | Act_cancel "taddr \<times> int"

fun do_action :: "((taddr \<Rightarrow> timer option) \<Rightarrow> taddr) \<Rightarrow> timestamp \<Rightarrow> timer_action \<Rightarrow> timer_queue \<Rightarrow> timer_queue option" where
  "do_action alloc now (Act_add cb when ival positive) q = map_option fst (addTimer alloc now cb when ival positive q)"
| "do_action alloc now (Act_cancel tid) q = cancelInLoop tid q"

fun do_actions :: "((taddr \<Rightarrow> timer option) \<Rightarrow> taddr) \<Rightarrow> timestamp \<Rightarrow> timer_action list \<Rightarrow> timer_queue \<Rightarrow> timer_queue option" where
  "do_actions alloc now [] q = Some q"
| "do_actions alloc now (x # xs) q = do { q \<leftarrow> do_action alloc now x q; do_actions alloc now xs q }"

fun run_expired :: "((taddr \<Rightarrow> timer option) \<Rightarrow> taddr) \<Rightarrow> timestamp \<Rightarrow> timer_action list list \<Rightarrow> (timestamp \<times> taddr) list \<Rightarrow> timer_queue
    \<Rightarrow> (timer_queue \<times> nat list) option" where
  "run_expired alloc now acts [] q = Some (q, [])"
| "run_expired alloc now acts ((w, a) # es) q =
     do { t \<leftarrow> theap q a;
          q \<leftarrow> do_actions alloc now (case acts of [] \<Rightarrow> [] | x # _ \<Rightarrow> x) q;
          (q, ran) \<leftarrow> run_expired alloc now (tl acts) es q;
          Some (q, callback_id t # ran) }"

text \<open>The timer that fired was a one-shot timer: it is disarmed now.\<close>

definition readTimerfd :: "timer_queue \<Rightarrow> timer_queue" where
  "readTimerfd q = q\<lparr>timerfd := None\<rparr>"

text \<open>\<open>acts\<close>: what each callback run does, in order. The result lists the callbacks that ran.\<close>

definition tq_handleRead :: "((taddr \<Rightarrow> timer option) \<Rightarrow> taddr) \<Rightarrow> timestamp \<Rightarrow> timestamp \<Rightarrow> timer_action list list \<Rightarrow> timer_queue
    \<Rightarrow> (timer_queue \<times> nat list) option" where
  "tq_handleRead alloc now now' acts q =
     do { (expired, q) \<leftarrow> getExpired now (readTimerfd q);
          (q, ran) \<leftarrow> run_expired alloc now' acts expired (q\<lparr>callingExpiredTimers := True, cancelingTimers := {}\<rparr>);
          q \<leftarrow> reset_expired now now' expired (q\<lparr>callingExpiredTimers := False\<rparr>);
          Some (q, ran) }"

subsection \<open>The invariant of the queue\<close>

definition tq_inv :: "timer_queue \<Rightarrow> bool" where
  "tq_inv q \<longleftrightarrow> sorted_wrt (<) (timers q) \<and> finite (dom (theap q))
     \<and> (\<forall>(w, a) \<in> set (timers q). \<exists>t. theap q a = Some t \<and> expiration t = w)
     \<and> activeTimers q = (\<lambda>(w, a). (a, sequence (the (theap q a)))) ` set (timers q)
     \<and> (\<forall>a t. theap q a = Some t \<longrightarrow> sequence t \<le> numCreated q \<and> (repeat t \<longrightarrow> 0 \<le> interval_us t))
     \<and> (\<forall>a b t u. theap q a = Some t \<longrightarrow> theap q b = Some u \<longrightarrow> sequence t = sequence u \<longrightarrow> a = b)"

lemma tq_invD:
  assumes "tq_inv q"
  shows "sorted_wrt (<) (timers q)" "finite (dom (theap q))"
    "(w, a) \<in> set (timers q) \<Longrightarrow> \<exists>t. theap q a = Some t \<and> expiration t = w"
    "activeTimers q = (\<lambda>(w, a). (a, sequence (the (theap q a)))) ` set (timers q)"
    "theap q a = Some t \<Longrightarrow> sequence t \<le> numCreated q"
    "theap q a = Some t \<Longrightarrow> repeat t \<Longrightarrow> 0 \<le> interval_us t"
    "theap q a = Some t \<Longrightarrow> theap q b = Some u \<Longrightarrow> sequence t = sequence u \<Longrightarrow> a = b"
  using assms unfolding tq_inv_def by blast+

lemma tq_inv_start: "tq_inv mk_timer_queue"
  by (simp add: tq_inv_def mk_timer_queue_def)

lemma tq_distinct: "tq_inv q \<Longrightarrow> distinct (timers q)"
  using tq_invD(1) strict_sorted_iff by blast

lemma tq_when_unique: "tq_inv q \<Longrightarrow> (v, a) \<in> set (timers q) \<Longrightarrow> (w, a) \<in> set (timers q) \<Longrightarrow> v = w"
  using tq_invD(3) [of q v a] tq_invD(3) [of q w a] by auto

lemma tq_sizes: assumes "tq_inv q" shows "sizes_equal q"
proof -
  have "inj_on (\<lambda>(w, a). (a, sequence (the (theap q a)))) (set (timers q))"
    using tq_when_unique [OF assms] by (auto intro!: inj_onI)
  then have "card (activeTimers q) = card (set (timers q))"
    by (simp add: tq_invD(4) [OF assms] card_image)
  then show ?thesis by (simp add: sizes_equal_def distinct_card tq_distinct [OF assms])
qed

lemma tq_active_iff:
  assumes "tq_inv q"
  shows "(a, s) \<in> activeTimers q \<longleftrightarrow> (\<exists>w t. (w, a) \<in> set (timers q) \<and> theap q a = Some t \<and> sequence t = s)"
  using tq_invD(3) [OF assms] by (force simp: tq_invD(4) [OF assms])

text \<open>Changes of the heap at addresses that are not queued.\<close>

definition queued :: "timer_queue \<Rightarrow> taddr \<Rightarrow> bool" where
  "queued q a \<longleftrightarrow> (\<exists>w. (w, a) \<in> set (timers q))"

lemma tq_inv_heap:
  assumes "tq_inv q" "\<not> queued q a" "sequence t \<le> n" "numCreated q \<le> n" "repeat t \<longrightarrow> 0 \<le> interval_us t"
    and "\<And>b u. b \<noteq> a \<Longrightarrow> theap q b = Some u \<Longrightarrow> sequence u \<noteq> sequence t"
  shows "tq_inv (q\<lparr>numCreated := n, theap := (theap q)(a := Some t)\<rparr>)"
  unfolding tq_inv_def
proof (intro conjI allI impI ballI)
  have na: "(w, b) \<in> set (timers q) \<Longrightarrow> b \<noteq> a" for w b using assms(2) by (auto simp: queued_def)
  have im: "activeTimers q = (\<lambda>(w, b). (b, sequence (the (((theap q)(a := Some t)) b)))) ` set (timers q)"
    unfolding tq_invD(4) [OF assms(1)] by (rule image_cong) (use na in auto)
  show "activeTimers (q\<lparr>numCreated := n, theap := (theap q)(a := Some t)\<rparr>)
      = (\<lambda>(w, b). (b, sequence (the (theap (q\<lparr>numCreated := n, theap := (theap q)(a := Some t)\<rparr>) b))))
        ` set (timers (q\<lparr>numCreated := n, theap := (theap q)(a := Some t)\<rparr>))"
    using im by simp
  show "case e of (w, b) \<Rightarrow> \<exists>u. theap (q\<lparr>numCreated := n, theap := (theap q)(a := Some t)\<rparr>) b = Some u \<and> expiration u = w"
    if "e \<in> set (timers (q\<lparr>numCreated := n, theap := (theap q)(a := Some t)\<rparr>))" for e
    using that na tq_invD(3) [OF assms(1)] by (auto split: prod.splits)
qed (use assms tq_invD(1,2,5,6,7) [OF assms(1)] in \<open>fastforce split: if_splits\<close>)+

lemma tq_inv_free:
  assumes "tq_inv q" "\<not> queued q a"
  shows "tq_inv (q\<lparr>theap := (theap q)(a := None)\<rparr>)"
proof -
  have na: "(w, b) \<in> set (timers q) \<Longrightarrow> b \<noteq> a" for w b using assms(2) by (auto simp: queued_def)
  have "dom ((theap q)(a := None)) \<subseteq> dom (theap q)" by auto
  then have "finite (dom ((theap q)(a := None)))" using tq_invD(2) [OF assms(1)] finite_subset by blast
  moreover have "activeTimers q = (\<lambda>(w, b). (b, sequence (the (((theap q)(a := None)) b)))) ` set (timers q)"
    unfolding tq_invD(4) [OF assms(1)] by (rule image_cong) (use na in auto)
  moreover have "(w, a) \<notin> set (timers q)" for w using na by blast
  ultimately show ?thesis
    using tq_invD(1,3,5,6,7) [OF assms(1)] unfolding tq_inv_def
    by (auto split: if_splits)
qed

lemma tq_inv_flags [simp]:
  "tq_inv (q\<lparr>timerfd := x\<rparr>) = tq_inv q" "tq_inv (q\<lparr>callingExpiredTimers := b\<rparr>) = tq_inv q"
  "tq_inv (q\<lparr>cancelingTimers := c\<rparr>) = tq_inv q"
  by (simp_all add: tq_inv_def)

subsection \<open>Insertion and cancellation\<close>

lemma insert_timer_contract:
  assumes "tq_inv q" "theap q a = Some t" "\<not> queued q a"
  defines "q' \<equiv> q\<lparr>timers := insort (expiration t, a) (timers q), activeTimers := insert (a, sequence t) (activeTimers q)\<rparr>"
  shows "insert_timer a q = Some (timers q = [] \<or> expiration t < fst (hd (timers q)), q') \<and> tq_inv q'"
proof -
  have nin: "(w, a) \<notin> set (timers q)" for w using assms(3) by (auto simp: queued_def)
  have inv: "tq_inv q'"
    unfolding tq_inv_def
  proof (intro conjI)
    show "sorted_wrt (<) (timers q')"
      using tq_invD(1) [OF assms(1)] nin
      by (simp add: q'_def strict_sorted_iff sorted_insort distinct_insort)
  qed (use assms(2) tq_invD [OF assms(1)] in \<open>auto simp: q'_def set_insort_key\<close>)
  have "(a, sequence t) \<notin> activeTimers q"
    using tq_active_iff [OF assms(1)] nin by blast
  with inv nin show ?thesis
    using tq_sizes [OF assms(1)] tq_sizes [OF inv] assms(2)
    by (simp add: insert_timer_def q'_def timestamp_less_iff Let_def)
qed

lemma cancelInLoop_contract:
  assumes "tq_inv q"
  shows "\<exists>q'. cancelInLoop (a, s) q = Some q' \<and> tq_inv q'
     \<and> (if (a, s) \<in> activeTimers q
        then (\<exists>t. theap q a = Some t \<and> sequence t = s \<and> timers q' = remove1 (expiration t, a) (timers q)
               \<and> theap q' = (theap q)(a := None))
             \<and> cancelingTimers q' = cancelingTimers q
        else timers q' = timers q \<and> theap q' = theap q
             \<and> cancelingTimers q' = (if callingExpiredTimers q then insert (a, s) (cancelingTimers q) else cancelingTimers q))
     \<and> timerfd q' = timerfd q \<and> callingExpiredTimers q' = callingExpiredTimers q \<and> numCreated q' = numCreated q"
proof (cases "(a, s) \<in> activeTimers q")
  case False
  then show ?thesis using assms tq_sizes [OF assms] by (simp add: cancelInLoop_def)
next
  case True
  then obtain w t where t: "(w, a) \<in> set (timers q)" "theap q a = Some t" "sequence t = s"
    using tq_active_iff [OF assms] by blast
  then have w: "expiration t = w" using tq_invD(3) [OF assms t(1)] by simp
  define q1 where "q1 = q\<lparr>timers := remove1 (w, a) (timers q), activeTimers := activeTimers q - {(a, s)}\<rparr>"
  have rm: "set (remove1 (w, a) (timers q)) = set (timers q) - {(w, a)}"
    using tq_distinct [OF assms] by (rule set_remove1_eq)
  have nq: "\<not> queued q1 a"
    using tq_when_unique [OF assms _ t(1)] by (auto simp: queued_def q1_def rm)
  have "tq_inv q1"
    unfolding tq_inv_def
  proof (intro conjI)
    show "sorted_wrt (<) (timers q1)"
      using tq_invD(1) [OF assms] by (simp add: q1_def strict_sorted_iff sorted_remove1)
    show "activeTimers q1 = (\<lambda>(w, a). (a, sequence (the (theap q1 a)))) ` set (timers q1)"
      using tq_when_unique [OF assms _ t(1)] t(2,3)
      by (force simp: q1_def rm tq_invD(4) [OF assms])
  qed (use tq_invD [OF assms] in \<open>auto simp: q1_def rm\<close>)
  then have "tq_inv (q1\<lparr>theap := (theap q1)(a := None)\<rparr>)" using nq by (rule tq_inv_free)
  moreover define q2 where "q2 = q\<lparr>timers := remove1 (w, a) (timers q), theap := (theap q)(a := None),
    activeTimers := activeTimers q - {(a, s)}\<rparr>"
  moreover have "q2 = q1\<lparr>theap := (theap q1)(a := None)\<rparr>"
    by (rule timer_queue.equality) (simp_all add: q1_def q2_def)
  ultimately have inv: "tq_inv q2" by simp
  then show ?thesis
    using True t w tq_sizes [OF assms] tq_sizes [OF inv]
    by (auto simp: cancelInLoop_def q2_def Let_def)
qed

subsection \<open>Expired timers\<close>

text \<open>Cutting queued timers out of the queue leaves them allocated and owned by the caller.\<close>

lemma tq_cut':
  assumes "tq_inv q" "timers q = es @ rest"
  shows "erase_active es (q\<lparr>timers := rest\<rparr>) = Some (q\<lparr>timers := rest, activeTimers := (\<lambda>(w, a). (a, sequence (the (theap q a)))) ` set rest\<rparr>)"
proof -
  have main: "erase_active es (q\<lparr>timers := rest, activeTimers := (\<lambda>(w, a). (a, sequence (the (theap q a)))) ` (set es \<union> set rest)\<rparr>)
      = Some (q\<lparr>timers := rest, activeTimers := (\<lambda>(w, a). (a, sequence (the (theap q a)))) ` set rest\<rparr>)"
    if "distinct (map snd es)" "snd ` set es \<inter> snd ` set rest = {}" "\<forall>(w, a) \<in> set es. theap q a \<noteq> None" for es
    using that
  proof (induction es)
    case (Cons e es)
    obtain w a where e: "e = (w, a)" by fastforce
    with Cons.prems obtain t where t: "theap q a = Some t" by auto
    have "(\<lambda>(w, a). (a, sequence (the (theap q a)))) ` (set (e # es) \<union> set rest) - {(a, sequence t)}
        = (\<lambda>(w, a). (a, sequence (the (theap q a)))) ` (set es \<union> set rest)"
      using Cons.prems(1,2) t by (auto simp: e image_iff)
    with Cons t show ?case by (simp add: e)
  qed simp
  have "distinct (map snd (es @ rest))"
    using tq_distinct [OF assms(1)] tq_when_unique [OF assms(1)] unfolding assms(2) [symmetric]
    by (auto simp: distinct_map intro!: inj_onI)
  then have "distinct (map snd es)" "snd ` set es \<inter> snd ` set rest = {}" by simp_all
  moreover have "\<forall>(w, a) \<in> set es. theap q a \<noteq> None"
    using tq_invD(3) [OF assms(1)] by (auto simp: assms(2))
  moreover have "q\<lparr>timers := rest, activeTimers := (\<lambda>(w, a). (a, sequence (the (theap q a)))) ` (set es \<union> set rest)\<rparr> = q\<lparr>timers := rest\<rparr>"
    using tq_invD(4) [OF assms(1)] by (simp add: assms(2))
  ultimately show ?thesis using main [of es] by simp
qed

lemma split_expired:
  assumes "sorted_wrt (<) (xs :: (timestamp \<times> taddr) list)"
  shows "take (find_index (\<lambda>e. \<not> before_sentry e now) xs) xs = filter (\<lambda>e. fst e \<le> now) xs"
    "drop (find_index (\<lambda>e. \<not> before_sentry e now) xs) xs = filter (\<lambda>e. now < fst e) xs"
  using assms
proof (induction xs)
  case (Cons x xs)
  have b: "before_sentry x now \<longleftrightarrow> fst x \<le> now"
    by (auto simp: before_sentry_def timestamp_less_iff timestamp_eq_iff)
  { case 1
    have "\<not> fst x \<le> now \<Longrightarrow> filter (\<lambda>e. fst e \<le> now) xs = []"
      using 1 by (fastforce simp: filter_empty_conv less_prod_def)
    with 1 Cons.IH(1) show ?case by (auto simp: b) }
  { case 2
    have "\<not> fst x \<le> now \<Longrightarrow> filter (\<lambda>e. now < fst e) xs = xs"
      using 2 by (fastforce simp: filter_id_conv less_prod_def)
    with 2 Cons.IH(2) show ?case by (auto simp: b not_le) }
qed auto

definition owned :: "timer_queue \<Rightarrow> taddr set \<Rightarrow> bool" where
  "owned q A \<longleftrightarrow> (\<forall>a \<in> A. theap q a \<noteq> None \<and> \<not> queued q a)"

lemma getExpired_contract:
  fixes now :: timestamp
  assumes "tq_inv q"
  defines "es \<equiv> filter (\<lambda>e. fst e \<le> now) (timers q)"
  shows "\<exists>q'. getExpired now q = Some (es, q') \<and> tq_inv q' \<and> timers q' = filter (\<lambda>e. now < fst e) (timers q)
     \<and> theap q' = theap q \<and> timerfd q' = timerfd q \<and> numCreated q' = numCreated q
     \<and> owned q' (snd ` set es) \<and> distinct (map snd es)"
proof -
  define k where "k = find_index (\<lambda>e. \<not> before_sentry e now) (timers q)"
  define rest where "rest = filter (\<lambda>e. now < fst e) (timers q)"
  have tk: "take k (timers q) = es" "drop k (timers q) = rest"
    using split_expired [OF tq_invD(1) [OF assms(1)]] by (simp_all add: k_def es_def rest_def)
  then have app: "timers q = es @ rest" by (metis append_take_drop_id)
  define q' where "q' = q\<lparr>timers := rest, activeTimers := (\<lambda>(w, a). (a, sequence (the (theap q a)))) ` set rest\<rparr>"
  have "sorted_wrt (<) rest" using tq_invD(1) [OF assms(1)] by (simp add: app sorted_wrt_append)
  then have inv: "tq_inv q'"
    using tq_invD(2,3,5,6,7) [OF assms(1)] unfolding tq_inv_def by (auto simp: q'_def app)
  have dist: "distinct (map snd (es @ rest))"
    using tq_distinct [OF assms(1)] tq_when_unique [OF assms(1)] unfolding app [symmetric]
    by (auto simp: distinct_map intro!: inj_onI)
  have own: "owned q' (snd ` set es)"
    unfolding owned_def
  proof
    fix a assume "a \<in> snd ` set es"
    then obtain w where w: "(w, a) \<in> set es" by auto
    then have "theap q a \<noteq> None" using tq_invD(3) [OF assms(1), of w a] by (auto simp: app)
    moreover have "(v, a) \<notin> set rest" for v using dist w by (auto simp: image_iff) (metis snd_conv disjoint_iff image_eqI)
    ultimately show "theap q' a \<noteq> None \<and> \<not> queued q' a" by (simp add: q'_def queued_def)
  qed
  have "erase_active es (q\<lparr>timers := rest\<rparr>) = Some q'"
    using tq_cut' [OF assms(1) app] by (simp add: q'_def)
  moreover have "k = length (timers q) \<or> timestamp_less now (fst (timers q ! k))"
    using find_index_nth [of "\<lambda>e. \<not> before_sentry e now" "timers q"] find_index_le [of "\<lambda>e. \<not> before_sentry e now" "timers q"]
    unfolding k_def by (fastforce simp: before_sentry_def timestamp_less_iff timestamp_eq_iff not_less le_less)
  ultimately have "getExpired now q = Some (es, q')"
    using tq_sizes [OF assms(1)] tq_sizes [OF inv]
    by (simp add: getExpired_def std_lower_bound_def Let_def tk flip: k_def)
  with inv own dist show ?thesis by (auto simp: q'_def rest_def)
qed

subsection \<open>The timer descriptor\<close>

text \<open>\<open>covered P q\<close>: every queued expiration satisfies \<open>P\<close>, or the descriptor was set for a time not
  after it.\<close>

definition armed_for :: "timer_queue \<Rightarrow> timestamp \<Rightarrow> bool" where
  "armed_for q w \<longleftrightarrow> (\<exists>n e. timerfd q = Some (n, howMuchTimeFromNow n e) \<and> e \<le> w)"

definition covered :: "(timestamp \<Rightarrow> bool) \<Rightarrow> timer_queue \<Rightarrow> bool" where
  "covered P q \<longleftrightarrow> (\<forall>(w, a) \<in> set (timers q). P w \<or> armed_for q w)"

lemma armed_for_mono: "armed_for q v \<Longrightarrow> v \<le> w \<Longrightarrow> armed_for q w"
  unfolding armed_for_def by (meson order_trans)

lemma hd_least: "sorted_wrt (<) xs \<Longrightarrow> (w, a) \<in> set xs \<Longrightarrow> fst (hd xs) \<le> (w :: timestamp)"
  by (cases xs) (auto simp: less_prod_def)

definition up_closed :: "(timestamp \<Rightarrow> bool) \<Rightarrow> bool" where
  "up_closed P \<longleftrightarrow> (\<forall>v w. P v \<longrightarrow> v \<le> w \<longrightarrow> P w)"

lemma up_closed_valid: "up_closed timestamp_valid" "up_closed (\<lambda>_. False)"
  by (auto simp: up_closed_def timestamp_valid_def less_eq_timestamp_ext_def)

lemma addTimer_contract:
  assumes "tq_inv q" "theap q (alloc (theap q)) = None" "positive \<longrightarrow> 0 \<le> ival" "up_closed P" "covered P q"
  defines "a \<equiv> alloc (theap q)"
  shows "\<exists>q'. addTimer alloc now cb when ival positive q = Some (q', (a, numCreated q + 1)) \<and> tq_inv q' \<and> covered P q'
     \<and> timers q' = insort (when, a) (timers q)
     \<and> theap q' = (theap q)(a \<mapsto> mk_timer cb when ival positive (numCreated q + 1))
     \<and> callingExpiredTimers q' = callingExpiredTimers q \<and> cancelingTimers q' = cancelingTimers q
     \<and> numCreated q' = numCreated q + 1"
proof -
  define t where "t = mk_timer cb when ival positive (numCreated q + 1)"
  define q1 where "q1 = q\<lparr>numCreated := numCreated q + 1, theap := (theap q)(a := Some t)\<rparr>"
  have nq: "\<not> queued q a"
    using tq_invD(3) [OF assms(1), of _ a] assms(2) by (auto simp: queued_def a_def)
  have "tq_inv q1"
    unfolding q1_def
  proof (rule tq_inv_heap [OF assms(1) nq])
    show "sequence u \<noteq> sequence t" if "theap q b = Some u" for b u
      using tq_invD(5) [OF assms(1) that] by (simp add: t_def mk_timer_def)
  qed (use assms(3) in \<open>simp_all add: t_def mk_timer_def\<close>)
  moreover have "theap q1 a = Some t" "\<not> queued q1 a" using nq by (simp_all add: q1_def queued_def)
  moreover have ex: "expiration t = when" by (simp add: t_def mk_timer_def)
  ultimately obtain q2 where q2: "insert_timer a q1 = Some (timers q = [] \<or> when < fst (hd (timers q)), q2)" "tq_inv q2"
    "q2 = q1\<lparr>timers := insort (when, a) (timers q1), activeTimers := insert (a, sequence t) (activeTimers q1)\<rparr>"
    using insert_timer_contract [of q1 a t] by (simp add: q1_def)
  have ts: "timers q2 = insort (when, a) (timers q)" "theap q2 = theap q1" by (simp_all add: q2(3) q1_def)
  have fd: "timerfd q2 = timerfd q" by (simp add: q2(3) q1_def)
  show ?thesis
  proof (cases "timers q = [] \<or> when < fst (hd (timers q))")
    case True
    have "addTimer alloc now cb when ival positive q = Some (resetTimerfd now when q2, (a, numCreated q + 1))"
      using q2(1) True ts ex by (simp add: addTimer_def addTimerInLoop_def Let_def a_def [symmetric] t_def [symmetric] q1_def [symmetric])
        (simp add: q1_def)
    moreover have "armed_for (resetTimerfd now when q2) w" if "(w, b) \<in> set (timers q2)" for w b
    proof -
      have "when \<le> w"
        using that True hd_least [OF tq_invD(1) [OF assms(1)], of w b] by (auto simp: ts set_insort_key)
      then show ?thesis by (auto simp: armed_for_def resetTimerfd_def)
    qed
    ultimately show ?thesis
      using q2(2) ts by (auto simp: resetTimerfd_def covered_def q1_def t_def q2(3))
  next
    case False
    have "addTimer alloc now cb when ival positive q = Some (q2, (a, numCreated q + 1))"
      using q2(1) False by (simp add: addTimer_def addTimerInLoop_def Let_def a_def [symmetric] t_def [symmetric] q1_def [symmetric])
    moreover have "P w \<or> armed_for q2 w" if w: "(w, b) \<in> set (timers q2)" for w b
    proof -
      obtain h c where h: "(h, c) \<in> set (timers q)" "h \<le> when"
        using False by (metis hd_in_set not_le prod.collapse)
      have "P h \<or> armed_for q h" using h(1) assms(5) by (auto simp: covered_def)
      then have "P when \<or> armed_for q when"
        using h(2) assms(4) armed_for_mono by (auto simp: up_closed_def)
      then show ?thesis
        using w assms(5) by (auto simp: ts set_insort_key covered_def armed_for_def fd)
    qed
    ultimately show ?thesis
      using q2(2) ts by (auto simp: covered_def q1_def t_def q2(3))
  qed
qed

subsection \<open>Callbacks\<close>

definition act_ok :: "timer_action \<Rightarrow> bool" where
  "act_ok x = (case x of Act_add cb when ival positive \<Rightarrow> positive \<longrightarrow> 0 \<le> ival | Act_cancel tid \<Rightarrow> True)"

definition alloc_ok :: "((taddr \<Rightarrow> timer option) \<Rightarrow> taddr) \<Rightarrow> bool" where
  "alloc_ok alloc \<longleftrightarrow> (\<forall>h. finite (dom h) \<longrightarrow> h (alloc h) = None)"

lemma alloc_okD: "alloc_ok alloc \<Longrightarrow> tq_inv q \<Longrightarrow> theap q (alloc (theap q)) = None"
  using tq_invD(2) by (auto simp: alloc_ok_def)

definition act_post :: "(timestamp \<Rightarrow> bool) \<Rightarrow> taddr set \<Rightarrow> timer_queue \<Rightarrow> timer_queue \<Rightarrow> bool" where
  "act_post P A q q' \<longleftrightarrow> tq_inv q' \<and> covered P q' \<and> owned q' A \<and> (\<forall>a \<in> A. theap q' a = theap q a)
     \<and> callingExpiredTimers q' = callingExpiredTimers q"

lemma do_action_contract:
  assumes "tq_inv q" "alloc_ok alloc" "act_ok x" "up_closed P" "covered P q" "owned q A"
  shows "\<exists>q'. do_action alloc now x q = Some q' \<and> act_post P A q q'"
proof (cases x)
  case (Act_add cb wh ival positive)
  obtain q' where q': "addTimer alloc now cb wh ival positive q = Some (q', (alloc (theap q), numCreated q + 1))"
    "tq_inv q'" "covered P q'" "timers q' = insort (wh, alloc (theap q)) (timers q)"
    "theap q' = (theap q)(alloc (theap q) \<mapsto> mk_timer cb wh ival positive (numCreated q + 1))"
    "callingExpiredTimers q' = callingExpiredTimers q"
    using addTimer_contract [of q alloc positive ival P now cb wh] assms alloc_okD [of alloc q]
    by (auto simp: Act_add act_ok_def)
  have "alloc (theap q) \<notin> A" using assms(6) alloc_okD [OF assms(2,1)] by (auto simp: owned_def)
  with q' assms(6) show ?thesis
    by (auto simp: Act_add act_post_def owned_def queued_def set_insort_key)
next
  case (Act_cancel tid)
  obtain a s where tid: "tid = (a, s)" by fastforce
  obtain q' where c: "cancelInLoop (a, s) q = Some q'" "tq_inv q'"
    "(a, s) \<in> activeTimers q \<Longrightarrow> \<exists>t. theap q a = Some t \<and> timers q' = remove1 (expiration t, a) (timers q)
               \<and> theap q' = (theap q)(a := None)"
    "(a, s) \<notin> activeTimers q \<Longrightarrow> timers q' = timers q \<and> theap q' = theap q"
    "timerfd q' = timerfd q" "callingExpiredTimers q' = callingExpiredTimers q"
    using cancelInLoop_contract [OF assms(1), of a s] by (auto split: if_splits)
  have sub: "set (timers q') \<subseteq> set (timers q)"
    using c(3,4) by (cases "(a, s) \<in> activeTimers q") (auto dest: set_remove1_subset [THEN subsetD])
  have na: "a \<notin> A" if "(a, s) \<in> activeTimers q"
    using that tq_active_iff [OF assms(1)] assms(6) by (auto simp: owned_def queued_def)
  have "theap q' b = theap q b" if "b \<in> A" for b
    using c(3,4) na that by (cases "(a, s) \<in> activeTimers q") auto
  then show ?thesis
    using c(1,2,5,6) sub assms(5,6)
    by (auto simp: Act_cancel tid act_post_def owned_def queued_def covered_def armed_for_def)
qed

lemma do_actions_contract:
  assumes "alloc_ok alloc" "up_closed P"
  shows "tq_inv q \<Longrightarrow> \<forall>x \<in> set xs. act_ok x \<Longrightarrow> covered P q \<Longrightarrow> owned q A \<Longrightarrow>
     \<exists>q'. do_actions alloc now xs q = Some q' \<and> act_post P A q q'"
proof (induction xs arbitrary: q)
  case (Cons x xs)
  then obtain q1 where "do_action alloc now x q = Some q1" "act_post P A q q1"
    using do_action_contract [OF _ assms(1) _ assms(2)] by fastforce
  moreover with Cons obtain q' where "do_actions alloc now xs q1 = Some q'" "act_post P A q1 q'"
    by (fastforce simp: act_post_def)
  ultimately show ?case by (auto simp: act_post_def)
qed (simp add: act_post_def)

lemma run_expired_contract:
  assumes "alloc_ok alloc" "up_closed P"
  shows "tq_inv q \<Longrightarrow> \<forall>xs \<in> set acts. \<forall>x \<in> set xs. act_ok x \<Longrightarrow> covered P q \<Longrightarrow> owned q A \<Longrightarrow> snd ` set es \<subseteq> A \<Longrightarrow>
     \<exists>q'. run_expired alloc now acts es q = Some (q', map (\<lambda>(w, a). callback_id (the (theap q a))) es)
       \<and> act_post P A q q'"
proof (induction es arbitrary: q acts)
  case (Cons e es)
  obtain w a where e: "e = (w, a)" by fastforce
  obtain t where t: "theap q a = Some t" using Cons.prems(4,5) by (auto simp: e owned_def)
  have "\<forall>x \<in> set (case acts of [] \<Rightarrow> [] | x # _ \<Rightarrow> x). act_ok x"
    using Cons.prems(2) by (cases acts) auto
  from do_actions_contract [OF assms Cons.prems(1) this Cons.prems(3,4)]
  obtain q1 where q1: "do_actions alloc now (case acts of [] \<Rightarrow> [] | x # _ \<Rightarrow> x) q = Some q1" "act_post P A q q1"
    by blast
  have "\<forall>xs \<in> set (tl acts). \<forall>x \<in> set xs. act_ok x" using Cons.prems(2) by (cases acts) auto
  with Cons.IH [of q1 "tl acts"] q1(2) Cons.prems(5) obtain q' where
    q': "run_expired alloc now (tl acts) es q1 = Some (q', map (\<lambda>(w, a). callback_id (the (theap q1 a))) es)"
      "act_post P A q1 q'"
    by (auto simp: act_post_def)
  have "map (\<lambda>(w, a). callback_id (the (theap q1 a))) es = map (\<lambda>(w, a). callback_id (the (theap q a))) es"
    using q1(2) Cons.prems(5) by (force simp: act_post_def)
  with t q1 q' show ?case by (auto simp: e act_post_def)
qed (simp add: act_post_def)

subsection \<open>Resetting the expired timers\<close>

definition survives :: "timer_queue \<Rightarrow> taddr \<Rightarrow> bool" where
  "survives q a \<longleftrightarrow> (\<exists>t. theap q a = Some t \<and> repeat t \<and> (a, sequence t) \<notin> cancelingTimers q)"

definition restart_at :: "timestamp \<Rightarrow> timer_queue \<Rightarrow> taddr \<Rightarrow> timestamp" where
  "restart_at now q a = addTime now (interval_us (the (theap q a)))"

lemma timer_restart_simps [simp]:
  "sequence (timer_restart now t) = sequence t" "repeat (timer_restart now t) = repeat t"
  "interval_us (timer_restart now t) = interval_us t"
  "repeat t \<Longrightarrow> expiration (timer_restart now t) = addTime now (interval_us t)"
  by (simp_all add: timer_restart_def)

lemma reset_step:
  assumes "tq_inv q" "theap q a = Some t" "\<not> queued q a" "repeat t"
  shows "\<exists>q'. insert_timer a (q\<lparr>theap := (theap q)(a := Some (timer_restart now t))\<rparr>)
       = Some (timers q = [] \<or> restart_at now q a < fst (hd (timers q)), q')
     \<and> tq_inv q' \<and> timers q' = insort (restart_at now q a, a) (timers q)
     \<and> theap q' = (theap q)(a := Some (timer_restart now t))
     \<and> cancelingTimers q' = cancelingTimers q \<and> timerfd q' = timerfd q"
proof -
  define q1 where "q1 = q\<lparr>theap := (theap q)(a := Some (timer_restart now t))\<rparr>"
  have "tq_inv (q\<lparr>numCreated := numCreated q, theap := (theap q)(a := Some (timer_restart now t))\<rparr>)"
    using tq_invD(5,6,7) [OF assms(1)] assms(2)
    by (intro tq_inv_heap [OF assms(1,3)]) auto
  then have "tq_inv q1" by (simp add: q1_def)
  from insert_timer_contract [OF this, of a "timer_restart now t"] assms(2-4) show ?thesis
    unfolding q1_def by (auto simp: restart_at_def queued_def)
qed

lemma restarted_cong:
  assumes "\<And>b. b \<in> S \<Longrightarrow> P b = P' b \<and> f b = f' b"
  shows "{(f b, b) |b. b \<in> S \<and> P b} = {(f' b, b) |b. b \<in> S \<and> P' b}"
  using assms by auto

lemma restarted_insert:
  "{(f b, b) |b. b \<in> insert a S \<and> P b} = (if P a then {(f a, a)} else {}) \<union> {(f b, b) |b. b \<in> S \<and> P b}"
  by auto

lemma reset_loop_contract:
  assumes "timestamp_valid now"
  shows "tq_inv q \<Longrightarrow> owned q (snd ` set es) \<Longrightarrow> distinct (map snd es) \<Longrightarrow> covered timestamp_valid q \<Longrightarrow>
     \<exists>q'. reset_loop now es q = Some q' \<and> tq_inv q' \<and> covered timestamp_valid q' \<and> timerfd q' = timerfd q
       \<and> set (timers q') = set (timers q) \<union> {(restart_at now q a, a) |a. a \<in> snd ` set es \<and> survives q a}
       \<and> (\<forall>a. theap q' a = (if a \<in> snd ` set es then (if survives q a then map_option (timer_restart now) (theap q a) else None)
            else theap q a))"
proof (induction es arbitrary: q)
  case (Cons e es)
  obtain w a where e: "e = (w, a)" by fastforce
  obtain t where t: "theap q a = Some t" and nq: "\<not> queued q a" using Cons.prems(2) by (auto simp: e owned_def)
  have aes: "a \<notin> snd ` set es" and des: "distinct (map snd es)" using Cons.prems(3) by (auto simp: e)
  show ?case
  proof (cases "repeat t \<and> (a, sequence t) \<notin> cancelingTimers q")
    case True
    then have sv: "survives q a" using t by (auto simp: survives_def)
    obtain q1 where q1: "insert_timer a (q\<lparr>theap := (theap q)(a := Some (timer_restart now t))\<rparr>)
         = Some (timers q = [] \<or> restart_at now q a < fst (hd (timers q)), q1)"
      "tq_inv q1" "timers q1 = insort (restart_at now q a, a) (timers q)"
      "theap q1 = (theap q)(a := Some (timer_restart now t))"
      "cancelingTimers q1 = cancelingTimers q" "timerfd q1 = timerfd q"
      using reset_step [OF Cons.prems(1) t nq] True by blast
    have "timestamp_valid (restart_at now q a)"
      using assms tq_invD(6) [OF Cons.prems(1) t] True
      by (simp add: restart_at_def t addTime_def Timestamp_def timestamp_valid_def)
    then have "covered timestamp_valid q1"
      using Cons.prems(4) q1(6) by (auto simp: covered_def q1(3) set_insort_key armed_for_def)
    moreover have "owned q1 (snd ` set es)"
      using Cons.prems(2) aes by (auto simp: owned_def queued_def q1(3,4) set_insort_key e)
    ultimately obtain q' where q': "reset_loop now es q1 = Some q'" "tq_inv q'" "covered timestamp_valid q'"
      "timerfd q' = timerfd q1"
      "set (timers q') = set (timers q1) \<union> {(restart_at now q1 b, b) |b. b \<in> snd ` set es \<and> survives q1 b}"
      "\<forall>b. theap q' b = (if b \<in> snd ` set es then (if survives q1 b then map_option (timer_restart now) (theap q1 b) else None)
            else theap q1 b)"
      using Cons.IH [OF q1(2)] des by blast
    have same: "survives q1 b = survives q b" "restart_at now q1 b = restart_at now q b" "theap q1 b = theap q b" if "b \<noteq> a" for b
      using that by (simp_all add: survives_def restart_at_def q1(4,5))
    have "b \<in> snd ` set es \<Longrightarrow> survives q1 b = survives q b \<and> restart_at now q1 b = restart_at now q b" for b
      using same aes by metis
    note cong = restarted_cong [of "snd ` set es" "survives q1" "survives q" "restart_at now q1" "restart_at now q", OF this]
    have "reset_loop now (e # es) q = Some q'" using t True q1(1) q'(1) by (simp add: e)
    moreover have "set (timers q') = set (timers q) \<union> {(restart_at now q b, b) |b. b \<in> snd ` set (e # es) \<and> survives q b}"
      using q'(5) cong sv restarted_insert [of "restart_at now q" a "snd ` set es" "survives q"]
      by (simp add: q1(3) set_insort_key e)
    moreover have "theap q' b = (if b \<in> snd ` set (e # es) then (if survives q b then map_option (timer_restart now) (theap q b) else None)
            else theap q b)" for b
      using q'(6) sv aes same t by (cases "b = a") (auto simp: e q1(4))
    ultimately show ?thesis using q'(2,3,4) q1(6) by (intro exI [of _ q']) simp
  next
    case False
    then have sv: "\<not> survives q a" using t by (auto simp: survives_def)
    define q1 where "q1 = q\<lparr>theap := (theap q)(a := None)\<rparr>"
    have inv: "tq_inv q1" unfolding q1_def by (rule tq_inv_free [OF Cons.prems(1) nq])
    have "owned q1 (snd ` set es)" "covered timestamp_valid q1"
      using Cons.prems(2,4) aes by (auto simp: owned_def queued_def q1_def e covered_def armed_for_def)
    then obtain q' where q': "reset_loop now es q1 = Some q'" "tq_inv q'" "covered timestamp_valid q'"
      "timerfd q' = timerfd q1"
      "set (timers q') = set (timers q1) \<union> {(restart_at now q1 b, b) |b. b \<in> snd ` set es \<and> survives q1 b}"
      "\<forall>b. theap q' b = (if b \<in> snd ` set es then (if survives q1 b then map_option (timer_restart now) (theap q1 b) else None)
            else theap q1 b)"
      using Cons.IH [OF inv] des by blast
    have same: "survives q1 b = survives q b" "restart_at now q1 b = restart_at now q b" "theap q1 b = theap q b" if "b \<noteq> a" for b
      using that by (simp_all add: survives_def restart_at_def q1_def)
    have "b \<in> snd ` set es \<Longrightarrow> survives q1 b = survives q b \<and> restart_at now q1 b = restart_at now q b" for b
      using same aes by metis
    note cong = restarted_cong [of "snd ` set es" "survives q1" "survives q" "restart_at now q1" "restart_at now q", OF this]
    have "reset_loop now (e # es) q = Some q'" using t False q'(1) by (auto simp: e q1_def)
    moreover have "set (timers q') = set (timers q) \<union> {(restart_at now q b, b) |b. b \<in> snd ` set (e # es) \<and> survives q b}"
      using q'(5) cong sv restarted_insert [of "restart_at now q" a "snd ` set es" "survives q"]
      by (simp add: q1_def e)
    moreover have "theap q' b = (if b \<in> snd ` set (e # es) then (if survives q b then map_option (timer_restart now) (theap q b) else None)
            else theap q b)" for b
      using q'(6) sv aes same by (cases "b = a") (auto simp: e q1_def)
    ultimately show ?thesis using q'(2,3,4) by (intro exI [of _ q']) (simp add: q1_def)
  qed
qed (simp)

lemma reset_expired_contract:
  assumes "timestamp_valid now" "tq_inv q" "owned q (snd ` set es)" "distinct (map snd es)" "covered timestamp_valid q"
  shows "\<exists>q'. reset_expired now now' es q = Some q' \<and> tq_inv q' \<and> covered (\<lambda>_. False) q'
       \<and> set (timers q') = set (timers q) \<union> {(restart_at now q a, a) |a. a \<in> snd ` set es \<and> survives q a}
       \<and> (\<forall>a. theap q' a = (if a \<in> snd ` set es then (if survives q a then map_option (timer_restart now) (theap q a) else None)
            else theap q a))"
proof -
  obtain q1 where q1: "reset_loop now es q = Some q1" "tq_inv q1" "covered timestamp_valid q1" 
    "set (timers q1) = set (timers q) \<union> {(restart_at now q a, a) |a. a \<in> snd ` set es \<and> survives q a}"
    "\<forall>a. theap q1 a = (if a \<in> snd ` set es then (if survives q a then map_option (timer_restart now) (theap q a) else None)
            else theap q a)"
    using reset_loop_contract [OF assms(1-5)] by blast
  show ?thesis
  proof (cases "timers q1")
    case Nil
    then have "reset_expired now now' es q = Some q1"
      using q1(1) by (simp add: reset_expired_def Timestamp_default_def timestamp_valid_def)
    with Nil q1 show ?thesis by (intro exI [of _ q1]) (simp add: covered_def)
  next
    case (Cons e rest)
    obtain w a where e: "e = (w, a)" by fastforce
    then obtain t where t: "theap q1 a = Some t" "expiration t = w"
      using tq_invD(3) [OF q1(2), of w a] Cons by auto
    have least: "(v, b) \<in> set (timers q1) \<Longrightarrow> w \<le> v" for v b
      using hd_least [OF tq_invD(1) [OF q1(2)], of v b] by (simp add: Cons e)
    define q2 where "q2 = (if timestamp_valid w then resetTimerfd now' w q1 else q1)"
    have eq: "reset_expired now now' es q = Some q2"
      using q1(1) t by (simp add: reset_expired_def Cons e q2_def)
    have same: "timers q2 = timers q1" "theap q2 = theap q1" "tq_inv q2"
      using q1(2) by (simp_all add: q2_def resetTimerfd_def)
    have "armed_for q2 w"
    proof (cases "timestamp_valid w")
      case False
      with q1(3) Cons e show ?thesis by (auto simp: covered_def q2_def armed_for_def)
    qed (auto simp: q2_def resetTimerfd_def armed_for_def)
    then have "covered (\<lambda>_. False) q2"
      using least armed_for_mono same(1) by (fastforce simp: covered_def)
    with eq same q1 show ?thesis by (intro exI [of _ q2]) simp
  qed
qed

subsection \<open>Properties\<close>

text \<open>One alarm of the timer descriptor, whatever the callbacks do with the queue.\<close>

lemma handleRead_contract:
  assumes "tq_inv q" "alloc_ok alloc" "\<forall>xs \<in> set acts. \<forall>x \<in> set xs. act_ok x" "timestamp_valid now"
  shows "\<exists>q'. tq_handleRead alloc now now' acts q
       = Some (q', map (\<lambda>(w, a). callback_id (the (theap q a))) (filter (\<lambda>e. fst e \<le> now) (timers q)))
     \<and> tq_inv q' \<and> covered (\<lambda>_. False) q'"
proof -
  define es where "es = filter (\<lambda>e. fst e \<le> now) (timers q)"
  have inv0: "tq_inv (readTimerfd q)" using assms(1) by (simp add: readTimerfd_def)
  obtain q1 where q1: "getExpired now (readTimerfd q) = Some (es, q1)" "tq_inv q1"
    "timers q1 = filter (\<lambda>e. now < fst e) (timers q)" "theap q1 = theap q" "owned q1 (snd ` set es)" "distinct (map snd es)"
    using getExpired_contract [OF inv0, of now] by (auto simp: es_def readTimerfd_def)
  have "covered timestamp_valid q1"
    using assms(4) up_closed_valid(1) by (force simp: covered_def q1(3) up_closed_def)
  define q2 where "q2 = q1\<lparr>callingExpiredTimers := True, cancelingTimers := {}\<rparr>"
  have inv2: "tq_inv q2" "covered timestamp_valid q2" "owned q2 (snd ` set es)" "theap q2 = theap q"
    using q1 \<open>covered timestamp_valid q1\<close> by (simp_all add: q2_def covered_def owned_def queued_def armed_for_def)
  obtain q3 where q3: "run_expired alloc now' acts es q2 = Some (q3, map (\<lambda>(w, a). callback_id (the (theap q2 a))) es)"
    "tq_inv q3" "covered timestamp_valid q3" "owned q3 (snd ` set es)"
    using run_expired_contract [OF assms(2) up_closed_valid(1) inv2(1) assms(3) inv2(2,3), of es] by (auto simp: act_post_def)
  define q4 where "q4 = q3\<lparr>callingExpiredTimers := False\<rparr>"
  have inv4: "tq_inv q4" "covered timestamp_valid q4" "owned q4 (snd ` set es)"
    using q3 by (simp_all add: q4_def covered_def owned_def queued_def armed_for_def)
  obtain q5 where q5: "reset_expired now now' es q4 = Some q5" "tq_inv q5" "covered (\<lambda>_. False) q5"
    using reset_expired_contract [OF assms(4) inv4(1,3) q1(6) inv4(2)] by blast
  with q1(1) q3(1) q5 inv2(4) show ?thesis
    by (simp add: tq_handleRead_def es_def [symmetric] q2_def [symmetric] q4_def [symmetric])
qed

datatype tq_op = Op_act timestamp timer_action | Op_alarm timestamp timestamp "timer_action list list"

fun tq_step :: "((taddr \<Rightarrow> timer option) \<Rightarrow> taddr) \<Rightarrow> tq_op \<Rightarrow> timer_queue \<Rightarrow> timer_queue option" where
  "tq_step alloc (Op_act now x) q = do_action alloc now x q"
| "tq_step alloc (Op_alarm now now' acts) q = map_option fst (tq_handleRead alloc now now' acts q)"

fun tq_run :: "((taddr \<Rightarrow> timer option) \<Rightarrow> taddr) \<Rightarrow> tq_op list \<Rightarrow> timer_queue \<Rightarrow> timer_queue option" where
  "tq_run alloc [] q = Some q"
| "tq_run alloc (x # xs) q = do { q \<leftarrow> tq_step alloc x q; tq_run alloc xs q }"

definition op_ok :: "tq_op \<Rightarrow> bool" where
  "op_ok x = (case x of Op_act now y \<Rightarrow> act_ok y
     | Op_alarm now now' acts \<Rightarrow> timestamp_valid now \<and> (\<forall>xs \<in> set acts. \<forall>y \<in> set xs. act_ok y))"

lemma tq_run_inv:
  assumes "alloc_ok alloc"
  shows "tq_inv q \<Longrightarrow> covered (\<lambda>_. False) q \<Longrightarrow> \<forall>x \<in> set xs. op_ok x \<Longrightarrow>
     \<exists>q'. tq_run alloc xs q = Some q' \<and> tq_inv q' \<and> covered (\<lambda>_. False) q'"
proof (induction xs arbitrary: q)
  case (Cons x xs)
  have "\<exists>q'. tq_step alloc x q = Some q' \<and> tq_inv q' \<and> covered (\<lambda>_. False) q'"
  proof (cases x)
    case (Op_act now y)
    with Cons.prems do_action_contract [OF Cons.prems(1) assms _ up_closed_valid(2) Cons.prems(2), of y "{}" now]
    show ?thesis by (auto simp: op_ok_def act_post_def owned_def)
  next
    case (Op_alarm now now' acts)
    with Cons.prems have "\<forall>xs \<in> set acts. \<forall>x \<in> set xs. act_ok x" "timestamp_valid now" by (auto simp: op_ok_def)
    from handleRead_contract [OF Cons.prems(1) assms this, of now'] show ?thesis by (auto simp: Op_alarm)
  qed
  with Cons show ?case by fastforce
qed simp

text \<open>The instant at which a relative timer set at \<open>n\<close> goes off, in microseconds.\<close>

definition deadline :: "timestamp \<times> timespec \<Rightarrow> int" where
  "deadline x = (case x of (n, ts) \<Rightarrow> microSecondsSinceEpoch n + tv_sec ts * 1000000 + tv_nsec ts div 1000)"

lemma howMuch_split:
  "deadline (n, howMuchTimeFromNow n w) = max (microSecondsSinceEpoch w) (microSecondsSinceEpoch n + 100)
   \<and> 0 \<le> tv_sec (howMuchTimeFromNow n w) \<and> tv_nsec (howMuchTimeFromNow n w) \<in> {0..<1000000000}
   \<and> (0 < tv_sec (howMuchTimeFromNow n w) \<or> 0 < tv_nsec (howMuchTimeFromNow n w))"
proof -
  define d where "d = max (microSecondsSinceEpoch w - microSecondsSinceEpoch n) 100"
  have h: "howMuchTimeFromNow n w = \<lparr>tv_sec = d div 1000000, tv_nsec = d mod 1000000 * 1000\<rparr>"
    by (auto simp: howMuchTimeFromNow_def d_def Let_def kMicroSecondsPerSecond_def max_def)
  have d: "100 \<le> d" "d div 1000000 * 1000000 + d mod 1000000 = d" by (simp_all add: d_def)
  obtain a b where ab: "d div 1000000 = a" "d mod 1000000 = b" by blast
  have b: "0 \<le> b" "b < 1000000" using ab(2) by auto
  have a: "0 \<le> a" using d(1) ab(1) by (auto simp: pos_imp_zdiv_nonneg_iff)
  have eq: "a * 1000000 + b = d" using d(2) ab by simp
  have "0 < a \<or> 0 < b"
  proof (cases "a = 0")
    case True
    with eq d(1) show ?thesis by linarith
  qed (use a in simp)
  with eq show ?thesis
    using a b d(1) unfolding h ab deadline_def by (auto simp: d_def max_def split: if_splits)
qed

lemmas deadline_eq = howMuch_split [THEN conjunct1]

text \<open>The relative time handed to the kernel is well formed (nanoseconds below one second, never
  zero, which would disarm the descriptor), and it goes off at the expiration asked for, or 100
  microseconds after now when that is nearer or past.\<close>

theorem howMuchTimeFromNow_correct:
  "deadline (n, howMuchTimeFromNow n w) = max (microSecondsSinceEpoch w) (microSecondsSinceEpoch n + 100)
   \<and> 0 \<le> tv_sec (howMuchTimeFromNow n w) \<and> tv_nsec (howMuchTimeFromNow n w) \<in> {0..<1000000000}
   \<and> (0 < tv_sec (howMuchTimeFromNow n w) \<or> 0 < tv_nsec (howMuchTimeFromNow n w))"
  by (rule howMuch_split)

text \<open>C7: Over every sequence of additions, cancellations and alarms, with callbacks that add and
  cancel timers themselves (their own, other expired ones, ones already gone), no assertion of the
  queue fails and no freed timer is used; the queue stays sorted with the two sets in step; and as
  long as a timer is queued the descriptor is armed, no later than the earliest expiration or 100
  microseconds after it was set: no timer is forgotten.\<close>

theorem timer_queue_safe:
  assumes "alloc_ok alloc" "\<forall>x \<in> set ops. op_ok x"
  shows "\<exists>q. tq_run alloc ops mk_timer_queue = Some q \<and> sorted_wrt (<) (timers q) \<and> sizes_equal q
     \<and> (timers q \<noteq> [] \<longrightarrow> (\<exists>x. timerfd q = Some x
          \<and> deadline x \<le> max (microSecondsSinceEpoch (fst (hd (timers q)))) (microSecondsSinceEpoch (fst x) + 100)))"
proof -
  have "covered (\<lambda>_. False) mk_timer_queue" by (simp add: covered_def mk_timer_queue_def)
  then obtain q where q: "tq_run alloc ops mk_timer_queue = Some q" "tq_inv q" "covered (\<lambda>_. False) q"
    using tq_run_inv [OF assms(1) tq_inv_start _ assms(2)] by blast
  have "\<exists>x. timerfd q = Some x
      \<and> deadline x \<le> max (microSecondsSinceEpoch (fst (hd (timers q)))) (microSecondsSinceEpoch (fst x) + 100)"
    if "timers q \<noteq> []"
  proof -
    have "armed_for q (fst (hd (timers q)))"
      using q(3) that by (cases "timers q") (auto simp: covered_def)
    then obtain n e where "timerfd q = Some (n, howMuchTimeFromNow n e)" "e \<le> fst (hd (timers q))"
      by (auto simp: armed_for_def)
    moreover have "microSecondsSinceEpoch e \<le> microSecondsSinceEpoch (fst (hd (timers q)))"
      using \<open>e \<le> fst (hd (timers q))\<close> by (auto simp: less_eq_timestamp_ext_def)
    ultimately show ?thesis
      using deadline_eq [of n e] by auto
  qed
  with q tq_sizes [OF q(2)] tq_invD(1) [OF q(2)] show ?thesis by blast
qed

definition first_free :: "(taddr \<Rightarrow> timer option) \<Rightarrow> taddr" where
  "first_free h = (LEAST a. h a = None)"

lemma first_free_ok: "alloc_ok first_free"
  unfolding alloc_ok_def first_free_def
proof (intro allI impI)
  fix h :: "taddr \<Rightarrow> timer option"
  assume "finite (dom h)"
  then obtain a where "a \<notin> dom h" using ex_new_if_finite infinite_UNIV_nat by blast
  then have "h a = None" by auto
  then show "h (LEAST a. h a = None) = None" by (rule LeastI)
qed

theorem timer_queue_safe_witness:
  "let ops = [Op_act (Timestamp 5) (Act_add 1 (Timestamp 900) 300 True),
              Op_alarm (Timestamp 1000) (Timestamp 1001) [[Act_cancel (0, 1), Act_add 2 (Timestamp 7000) 0 False]]] in
   \<exists>q. tq_run first_free ops mk_timer_queue = Some q \<and> sorted_wrt (<) (timers q) \<and> sizes_equal q
     \<and> (timers q \<noteq> [] \<longrightarrow> (\<exists>x. timerfd q = Some x
          \<and> deadline x \<le> max (microSecondsSinceEpoch (fst (hd (timers q)))) (microSecondsSinceEpoch (fst x) + 100)))"
  unfolding Let_def
  by (rule timer_queue_safe [OF first_free_ok])
     (simp add: op_ok_def act_ok_def timestamp_valid_def Timestamp_def)

text \<open>What callbacks do with the queue while the expired timers run: the timers queued, with their addresses, and the
  timers that a list of actions creates.\<close>

definition queued_timers :: "timer_queue \<Rightarrow> (taddr \<times> timer) set" where
  "queued_timers q = {(a, t). queued q a \<and> theap q a = Some t}"

fun new_timers :: "int \<Rightarrow> timer_action list \<Rightarrow> timer list" where
  "new_timers n [] = []"
| "new_timers n (Act_add cb when ival positive # xs) = mk_timer cb when ival positive (n + 1) # new_timers (n + 1) xs"
| "new_timers n (Act_cancel tid # xs) = new_timers n xs"

lemma new_timers_seq: "t \<in> set (new_timers n xs) \<Longrightarrow> n < sequence t"
  by (induction n xs rule: new_timers.induct) (fastforce simp: mk_timer_def)+

lemma timers_queued: "tq_inv q \<Longrightarrow> set (timers q) = (\<lambda>(a, t). (expiration t, a)) ` queued_timers q"
  using tq_invD(3) by (fastforce simp: queued_timers_def queued_def image_iff)

lemma queued_timers_old: "tq_inv q \<Longrightarrow> (a, t) \<in> queued_timers q \<Longrightarrow> sequence t \<le> numCreated q"
  using tq_invD(5) by (auto simp: queued_timers_def)

lemma do_add_effect:
  assumes "tq_inv q" "alloc_ok alloc" "act_ok (Act_add cb wh ival positive)" "do_action alloc now (Act_add cb wh ival positive) q = Some q'"
  shows "queued_timers q' = insert (alloc (theap q), mk_timer cb wh ival positive (numCreated q + 1)) (queued_timers q)
    \<and> cancelingTimers q' = cancelingTimers q \<and> numCreated q' = numCreated q + 1 \<and> callingExpiredTimers q' = callingExpiredTimers q"
proof -
  have "covered (\<lambda>_. True) q" "up_closed (\<lambda>_. True)" by (simp_all add: covered_def up_closed_def split: prod.splits)
  moreover have "positive \<longrightarrow> 0 \<le> ival" using assms(3) by (simp add: act_ok_def)
  ultimately obtain q'' where "addTimer alloc now cb wh ival positive q = Some (q'', (alloc (theap q), numCreated q + 1))"
    "timers q'' = insort (wh, alloc (theap q)) (timers q)"
    "theap q'' = (theap q)(alloc (theap q) \<mapsto> mk_timer cb wh ival positive (numCreated q + 1))"
    "cancelingTimers q'' = cancelingTimers q" "numCreated q'' = numCreated q + 1" "callingExpiredTimers q'' = callingExpiredTimers q"
    using addTimer_contract [of q alloc positive ival "\<lambda>_. True" now cb wh, OF assms(1) alloc_okD [OF assms(2,1)]] by blast
  with assms(4) have e: "timers q' = insort (wh, alloc (theap q)) (timers q)"
    "theap q' = (theap q)(alloc (theap q) \<mapsto> mk_timer cb wh ival positive (numCreated q + 1))"
    "cancelingTimers q' = cancelingTimers q" "numCreated q' = numCreated q + 1" "callingExpiredTimers q' = callingExpiredTimers q"
    by simp_all
  have "\<not> queued q (alloc (theap q))"
    using tq_invD(3) [OF assms(1)] alloc_okD [OF assms(2,1)] by (fastforce simp: queued_def)
  then show ?thesis by (auto simp: queued_timers_def queued_def e set_insort_key split: if_splits)
qed

lemma do_cancel_effect:
  assumes "tq_inv q" "do_action alloc now (Act_cancel tid) q = Some q'"
  shows "queued_timers q' = {(a, t) \<in> queued_timers q. (a, sequence t) \<noteq> tid} \<and> numCreated q' = numCreated q
    \<and> callingExpiredTimers q' = callingExpiredTimers q
    \<and> (tid \<notin> activeTimers q \<longrightarrow> callingExpiredTimers q \<longrightarrow> cancelingTimers q' = insert tid (cancelingTimers q))
    \<and> (tid \<in> activeTimers q \<longrightarrow> cancelingTimers q' = cancelingTimers q)"
proof -
  obtain b s where tid: "tid = (b, s)" by fastforce
  have c: "(b, s) \<in> activeTimers q \<Longrightarrow> \<exists>t. theap q b = Some t \<and> sequence t = s \<and> timers q' = remove1 (expiration t, b) (timers q)
               \<and> theap q' = (theap q)(b := None)"
    "(b, s) \<notin> activeTimers q \<Longrightarrow> timers q' = timers q \<and> theap q' = theap q"
    "numCreated q' = numCreated q" "callingExpiredTimers q' = callingExpiredTimers q"
    "(b, s) \<in> activeTimers q \<Longrightarrow> cancelingTimers q' = cancelingTimers q"
    "(b, s) \<notin> activeTimers q \<Longrightarrow> callingExpiredTimers q \<Longrightarrow> cancelingTimers q' = insert (b, s) (cancelingTimers q)"
    using cancelInLoop_contract [OF assms(1), of b s] assms(2) by (auto simp: tid split: if_splits)
  have "queued_timers q' = {(a, t) \<in> queued_timers q. (a, sequence t) \<noteq> (b, s)}"
  proof (cases "(b, s) \<in> activeTimers q")
    case True
    then obtain t where t: "theap q b = Some t" "sequence t = s" "timers q' = remove1 (expiration t, b) (timers q)"
      "theap q' = (theap q)(b := None)" using c(1) by blast
    have st: "set (timers q') = set (timers q) - {(expiration t, b)}"
      unfolding t(3) by (rule set_remove1_eq [OF tq_distinct [OF assms(1)]])
    have "x \<noteq> b \<Longrightarrow> queued q' x = queued q x" for x by (simp add: queued_def st)
    moreover have "theap q' b = None" "x \<noteq> b \<Longrightarrow> theap q' x = theap q x" for x by (simp_all add: t(4))
    ultimately have "(x, u) \<in> queued_timers q' \<longleftrightarrow> x \<noteq> b \<and> (x, u) \<in> queued_timers q" for x u
      by (cases "x = b") (simp_all add: queued_timers_def)
    moreover have "(b, u) \<in> queued_timers q \<Longrightarrow> sequence u = s" for u using t(1,2) by (simp add: queued_timers_def)
    ultimately show ?thesis by auto
  next
    case False
    then have "(w, b) \<in> set (timers q) \<Longrightarrow> theap q b = Some t \<Longrightarrow> sequence t \<noteq> s" for w t
      using tq_active_iff [OF assms(1), of b s] by auto
    with False show ?thesis using c(2) by (auto simp: queued_timers_def queued_def)
  qed
  with c(3-) show ?thesis by (auto simp: tid)
qed

lemma do_actions_effect:
  assumes "alloc_ok alloc"
  shows "tq_inv q \<Longrightarrow> \<forall>x \<in> set xs. act_ok x \<Longrightarrow> owned q A \<Longrightarrow> do_actions alloc now xs q = Some q' \<Longrightarrow>
    numCreated q \<le> numCreated q'
    \<and> {(a, t) \<in> queued_timers q'. sequence t \<le> numCreated q} = {(a, t) \<in> queued_timers q. Act_cancel (a, sequence t) \<notin> set xs}
    \<and> (\<forall>(a, t) \<in> queued_timers q'. numCreated q < sequence t \<longrightarrow> t \<in> set (new_timers (numCreated q) xs))
    \<and> (\<forall>t \<in> set (new_timers (numCreated q) xs). (\<forall>a. Act_cancel (a, sequence t) \<notin> set xs) \<longrightarrow> (\<exists>a. (a, t) \<in> queued_timers q'))
    \<and> (callingExpiredTimers q \<longrightarrow>
         (\<forall>a \<in> A. \<forall>n. (a, n) \<in> cancelingTimers q' \<longleftrightarrow> (a, n) \<in> cancelingTimers q \<or> Act_cancel (a, n) \<in> set xs))"
proof (induction xs arbitrary: q)
  case Nil
  then have "q' = q" by simp
  moreover have "(a, t) \<in> queued_timers q \<Longrightarrow> sequence t \<le> numCreated q" for a t
    using queued_timers_old [OF Nil.prems(1)] .
  ultimately show ?case by (fastforce simp: not_less)
next
  case (Cons x xs)
  have "covered (\<lambda>_. True) q" "up_closed (\<lambda>_. True)" by (simp_all add: covered_def up_closed_def split: prod.splits)
  with do_action_contract [OF Cons.prems(1) assms _ _ _ Cons.prems(3)] Cons.prems(2) obtain q1 where
    q1: "do_action alloc now x q = Some q1" "act_post (\<lambda>_. True) A q q1" by fastforce
  have rest: "do_actions alloc now xs q1 = Some q'" using Cons.prems(4) q1(1) by simp
  have inv1: "tq_inv q1" "owned q1 A" using q1(2) by (simp_all add: act_post_def)
  note ih = Cons.IH [OF inv1(1) _ inv1(2) rest]
  show ?case
  proof (cases x)
    case (Act_add cb wh ival positive)
    define t0 where "t0 = mk_timer cb wh ival positive (numCreated q + 1)"
    have t0: "sequence t0 = numCreated q + 1" by (simp add: t0_def mk_timer_def)
    have ok: "act_ok (Act_add cb wh ival positive)" using Cons.prems(2) by (simp add: Act_add)
    have e: "queued_timers q1 = insert (alloc (theap q), t0) (queued_timers q)" "cancelingTimers q1 = cancelingTimers q"
      "numCreated q1 = numCreated q + 1" "callingExpiredTimers q1 = callingExpiredTimers q"
      using do_add_effect [OF Cons.prems(1) assms ok q1(1) [unfolded Act_add]] by (simp_all add: t0_def)
    have ih': "numCreated q + 1 \<le> numCreated q'"
      "\<And>a t. (a, t) \<in> queued_timers q' \<and> sequence t \<le> numCreated q + 1 \<longleftrightarrow>
         (a, t) \<in> insert (alloc (theap q), t0) (queued_timers q) \<and> Act_cancel (a, sequence t) \<notin> set xs"
      "\<And>a t. (a, t) \<in> queued_timers q' \<Longrightarrow> numCreated q + 1 < sequence t \<Longrightarrow> t \<in> set (new_timers (numCreated q + 1) xs)"
      "\<And>t. t \<in> set (new_timers (numCreated q + 1) xs) \<Longrightarrow> \<forall>a. Act_cancel (a, sequence t) \<notin> set xs \<Longrightarrow> \<exists>a. (a, t) \<in> queued_timers q'"
      "callingExpiredTimers q \<Longrightarrow> \<forall>a \<in> A. \<forall>n. (a, n) \<in> cancelingTimers q' \<longleftrightarrow> (a, n) \<in> cancelingTimers q \<or> Act_cancel (a, n) \<in> set xs"
      using ih Cons.prems(2) unfolding e by (auto simp: set_eq_iff)
    have old: "(a, t) \<in> queued_timers q' \<and> sequence t \<le> numCreated q \<longleftrightarrow> (a, t) \<in> queued_timers q \<and> Act_cancel (a, sequence t) \<notin> set xs" for a t
      using ih'(2) [of a t] queued_timers_old [OF Cons.prems(1), of a t] t0 by auto
    have new: "t = t0 \<or> t \<in> set (new_timers (numCreated q + 1) xs)" if "(a, t) \<in> queued_timers q'" "numCreated q < sequence t" for a t
      using ih'(2) [of a t] ih'(3) [of a t] queued_timers_old [OF Cons.prems(1), of a t] that by fastforce
    have "\<exists>a. (a, t0) \<in> queued_timers q'" if "\<forall>a. Act_cancel (a, sequence t0) \<notin> set xs"
      using ih'(2) [of "alloc (theap q)" t0] that t0 by auto
    then show ?thesis
      using ih'(1,4,5) old t0 by (auto simp: Act_add t0_def [symmetric] set_eq_iff dest: new)
  next
    case (Act_cancel tid)
    have e: "queued_timers q1 = {(a, t) \<in> queued_timers q. (a, sequence t) \<noteq> tid}" "numCreated q1 = numCreated q"
      "callingExpiredTimers q1 = callingExpiredTimers q"
      "tid \<notin> activeTimers q \<longrightarrow> callingExpiredTimers q \<longrightarrow> cancelingTimers q1 = insert tid (cancelingTimers q)"
      "tid \<in> activeTimers q \<longrightarrow> cancelingTimers q1 = cancelingTimers q"
      using do_cancel_effect [OF Cons.prems(1) q1(1) [unfolded Act_cancel]] by simp_all
    have na: "tid \<notin> activeTimers q" if "fst tid \<in> A"
      using that Cons.prems(3) tq_active_iff [OF Cons.prems(1), of "fst tid" "snd tid"] by (auto simp: owned_def queued_def)
    have c1: "callingExpiredTimers q \<Longrightarrow> a \<in> A \<Longrightarrow> (a, n) \<in> cancelingTimers q1 \<longleftrightarrow> (a, n) \<in> cancelingTimers q \<or> (a, n) = tid" for a n
      using e(4,5) na by (cases "tid \<in> activeTimers q") auto
    show ?thesis using ih Cons.prems(2) c1 unfolding e(1-3) by (auto simp: Act_cancel set_eq_iff)
  qed
qed

lemma do_actions_append: "do_actions alloc now (xs @ ys) q = do { q \<leftarrow> do_actions alloc now xs q; do_actions alloc now ys q }"
  by (induction xs arbitrary: q) (simp_all add: bind_eq_Some_conv split: option.splits Option.bind_split)

lemma run_expired_actions:
  "run_expired alloc now acts es q = Some (q', called) \<Longrightarrow> do_actions alloc now (concat (take (length es) acts)) q = Some q'"
proof (induction es arbitrary: acts q called)
  case (Cons e es)
  then show ?case
    by (cases e; cases acts) (fastforce simp: bind_eq_Some_conv do_actions_append)+
qed simp

text \<open>C10: An alarm, whatever timers its callbacks add and cancel (their own, other due ones, any others): it runs
  exactly the callbacks of the timers whose expiration is not after now, each once, in the order of expiration. Afterwards the
  timers queued are: those that were not due and were not cancelled; every due repeating timer that no callback cancelled, its
  expiration one interval after now; and of the timers the callbacks added each one whose id was not cancelled, and
  nothing else (an id that a callback cancels before or after the timer with this id is added may be queued or not).
  Every other due timer is freed. \<open>said\<close> is what the callbacks that ran did, in order.\<close>

theorem alarm_runs_expired:
  assumes "tq_inv q" "alloc_ok alloc" "timestamp_valid now" "\<forall>xs \<in> set acts. \<forall>x \<in> set xs. act_ok x"
  defines "due \<equiv> filter (\<lambda>e. fst e \<le> now) (timers q)"
  defines "said \<equiv> concat (take (length due) acts)"
  shows "\<exists>q' N. tq_handleRead alloc now now' acts q = Some (q', map (\<lambda>(w, a). callback_id (the (theap q a))) due)
     \<and> queued_timers q' = {(a, t). (a, t) \<in> queued_timers q \<and> now < expiration t \<and> Act_cancel (a, sequence t) \<notin> set said}
         \<union> {(a, t\<lparr>expiration := addTime now (interval_us t)\<rparr>) |a t. (a, t) \<in> queued_timers q \<and> expiration t \<le> now
               \<and> repeat t \<and> Act_cancel (a, sequence t) \<notin> set said}
         \<union> N
     \<and> snd ` N \<subseteq> set (new_timers (numCreated q) said) \<and> inj_on snd N
     \<and> (\<forall>t \<in> set (new_timers (numCreated q) said). (\<forall>a. Act_cancel (a, sequence t) \<notin> set said) \<longrightarrow> t \<in> snd ` N)
     \<and> set (timers q') = (\<lambda>(a, t). (expiration t, a)) ` queued_timers q'
     \<and> (\<forall>(a, t) \<in> queued_timers q. expiration t \<le> now \<longrightarrow> \<not> repeat t \<or> Act_cancel (a, sequence t) \<in> set said \<longrightarrow> theap q' a = None)"
proof -
  have inv0: "tq_inv (readTimerfd q)" using assms(1) by (simp add: readTimerfd_def)
  obtain q1 where q1: "getExpired now (readTimerfd q) = Some (due, q1)" "tq_inv q1" "numCreated q1 = numCreated q"
    "timers q1 = filter (\<lambda>e. now < fst e) (timers q)" "theap q1 = theap q" "owned q1 (snd ` set due)" "distinct (map snd due)"
    using getExpired_contract [OF inv0, of now] by (auto simp: due_def readTimerfd_def)
  define A where "A = snd ` set due"
  have cov: "covered timestamp_valid q1"
    using assms(3) up_closed_valid(1) by (force simp: covered_def q1(4) up_closed_def)
  define q2 where "q2 = q1\<lparr>callingExpiredTimers := True, cancelingTimers := {}\<rparr>"
  have inv2: "tq_inv q2" "covered timestamp_valid q2" "owned q2 A" "theap q2 = theap q" "callingExpiredTimers q2" "cancelingTimers q2 = {}"
    "numCreated q2 = numCreated q"
    using q1 cov by (simp_all add: q2_def covered_def owned_def queued_def armed_for_def A_def)
  obtain q3 where q3: "run_expired alloc now' acts due q2 = Some (q3, map (\<lambda>(w, a). callback_id (the (theap q2 a))) due)"
    "tq_inv q3" "covered timestamp_valid q3" "owned q3 A" "\<forall>a \<in> A. theap q3 a = theap q2 a"
    using run_expired_contract [OF assms(2) up_closed_valid(1) inv2(1) assms(4) inv2(2,3), of due] by (auto simp: act_post_def A_def)
  have ran: "do_actions alloc now' said q2 = Some q3" using run_expired_actions [OF q3(1)] by (simp add: said_def)
  have "\<forall>x \<in> set said. act_ok x" using assms(4) by (auto simp: said_def dest: in_set_takeD)
  from do_actions_effect [OF assms(2) inv2(1) this inv2(3) ran] inv2(5-7)
  have e3: "{(a, t) \<in> queued_timers q3. sequence t \<le> numCreated q} = {(a, t) \<in> queued_timers q2. Act_cancel (a, sequence t) \<notin> set said}"
    "\<forall>(a, t) \<in> queued_timers q3. numCreated q < sequence t \<longrightarrow> t \<in> set (new_timers (numCreated q) said)"
    "\<forall>t \<in> set (new_timers (numCreated q) said). (\<forall>a. Act_cancel (a, sequence t) \<notin> set said) \<longrightarrow> (\<exists>a. (a, t) \<in> queued_timers q3)"
    "\<forall>a \<in> A. \<forall>n. (a, n) \<in> cancelingTimers q3 \<longleftrightarrow> Act_cancel (a, n) \<in> set said"
    by simp_all
  define q4 where "q4 = q3\<lparr>callingExpiredTimers := False\<rparr>"
  have inv4: "tq_inv q4" "covered timestamp_valid q4" "owned q4 A" "queued_timers q4 = queued_timers q3" "cancelingTimers q4 = cancelingTimers q3"
    using q3 by (simp_all add: q4_def covered_def owned_def queued_def armed_for_def queued_timers_def)
  obtain q5 where q5: "reset_expired now now' due q4 = Some q5" "tq_inv q5"
    "set (timers q5) = set (timers q4) \<union> {(restart_at now q4 a, a) |a. a \<in> A \<and> survives q4 a}"
    "\<forall>a. theap q5 a = (if a \<in> A then (if survives q4 a then map_option (timer_restart now) (theap q4 a) else None) else theap q4 a)"
    using reset_expired_contract [OF assms(3) inv4(1) inv4(3) [unfolded A_def] q1(7) inv4(2), of now'] unfolding A_def by blast
  have dueA: "a \<in> A \<and> theap q4 a = Some t \<longleftrightarrow> (a, t) \<in> queued_timers q \<and> expiration t \<le> now" for a t
  proof
    assume a: "a \<in> A \<and> theap q4 a = Some t"
    then obtain w where "(w, a) \<in> set (timers q)" "w \<le> now" by (auto simp: A_def due_def)
    moreover have "theap q a = Some t" using a q3(5) inv2(4) by (auto simp: q4_def)
    ultimately show "(a, t) \<in> queued_timers q \<and> expiration t \<le> now"
      using tq_invD(3) [OF assms(1), of w a] by (auto simp: queued_timers_def queued_def)
  next
    assume a: "(a, t) \<in> queued_timers q \<and> expiration t \<le> now"
    then obtain w where w: "(w, a) \<in> set (timers q)" "theap q a = Some t" by (auto simp: queued_timers_def queued_def)
    then have "w = expiration t" using tq_invD(3) [OF assms(1), of w a] by simp
    then have "a \<in> A" using a w by (force simp: A_def due_def)
    then show "a \<in> A \<and> theap q4 a = Some t" using w(2) q3(5) inv2(4) by (simp add: q4_def)
  qed
  have sv: "a \<in> A \<Longrightarrow> survives q4 a \<longleftrightarrow> (\<exists>t. theap q4 a = Some t \<and> repeat t \<and> Act_cancel (a, sequence t) \<notin> set said)" for a
    using e3(4) by (auto simp: survives_def inv4(5))
  have qd: "queued q5 a \<longleftrightarrow> queued q4 a \<or> a \<in> A \<and> survives q4 a" for a by (auto simp: queued_def q5(3))
  have "(a, u) \<in> queued_timers q5 \<longleftrightarrow> (a, u) \<in> queued_timers q4
      \<or> (\<exists>t. u = timer_restart now t \<and> a \<in> A \<and> theap q4 a = Some t \<and> repeat t \<and> Act_cancel (a, sequence t) \<notin> set said)" for a u
  proof (cases "a \<in> A")
    case True
    then have "\<not> queued q4 a" using inv4(3) by (simp add: owned_def)
    then show ?thesis using True sv [OF True] q5(4) by (auto simp: queued_timers_def qd)
  next
    case False
    then show ?thesis using q5(4) by (simp add: queued_timers_def qd)
  qed
  then have q5q: "queued_timers q5 = queued_timers q3
      \<union> {(a, timer_restart now t) |a t. a \<in> A \<and> theap q4 a = Some t \<and> repeat t \<and> Act_cancel (a, sequence t) \<notin> set said}"
    unfolding inv4(4) by auto
  have q2q: "(a, t) \<in> queued_timers q2 \<longleftrightarrow> (a, t) \<in> queued_timers q \<and> now < expiration t" for a t
    using tq_invD(3) [OF assms(1)] by (fastforce simp: queued_timers_def queued_def q2_def q1(4,5))
  define N where "N = {(a, t) \<in> queued_timers q3. numCreated q < sequence t}"
  have q3q: "queued_timers q3 = {(a, t). (a, t) \<in> queued_timers q \<and> now < expiration t \<and> Act_cancel (a, sequence t) \<notin> set said} \<union> N"
    using e3(1) q2q by (fastforce simp: N_def set_eq_iff not_le)
  have rs: "repeat t \<Longrightarrow> timer_restart now t = t\<lparr>expiration := addTime now (interval_us t)\<rparr>" for t
    by (simp add: timer_restart_def)
  have all: "queued_timers q5 = {(a, t). (a, t) \<in> queued_timers q \<and> now < expiration t \<and> Act_cancel (a, sequence t) \<notin> set said}
      \<union> {(a, timer_restart now t) |a t. a \<in> A \<and> theap q4 a = Some t \<and> repeat t \<and> Act_cancel (a, sequence t) \<notin> set said} \<union> N"
    unfolding q5q q3q by blast
  have restarted: "{(a, timer_restart now t) |a t. a \<in> A \<and> theap q4 a = Some t \<and> repeat t \<and> Act_cancel (a, sequence t) \<notin> set said}
      = {(a, t\<lparr>expiration := addTime now (interval_us t)\<rparr>) |a t. (a, t) \<in> queued_timers q \<and> expiration t \<le> now
               \<and> repeat t \<and> Act_cancel (a, sequence t) \<notin> set said}"
    by (intro Collect_cong) (metis dueA rs)
  have "snd ` N \<subseteq> set (new_timers (numCreated q) said)"
    "\<forall>t \<in> set (new_timers (numCreated q) said). (\<forall>a. Act_cancel (a, sequence t) \<notin> set said) \<longrightarrow> t \<in> snd ` N"
    using e3(2,3) new_timers_seq by (fastforce simp: N_def image_iff)+
  moreover have "inj_on snd N"
    using tq_invD(7) [OF q3(2)] by (auto simp: inj_on_def N_def queued_timers_def)
  moreover have "tq_handleRead alloc now now' acts q = Some (q5, map (\<lambda>(w, a). callback_id (the (theap q a))) due)"
    using q1(1) q3(1) q5(1) inv2(4) by (simp add: tq_handleRead_def q2_def [symmetric] q4_def [symmetric])
  moreover have "theap q5 a = None" if "(a, t) \<in> queued_timers q" "expiration t \<le> now" "\<not> repeat t \<or> Act_cancel (a, sequence t) \<in> set said" for a t
    using that dueA [of a t] sv [of a] q5(4) by auto
  ultimately show ?thesis
    using all [unfolded restarted] timers_queued [OF q5(2)] by (intro exI [of _ q5] exI [of _ N] conjI) (assumption | blast)+
qed

definition demo_queue :: timer_queue where
  "demo_queue = mk_timer_queue\<lparr>theap := [0 \<mapsto> mk_timer 1 (Timestamp 900) 300 True 1], numCreated := 1,
     timers := [(Timestamp 900, 0)], activeTimers := {(0, 1)}\<rparr>"

lemma demo_queue_inv: "tq_inv demo_queue"
  by (auto simp: tq_inv_def demo_queue_def mk_timer_queue_def mk_timer_def split: if_splits)

text \<open>A repeating timer that is due; its callback cancels it and adds another one.\<close>

theorem alarm_runs_expired_witness:
  "\<exists>q' a. tq_handleRead first_free (Timestamp 1000) (Timestamp 1001) [[Act_cancel (0, 1), Act_add 5 (Timestamp 2000) 0 False]] demo_queue
       = Some (q', [1]) \<and> queued_timers q' = {(a, mk_timer 5 (Timestamp 2000) 0 False 2)} \<and> theap q' 0 = None"
proof -
  let ?acts = "[[Act_cancel (0, 1), Act_add 5 (Timestamp 2000) 0 False]]" and ?t = "mk_timer 5 (Timestamp 2000) 0 False 2"
    and ?said = "[Act_cancel (0, 1), Act_add 5 (Timestamp 2000) 0 False]"
  have due: "filter (\<lambda>e. fst e \<le> Timestamp 1000) (timers demo_queue) = [(Timestamp 900, 0)]"
    by (simp add: demo_queue_def Timestamp_def less_eq_timestamp_ext_def)
  have said: "concat (take (length [(Timestamp 900, 0 :: taddr)]) ?acts) = ?said" by simp
  have qt: "queued_timers demo_queue = {(0, mk_timer 1 (Timestamp 900) 300 True 1)}"
    by (auto simp: queued_timers_def queued_def demo_queue_def split: if_splits)
  have new: "new_timers (numCreated demo_queue) ?said = [?t]" by (simp add: demo_queue_def)
  have old: "{(a, t). (a, t) \<in> queued_timers demo_queue \<and> Timestamp 1000 < expiration t \<and> Act_cancel (a, sequence t) \<notin> set ?said} = {}"
    "{(a, t\<lparr>expiration := addTime (Timestamp 1000) (interval_us t)\<rparr>) |a t. (a, t) \<in> queued_timers demo_queue
       \<and> expiration t \<le> Timestamp 1000 \<and> repeat t \<and> Act_cancel (a, sequence t) \<notin> set ?said} = {}"
    unfolding qt by (auto simp: mk_timer_def)
  have ok: "timestamp_valid (Timestamp 1000)" "\<forall>xs \<in> set ?acts. \<forall>x \<in> set xs. act_ok x"
    by (simp_all add: timestamp_valid_def Timestamp_def act_ok_def)
  obtain q' N where q': "tq_handleRead first_free (Timestamp 1000) (Timestamp 1001) ?acts demo_queue
      = Some (q', map (\<lambda>(w, a). callback_id (the (theap demo_queue a))) [(Timestamp 900, 0)])" "queued_timers q' = {} \<union> {} \<union> N"
    "snd ` N \<subseteq> set [?t]" "inj_on snd N" "\<forall>t \<in> set [?t]. (\<forall>a. Act_cancel (a, sequence t) \<notin> set ?said) \<longrightarrow> t \<in> snd ` N"
    "\<forall>(a, t) \<in> queued_timers demo_queue. expiration t \<le> Timestamp 1000 \<longrightarrow>
       \<not> repeat t \<or> Act_cancel (a, sequence t) \<in> set ?said \<longrightarrow> theap q' a = None"
    using alarm_runs_expired [OF demo_queue_inv first_free_ok ok, of "Timestamp 1001", unfolded due said new old] by (elim exE conjE) (rule that; assumption)
  have "theap q' 0 = None"
    using q'(6) unfolding qt by (simp add: mk_timer_def Timestamp_def less_eq_timestamp_ext_def)
  moreover have "?t \<in> snd ` N" using q'(5) by (simp add: mk_timer_def)
  then obtain a where "(a, ?t) \<in> N" by fastforce
  then have "N = {(a, ?t)}" using q'(3,4) by (fastforce simp: inj_on_def)
  ultimately show ?thesis using q'(1,2) by (auto simp: demo_queue_def mk_timer_def)
qed

text \<open>C18: Cancelling takes out exactly the timer the id was given for: address and sequence number
  must both match, so that an id of a timer that is gone never cancels a newer timer at the same
  address; every other timer stays allocated and queued.\<close>

theorem cancel_exact:
  assumes "tq_inv q"
  shows "\<exists>q'. cancelInLoop (a, s) q = Some q'
     \<and> set (timers q') = {(w, b) \<in> set (timers q). \<not> (b = a \<and> sequence (the (theap q b)) = s)}
     \<and> (\<forall>b t. theap q b = Some t \<and> (b, sequence t) \<noteq> (a, s) \<longrightarrow> theap q' b = Some t)"
proof -
  obtain q' where c: "cancelInLoop (a, s) q = Some q'"
    "(a, s) \<in> activeTimers q \<Longrightarrow> \<exists>t. theap q a = Some t \<and> sequence t = s \<and> timers q' = remove1 (expiration t, a) (timers q)
               \<and> theap q' = (theap q)(a := None)"
    "(a, s) \<notin> activeTimers q \<Longrightarrow> timers q' = timers q \<and> theap q' = theap q"
    using cancelInLoop_contract [OF assms, of a s] by (auto split: if_splits)
  show ?thesis
  proof (cases "(a, s) \<in> activeTimers q")
    case True
    then obtain t where t: "theap q a = Some t" "sequence t = s" "timers q' = remove1 (expiration t, a) (timers q)"
      "theap q' = (theap q)(a := None)" using c(2) by blast
    have "set (timers q') = set (timers q) - {(expiration t, a)}"
      unfolding t(3) by (rule set_remove1_eq [OF tq_distinct [OF assms]])
    also have "\<dots> = {(w, b) \<in> set (timers q). \<not> (b = a \<and> sequence (the (theap q b)) = s)}"
      using t(1,2) tq_invD(3) [OF assms] by fastforce
    finally show ?thesis using c(1) t(1,2,4) by auto
  next
    case False
    then have "(w, a) \<in> set (timers q) \<Longrightarrow> sequence (the (theap q a)) \<noteq> s" for w
      using tq_active_iff [OF assms, of a s] tq_invD(3) [OF assms, of w a] by auto
    with c(1,3) False show ?thesis by auto
  qed
qed

theorem cancel_exact_witness:
  "\<exists>q'. cancelInLoop (0, 7) demo_queue = Some q' \<and> set (timers q') = {(Timestamp 900, 0)}"
  using cancel_exact [OF demo_queue_inv, of 0 7]
  by (auto simp: demo_queue_def mk_timer_def)

end
