(* ===== verification/Net_Channel.thy ===== *)
theory Net_Channel
  imports Base_Time
begin

unbundle bit_operations_syntax

section \<open>Channels: \<open>net/Channel.h\<close>, \<open>net/Channel.cc\<close>\<close>

text \<open>
  A \<open>Channel\<close> holds the interest of one file descriptor and dispatches its events to callbacks.
  Callbacks are opaque functions: the record says which are set, and \<open>handleEvent\<close> returns the list
  of callbacks it calls, in order. A channel is named by its address; \<open>heap\<close> maps addresses to
  channels. The flags of \<open>poll(2)\<close> and \<open>epoll(7)\<close> agree (the code asserts it statically) and all
  fit a \<open>short\<close>, so one 32-bit word type serves for \<open>int\<close>, \<open>short\<close> and \<open>uint32_t\<close> events.
\<close>

type_synonym events = "32 word"
type_synonym chid = nat
type_synonym fd = int

definition POLLIN :: events where [const_defs]: "POLLIN = 0x001"
definition POLLPRI :: events where [const_defs]: "POLLPRI = 0x002"
definition POLLOUT :: events where [const_defs]: "POLLOUT = 0x004"
definition POLLERR :: events where [const_defs]: "POLLERR = 0x008"
definition POLLHUP :: events where [const_defs]: "POLLHUP = 0x010"
definition POLLNVAL :: events where [const_defs]: "POLLNVAL = 0x020"
definition POLLRDHUP :: events where [const_defs]: "POLLRDHUP = 0x2000"

definition kNoneEvent :: events where [const_defs]: "kNoneEvent = 0"
definition kReadEvent :: events where [const_defs]: "kReadEvent = POLLIN OR POLLPRI"
definition kWriteEvent :: events where [const_defs]: "kWriteEvent = POLLOUT"

record channel =
  ch_fd :: fd
  events :: events
  revents :: events
  index :: int
  logHup :: bool
  tie :: nat
  tied :: bool
  eventHandling :: bool
  addedToLoop :: bool
  readCallback :: bool
  writeCallback :: bool
  closeCallback :: bool
  errorCallback :: bool

type_synonym heap = "chid \<Rightarrow> channel"

definition mk_channel :: "fd \<Rightarrow> channel" where
  "mk_channel fdArg = \<lparr>ch_fd = fdArg, events = 0, revents = 0, index = -1, logHup = True, tie = 0,
     tied = False, eventHandling = False, addedToLoop = False, readCallback = False,
     writeCallback = False, closeCallback = False, errorCallback = False\<rparr>"

definition isNoneEvent :: "channel \<Rightarrow> bool" where "isNoneEvent c \<longleftrightarrow> events c = kNoneEvent"
definition isWriting :: "channel \<Rightarrow> bool" where "isWriting c \<longleftrightarrow> events c AND kWriteEvent \<noteq> 0"
definition isReading :: "channel \<Rightarrow> bool" where "isReading c \<longleftrightarrow> events c AND kReadEvent \<noteq> 0"

definition channel_tie :: "nat \<Rightarrow> channel \<Rightarrow> channel" where
  "channel_tie obj c = c\<lparr>tie := obj, tied := True\<rparr>"

definition setReadCallback :: "channel \<Rightarrow> channel" where "setReadCallback c = c\<lparr>readCallback := True\<rparr>"
definition setWriteCallback :: "channel \<Rightarrow> channel" where "setWriteCallback c = c\<lparr>writeCallback := True\<rparr>"
definition setCloseCallback :: "channel \<Rightarrow> channel" where "setCloseCallback c = c\<lparr>closeCallback := True\<rparr>"
definition setErrorCallback :: "channel \<Rightarrow> channel" where "setErrorCallback c = c\<lparr>errorCallback := True\<rparr>"
definition set_revents :: "events \<Rightarrow> channel \<Rightarrow> channel" where "set_revents r c = c\<lparr>revents := r\<rparr>"
definition set_index :: "int \<Rightarrow> channel \<Rightarrow> channel" where "set_index i c = c\<lparr>index := i\<rparr>"
definition doNotLogHup :: "channel \<Rightarrow> channel" where "doNotLogHup c = c\<lparr>logHup := False\<rparr>"

text \<open>
  The five operations that change \<open>events_\<close>; each then calls \<open>update()\<close>, which hands the channel
  to the poller of its loop (the argument \<open>updateChannel\<close>, provided by a poller below).
\<close>

definition channel_update :: "(chid \<Rightarrow> heap \<times> 'p \<Rightarrow> (heap \<times> 'p) option) \<Rightarrow> chid \<Rightarrow> heap \<times> 'p \<Rightarrow> (heap \<times> 'p) option" where
  "channel_update updateChannel c s =
     (let (h, p) = s in updateChannel c (h(c := (h c)\<lparr>addedToLoop := True\<rparr>), p))"

definition with_events :: "(events \<Rightarrow> events) \<Rightarrow> chid \<Rightarrow> heap \<times> 'p \<Rightarrow> heap \<times> 'p" where
  "with_events f c s = (let (h, p) = s in (h(c := (h c)\<lparr>events := f (events (h c))\<rparr>), p))"

definition enableReading where
  "enableReading upd c s = channel_update upd c (with_events (\<lambda>e. e OR kReadEvent) c s)"
definition disableReading where
  "disableReading upd c s = channel_update upd c (with_events (\<lambda>e. e AND NOT kReadEvent) c s)"
definition enableWriting where
  "enableWriting upd c s = channel_update upd c (with_events (\<lambda>e. e OR kWriteEvent) c s)"
definition disableWriting where
  "disableWriting upd c s = channel_update upd c (with_events (\<lambda>e. e AND NOT kWriteEvent) c s)"
definition disableAll where
  "disableAll upd c s = channel_update upd c (with_events (\<lambda>e. kNoneEvent) c s)"

definition channel_remove :: "(chid \<Rightarrow> heap \<times> 'p \<Rightarrow> (heap \<times> 'p) option) \<Rightarrow> chid \<Rightarrow> heap \<times> 'p \<Rightarrow> (heap \<times> 'p) option" where
  "channel_remove removeChannel c s =
     (let (h, p) = s in
      assert_then (isNoneEvent (h c)) (removeChannel c (h(c := (h c)\<lparr>addedToLoop := False\<rparr>), p)))"

text \<open>The destructor's assertions; \<open>hasChannel\<close> is asked when running in the loop's thread.\<close>

definition channel_dtor :: "bool \<Rightarrow> (chid \<Rightarrow> heap \<times> 'p \<Rightarrow> bool) \<Rightarrow> chid \<Rightarrow> heap \<times> 'p \<Rightarrow> unit option" where
  "channel_dtor inLoopThread hasChannel c s =
     (let h = fst s in
      assert_then (\<not> eventHandling (h c)) (assert_then (\<not> addedToLoop (h c))
        (assert_then (inLoopThread \<longrightarrow> \<not> hasChannel c s) (Some ()))))"

subsection \<open>Event dispatch\<close>

datatype callback = CloseCallback | ErrorCallback | ReadCallback timestamp | WriteCallback

definition handleEventWithGuard :: "timestamp \<Rightarrow> channel \<Rightarrow> callback list" where
  "handleEventWithGuard receiveTime c =
     (if revents c AND POLLHUP \<noteq> 0 \<and> revents c AND POLLIN = 0
      then (if closeCallback c then [CloseCallback] else []) else [])
     @ (if revents c AND (POLLERR OR POLLNVAL) \<noteq> 0
        then (if errorCallback c then [ErrorCallback] else []) else [])
     @ (if revents c AND (POLLIN OR POLLPRI OR POLLRDHUP) \<noteq> 0
        then (if readCallback c then [ReadCallback receiveTime] else []) else [])
     @ (if revents c AND POLLOUT \<noteq> 0
        then (if writeCallback c then [WriteCallback] else []) else [])"

text \<open>\<open>alive\<close> says which objects \<open>weak_ptr::lock\<close> still finds.\<close>

definition handleEvent :: "(nat \<Rightarrow> bool) \<Rightarrow> timestamp \<Rightarrow> channel \<Rightarrow> callback list" where
  "handleEvent alive receiveTime c =
     (if tied c then (if alive (tie c) then handleEventWithGuard receiveTime c else [])
      else handleEventWithGuard receiveTime c)"

definition eventsToString :: "string \<Rightarrow> events \<Rightarrow> string" where
  "eventsToString fd_digits ev = fd_digits @ '': ''
     @ (if ev AND POLLIN \<noteq> 0 then ''IN '' else [])
     @ (if ev AND POLLPRI \<noteq> 0 then ''PRI '' else [])
     @ (if ev AND POLLOUT \<noteq> 0 then ''OUT '' else [])
     @ (if ev AND POLLHUP \<noteq> 0 then ''HUP '' else [])
     @ (if ev AND POLLRDHUP \<noteq> 0 then ''RDHUP '' else [])
     @ (if ev AND POLLERR \<noteq> 0 then ''ERR '' else [])
     @ (if ev AND POLLNVAL \<noteq> 0 then ''NVAL '' else [])"

text \<open>A channel tied to an object that no longer exists calls nothing; otherwise the callbacks
  run in the fixed order close, error, read, write, each at most once, and hang-up closes the
  connection only when there is nothing left to read.\<close>

theorem handleEvent_dispatch:
  "(tied c \<and> \<not> alive (tie c) \<longrightarrow> handleEvent alive t c = [])
   \<and> sorted_wrt (\<lambda>x y. (x, y) \<in> {(CloseCallback, ErrorCallback), (CloseCallback, ReadCallback t),
        (CloseCallback, WriteCallback), (ErrorCallback, ReadCallback t), (ErrorCallback, WriteCallback),
        (ReadCallback t, WriteCallback)}) (handleEvent alive t c)
   \<and> (CloseCallback \<in> set (handleEvent alive t c) \<longrightarrow> revents c AND POLLIN = 0 \<and> revents c AND POLLHUP \<noteq> 0)
   \<and> (\<not> tied c \<and> revents c AND POLLIN \<noteq> 0 \<and> readCallback c \<longrightarrow> ReadCallback t \<in> set (handleEvent alive t c))
   \<and> (\<not> tied c \<and> revents c AND POLLOUT \<noteq> 0 \<and> writeCallback c \<longrightarrow> WriteCallback \<in> set (handleEvent alive t c))"
proof -
  have "revents c AND (POLLIN OR POLLPRI OR POLLRDHUP) \<noteq> 0" if "revents c AND POLLIN \<noteq> 0"
  proof
    assume "revents c AND (POLLIN OR POLLPRI OR POLLRDHUP) = 0"
    moreover have "(POLLIN OR POLLPRI OR POLLRDHUP) AND POLLIN = POLLIN"
      by (simp add: POLLIN_def POLLPRI_def POLLRDHUP_def)
    moreover have "revents c AND ((POLLIN OR POLLPRI OR POLLRDHUP) AND POLLIN)
        = (revents c AND (POLLIN OR POLLPRI OR POLLRDHUP)) AND POLLIN"
      by (rule and.assoc [symmetric])
    ultimately have "revents c AND POLLIN = 0" by simp
    with that show False ..
  qed
  then show ?thesis
    unfolding handleEvent_def handleEventWithGuard_def by (simp add: sorted_wrt_append)
qed

theorem handleEvent_dispatch_witness:
  "handleEvent (\<lambda>_. False) (Timestamp 1) (channel_tie 7 ((setReadCallback (mk_channel 5))\<lparr>revents := POLLIN\<rparr>)) = []"
  using handleEvent_dispatch [of "channel_tie 7 ((setReadCallback (mk_channel 5))\<lparr>revents := POLLIN\<rparr>)"
      "\<lambda>_. False" "Timestamp 1"]
  by (simp add: channel_tie_def)

end
