(* ===== verification/Net_Poller.thy ===== *)
theory Net_Poller
  imports Net_Channel
begin

section \<open>Pollers: \<open>net/Poller.cc\<close>, \<open>net/poller/PollPoller.cc\<close>, \<open>net/poller/EPollPoller.cc\<close>\<close>

text \<open>
  The two pollers keep a map from file descriptors to channels and the interest they hand to the
  kernel: a vector of \<open>pollfd\<close> (with the channel's \<open>index\<close> as back pointer), or the interest set of
  an \<open>epoll\<close> instance. The kernel's set is part of the state, with the documented results of
  \<open>epoll_ctl\<close>: adding a descriptor that is in the set fails, modifying or deleting one that is not
  fails. The results of \<open>poll\<close> and \<open>epoll_wait\<close> are arguments. Both pollers implement the contract
  of the locale \<open>poller\<close>, against which the lemmas about sequences of requests are proved once.
\<close>

subsection \<open>PollPoller\<close>

record pollfd =
  pfd_fd :: fd
  pfd_events :: events
  pfd_revents :: events

record poll_poller =
  pp_channels :: "fd \<rightharpoonup> chid"
  pollfds :: "pollfd list"

type_synonym 'p pstate = "heap \<times> 'p"

definition mk_poll_poller :: poll_poller where
  "mk_poll_poller = \<lparr>pp_channels = Map.empty, pollfds = []\<rparr>"

definition pp_hasChannel :: "chid \<Rightarrow> poll_poller pstate \<Rightarrow> bool" where
  "pp_hasChannel c s = (let (h, p) = s in pp_channels p (ch_fd (h c)) = Some c)"

definition pp_updateChannel :: "chid \<Rightarrow> poll_poller pstate \<Rightarrow> poll_poller pstate option" where
  "pp_updateChannel c s =
     (let (h, p) = s; fd = ch_fd (h c) in
      if index (h c) < 0 then
        assert_then (pp_channels p fd = None)
          (let pfds = pollfds p @ [\<lparr>pfd_fd = fd, pfd_events = events (h c), pfd_revents = 0\<rparr>];
               idx = int (length pfds) - 1
           in Some (h(c := set_index idx (h c)),
                    p\<lparr>pollfds := pfds, pp_channels := (pp_channels p)(fd \<mapsto> c)\<rparr>))
      else
        assert_then (pp_channels p fd \<noteq> None)
       (assert_then (pp_channels p fd = Some c)
         (let idx = index (h c) in
          assert_then (0 \<le> idx \<and> idx < int (length (pollfds p)))
           (let pfd = pollfds p ! nat idx in
            assert_then (pfd_fd pfd = fd \<or> pfd_fd pfd = - fd - 1)
             (let pfd = \<lparr>pfd_fd = fd, pfd_events = events (h c), pfd_revents = 0\<rparr>;
                  pfd = (if isNoneEvent (h c) then pfd\<lparr>pfd_fd := - fd - 1\<rparr> else pfd)
              in Some (h, p\<lparr>pollfds := (pollfds p)[nat idx := pfd]\<rparr>))))))"

definition iter_swap :: "nat \<Rightarrow> nat \<Rightarrow> 'a list \<Rightarrow> 'a list" where
  "iter_swap i j xs = xs[i := xs ! j, j := xs ! i]"

text \<open>\<open>channels_[channelAtEnd]->set_index(idx)\<close> of an absent key would call through a null pointer.\<close>

definition pp_removeChannel :: "chid \<Rightarrow> poll_poller pstate \<Rightarrow> poll_poller pstate option" where
  "pp_removeChannel c s =
     (let (h, p) = s; fd = ch_fd (h c) in
      assert_then (pp_channels p fd \<noteq> None)
     (assert_then (pp_channels p fd = Some c)
     (assert_then (isNoneEvent (h c))
       (let idx = index (h c) in
        assert_then (0 \<le> idx \<and> idx < int (length (pollfds p)))
         (let pfd = pollfds p ! nat idx in
          assert_then (pfd_fd pfd = - fd - 1 \<and> pfd_events pfd = events (h c))
           (let chans = (pp_channels p)(fd := None) in
            if nat idx = length (pollfds p) - 1
            then Some (h, p\<lparr>pp_channels := chans, pollfds := butlast (pollfds p)\<rparr>)
            else (let channelAtEnd = pfd_fd (last (pollfds p));
                      pfds = iter_swap (nat idx) (length (pollfds p) - 1) (pollfds p);
                      channelAtEnd = (if channelAtEnd < 0 then - channelAtEnd - 1 else channelAtEnd)
                  in do { d \<leftarrow> chans channelAtEnd;
                          Some (h(d := set_index idx (h d)),
                                p\<lparr>pp_channels := chans, pollfds := butlast pfds\<rparr>) })))))))"

fun pp_fillActiveChannels :: "pollfd list \<Rightarrow> int \<Rightarrow> (fd \<rightharpoonup> chid) \<Rightarrow> heap \<Rightarrow> (heap \<times> chid list) option" where
  "pp_fillActiveChannels [] numEvents chans h = Some (h, [])"
| "pp_fillActiveChannels (pfd # pfds) numEvents chans h =
     (if numEvents > 0 then
        if pfd_revents pfd \<noteq> 0 then
          (case chans (pfd_fd pfd) of None \<Rightarrow> None
           | Some c \<Rightarrow> assert_then (ch_fd (h c) = pfd_fd pfd)
               (do { (h, cs) \<leftarrow> pp_fillActiveChannels pfds (numEvents - 1) chans (h(c := set_revents (pfd_revents pfd) (h c)));
                     Some (h, c # cs) }))
        else pp_fillActiveChannels pfds numEvents chans h
      else Some (h, []))"

text \<open>\<open>poll(2)\<close> overwrites \<open>revents\<close> of every entry (argument \<open>ready\<close>) and returns \<open>numEvents\<close>.\<close>

definition pp_poll :: "int \<Rightarrow> events list \<Rightarrow> poll_poller pstate \<Rightarrow> (poll_poller pstate \<times> chid list) option" where
  "pp_poll numEvents ready s =
     (let (h, p) = s;
          p = p\<lparr>pollfds := map2 (\<lambda>pfd r. pfd\<lparr>pfd_revents := r\<rparr>) (pollfds p) ready\<rparr>
      in if numEvents > 0
         then do { (h, active) \<leftarrow> pp_fillActiveChannels (pollfds p) numEvents (pp_channels p) h;
                   Some ((h, p), active) }
         else Some ((h, p), []))"

subsection \<open>EPollPoller\<close>

definition kNew :: int where [const_defs]: "kNew = -1"
definition kAdded :: int where [const_defs]: "kAdded = 1"
definition kDeleted :: int where [const_defs]: "kDeleted = 2"
definition kInitEventListSize :: nat where [const_defs]: "kInitEventListSize = 16"

record epoll_poller =
  ep_channels :: "fd \<rightharpoonup> chid"
  ep_set :: "fd \<rightharpoonup> events \<times> chid"
  ep_size :: nat

datatype epoll_op = EPOLL_CTL_ADD | EPOLL_CTL_MOD | EPOLL_CTL_DEL

definition mk_epoll_poller :: epoll_poller where
  "mk_epoll_poller = \<lparr>ep_channels = Map.empty, ep_set = Map.empty, ep_size = kInitEventListSize\<rparr>"

definition ep_hasChannel :: "chid \<Rightarrow> epoll_poller pstate \<Rightarrow> bool" where
  "ep_hasChannel c s = (let (h, p) = s in ep_channels p (ch_fd (h c)) = Some c)"

definition epoll_ctl :: "epoll_op \<Rightarrow> fd \<Rightarrow> events \<times> chid \<Rightarrow> (fd \<rightharpoonup> events \<times> chid) \<Rightarrow> (fd \<rightharpoonup> events \<times> chid) option" where
  "epoll_ctl opn fd ev k =
     (case opn of
        EPOLL_CTL_ADD \<Rightarrow> if k fd = None then Some (k(fd \<mapsto> ev)) else None
      | EPOLL_CTL_MOD \<Rightarrow> if k fd = None then None else Some (k(fd \<mapsto> ev))
      | EPOLL_CTL_DEL \<Rightarrow> if k fd = None then None else Some (k(fd := None)))"

text \<open>A failing \<open>DEL\<close> is only logged, a failing \<open>ADD\<close> or \<open>MOD\<close> is \<open>LOG_SYSFATAL\<close>.\<close>

definition ep_update :: "epoll_op \<Rightarrow> chid \<Rightarrow> epoll_poller pstate \<Rightarrow> epoll_poller pstate option" where
  "ep_update operation c s =
     (let (h, p) = s in
      case epoll_ctl operation (ch_fd (h c)) (events (h c), c) (ep_set p) of
        None \<Rightarrow> if operation = EPOLL_CTL_DEL then Some s else None
      | Some k \<Rightarrow> Some (h, p\<lparr>ep_set := k\<rparr>))"

definition ep_updateChannel :: "chid \<Rightarrow> epoll_poller pstate \<Rightarrow> epoll_poller pstate option" where
  "ep_updateChannel c s =
     (let (h, p) = s; idx = index (h c); fd = ch_fd (h c) in
      if idx = kNew \<or> idx = kDeleted then
        do { p \<leftarrow> (if idx = kNew
                   then assert_then (ep_channels p fd = None)
                          (Some (p\<lparr>ep_channels := (ep_channels p)(fd \<mapsto> c)\<rparr>))
                   else assert_then (ep_channels p fd \<noteq> None)
                          (assert_then (ep_channels p fd = Some c) (Some p)));
             ep_update EPOLL_CTL_ADD c (h(c := set_index kAdded (h c)), p) }
      else
        assert_then (ep_channels p fd \<noteq> None)
       (assert_then (ep_channels p fd = Some c)
       (assert_then (idx = kAdded)
         (if isNoneEvent (h c)
          then do { (h, p) \<leftarrow> ep_update EPOLL_CTL_DEL c (h, p); Some (h(c := set_index kDeleted (h c)), p) }
          else ep_update EPOLL_CTL_MOD c (h, p)))))"

definition ep_removeChannel :: "chid \<Rightarrow> epoll_poller pstate \<Rightarrow> epoll_poller pstate option" where
  "ep_removeChannel c s =
     (let (h, p) = s; fd = ch_fd (h c) in
      assert_then (ep_channels p fd \<noteq> None)
     (assert_then (ep_channels p fd = Some c)
     (assert_then (isNoneEvent (h c))
       (let idx = index (h c) in
        assert_then (idx = kAdded \<or> idx = kDeleted)
         (do { (h, p) \<leftarrow> (let p = p\<lparr>ep_channels := (ep_channels p)(fd := None)\<rparr> in
                          if idx = kAdded then ep_update EPOLL_CTL_DEL c (h, p) else Some (h, p));
               Some (h(c := set_index kNew (h c)), p) })))))"

fun ep_fillActiveChannels :: "(chid \<times> events) list \<Rightarrow> (fd \<rightharpoonup> chid) \<Rightarrow> heap \<Rightarrow> (heap \<times> chid list) option" where
  "ep_fillActiveChannels [] chans h = Some (h, [])"
| "ep_fillActiveChannels ((c, r) # evs) chans h =
     assert_then (chans (ch_fd (h c)) \<noteq> None)
    (assert_then (chans (ch_fd (h c)) = Some c)
      (do { (h, cs) \<leftarrow> ep_fillActiveChannels evs chans (h(c := set_revents r (h c)));
            Some (h, c # cs) }))"

text \<open>\<open>epoll_wait\<close> returns \<open>numEvents\<close> and fills that many entries (\<open>ready\<close>); at most
  \<open>events_.size()\<close> of them, and a full vector is doubled for the next call.\<close>

definition ep_poll :: "int \<Rightarrow> (chid \<times> events) list \<Rightarrow> epoll_poller pstate \<Rightarrow> (epoll_poller pstate \<times> chid list) option" where
  "ep_poll numEvents ready s =
     (let (h, p) = s in
      if numEvents > 0
      then assert_then (nat numEvents \<le> ep_size p)
        (do { (h, active) \<leftarrow> ep_fillActiveChannels (take (nat numEvents) ready) (ep_channels p) h;
              Some ((h, if nat numEvents = ep_size p then p\<lparr>ep_size := ep_size p * 2\<rparr> else p), active) })
      else Some ((h, p), []))"

subsection \<open>The contract of a poller\<close>

text \<open>
  What a poller promises to the event loop: \<open>registered\<close> is the map from descriptors to channels,
  \<open>interest\<close> the events the kernel is asked to watch (a descriptor watched for no event counts as not
  watched). A channel can be updated when it is fresh and wants some event, or when it is registered;
  it can be removed when it is registered and wants nothing. Then no assertion fails.
\<close>

datatype request = Update chid "events \<Rightarrow> events" | Remove chid

record interest_spec =
  sp_reg :: "fd \<rightharpoonup> chid \<times> events"
  sp_fresh :: "chid set"

text \<open>\<open>fds\<close> gives the descriptor of every channel (\<open>fd_\<close> is const).\<close>

fun spec_request :: "(chid \<Rightarrow> fd) \<Rightarrow> request \<Rightarrow> interest_spec \<Rightarrow> interest_spec option" where
  "spec_request fds (Update c f) a =
     (case sp_reg a (fds c) of
        None \<Rightarrow> if c \<in> sp_fresh a \<and> f 0 \<noteq> 0
                then Some \<lparr>sp_reg = (sp_reg a)(fds c \<mapsto> (c, f 0)), sp_fresh = sp_fresh a - {c}\<rparr> else None
      | Some (d, e) \<Rightarrow> if d = c
                      then Some (a\<lparr>sp_reg := (sp_reg a)(fds c \<mapsto> (c, f e))\<rparr>) else None)"
| "spec_request fds (Remove c) a =
     (if sp_reg a (fds c) = Some (c, 0) then Some (a\<lparr>sp_reg := (sp_reg a)(fds c := None)\<rparr>) else None)"

fun run_requests :: "('r \<Rightarrow> 's \<Rightarrow> 's option) \<Rightarrow> 'r list \<Rightarrow> 's \<Rightarrow> 's option" where
  "run_requests step [] s = Some s"
| "run_requests step (r # rs) s = do { s \<leftarrow> step r s; run_requests step rs s }"

locale poller =
  fixes updateChannel removeChannel :: "chid \<Rightarrow> heap \<times> 'p \<Rightarrow> (heap \<times> 'p) option"
    and registered :: "'p \<Rightarrow> fd \<rightharpoonup> chid"
    and interest :: "'p \<Rightarrow> fd \<rightharpoonup> events"
    and inv :: "heap \<times> 'p \<Rightarrow> bool"
  assumes update_law: "\<lbrakk>inv (h, p); registered p (ch_fd (h c)) = Some c \<or> registered p (ch_fd (h c)) = None \<and> index (h c) = -1;
       0 \<le> ch_fd (h c); e \<noteq> 0 \<or> registered p (ch_fd (h c)) = Some c\<rbrakk> \<Longrightarrow>
     \<exists>h' p'. updateChannel c (h(c := (h c)\<lparr>events := e, addedToLoop := True\<rparr>), p) = Some (h', p')
       \<and> inv (h', p') \<and> registered p' = (registered p)(ch_fd (h c) \<mapsto> c)
       \<and> interest p' = (interest p)(ch_fd (h c) := if e = 0 then None else Some e)
       \<and> (\<forall>d. ch_fd (h' d) = ch_fd (h d) \<and> events (h' d) = (if d = c then e else events (h d)))
       \<and> (\<forall>d. d \<noteq> c \<longrightarrow> index (h d) = -1 \<longrightarrow> index (h' d) = -1)"
    and remove_law: "\<lbrakk>inv (h, p); registered p (ch_fd (h c)) = Some c; events (h c) = 0\<rbrakk> \<Longrightarrow>
     \<exists>h' p'. removeChannel c (h(c := (h c)\<lparr>addedToLoop := False\<rparr>), p) = Some (h', p')
       \<and> inv (h', p') \<and> registered p' = (registered p)(ch_fd (h c) := None)
       \<and> interest p' = interest p
       \<and> (\<forall>d. ch_fd (h' d) = ch_fd (h d) \<and> events (h' d) = events (h d))
       \<and> (\<forall>d. index (h d) = -1 \<longrightarrow> index (h' d) = -1)"
    and consistent: "inv (h, p) \<Longrightarrow> registered p f = Some c \<Longrightarrow> ch_fd (h c) = f \<and> 0 \<le> f \<and> index (h c) \<noteq> -1
       \<and> interest p f = (if events (h c) = 0 then None else Some (events (h c)))"
    and unwatched: "inv (h, p) \<Longrightarrow> registered p f = None \<Longrightarrow> interest p f = None"
begin

fun request_step :: "request \<Rightarrow> heap \<times> 'p \<Rightarrow> (heap \<times> 'p) option" where
  "request_step (Update c f) s = channel_update updateChannel c (with_events f c s)"
| "request_step (Remove c) s = channel_remove removeChannel c s"

definition refines :: "(chid \<Rightarrow> fd) \<Rightarrow> heap \<times> 'p \<Rightarrow> interest_spec \<Rightarrow> bool" where
  "refines fds s a \<longleftrightarrow> (let (h, p) = s in inv s \<and> (\<forall>c. ch_fd (h c) = fds c \<and> 0 \<le> fds c)
     \<and> registered p = (\<lambda>f. map_option fst (sp_reg a f))
     \<and> (\<forall>f c e. sp_reg a f = Some (c, e) \<longrightarrow> events (h c) = e)
     \<and> (\<forall>c \<in> sp_fresh a. index (h c) = -1 \<and> events (h c) = 0))"

lemma refines_interest:
  "refines fds (h, p) a \<Longrightarrow> interest p f = (case sp_reg a f of None \<Rightarrow> None | Some (c, e) \<Rightarrow> if e = 0 then None else Some e)"
  using consistent [of h p f] unwatched [of h p f]
  by (auto simp: refines_def split: option.splits)

lemma step_refines:
  assumes "refines fds s a" "spec_request fds r a = Some a'"
  shows "\<exists>s'. request_step r s = Some s' \<and> refines fds s' a'"
proof (cases r)
  case (Update c f)
  obtain h p where s: "s = (h, p)" by fastforce
  have R: "inv (h, p)" "\<And>c. ch_fd (h c) = fds c" "\<And>c. 0 \<le> fds c" "registered p = (\<lambda>f. map_option fst (sp_reg a f))"
    "\<And>f c e. sp_reg a f = Some (c, e) \<Longrightarrow> events (h c) = e"
    "\<And>c. c \<in> sp_fresh a \<Longrightarrow> index (h c) = -1 \<and> events (h c) = 0"
    using assms(1) by (simp_all add: refines_def s)
  show ?thesis
  proof (cases "sp_reg a (fds c)")
    case None
    then have c: "c \<in> sp_fresh a" "f 0 \<noteq> 0"
      and a': "a' = \<lparr>sp_reg = (sp_reg a)(fds c \<mapsto> (c, f 0)), sp_fresh = sp_fresh a - {c}\<rparr>"
      using assms(2) Update by (auto split: if_splits)
    have other: "sp_reg a g = Some (d, e) \<Longrightarrow> d \<noteq> c" for g d e
      using None R(1,2,4) consistent [of h p g d] by auto
    from update_law [OF R(1), of c "f 0"] None c R obtain h' p'
      where "updateChannel c (h(c := (h c)\<lparr>events := f 0, addedToLoop := True\<rparr>), p) = Some (h', p')"
        "inv (h', p')" "registered p' = (registered p)(fds c \<mapsto> c)"
        "\<forall>d. ch_fd (h' d) = ch_fd (h d) \<and> events (h' d) = (if d = c then f 0 else events (h d))"
        "\<forall>d. d \<noteq> c \<longrightarrow> index (h d) = -1 \<longrightarrow> index (h' d) = -1"
      by auto
    with R c other show ?thesis
      by (auto simp: Update s channel_update_def with_events_def refines_def a' fun_eq_iff)
  next
    case (Some de)
    then obtain e where de: "de = (c, e)"
      and a': "a' = a\<lparr>sp_reg := (sp_reg a)(fds c \<mapsto> (c, f e))\<rparr>"
      using assms(2) Update by (cases de) (auto split: if_splits)
    have ev: "events (h c) = e" using R(5) Some de by blast
    have reg: "registered p (fds c) = Some c" using R(4) Some de by simp
    have idx: "index (h c) \<noteq> -1" using consistent [OF R(1) reg] by auto
    have other: "sp_reg a g = Some (d, e') \<Longrightarrow> g \<noteq> fds c \<Longrightarrow> d \<noteq> c" for g d e'
      using R(1,2,4) consistent [of h p g d] by auto
    have "0 \<le> ch_fd (h c)" "registered p (ch_fd (h c)) = Some c" using R(2,3) reg by simp_all
    then obtain h' p'
      where "updateChannel c (h(c := (h c)\<lparr>events := f e, addedToLoop := True\<rparr>), p) = Some (h', p')"
        "inv (h', p')" "registered p' = (registered p)(fds c \<mapsto> c)"
        "\<forall>d. ch_fd (h' d) = ch_fd (h d) \<and> events (h' d) = (if d = c then f e else events (h d))"
        "\<forall>d. d \<noteq> c \<longrightarrow> index (h d) = -1 \<longrightarrow> index (h' d) = -1"
      using update_law [OF R(1), of c "f e"] R(2) by auto
    moreover have "c \<notin> sp_fresh a" using R(6) idx by blast
    ultimately show ?thesis
      using R other ev Some by (auto simp: Update s channel_update_def with_events_def refines_def a' fun_eq_iff)
  qed
next
  case (Remove c)
  obtain h p where s: "s = (h, p)" by fastforce
  have R: "inv (h, p)" "\<And>c. ch_fd (h c) = fds c" "registered p = (\<lambda>f. map_option fst (sp_reg a f))"
    "\<And>f c e. sp_reg a f = Some (c, e) \<Longrightarrow> events (h c) = e"
    using assms(1) by (simp_all add: refines_def s)
  have c: "sp_reg a (fds c) = Some (c, 0)" "a' = a\<lparr>sp_reg := (sp_reg a)(fds c := None)\<rparr>"
    using assms(2) Remove by (auto split: if_splits)
  from remove_law [OF R(1), of c] c R obtain h' p'
    where "removeChannel c (h(c := (h c)\<lparr>addedToLoop := False\<rparr>), p) = Some (h', p')"
      "inv (h', p')" "registered p' = (registered p)(fds c := None)"
      "\<forall>d. ch_fd (h' d) = ch_fd (h d) \<and> events (h' d) = events (h d)"
      "\<forall>d. index (h d) = -1 \<longrightarrow> index (h' d) = -1"
    by auto
  with assms(1) c show ?thesis
    by (auto simp: Remove s channel_remove_def refines_def R isNoneEvent_def kNoneEvent_def fun_eq_iff)
qed

lemma run_refines:
  "refines fds s a \<Longrightarrow> run_requests (spec_request fds) rs a = Some a' \<Longrightarrow>
     \<exists>s'. run_requests request_step rs s = Some s' \<and> refines fds s' a'"
proof (induction rs arbitrary: s a)
  case (Cons r rs)
  then obtain b where b: "spec_request fds r a = Some b" "run_requests (spec_request fds) rs b = Some a'"
    by auto
  with step_refines [OF Cons.prems(1)] obtain s'' where "request_step r s = Some s''" "refines fds s'' b"
    by blast
  with Cons.IH b(2) show ?case by simp
qed simp

end

subsection \<open>\<open>EPollPoller\<close> implements the contract\<close>

definition ep_interest :: "epoll_poller \<Rightarrow> fd \<rightharpoonup> events" where
  "ep_interest p f = (case ep_set p f of None \<Rightarrow> None | Some (e, c) \<Rightarrow> if e = 0 then None else Some e)"

definition ep_inv :: "epoll_poller pstate \<Rightarrow> bool" where
  "ep_inv s = (let (h, p) = s in
     (\<forall>f c. ep_channels p f = Some c \<longrightarrow> ch_fd (h c) = f \<and> 0 \<le> f \<and>
        (index (h c) = 1 \<and> ep_set p f = Some (events (h c), c)
         \<or> index (h c) = 2 \<and> events (h c) = 0 \<and> ep_set p f = None))
     \<and> (\<forall>f. ep_channels p f = None \<longrightarrow> ep_set p f = None))"

lemmas ep_ops = ep_updateChannel_def ep_removeChannel_def ep_update_def epoll_ctl_def Let_def
  isNoneEvent_def kNoneEvent_def kNew_def kAdded_def kDeleted_def set_index_def

lemma ep_invD:
  "ep_inv (h, p) \<Longrightarrow> ep_channels p f = Some c \<Longrightarrow> ch_fd (h c) = f \<and> 0 \<le> f \<and>
        (index (h c) = 1 \<and> ep_set p f = Some (events (h c), c)
         \<or> index (h c) = 2 \<and> events (h c) = 0 \<and> ep_set p f = None)"
  "ep_inv (h, p) \<Longrightarrow> ep_channels p f = None \<Longrightarrow> ep_set p f = None"
  by (simp_all add: ep_inv_def)

lemma ep_inv_put:
  assumes "ep_inv (h, p)" "ep_channels p f = Some c \<or> ep_channels p f = None" "ch_fd (h c) = f"
    "ch_fd ch = f" "0 \<le> f"
    "index ch = 1 \<and> k = Some (events ch, c) \<or> index ch = 2 \<and> events ch = 0 \<and> k = None"
  shows "ep_inv (h(c := ch), p\<lparr>ep_channels := (ep_channels p)(f \<mapsto> c), ep_set := (ep_set p)(f := k)\<rparr>)"
  using assms ep_invD(1) [OF assms(1)] by (auto simp: ep_inv_def)

lemma ep_inv_del:
  assumes "ep_inv (h, p)" "ep_channels p f = Some c"
  shows "ep_inv (h(c := ch), p\<lparr>ep_channels := (ep_channels p)(f := None), ep_set := (ep_set p)(f := None)\<rparr>)"
proof -
  have "ep_channels p g = Some c \<Longrightarrow> g = f" for g
    using ep_invD(1) [OF assms(1), of g c] ep_invD(1) [OF assms] by simp
  then show ?thesis
    using ep_invD [OF assms(1)] by (auto simp: ep_inv_def)
qed

lemma ep_update_law:
  assumes "ep_inv (h, p)" "ep_channels p (ch_fd (h c)) = Some c \<or> ep_channels p (ch_fd (h c)) = None \<and> index (h c) = -1"
    "0 \<le> ch_fd (h c)" "e \<noteq> 0 \<or> ep_channels p (ch_fd (h c)) = Some c"
  shows "\<exists>h' p'. ep_updateChannel c (h(c := (h c)\<lparr>events := e, addedToLoop := True\<rparr>), p) = Some (h', p')
       \<and> ep_inv (h', p') \<and> ep_channels p' = (ep_channels p)(ch_fd (h c) \<mapsto> c)
       \<and> ep_interest p' = (ep_interest p)(ch_fd (h c) := if e = 0 then None else Some e)
       \<and> (\<forall>d. ch_fd (h' d) = ch_fd (h d) \<and> events (h' d) = (if d = c then e else events (h d)))
       \<and> (\<forall>d. d \<noteq> c \<longrightarrow> index (h d) = -1 \<longrightarrow> index (h' d) = -1)"
proof -
  define f where "f = ch_fd (h c)"
  have fd: "ch_fd (h c) = f" by (simp add: f_def)
  have inv: "ep_inv (h, p)" by (rule assms(1))
  define idx where "idx = (if e = 0 \<and> index (h c) = 1 then 2 else 1 :: int)"
  define ch where "ch = (h c)\<lparr>events := e, addedToLoop := True, index := idx\<rparr>"
  define k where "k = (if e = 0 \<and> index (h c) = 1 then None else Some (e, c))"
  define p' where "p' = p\<lparr>ep_channels := (ep_channels p)(f \<mapsto> c), ep_set := (ep_set p)(f := k)\<rparr>"
  consider (new) "ep_channels p f = None" "index (h c) = -1" "ep_set p f = None"
    | (added) x where "ep_channels p f = Some c" "index (h c) = 1" "ep_set p f = Some x"
    | (deleted) "ep_channels p f = Some c" "index (h c) = 2" "ep_set p f = None"
    using assms(2) ep_invD(1) [OF inv, of f c] ep_invD(2) [OF inv, of f] unfolding fd
    by (elim disjE conjE) auto
  then have upd: "ep_updateChannel c (h(c := (h c)\<lparr>events := e, addedToLoop := True\<rparr>), p) = Some (h(c := ch), p')"
  proof cases
    case new
    then show ?thesis by (simp add: ep_ops fd ch_def p'_def k_def idx_def)
  next
    case added
    have "ch = (if e = 0 then (h c)\<lparr>events := e, addedToLoop := True, index := 2\<rparr>
        else (h c)\<lparr>events := e, addedToLoop := True\<rparr>)"
      using added(2) by (cases "h c") (simp add: ch_def idx_def)
    with added show ?thesis by (simp add: ep_ops fd p'_def k_def fun_upd_idem)
  next
    case deleted
    then show ?thesis by (simp add: ep_ops fd ch_def p'_def k_def idx_def fun_upd_idem)
  qed
  have "ep_inv (h(c := ch), p')"
    unfolding p'_def using assms(2,3)
    by (intro ep_inv_put [OF inv]) (auto simp: fd ch_def k_def idx_def)
  moreover have "ep_interest p' = (ep_interest p)(f := if e = 0 then None else Some e)"
    by (auto simp: ep_interest_def p'_def k_def fun_eq_iff)
  ultimately show ?thesis
    using upd unfolding fd by (intro exI [of _ "h(c := ch)"] exI [of _ p']) (simp add: ch_def p'_def fd)
qed

lemma ep_remove_law:
  assumes "ep_inv (h, p)" "ep_channels p (ch_fd (h c)) = Some c" "events (h c) = 0"
  shows "\<exists>h' p'. ep_removeChannel c (h(c := (h c)\<lparr>addedToLoop := False\<rparr>), p) = Some (h', p')
       \<and> ep_inv (h', p') \<and> ep_channels p' = (ep_channels p)(ch_fd (h c) := None)
       \<and> ep_interest p' = ep_interest p
       \<and> (\<forall>d. ch_fd (h' d) = ch_fd (h d) \<and> events (h' d) = events (h d))
       \<and> (\<forall>d. index (h d) = -1 \<longrightarrow> index (h' d) = -1)"
proof -
  define f where "f = ch_fd (h c)"
  have fd: "ch_fd (h c) = f" by (simp add: f_def)
  note c = assms(2) [unfolded fd]
  define h' where "h' = h(c := (h c)\<lparr>addedToLoop := False, index := -1\<rparr>)"
  define p' where "p' = p\<lparr>ep_channels := (ep_channels p)(f := None), ep_set := (ep_set p)(f := None)\<rparr>"
  consider (added) "index (h c) = 1" "ep_set p f = Some (0, c)" | (deleted) "index (h c) = 2" "ep_set p f = None"
    using ep_invD(1) [OF assms(1) c] assms(3) by auto
  then have "ep_removeChannel c (h(c := (h c)\<lparr>addedToLoop := False\<rparr>), p) = Some (h', p') \<and> ep_interest p' = ep_interest p"
  proof cases
    case added
    then show ?thesis using c assms(3) by (auto simp: ep_ops fd h'_def p'_def ep_interest_def fun_eq_iff)
  next
    case deleted
    then show ?thesis using c assms(3) by (auto simp: ep_ops fd h'_def p'_def ep_interest_def fun_eq_iff fun_upd_idem)
  qed
  moreover have "ep_inv (h', p')"
    unfolding p'_def h'_def by (rule ep_inv_del [OF assms(1) c])
  ultimately show ?thesis
    unfolding fd by (intro exI [of _ h'] exI [of _ p']) (simp add: h'_def p'_def)
qed

interpretation epoll: poller ep_updateChannel ep_removeChannel ep_channels ep_interest ep_inv
proof
  show "ep_inv (h, p) \<Longrightarrow> ep_channels p f = Some c \<Longrightarrow> ch_fd (h c) = f \<and> 0 \<le> f \<and> index (h c) \<noteq> -1
       \<and> ep_interest p f = (if events (h c) = 0 then None else Some (events (h c)))" for h p f c
    using ep_invD(1) [of h p f c] by (auto simp: ep_interest_def)
  show "ep_inv (h, p) \<Longrightarrow> ep_channels p f = None \<Longrightarrow> ep_interest p f = None" for h p f
    using ep_invD(2) [of h p f] by (simp add: ep_interest_def)
qed (use ep_update_law ep_remove_law in blast)+

subsection \<open>\<open>PollPoller\<close> implements the contract\<close>

definition pp_interest :: "poll_poller \<Rightarrow> fd \<rightharpoonup> events" where
  "pp_interest p f = (if f < 0 then None
     else map_option pfd_events (find (\<lambda>q. pfd_fd q = f) (pollfds p)))"

definition pp_entry :: "channel \<Rightarrow> pollfd \<Rightarrow> bool" where
  "pp_entry c q \<longleftrightarrow> pfd_events q = events c \<and> pfd_fd q = (if events c = 0 then - ch_fd c - 1 else ch_fd c)"

definition pp_inv :: "poll_poller pstate \<Rightarrow> bool" where
  "pp_inv s = (let (h, p) = s in
     (\<forall>f c. pp_channels p f = Some c \<longrightarrow> ch_fd (h c) = f \<and> 0 \<le> f \<and> 0 \<le> index (h c)
        \<and> nat (index (h c)) < length (pollfds p) \<and> pp_entry (h c) (pollfds p ! nat (index (h c))))
     \<and> (\<forall>i < length (pollfds p). \<exists>f c. pp_channels p f = Some c \<and> index (h c) = int i))"

lemma pp_invD:
  assumes "pp_inv (h, p)"
  shows "pp_channels p f = Some c \<Longrightarrow> ch_fd (h c) = f \<and> 0 \<le> f \<and> 0 \<le> index (h c)
        \<and> nat (index (h c)) < length (pollfds p) \<and> pp_entry (h c) (pollfds p ! nat (index (h c)))"
    and "i < length (pollfds p) \<Longrightarrow> \<exists>f c. pp_channels p f = Some c \<and> index (h c) = int i"
  using assms by (simp_all add: pp_inv_def)

lemma pp_invI:
  assumes "\<And>f c. pp_channels p f = Some c \<Longrightarrow> ch_fd (h c) = f \<and> 0 \<le> f \<and> 0 \<le> index (h c)
        \<and> nat (index (h c)) < length (pollfds p) \<and> pp_entry (h c) (pollfds p ! nat (index (h c)))"
    and "\<And>i. i < length (pollfds p) \<Longrightarrow> \<exists>f c. pp_channels p f = Some c \<and> index (h c) = int i"
  shows "pp_inv (h, p)"
  using assms by (simp add: pp_inv_def)

lemma pp_index_inj:
  assumes "pp_inv (h, p)" "pp_channels p f = Some c" "pp_channels p g = Some d" "index (h c) = index (h d)"
  shows "f = g \<and> c = d"
proof -
  have "f = g"
    using pp_invD(1) [OF assms(1,2)] pp_invD(1) [OF assms(1,3)] assms(4)
    by (auto simp: pp_entry_def split: if_splits)
  with assms(2,3) show ?thesis by simp
qed

lemma pp_inv_interest:
  assumes "pp_inv (h, p)"
  shows "pp_interest p f = (case pp_channels p f of None \<Rightarrow> None
     | Some c \<Rightarrow> if events (h c) = 0 then None else Some (events (h c)))"
proof (cases "find (\<lambda>q. pfd_fd q = f) (pollfds p)")
  case None
  then have no: "i < length (pollfds p) \<Longrightarrow> pfd_fd (pollfds p ! i) \<noteq> f" for i
    by (simp add: find_None_iff in_set_conv_nth) blast
  show ?thesis
  proof (cases "pp_channels p f")
    case (Some c)
    from pp_invD(1) [OF assms Some] no [of "nat (index (h c))"] have "events (h c) = 0"
      by (auto simp: pp_entry_def split: if_splits)
    with None Some show ?thesis by (simp add: pp_interest_def)
  qed (use None in \<open>simp add: pp_interest_def\<close>)
next
  case (Some q)
  then obtain i where i: "i < length (pollfds p)" "q = pollfds p ! i" "pfd_fd q = f"
    by (auto simp: find_Some_iff)
  obtain g c where g: "pp_channels p g = Some c" "index (h c) = int i" using pp_invD(2) [OF assms i(1)] by blast
  from pp_invD(1) [OF assms g(1)] g(2) i
  have c: "ch_fd (h c) = g" "0 \<le> g" "pp_entry (h c) q" by simp_all
  show ?thesis
  proof (cases "f < 0")
    case True
    moreover have "pp_channels p f = None"
      using pp_invD(1) [OF assms, of f] True by (cases "pp_channels p f") auto
    ultimately show ?thesis by (simp add: pp_interest_def)
  next
    case False
    with c i(3) have "f = g" "events (h c) \<noteq> 0" "pfd_events q = events (h c)"
      by (auto simp: pp_entry_def split: if_splits)
    with False Some g(1) show ?thesis by (simp add: pp_interest_def)
  qed
qed

lemmas pp_ops = pp_updateChannel_def pp_removeChannel_def Let_def isNoneEvent_def kNoneEvent_def
  set_index_def iter_swap_def

text \<open>A new channel is appended.\<close>

lemma pp_inv_push:
  assumes "pp_inv (h, p)" "pp_channels p f = None" "ch_fd ch = f" "0 \<le> f"
    "index ch = int (length (pollfds p))" "pp_entry ch q"
    and new: "\<And>g. pp_channels p g \<noteq> Some c"
  shows "pp_inv (h(c := ch), p\<lparr>pp_channels := (pp_channels p)(f \<mapsto> c), pollfds := pollfds p @ [q]\<rparr>)"
proof (rule pp_invI)
  show "ch_fd ((h(c := ch)) d) = g \<and> 0 \<le> g \<and> 0 \<le> index ((h(c := ch)) d)
      \<and> nat (index ((h(c := ch)) d)) < length (pollfds (p\<lparr>pp_channels := (pp_channels p)(f \<mapsto> c), pollfds := pollfds p @ [q]\<rparr>))
      \<and> pp_entry ((h(c := ch)) d) (pollfds (p\<lparr>pp_channels := (pp_channels p)(f \<mapsto> c), pollfds := pollfds p @ [q]\<rparr>) ! nat (index ((h(c := ch)) d)))"
    if "pp_channels (p\<lparr>pp_channels := (pp_channels p)(f \<mapsto> c), pollfds := pollfds p @ [q]\<rparr>) g = Some d" for g d
  proof (cases "g = f")
    case False
    with that have d: "pp_channels p g = Some d" by simp
    with new have "d \<noteq> c" by blast
    with pp_invD(1) [OF assms(1) d] show ?thesis by (simp add: nth_append)
  qed (use that assms in simp)
  show "\<exists>g d. pp_channels (p\<lparr>pp_channels := (pp_channels p)(f \<mapsto> c), pollfds := pollfds p @ [q]\<rparr>) g = Some d
      \<and> index ((h(c := ch)) d) = int i"
    if "i < length (pollfds (p\<lparr>pp_channels := (pp_channels p)(f \<mapsto> c), pollfds := pollfds p @ [q]\<rparr>))" for i
  proof (cases "i = length (pollfds p)")
    case True
    with assms(5) show ?thesis by (intro exI [of _ f] exI [of _ c]) simp
  next
    case False
    with that obtain g d where gd: "pp_channels p g = Some d" "index (h d) = int i"
      using pp_invD(2) [OF assms(1), of i] by auto
    moreover have "g \<noteq> f" "d \<noteq> c" using gd assms(2) new by auto
    ultimately show ?thesis by (intro exI [of _ g] exI [of _ d]) simp
  qed
qed

text \<open>The entry of a registered channel is overwritten in place.\<close>

lemma pp_inv_set:
  assumes inv: "pp_inv (h, p)" and c: "pp_channels p f = Some c" and ch: "ch_fd ch = f" "index ch = index (h c)" "pp_entry ch q"
  shows "pp_inv (h(c := ch), p\<lparr>pollfds := (pollfds p)[nat (index (h c)) := q]\<rparr>)"
proof (rule pp_invI)
  note cI = pp_invD(1) [OF inv c]
  show "ch_fd ((h(c := ch)) d) = g \<and> 0 \<le> g \<and> 0 \<le> index ((h(c := ch)) d)
      \<and> nat (index ((h(c := ch)) d)) < length (pollfds (p\<lparr>pollfds := (pollfds p)[nat (index (h c)) := q]\<rparr>))
      \<and> pp_entry ((h(c := ch)) d) (pollfds (p\<lparr>pollfds := (pollfds p)[nat (index (h c)) := q]\<rparr>) ! nat (index ((h(c := ch)) d)))"
    if "pp_channels (p\<lparr>pollfds := (pollfds p)[nat (index (h c)) := q]\<rparr>) g = Some d" for g d
  proof (cases "d = c")
    case True
    then show ?thesis using cI that ch pp_invD(1) [OF inv, of g d] by simp
  next
    case False
    have d: "pp_channels p g = Some d" using that by simp
    have "index (h c) \<noteq> index (h d)" using pp_index_inj [OF inv c d] False by auto
    then have "nat (index (h c)) \<noteq> nat (index (h d))"
      using cI pp_invD(1) [OF inv d] by auto
    then show ?thesis using pp_invD(1) [OF inv d] False by simp
  qed
  show "\<exists>g d. pp_channels (p\<lparr>pollfds := (pollfds p)[nat (index (h c)) := q]\<rparr>) g = Some d
      \<and> index ((h(c := ch)) d) = int i"
    if "i < length (pollfds (p\<lparr>pollfds := (pollfds p)[nat (index (h c)) := q]\<rparr>))" for i
    using pp_invD(2) [OF inv, of i] that ch(2) by auto
qed

lemma pp_update_law:
  assumes inv: "pp_inv (h, p)" and reg: "pp_channels p (ch_fd (h c)) = Some c \<or> pp_channels p (ch_fd (h c)) = None \<and> index (h c) = -1"
    and pos: "0 \<le> ch_fd (h c)" and ok: "e \<noteq> 0 \<or> pp_channels p (ch_fd (h c)) = Some c"
  shows "\<exists>h' p'. pp_updateChannel c (h(c := (h c)\<lparr>events := e, addedToLoop := True\<rparr>), p) = Some (h', p')
       \<and> pp_inv (h', p') \<and> pp_channels p' = (pp_channels p)(ch_fd (h c) \<mapsto> c)
       \<and> pp_interest p' = (pp_interest p)(ch_fd (h c) := if e = 0 then None else Some e)
       \<and> (\<forall>d. ch_fd (h' d) = ch_fd (h d) \<and> events (h' d) = (if d = c then e else events (h d)))
       \<and> (\<forall>d. d \<noteq> c \<longrightarrow> index (h d) = -1 \<longrightarrow> index (h' d) = -1)"
proof -
  define f where "f = ch_fd (h c)"
  have fd: "ch_fd (h c) = f" by (simp add: f_def)
  have uniq: "pp_channels p g = Some c \<Longrightarrow> g = f" for g
    using pp_invD(1) [OF inv, of g c] by (simp add: f_def)
  have "\<exists>h' p'. pp_updateChannel c (h(c := (h c)\<lparr>events := e, addedToLoop := True\<rparr>), p) = Some (h', p')
       \<and> pp_inv (h', p') \<and> pp_channels p' = (pp_channels p)(f \<mapsto> c)
       \<and> (\<forall>d. ch_fd (h' d) = ch_fd (h d) \<and> events (h' d) = (if d = c then e else events (h d)))
       \<and> (\<forall>d. d \<noteq> c \<longrightarrow> index (h d) = -1 \<longrightarrow> index (h' d) = -1)"
  proof (cases "pp_channels p f")
    case None
    with reg ok have i: "index (h c) = -1" "e \<noteq> 0"
      by (auto simp: fd)
    define h' where "h' = h(c := (h c)\<lparr>events := e, addedToLoop := True, index := int (length (pollfds p))\<rparr>)"
    define p' where "p' = p\<lparr>pp_channels := (pp_channels p)(f \<mapsto> c),
      pollfds := pollfds p @ [\<lparr>pfd_fd = f, pfd_events = e, pfd_revents = 0\<rparr>]\<rparr>"
    have "pp_updateChannel c (h(c := (h c)\<lparr>events := e, addedToLoop := True\<rparr>), p) = Some (h', p')"
      using None i by (simp add: pp_ops fd h'_def p'_def)
    moreover have "pp_inv (h', p')"
      unfolding h'_def p'_def using None pos i uniq
      by (intro pp_inv_push [OF inv]) (auto simp: fd pp_entry_def)
    ultimately show ?thesis
      by (intro exI [of _ h'] exI [of _ p']) (simp add: h'_def p'_def)
  next
    case (Some d)
    with reg fd have c: "pp_channels p f = Some c" by auto
    note cI = pp_invD(1) [OF inv c]
    have bound: "index (h c) < int (length (pollfds p))" using cI by linarith
    define h' where "h' = h(c := (h c)\<lparr>events := e, addedToLoop := True\<rparr>)"
    define q where "q = \<lparr>pfd_fd = (if e = 0 then - f - 1 else f), pfd_events = e, pfd_revents = 0\<rparr>"
    define p' where "p' = p\<lparr>pollfds := (pollfds p)[nat (index (h c)) := q]\<rparr>"
    have "pp_updateChannel c (h(c := (h c)\<lparr>events := e, addedToLoop := True\<rparr>), p) = Some (h', p')"
      using c cI bound by (simp add: pp_ops fd h'_def p'_def q_def pp_entry_def)
    moreover have "pp_inv (h', p')"
      unfolding h'_def p'_def by (rule pp_inv_set [OF inv c]) (simp_all add: fd q_def pp_entry_def)
    ultimately show ?thesis
      using c by (intro exI [of _ h'] exI [of _ p']) (simp add: h'_def p'_def fun_upd_idem)
  qed
  then obtain h' p' where R: "pp_updateChannel c (h(c := (h c)\<lparr>events := e, addedToLoop := True\<rparr>), p) = Some (h', p')"
    "pp_inv (h', p')" "pp_channels p' = (pp_channels p)(f \<mapsto> c)"
    "\<And>d. ch_fd (h' d) = ch_fd (h d)" "\<And>d. events (h' d) = (if d = c then e else events (h d))"
    "\<And>d. d \<noteq> c \<Longrightarrow> index (h d) = -1 \<Longrightarrow> index (h' d) = -1" by blast
  have "pp_interest p' = (pp_interest p)(f := if e = 0 then None else Some e)"
    using uniq unfolding fun_eq_iff pp_inv_interest [OF R(2)] pp_inv_interest [OF inv]
    by (auto simp: R(3,5) split: option.splits)
  with R show ?thesis by (intro exI [of _ h'] exI [of _ p']) (simp add: fd)
qed

text \<open>Removal moves the last entry into the hole; the channel of that entry gets the new index.\<close>

lemma pp_inv_remove_last:
  assumes inv: "pp_inv (h, p)" and c: "pp_channels p f = Some c" and last: "nat (index (h c)) = length (pollfds p) - 1"
  shows "pp_inv (h(c := ch), p\<lparr>pp_channels := (pp_channels p)(f := None), pollfds := butlast (pollfds p)\<rparr>)"
proof (rule pp_invI)
  note cI = pp_invD(1) [OF inv c]
  fix g d
  assume "pp_channels (p\<lparr>pp_channels := (pp_channels p)(f := None), pollfds := butlast (pollfds p)\<rparr>) g = Some d"
  then have d: "pp_channels p g = Some d" "g \<noteq> f" by (auto split: if_splits)
  then have "d \<noteq> c" using cI pp_invD(1) [OF inv d(1)] by auto
  moreover have "index (h d) \<noteq> index (h c)" using pp_index_inj [OF inv d(1) c] d(2) by blast
  then have "nat (index (h d)) < length (pollfds p) - 1"
    using last cI pp_invD(1) [OF inv d(1)] by linarith
  ultimately show "ch_fd ((h(c := ch)) d) = g \<and> 0 \<le> g \<and> 0 \<le> index ((h(c := ch)) d)
      \<and> nat (index ((h(c := ch)) d)) < length (pollfds (p\<lparr>pp_channels := (pp_channels p)(f := None), pollfds := butlast (pollfds p)\<rparr>))
      \<and> pp_entry ((h(c := ch)) d) (pollfds (p\<lparr>pp_channels := (pp_channels p)(f := None), pollfds := butlast (pollfds p)\<rparr>) ! nat (index ((h(c := ch)) d)))"
    using pp_invD(1) [OF inv d(1)] by (simp add: nth_butlast)
next
  fix i
  assume "i < length (pollfds (p\<lparr>pp_channels := (pp_channels p)(f := None), pollfds := butlast (pollfds p)\<rparr>))"
  then have i: "i < length (pollfds p)" "i \<noteq> nat (index (h c))" using last by simp_all
  then obtain g d where "pp_channels p g = Some d" "index (h d) = int i" using pp_invD(2) [OF inv] by blast
  moreover have "d \<noteq> c" using calculation(2) i(2) by auto
  moreover have "g \<noteq> f" using c calculation(1,3) by auto
  ultimately show "\<exists>g d. pp_channels (p\<lparr>pp_channels := (pp_channels p)(f := None), pollfds := butlast (pollfds p)\<rparr>) g = Some d
      \<and> index ((h(c := ch)) d) = int i"
    by (intro exI [of _ g] exI [of _ d]) simp
qed

lemma pp_inv_remove_swap:
  assumes inv: "pp_inv (h, p)" and c: "pp_channels p f = Some c" and e: "pp_channels p k = Some e"
    and last: "index (h e) = int (length (pollfds p) - 1)" and ne: "nat (index (h c)) \<noteq> length (pollfds p) - 1"
    and h': "h' e = set_index (index (h c)) (h e)" "\<And>d. d \<noteq> e \<Longrightarrow> d \<noteq> c \<Longrightarrow> h' d = h d"
  shows "pp_inv (h', p\<lparr>pp_channels := (pp_channels p)(f := None),
     pollfds := butlast (iter_swap (nat (index (h c))) (length (pollfds p) - 1) (pollfds p))\<rparr>)"
    (is "pp_inv (h', ?p)")
proof (rule pp_invI)
  note cI = pp_invD(1) [OF inv c]
  note eI = pp_invD(1) [OF inv e]
  define n where "n = length (pollfds p) - 1"
  define x where "x = nat (index (h c))"
  have x: "x < n" using cI ne by (auto simp: x_def n_def)
  have pf: "i < n \<Longrightarrow> pollfds ?p ! i = (if i = x then pollfds p ! n else pollfds p ! i)" for i
    using x by (simp add: iter_swap_def n_def x_def nth_butlast)
  have len: "length (pollfds ?p) = n" by (simp add: iter_swap_def n_def)
  have ec: "e \<noteq> c" "k \<noteq> f"
    using c e last cI ne by auto
  fix g d
  assume "pp_channels ?p g = Some d"
  then have d: "pp_channels p g = Some d" "g \<noteq> f" by (auto split: if_splits)
  then have dc: "d \<noteq> c" using cI pp_invD(1) [OF inv d(1)] by auto
  show "ch_fd (h' d) = g \<and> 0 \<le> g \<and> 0 \<le> index (h' d)
      \<and> nat (index (h' d)) < length (pollfds ?p) \<and> pp_entry (h' d) (pollfds ?p ! nat (index (h' d)))"
  proof (cases "d = e")
    case True
    have "nat (index (h e)) = n" using last by (simp add: n_def)
    then have "pp_entry (h e) (pollfds p ! n)" "ch_fd (h e) = g" "0 \<le> g"
      using pp_invD(1) [OF inv d(1)] True by simp_all
    moreover have "nat (index (h' e)) = x" "0 \<le> index (h' e)"
      using cI by (simp_all add: h'(1) set_index_def x_def)
    ultimately show ?thesis
      unfolding True len using x pf [of x] by (simp add: h'(1) set_index_def pp_entry_def)
  next
    case False
    have "index (h d) \<noteq> index (h c)" "index (h d) \<noteq> index (h e)"
      using pp_index_inj [OF inv d(1) c] pp_index_inj [OF inv d(1) e] False dc by auto
    then have "nat (index (h d)) < n" "nat (index (h d)) \<noteq> x"
      using pp_invD(1) [OF inv d(1)] cI last by (auto simp: x_def n_def)
    then show ?thesis
      using pp_invD(1) [OF inv d(1)] h'(2) [OF False dc] pf [of "nat (index (h d))"] unfolding len by simp
  qed
next
  note cI = pp_invD(1) [OF inv c]
  fix i
  assume "i < length (pollfds ?p)"
  then have i: "i < length (pollfds p) - 1" by (simp add: iter_swap_def)
  have ec: "e \<noteq> c" "k \<noteq> f" using c e last cI ne by auto
  show "\<exists>g d. pp_channels ?p g = Some d \<and> index (h' d) = int i"
  proof (cases "i = nat (index (h c))")
    case True
    then show ?thesis
      using e ec cI by (intro exI [of _ k] exI [of _ e]) (simp add: h'(1) set_index_def)
  next
    case False
    from i have "i < length (pollfds p)" by linarith
    then obtain g d where gd: "pp_channels p g = Some d" "index (h d) = int i"
      using pp_invD(2) [OF inv] by blast
    then have "d \<noteq> c" "d \<noteq> e" using False last i by auto
    moreover have "g \<noteq> f" using c gd(1) \<open>d \<noteq> c\<close> by auto
    ultimately show ?thesis
      using gd h'(2) by (intro exI [of _ g] exI [of _ d]) simp
  qed
qed

lemma pp_remove_law:
  assumes inv: "pp_inv (h, p)" and c: "pp_channels p (ch_fd (h c)) = Some c" and none: "events (h c) = 0"
  shows "\<exists>h' p'. pp_removeChannel c (h(c := (h c)\<lparr>addedToLoop := False\<rparr>), p) = Some (h', p')
       \<and> pp_inv (h', p') \<and> pp_channels p' = (pp_channels p)(ch_fd (h c) := None)
       \<and> pp_interest p' = pp_interest p
       \<and> (\<forall>d. ch_fd (h' d) = ch_fd (h d) \<and> events (h' d) = events (h d))
       \<and> (\<forall>d. index (h d) = -1 \<longrightarrow> index (h' d) = -1)"
proof -
  define f where "f = ch_fd (h c)"
  have fd: "ch_fd (h c) = f" by (simp add: f_def)
  note cf = c [unfolded fd]
  note cI = pp_invD(1) [OF inv cf]
  have bound: "index (h c) < int (length (pollfds p))" using cI by linarith
  define h1 where "h1 = h(c := (h c)\<lparr>addedToLoop := False\<rparr>)"
  have entry: "pfd_fd (pollfds p ! nat (index (h c))) = - f - 1" "pfd_events (pollfds p ! nat (index (h c))) = 0"
    using cI none by (simp_all add: pp_entry_def)
  have "\<exists>h' p'. pp_removeChannel c (h1, p) = Some (h', p')
       \<and> pp_inv (h', p') \<and> pp_channels p' = (pp_channels p)(f := None)
       \<and> (\<forall>d. ch_fd (h' d) = ch_fd (h d) \<and> events (h' d) = events (h d))
       \<and> (\<forall>d. index (h d) = -1 \<longrightarrow> index (h' d) = -1)"
  proof (cases "nat (index (h c)) = length (pollfds p) - 1")
    case True
    define p' where "p' = p\<lparr>pp_channels := (pp_channels p)(f := None), pollfds := butlast (pollfds p)\<rparr>"
    have "pp_removeChannel c (h1, p) = Some (h1, p')"
      using cf cI none True bound entry by (simp add: pp_ops fd h1_def p'_def)
    moreover have "pp_inv (h1, p')"
      unfolding h1_def p'_def by (rule pp_inv_remove_last [OF inv cf True])
    ultimately show ?thesis
      by (intro exI [of _ h1] exI [of _ p']) (simp add: h1_def p'_def)
  next
    case False
    have "pollfds p \<noteq> []" using cI by auto
    then obtain k e where e: "pp_channels p k = Some e" "index (h e) = int (length (pollfds p) - 1)"
      using pp_invD(2) [OF inv, of "length (pollfds p) - 1"] by auto
    note eI = pp_invD(1) [OF inv e(1)]
    have ec: "e \<noteq> c" "k \<noteq> f" using cf e cI False by auto
    define h' where "h' = h1(e := set_index (index (h c)) (h e))"
    define p' where "p' = p\<lparr>pp_channels := (pp_channels p)(f := None),
      pollfds := butlast (iter_swap (nat (index (h c))) (length (pollfds p) - 1) (pollfds p))\<rparr>"
    have "last (pollfds p) = pollfds p ! nat (index (h e))"
      using \<open>pollfds p \<noteq> []\<close> e(2) by (simp add: last_conv_nth)
    then have lastfd: "(if pfd_fd (last (pollfds p)) < 0 then - pfd_fd (last (pollfds p)) - 1 else pfd_fd (last (pollfds p))) = k"
      using eI by (auto simp: pp_entry_def split: if_splits)
    have "pp_removeChannel c (h1, p) = Some (h', p')"
      using cf cI none False bound entry e(1) ec lastfd
      by (simp add: pp_ops fd h1_def h'_def p'_def split del: if_split)
    moreover have "pp_inv (h', p')"
      unfolding p'_def
      by (rule pp_inv_remove_swap [OF inv cf e False]) (simp_all add: h'_def h1_def ec)
    moreover have "0 \<le> index (h e)" using eI by simp
    ultimately show ?thesis
      using ec by (intro exI [of _ h'] exI [of _ p']) (simp add: h'_def h1_def p'_def set_index_def)
  qed
  then obtain h' p' where R: "pp_removeChannel c (h1, p) = Some (h', p')"
    "pp_inv (h', p')" "pp_channels p' = (pp_channels p)(f := None)"
    "\<And>d. ch_fd (h' d) = ch_fd (h d)" "\<And>d. events (h' d) = events (h d)"
    "\<And>d. index (h d) = -1 \<Longrightarrow> index (h' d) = -1" by blast
  have "pp_interest p' = pp_interest p"
    unfolding fun_eq_iff pp_inv_interest [OF R(2)] pp_inv_interest [OF inv]
    using none cf by (auto simp: R(3,5) split: option.splits)
  with R show ?thesis by (intro exI [of _ h'] exI [of _ p']) (simp add: fd h1_def)
qed

interpretation ppoll: poller pp_updateChannel pp_removeChannel pp_channels pp_interest pp_inv
proof
  show "pp_inv (h, p) \<Longrightarrow> pp_channels p f = Some c \<Longrightarrow> ch_fd (h c) = f \<and> 0 \<le> f \<and> index (h c) \<noteq> -1
       \<and> pp_interest p f = (if events (h c) = 0 then None else Some (events (h c)))" for h p f c
    using pp_invD(1) [of h p f c] pp_inv_interest [of h p f] by auto
  show "pp_inv (h, p) \<Longrightarrow> pp_channels p f = None \<Longrightarrow> pp_interest p f = None" for h p f
    by (simp add: pp_inv_interest)
qed (use pp_update_law pp_remove_law in blast)+

subsection \<open>Properties\<close>

text \<open>\<open>enableReading\<close> and its siblings are requests of the contract.\<close>

lemma channel_ops_requests:
  "epoll.request_step (Update c (\<lambda>e. e OR kReadEvent)) s = enableReading ep_updateChannel c s"
  "epoll.request_step (Update c (\<lambda>e. e AND NOT kReadEvent)) s = disableReading ep_updateChannel c s"
  "epoll.request_step (Update c (\<lambda>e. e OR kWriteEvent)) s = enableWriting ep_updateChannel c s"
  "epoll.request_step (Update c (\<lambda>e. e AND NOT kWriteEvent)) s = disableWriting ep_updateChannel c s"
  "epoll.request_step (Update c (\<lambda>e. kNoneEvent)) s = disableAll ep_updateChannel c s"
  "epoll.request_step (Remove c) s = channel_remove ep_removeChannel c s"
  by (simp_all add: enableReading_def disableReading_def enableWriting_def disableWriting_def disableAll_def)

definition channel_request :: "(chid \<Rightarrow> 'p pstate \<Rightarrow> 'p pstate option) \<Rightarrow> (chid \<Rightarrow> 'p pstate \<Rightarrow> 'p pstate option)
    \<Rightarrow> request \<Rightarrow> 'p pstate \<Rightarrow> 'p pstate option" where
  "channel_request upd rem r s =
     (case r of Update c f \<Rightarrow> channel_update upd c (with_events f c s) | Remove c \<Rightarrow> channel_remove rem c s)"

definition interest_of :: "interest_spec \<Rightarrow> fd \<rightharpoonup> events" where
  "interest_of a f = (case sp_reg a f of None \<Rightarrow> None | Some (c, e) \<Rightarrow> if e = 0 then None else Some e)"

lemma request_step_eq:
  "epoll.request_step = channel_request ep_updateChannel ep_removeChannel"
  "ppoll.request_step = channel_request pp_updateChannel pp_removeChannel"
  by (intro ext, case_tac x, simp_all add: channel_request_def)+

text \<open>Fresh channels: created, never handed to a poller.\<close>

definition start_spec :: interest_spec where
  "start_spec = \<lparr>sp_reg = Map.empty, sp_fresh = UNIV\<rparr>"

lemma refines_start:
  assumes "\<And>c. 0 \<le> fds c"
  shows "epoll.refines fds (\<lambda>c. mk_channel (fds c), mk_epoll_poller) start_spec"
    and "ppoll.refines fds (\<lambda>c. mk_channel (fds c), mk_poll_poller) start_spec"
  using assms by (simp_all add: epoll.refines_def ppoll.refines_def start_spec_def mk_channel_def
      mk_epoll_poller_def mk_poll_poller_def ep_inv_def pp_inv_def fun_eq_iff)

lemma pollers_follow:
  assumes "\<And>c. 0 \<le> fds c" "run_requests (spec_request fds) rs start_spec = Some a"
  shows "\<exists>h1 p1 h2 p2.
     run_requests (channel_request ep_updateChannel ep_removeChannel) rs (\<lambda>c. mk_channel (fds c), mk_epoll_poller) = Some (h1, p1)
   \<and> run_requests (channel_request pp_updateChannel pp_removeChannel) rs (\<lambda>c. mk_channel (fds c), mk_poll_poller) = Some (h2, p2)
   \<and> ep_interest p1 = interest_of a \<and> pp_interest p2 = interest_of a
   \<and> (\<forall>c. ep_hasChannel c (h1, p1) = pp_hasChannel c (h2, p2))"
proof -
  obtain h1 p1 where E: "run_requests epoll.request_step rs (\<lambda>c. mk_channel (fds c), mk_epoll_poller) = Some (h1, p1)"
      "epoll.refines fds (h1, p1) a"
    using epoll.run_refines [OF refines_start(1) assms(2)] assms(1) by auto
  obtain h2 p2 where P: "run_requests ppoll.request_step rs (\<lambda>c. mk_channel (fds c), mk_poll_poller) = Some (h2, p2)"
      "ppoll.refines fds (h2, p2) a"
    using ppoll.run_refines [OF refines_start(2) assms(2)] assms(1) by auto
  have "ep_interest p1 = interest_of a" "pp_interest p2 = interest_of a"
    using epoll.refines_interest [OF E(2)] ppoll.refines_interest [OF P(2)]
    by (simp_all add: interest_of_def fun_eq_iff)
  moreover have "ep_hasChannel c (h1, p1) = pp_hasChannel c (h2, p2)" for c
    using E(2) P(2) by (simp add: epoll.refines_def ppoll.refines_def ep_hasChannel_def pp_hasChannel_def)
  ultimately show ?thesis
    using E(1) P(1) unfolding request_step_eq by blast
qed

text \<open>C6: Both pollers implement the same interest map: for every sequence of requests that
  registers a channel with some event, changes or clears its interest while it is registered, and removes
  it when it wants nothing, neither poller fails an assertion, and both then ask the kernel to watch
  exactly the descriptors and events of the abstract map. In particular the swap-with-last removal of
  \<open>PollPoller\<close> keeps the index of every other channel right.\<close>

theorem pollers_agree:
  assumes "\<And>c. 0 \<le> fds c" "run_requests (spec_request fds) rs start_spec = Some a"
  shows "\<exists>h1 p1 h2 p2.
     run_requests (channel_request ep_updateChannel ep_removeChannel) rs (\<lambda>c. mk_channel (fds c), mk_epoll_poller) = Some (h1, p1)
   \<and> run_requests (channel_request pp_updateChannel pp_removeChannel) rs (\<lambda>c. mk_channel (fds c), mk_poll_poller) = Some (h2, p2)
   \<and> ep_interest p1 = interest_of a \<and> pp_interest p2 = interest_of a
   \<and> (\<forall>c. ep_hasChannel c (h1, p1) = pp_hasChannel c (h2, p2))"
  using assms by (rule pollers_follow)

theorem pollers_agree_witness:
  "let rs = [Update 1 (\<lambda>e. e OR kReadEvent), Update 2 (\<lambda>e. e OR kWriteEvent), Update 1 (\<lambda>e. 0), Remove 1] in
   \<exists>h1 p1 h2 p2.
     run_requests (channel_request ep_updateChannel ep_removeChannel) rs (\<lambda>c. mk_channel (int c), mk_epoll_poller) = Some (h1, p1)
   \<and> run_requests (channel_request pp_updateChannel pp_removeChannel) rs (\<lambda>c. mk_channel (int c), mk_poll_poller) = Some (h2, p2)
   \<and> ep_interest p1 = interest_of \<lparr>sp_reg = [2 \<mapsto> (2, kWriteEvent)], sp_fresh = UNIV - {1} - {2}\<rparr>
   \<and> pp_interest p2 = interest_of \<lparr>sp_reg = [2 \<mapsto> (2, kWriteEvent)], sp_fresh = UNIV - {1} - {2}\<rparr>
   \<and> (\<forall>c. ep_hasChannel c (h1, p1) = pp_hasChannel c (h2, p2))"
  unfolding Let_def
  by (rule pollers_agree) (simp_all add: start_spec_def kReadEvent_def kWriteEvent_def POLLIN_def POLLPRI_def POLLOUT_def fun_eq_iff)

text \<open>Where the pollers differ: outside of the contract. A channel that is first handed over without
  events is left in \<open>pollfds\<close> with its plain descriptor, and its removal then fails the assertion
  \<open>pfd.fd == -channel->fd()-1\<close>; \<open>EPollPoller\<close> removes it. A removed channel keeps a stale index in
  \<open>PollPoller\<close>, so that handing it over again fails; \<open>EPollPoller\<close> resets the index.\<close>

lemma poll_new_none_not_removable:
  "run_requests (channel_request pp_updateChannel pp_removeChannel) [Update 1 (\<lambda>e. 0), Remove 1]
     (\<lambda>c. mk_channel (int c), mk_poll_poller) = None"
  "run_requests (channel_request ep_updateChannel ep_removeChannel) [Update 1 (\<lambda>e. 0), Remove 1]
     (\<lambda>c. mk_channel (int c), mk_epoll_poller) \<noteq> None"
  by (simp_all add: channel_request_def channel_update_def channel_remove_def with_events_def
      pp_ops ep_ops mk_channel_def mk_poll_poller_def mk_epoll_poller_def)

lemma poll_readd_fails:
  "run_requests (channel_request pp_updateChannel pp_removeChannel)
     [Update 1 (\<lambda>e. 1), Update 1 (\<lambda>e. 0), Remove 1, Update 1 (\<lambda>e. 1)] (\<lambda>c. mk_channel (int c), mk_poll_poller) = None"
  "run_requests (channel_request ep_updateChannel ep_removeChannel)
     [Update 1 (\<lambda>e. 1), Update 1 (\<lambda>e. 0), Remove 1, Update 1 (\<lambda>e. 1)] (\<lambda>c. mk_channel (int c), mk_epoll_poller) \<noteq> None"
  by (simp_all add: channel_request_def channel_update_def channel_remove_def with_events_def
      pp_ops ep_ops mk_channel_def mk_poll_poller_def mk_epoll_poller_def)

text \<open>A channel whose interest was cleared is out of the epoll set; clearing it once more adds it
  back, with no events, so that the kernel watches it for errors and hang-up again.\<close>

lemma epoll_second_disable_adds:
  assumes "run_requests (channel_request ep_updateChannel ep_removeChannel)
     [Update 1 (\<lambda>e. 1), Update 1 (\<lambda>e. 0), Update 1 (\<lambda>e. 0)] (\<lambda>c. mk_channel (int c), mk_epoll_poller) = Some (h, p)"
  shows "ep_set p 1 = Some (0, 1)"
  using assms by (simp add: channel_request_def channel_update_def channel_remove_def with_events_def
      ep_ops mk_channel_def mk_epoll_poller_def) (auto)

text \<open>The loop of \<open>PollPoller::fillActiveChannels\<close> on entries the kernel has marked.\<close>

definition hit :: "(fd \<rightharpoonup> chid) \<Rightarrow> pollfd list \<Rightarrow> chid \<Rightarrow> bool" where
  "hit chans qs d \<longleftrightarrow> (\<exists>q \<in> set qs. pfd_revents q \<noteq> 0 \<and> chans (pfd_fd q) = Some d)"

lemma pp_fill_spec:
  assumes "\<And>q. q \<in> set qs \<Longrightarrow> pfd_revents q \<noteq> 0 \<Longrightarrow> \<exists>c. chans (pfd_fd q) = Some c \<and> ch_fd (h c) = pfd_fd q"
    and "int (length (filter (\<lambda>q. pfd_revents q \<noteq> 0) qs)) \<le> n"
    and "distinct (map pfd_fd (filter (\<lambda>q. pfd_revents q \<noteq> 0) qs))"
  shows "\<exists>h'. pp_fillActiveChannels qs n chans h
      = Some (h', map (\<lambda>q. the (chans (pfd_fd q))) (filter (\<lambda>q. pfd_revents q \<noteq> 0) qs))
     \<and> (\<forall>d. \<not> hit chans qs d \<longrightarrow> h' d = h d)
     \<and> (\<forall>q \<in> set qs. pfd_revents q \<noteq> 0 \<longrightarrow> (let c = the (chans (pfd_fd q)) in h' c = set_revents (pfd_revents q) (h c)))"
  using assms
proof (induction qs arbitrary: n h)
  case (Cons q qs)
  show ?case
  proof (cases "pfd_revents q \<noteq> 0")
    case True
    then obtain c where c: "chans (pfd_fd q) = Some c" "ch_fd (h c) = pfd_fd q"
      using Cons.prems(1) [of q] by auto
    have n: "0 < n" using Cons.prems(2) True by simp
    define h1 where "h1 = h(c := set_revents (pfd_revents q) (h c))"
    have fdh1: "ch_fd (h1 d) = ch_fd (h d)" for d by (simp add: h1_def set_revents_def)
    have nohit: "\<not> hit chans qs c"
    proof
      assume "hit chans qs c"
      then obtain r where r: "r \<in> set qs" "pfd_revents r \<noteq> 0" "chans (pfd_fd r) = Some c"
        by (auto simp: hit_def)
      then have "pfd_fd r = pfd_fd q" using Cons.prems(1) [of r] c by auto
      with r Cons.prems(3) True show False by (force simp: image_iff)
    qed
    obtain h' where h': "pp_fillActiveChannels qs (n - 1) chans h1
        = Some (h', map (\<lambda>q. the (chans (pfd_fd q))) (filter (\<lambda>q. pfd_revents q \<noteq> 0) qs))"
      "\<And>d. \<not> hit chans qs d \<Longrightarrow> h' d = h1 d"
      "\<And>q. q \<in> set qs \<Longrightarrow> pfd_revents q \<noteq> 0 \<Longrightarrow> h' (the (chans (pfd_fd q))) = set_revents (pfd_revents q) (h1 (the (chans (pfd_fd q))))"
      using Cons.IH [of h1 "n - 1"] Cons.prems True by (auto simp: fdh1 Let_def)
    have "d \<noteq> c" if "\<not> hit chans (q # qs) d" for d using that True c by (auto simp: hit_def)
    moreover have "the (chans (pfd_fd r)) \<noteq> c" if "r \<in> set qs" "pfd_revents r \<noteq> 0" for r
      using that nohit Cons.prems(1) [of r] by (auto simp: hit_def)
    ultimately show ?thesis
      using True c n h' nohit unfolding h1_def
      by (intro exI [of _ h']) (auto simp: Let_def hit_def)
  next
    case False
    show ?thesis
    proof (cases "n > 0")
      case True
      with False show ?thesis using Cons.IH [of h n] Cons.prems by (auto simp: hit_def)
    next
      case n: False
      with Cons.prems(2) False have "filter (\<lambda>q. pfd_revents q \<noteq> 0) qs = []"
        by (intro int_length_empty [of _ n]) simp_all
      then have "\<forall>r \<in> set qs. pfd_revents r = 0" by (simp add: filter_empty_conv)
      with n False show ?thesis by (auto simp: hit_def)
    qed
  qed
qed (simp add: hit_def)

text \<open>What \<open>poll(2)\<close> may answer: one \<open>revents\<close> per entry, none for an ignored (negative)
  descriptor, and the number of marked entries as result.\<close>

definition poll_answer :: "pollfd list \<Rightarrow> int \<Rightarrow> events list \<Rightarrow> bool" where
  "poll_answer pfds n ready \<longleftrightarrow> length ready = length pfds
     \<and> n = int (length (filter (\<lambda>r. r \<noteq> 0) ready))
     \<and> (\<forall>i < length pfds. pfd_fd (pfds ! i) < 0 \<longrightarrow> ready ! i = 0)"

lemma pp_fds_distinct:
  assumes inv: "pp_inv (h, p)" and i: "i < length (pollfds p)" and j: "j < length (pollfds p)"
    and eq: "pfd_fd (pollfds p ! i) = pfd_fd (pollfds p ! j)"
  shows "i = j"
proof -
  obtain f c where c: "pp_channels p f = Some c" "index (h c) = int i" using pp_invD(2) [OF inv i] by blast
  obtain g d where d: "pp_channels p g = Some d" "index (h d) = int j" using pp_invD(2) [OF inv j] by blast
  from pp_invD(1) [OF inv c(1)] pp_invD(1) [OF inv d(1)] c(2) d(2) eq have "f = g"
    by (auto simp: pp_entry_def split: if_splits)
  with c d show ?thesis by simp
qed

definition marked_channels :: "poll_poller \<Rightarrow> events list \<Rightarrow> (chid \<times> events) list" where
  "marked_channels p ready = map (\<lambda>(q, r). (the (pp_channels p (pfd_fd q)), r))
     (filter (\<lambda>(q, r). r \<noteq> 0) (zip (pollfds p) ready))"

lemma filter_map2_marked:
  "length ready = length qs \<Longrightarrow>
     filter (\<lambda>q. pfd_revents q \<noteq> 0) (map2 (\<lambda>q r. q\<lparr>pfd_revents := r\<rparr>) qs ready)
       = map (\<lambda>(q, r). q\<lparr>pfd_revents := r\<rparr>) (filter (\<lambda>(q, r). r \<noteq> 0) (zip qs ready))"
  "length ready = length qs \<Longrightarrow>
     length (filter (\<lambda>(q, r). r \<noteq> 0) (zip qs ready)) = length (filter (\<lambda>r. r \<noteq> 0) ready)"
  by (induction ready qs rule: list_induct2) auto

text \<open>\<open>PollPoller::poll\<close> reports exactly the channels of the entries the kernel marked, in the
  order of \<open>pollfds_\<close>, stores the returned events in each and touches no other channel; the
  assertions of \<open>fillActiveChannels\<close> never fail.\<close>

theorem pp_poll_correct:
  assumes "pp_inv (h, p)" "poll_answer (pollfds p) n ready"
  shows "\<exists>h' p'. pp_poll n ready (h, p) = Some ((h', p'), map fst (marked_channels p ready))
     \<and> (\<forall>(c, r) \<in> set (marked_channels p ready). revents (h' c) = r)
     \<and> (\<forall>d. d \<notin> fst ` set (marked_channels p ready) \<longrightarrow> h' d = h d)"
proof -
  define qs where "qs = map2 (\<lambda>q r. q\<lparr>pfd_revents := r\<rparr>) (pollfds p) ready"
  have len: "length ready = length (pollfds p)" and n: "n = int (length (filter (\<lambda>r. r \<noteq> 0) ready))"
    and neg: "\<And>i. i < length (pollfds p) \<Longrightarrow> pfd_fd (pollfds p ! i) < 0 \<Longrightarrow> ready ! i = 0"
    using assms(2) by (auto simp: poll_answer_def)
  have nth: "i < length (pollfds p) \<Longrightarrow> qs ! i = (pollfds p ! i)\<lparr>pfd_revents := ready ! i\<rparr>" for i
    using len by (simp add: qs_def)
  have lenq: "length qs = length (pollfds p)" using len by (simp add: qs_def)
  have flt: "filter (\<lambda>q. pfd_revents q \<noteq> 0) qs = map (\<lambda>(q, r). q\<lparr>pfd_revents := r\<rparr>) (filter (\<lambda>(q, r). r \<noteq> 0) (zip (pollfds p) ready))"
    using filter_map2_marked(1) [OF len] by (simp add: qs_def)
  have found: "\<exists>c. pp_channels p (pfd_fd q) = Some c \<and> ch_fd (h c) = pfd_fd q" if "q \<in> set qs" "pfd_revents q \<noteq> 0" for q
  proof -
    from that obtain i where i: "i < length (pollfds p)" "q = qs ! i" by (auto simp: in_set_conv_nth lenq)
    obtain f c where c: "pp_channels p f = Some c" "index (h c) = int i" using pp_invD(2) [OF assms(1) i(1)] by blast
    with pp_invD(1) [OF assms(1) c(1)] neg [OF i(1)] that(2) i nth [OF i(1)] show ?thesis
      by (auto simp: pp_entry_def split: if_splits)
  qed
  have "distinct (map pfd_fd qs)"
    using pp_fds_distinct [OF assms(1)] by (auto simp: distinct_conv_nth lenq nth)
  then have dist: "distinct (map pfd_fd (filter (\<lambda>q. pfd_revents q \<noteq> 0) qs))" by (simp add: distinct_map_filter)
  have cnt: "int (length (filter (\<lambda>q. pfd_revents q \<noteq> 0) qs)) \<le> n"
    unfolding flt n using filter_map2_marked(2) [OF len] by simp
  obtain h' where h': "pp_fillActiveChannels qs n (pp_channels p) h
      = Some (h', map (\<lambda>q. the (pp_channels p (pfd_fd q))) (filter (\<lambda>q. pfd_revents q \<noteq> 0) qs))"
    "\<And>d. \<not> hit (pp_channels p) qs d \<Longrightarrow> h' d = h d"
    "\<And>q. q \<in> set qs \<Longrightarrow> pfd_revents q \<noteq> 0 \<Longrightarrow> h' (the (pp_channels p (pfd_fd q))) = set_revents (pfd_revents q) (h (the (pp_channels p (pfd_fd q))))"
    using pp_fill_spec [of qs "pp_channels p" h n, OF found cnt dist] by (auto simp: Let_def)
  have act: "map (\<lambda>q. the (pp_channels p (pfd_fd q))) (filter (\<lambda>q. pfd_revents q \<noteq> 0) qs) = map fst (marked_channels p ready)"
    by (simp add: flt marked_channels_def case_prod_beta)
  have hits: "hit (pp_channels p) qs d \<Longrightarrow> d \<in> fst ` set (marked_channels p ready)" for d
  proof -
    assume "hit (pp_channels p) qs d"
    then obtain q where "q \<in> set (filter (\<lambda>q. pfd_revents q \<noteq> 0) qs)" "the (pp_channels p (pfd_fd q)) = d"
      by (auto simp: hit_def)
    then have "d \<in> set (map (\<lambda>q. the (pp_channels p (pfd_fd q))) (filter (\<lambda>q. pfd_revents q \<noteq> 0) qs))" by auto
    then show ?thesis unfolding act by simp
  qed
  have rev: "revents (h' c) = r" if "(c, r) \<in> set (marked_channels p ready)" for c r
  proof -
    from that obtain q where q: "(q, r) \<in> set (zip (pollfds p) ready)" "r \<noteq> 0" "c = the (pp_channels p (pfd_fd q))"
      by (auto simp: marked_channels_def)
    then have "q\<lparr>pfd_revents := r\<rparr> \<in> set qs" by (force simp: qs_def)
    from h'(3) [OF this] q show ?thesis by (simp add: set_revents_def)
  qed
  define p' where "p' = p\<lparr>pollfds := qs\<rparr>"
  have none: "\<not> n > 0 \<Longrightarrow> marked_channels p ready = []"
    using int_length_empty [OF cnt] act by simp
  have "pp_poll n ready (h, p) = Some ((if n > 0 then h' else h, p'), map fst (marked_channels p ready))"
    using h'(1) act none by (auto simp: pp_poll_def Let_def p'_def qs_def [symmetric])
  then show ?thesis
    using rev hits h'(2) none by (intro exI [of _ "if n > 0 then h' else h"] exI [of _ p']) (cases "n > 0"; fastforce)
qed

theorem pp_poll_correct_witness:
  "\<exists>h' p'. pp_poll 1 [0, POLLIN] (\<lambda>c. (mk_channel (int c))\<lparr>events := 1, index := int c - 3\<rparr>,
      \<lparr>pp_channels = [3 \<mapsto> 3, 4 \<mapsto> 4], pollfds = [\<lparr>pfd_fd = 3, pfd_events = 1, pfd_revents = 0\<rparr>,
        \<lparr>pfd_fd = 4, pfd_events = 1, pfd_revents = 0\<rparr>]\<rparr>) = Some ((h', p'), [4])
     \<and> revents (h' 4) = POLLIN"
proof -
  let ?h = "\<lambda>c. (mk_channel (int c))\<lparr>events := 1, index := int c - 3\<rparr>"
  let ?p = "\<lparr>pp_channels = [3 \<mapsto> 3, 4 \<mapsto> 4], pollfds = [\<lparr>pfd_fd = 3, pfd_events = 1, pfd_revents = 0\<rparr>,
        \<lparr>pfd_fd = 4, pfd_events = 1, pfd_revents = 0\<rparr>]\<rparr>"
  have "pp_inv (?h, ?p)"
    by (auto simp: pp_inv_def mk_channel_def pp_entry_def less_Suc_eq split: if_splits) presburger
  moreover have "poll_answer (pollfds ?p) 1 [0, POLLIN]"
    by (auto simp: poll_answer_def POLLIN_def less_Suc_eq)
  moreover have "marked_channels ?p [0, POLLIN] = [(4, POLLIN)]"
    by (simp add: marked_channels_def POLLIN_def)
  ultimately show ?thesis
    using pp_poll_correct [of ?h ?p 1 "[0, POLLIN]"] by auto
qed

end
