(* ===== verification/Net_EventLoop.thy ===== *)
theory Net_EventLoop
  imports Net_Timer Net_Poller
begin

section \<open>The event loop: \<open>net/EventLoop.h\<close>, \<open>net/EventLoop.cc\<close>\<close>

text \<open>
  One thread runs the loop; others may call \<open>queueInLoop\<close> and \<open>quit\<close>. The loop's position is \<open>pc\<close>;
  the eventfd is its counter (\<open>wakeupFd\<close>). Both calls have two atomic parts: the change of the shared state,
  then the test that decides on \<open>wakeup()\<close>. Threads other than the loop's run each part as a step of its own,
  with any steps of the loop and of other threads in between; \<open>midway\<close> holds the threads between the two
  parts of their call. A functor is a number; \<open>queued_log\<close> and \<open>run_log\<close> record the functors pushed and
  called so far.
\<close>

type_synonym functor_id = nat

type_synonym thread = nat

text \<open>The two calls that any thread may make.\<close>

datatype loop_call = Queue functor_id | Quit

datatype loop_pc =
    Outside
  | Testing
  | Polling
  | Handling "chid list"
  | Swapping
  | Calling "functor_id list"

record event_loop =
  looping :: bool
  quit_flag :: bool
  eventHandling_loop :: bool
  callingPendingFunctors :: bool
  iteration :: int
  wakeupFd :: nat
  activeChannels :: "chid list"
  currentActiveChannel :: "chid option"
  pendingFunctors :: "functor_id list"
  pc :: loop_pc
  midway :: "thread \<rightharpoonup> loop_call"
  queued_log :: "functor_id list"
  run_log :: "functor_id list"

definition wakeupChannel :: chid where "wakeupChannel = 0"

definition mk_event_loop :: event_loop where
  "mk_event_loop = \<lparr>looping = False, quit_flag = False, eventHandling_loop = False,
     callingPendingFunctors = False, iteration = 0, wakeupFd = 0, activeChannels = [],
     currentActiveChannel = None, pendingFunctors = [], pc = Outside, midway = Map.empty, queued_log = [], run_log = []\<rparr>"

text \<open>\<open>write(2)\<close> on a nonblocking eventfd adds one, or fails when the counter is at its maximum;
  \<open>read(2)\<close> resets it.\<close>

definition eventfd_max :: nat where "eventfd_max = 2 ^ 64 - 2"

definition wakeup :: "event_loop \<Rightarrow> event_loop" where
  "wakeup el = (if wakeupFd el < eventfd_max then el\<lparr>wakeupFd := Suc (wakeupFd el)\<rparr> else el)"

definition el_handleRead :: "event_loop \<Rightarrow> event_loop" where
  "el_handleRead el = el\<lparr>wakeupFd := 0\<rparr>"

definition el_push :: "functor_id \<Rightarrow> event_loop \<Rightarrow> event_loop" where
  "el_push f el = el\<lparr>pendingFunctors := pendingFunctors el @ [f], queued_log := queued_log el @ [f]\<rparr>"

definition el_queue_wake :: "bool \<Rightarrow> event_loop \<Rightarrow> event_loop" where
  "el_queue_wake inLoop el = (if \<not> inLoop \<or> callingPendingFunctors el then wakeup el else el)"

definition el_queueInLoop :: "bool \<Rightarrow> functor_id \<Rightarrow> event_loop \<Rightarrow> event_loop" where
  "el_queueInLoop inLoop f el = el_queue_wake inLoop (el_push f el)"

definition el_runInLoop :: "bool \<Rightarrow> (event_loop \<Rightarrow> event_loop) \<Rightarrow> functor_id \<Rightarrow> event_loop \<Rightarrow> event_loop" where
  "el_runInLoop inLoop cb f el = (if inLoop then cb el else el_queueInLoop False f el)"

definition el_set_quit :: "event_loop \<Rightarrow> event_loop" where
  "el_set_quit el = el\<lparr>quit_flag := True\<rparr>"

definition el_quit_wake :: "bool \<Rightarrow> event_loop \<Rightarrow> event_loop" where
  "el_quit_wake inLoop el = (if \<not> inLoop then wakeup el else el)"

definition el_quit :: "bool \<Rightarrow> event_loop \<Rightarrow> event_loop" where
  "el_quit inLoop el = el_quit_wake inLoop (el_set_quit el)"

definition el_queueSize :: "event_loop \<Rightarrow> nat" where
  "el_queueSize el = length (pendingFunctors el)"

subsection \<open>Channels and timers of a loop\<close>

definition el_updateChannel where
  "el_updateChannel inLoop (upd :: chid \<Rightarrow> 'p pstate \<Rightarrow> 'p pstate option) c s = assert_then inLoop (upd c s)"

definition el_removeChannel where
  "el_removeChannel inLoop (rmv :: chid \<Rightarrow> 'p pstate \<Rightarrow> 'p pstate option) c el s =
     assert_then inLoop
      (assert_then (eventHandling_loop el \<longrightarrow> currentActiveChannel el = Some c \<or> c \<notin> set (activeChannels el))
        (rmv c s))"

definition el_hasChannel where
  "el_hasChannel inLoop (has :: chid \<Rightarrow> 'p pstate \<Rightarrow> bool) c s = assert_then inLoop (Some (has c s))"

definition el_runAt where
  "el_runAt alloc now when cb q = addTimer alloc now cb when 0 False q"

definition el_runAfter where
  "el_runAfter alloc now now' delay_us cb q = el_runAt alloc now' (addTime now delay_us) cb q"

definition el_runEvery where
  "el_runEvery alloc now now' interval cb q =
     addTimer alloc now' cb (addTime now interval) interval (interval > 0) q"

definition el_cancel where "el_cancel tid q = cancelInLoop tid q"

subsection \<open>The loop\<close>

text \<open>A call by user code that runs in the loop's thread.\<close>

fun run_call :: "loop_call \<Rightarrow> event_loop \<Rightarrow> event_loop" where
  "run_call (Queue f) el = el_queueInLoop True f el"
| "run_call Quit el = el_quit True el"

fun run_calls :: "loop_call list \<Rightarrow> event_loop \<Rightarrow> event_loop" where
  "run_calls [] el = el"
| "run_calls (x # xs) el = run_calls xs (run_call x el)"

text \<open>\<open>body f\<close> is what functor \<open>f\<close> does, \<open>handler c\<close> what the callbacks of channel \<open>c\<close> do.\<close>

fun run_functors :: "(functor_id \<Rightarrow> loop_call list) \<Rightarrow> functor_id list \<Rightarrow> event_loop \<Rightarrow> event_loop" where
  "run_functors body [] el = el"
| "run_functors body (f # fs) el =
     run_functors body fs (run_calls (body f) (el\<lparr>run_log := run_log el @ [f], pc := Calling fs\<rparr>))"

definition doPendingFunctors :: "(functor_id \<Rightarrow> loop_call list) \<Rightarrow> event_loop \<Rightarrow> event_loop" where
  "doPendingFunctors body el =
     (let fs = pendingFunctors el;
          el = el\<lparr>callingPendingFunctors := True, pendingFunctors := [], pc := Calling fs\<rparr>;
          el = run_functors body fs el
      in el\<lparr>callingPendingFunctors := False, pc := Testing\<rparr>)"

definition handle_channel :: "(chid \<Rightarrow> loop_call list) \<Rightarrow> chid \<Rightarrow> event_loop \<Rightarrow> event_loop" where
  "handle_channel handler c el =
     (let el = el\<lparr>currentActiveChannel := Some c\<rparr>
      in if c = wakeupChannel then el_handleRead el else run_calls (handler c) el)"

fun handle_channels :: "(chid \<Rightarrow> loop_call list) \<Rightarrow> chid list \<Rightarrow> event_loop \<Rightarrow> event_loop" where
  "handle_channels handler [] el = el\<lparr>currentActiveChannel := None, eventHandling_loop := False, pc := Swapping\<rparr>"
| "handle_channels handler (c # cs) el = handle_channels handler cs (handle_channel handler c (el\<lparr>pc := Handling cs\<rparr>))"

definition poll_returns :: "chid list \<Rightarrow> event_loop \<Rightarrow> event_loop" where
  "poll_returns active el = el\<lparr>activeChannels := active, iteration := iteration el + 1,
     eventHandling_loop := True, pc := Handling active\<rparr>"

definition loop_body :: "(chid \<Rightarrow> loop_call list) \<Rightarrow> (functor_id \<Rightarrow> loop_call list) \<Rightarrow> chid list \<Rightarrow> event_loop \<Rightarrow> event_loop" where
  "loop_body handler body active el =
     doPendingFunctors body (handle_channels handler active (poll_returns active (el\<lparr>activeChannels := [], pc := Polling\<rparr>)))"

text \<open>The whole of \<open>loop()\<close> for given results of \<open>poll\<close>; None while it still waits for the next.\<close>

fun loop_while :: "(chid \<Rightarrow> loop_call list) \<Rightarrow> (functor_id \<Rightarrow> loop_call list) \<Rightarrow> chid list list \<Rightarrow> event_loop \<Rightarrow> event_loop option" where
  "loop_while handler body [] el =
     (if quit_flag el then Some (el\<lparr>looping := False, pc := Outside\<rparr>) else None)"
| "loop_while handler body (p # ps) el =
     (if quit_flag el then Some (el\<lparr>looping := False, pc := Outside\<rparr>)
      else loop_while handler body ps (loop_body handler body p el))"


definition loop_start :: "event_loop \<Rightarrow> event_loop option" where
  "loop_start el = assert_then (\<not> looping el) (Some (el\<lparr>looping := True, quit_flag := False, pc := Testing\<rparr>))"

definition el_loop where
  "el_loop handler body polls el =
     do { el \<leftarrow> loop_start el; loop_while handler body polls el }"

subsection \<open>The loop among other threads\<close>

datatype loop_event =
    Start
  | Advance "chid list"
  | In_loop loop_call
  | Foreign_call thread loop_call
  | Foreign_wake thread

definition advance :: "chid list \<Rightarrow> event_loop \<Rightarrow> event_loop option" where
  "advance active el =
     (case pc el of
        Outside \<Rightarrow> None
      | Testing \<Rightarrow> Some (if quit_flag el then el\<lparr>looping := False, pc := Outside\<rparr>
                        else el\<lparr>activeChannels := [], pc := Polling\<rparr>)
      | Polling \<Rightarrow> Some (poll_returns active el)
      | Handling [] \<Rightarrow> Some (el\<lparr>currentActiveChannel := None, eventHandling_loop := False, pc := Swapping\<rparr>)
      | Handling (c # cs) \<Rightarrow> Some (handle_channel (\<lambda>_. []) c (el\<lparr>pc := Handling cs\<rparr>))
      | Swapping \<Rightarrow> Some (el\<lparr>callingPendingFunctors := True, pendingFunctors := [], pc := Calling (pendingFunctors el)\<rparr>)
      | Calling [] \<Rightarrow> Some (el\<lparr>callingPendingFunctors := False, pc := Testing\<rparr>)
      | Calling (f # fs) \<Rightarrow> Some (el\<lparr>run_log := run_log el @ [f], pc := Calling fs\<rparr>))"

definition in_callback :: "event_loop \<Rightarrow> bool" where
  "in_callback el \<longleftrightarrow> (case pc el of Handling _ \<Rightarrow> True | Calling _ \<Rightarrow> True | _ \<Rightarrow> False)"

text \<open>The two parts of a call, as another thread runs them.\<close>

fun call_change :: "loop_call \<Rightarrow> event_loop \<Rightarrow> event_loop" where
  "call_change (Queue f) el = el_push f el"
| "call_change Quit el = el_set_quit el"

fun call_wake :: "bool \<Rightarrow> loop_call \<Rightarrow> event_loop \<Rightarrow> event_loop" where
  "call_wake inLoop (Queue f) el = el_queue_wake inLoop el"
| "call_wake inLoop Quit el = el_quit_wake inLoop el"

fun loop_step :: "loop_event \<Rightarrow> event_loop \<Rightarrow> event_loop option" where
  "loop_step Start el = (if pc el = Outside then loop_start el else None)"
| "loop_step (Advance active) el = advance active el"
| "loop_step (In_loop x) el = (if in_callback el then Some (run_call x el) else None)"
| "loop_step (Foreign_call t x) el =
     (if midway el t = None then Some ((call_change x el)\<lparr>midway := (midway el)(t \<mapsto> x)\<rparr>) else None)"
| "loop_step (Foreign_wake t) el =
     (case midway el t of None \<Rightarrow> None | Some x \<Rightarrow> Some (call_wake False x (el\<lparr>midway := (midway el)(t := None)\<rparr>)))"

inductive loop_reach :: "event_loop \<Rightarrow> bool" where
  Created: "loop_reach mk_event_loop"
| Stepped: "loop_reach el \<Longrightarrow> loop_step e el = Some el' \<Longrightarrow> loop_reach el'"

inductive_cases loop_reachE: "loop_reach el"

definition awake :: "event_loop \<Rightarrow> bool" where
  "awake el \<longleftrightarrow> wakeupFd el > 0 \<or> midway el \<noteq> Map.empty"

definition left_to_call :: "event_loop \<Rightarrow> functor_id list" where
  "left_to_call el = (case pc el of Calling fs \<Rightarrow> fs | _ \<Rightarrow> [])"

definition loop_inv :: "event_loop \<Rightarrow> bool" where
  "loop_inv el \<longleftrightarrow>
     (pendingFunctors el \<noteq> [] \<longrightarrow> (case pc el of Handling _ \<Rightarrow> True | Swapping \<Rightarrow> True | _ \<Rightarrow> awake el))
   \<and> (pc el = Polling \<and> quit_flag el \<longrightarrow> awake el)
   \<and> (callingPendingFunctors el \<longleftrightarrow> (\<exists>fs. pc el = Calling fs))
   \<and> (looping el \<longleftrightarrow> pc el \<noteq> Outside)
   \<and> (eventHandling_loop el \<longleftrightarrow> (\<exists>cs. pc el = Handling cs))
   \<and> queued_log el = run_log el @ left_to_call el @ pendingFunctors el"

lemmas loop_defs = loop_inv_def awake_def left_to_call_def

lemmas call_defs = el_queueInLoop_def el_queue_wake_def el_push_def el_quit_def el_quit_wake_def el_set_quit_def

lemma wakeup_fields [simp]:
  "pendingFunctors (wakeup el) = pendingFunctors el" "pc (wakeup el) = pc el" "midway (wakeup el) = midway el"
  "quit_flag (wakeup el) = quit_flag el" "callingPendingFunctors (wakeup el) = callingPendingFunctors el"
  "looping (wakeup el) = looping el" "eventHandling_loop (wakeup el) = eventHandling_loop el"
  "queued_log (wakeup el) = queued_log el" "run_log (wakeup el) = run_log el" "wakeupFd (wakeup el) > 0"
  "wakeupFd el > 0 \<Longrightarrow> wakeupFd (wakeup el) > 0"
  by (auto simp: wakeup_def eventfd_max_def)

text \<open>What the tests do for a thread that is not the loop's: every call ends with a readable eventfd.\<close>

lemma call_wake_foreign: "call_wake False x el = wakeup el"
  by (cases x) (simp_all add: call_defs)

lemma foreign_call_wakes:
  "wakeupFd (el_queueInLoop False f el) > 0" "wakeupFd (el_quit False el) > 0"
  by (simp_all only: call_defs not_False_eq_True if_True simp_thms wakeup_fields)

lemma midway_wakes:
  assumes "midway el \<noteq> Map.empty"
  obtains t el' where "loop_step (Foreign_wake t) el = Some el'" "wakeupFd el' > 0"
proof -
  from assms obtain t x where "midway el t = Some x" by fastforce
  then show thesis by (intro that [of t]) (auto simp: call_wake_foreign)
qed

lemma run_call_inv: "loop_inv el \<Longrightarrow> in_callback el \<Longrightarrow> loop_inv (run_call x el)"
  by (cases x) (auto simp: loop_defs call_defs in_callback_def
      split: loop_pc.splits)

lemma advance_inv: "loop_inv el \<Longrightarrow> advance active el = Some el' \<Longrightarrow> loop_inv el'"
  by (auto simp: loop_defs advance_def handle_channel_def el_handleRead_def poll_returns_def Let_def
      split: loop_pc.splits list.splits if_splits)

lemma loop_step_inv:
  assumes "loop_inv el" "loop_step e el = Some el'"
  shows "loop_inv el'"
proof (cases e)
  case Start
  with assms show ?thesis by (auto simp: loop_defs loop_start_def split: if_splits)
next
  case (Advance active)
  with assms advance_inv show ?thesis by simp
next
  case (In_loop x)
  with assms run_call_inv show ?thesis by (auto split: if_splits)
next
  case (Foreign_call t x)
  with assms show ?thesis by (cases "pc el"; cases x) (auto simp: loop_defs call_defs split: if_splits)
next
  case (Foreign_wake t)
  then obtain x where x: "midway el t = Some x" "el' = call_wake False x (el\<lparr>midway := (midway el)(t := None)\<rparr>)"
    using assms(2) by (auto split: option.splits)
  then have "el' = wakeup (el\<lparr>midway := (midway el)(t := None)\<rparr>)" using call_wake_foreign by simp
  then show ?thesis using assms(1) by (cases "pc el") (simp_all add: loop_defs)
qed

lemma loop_reach_inv: "loop_reach el \<Longrightarrow> loop_inv el"
proof (induction rule: loop_reach.induct)
  case Created
  show ?case by (simp add: loop_defs mk_event_loop_def)
next
  case Stepped
  then show ?case using loop_step_inv by blast
qed

text \<open>C4: No lost wakeup, whatever the loop and any number of other threads do, interleaved part by part of their
  calls: whenever the loop is about to wait in \<open>poll\<close> with functors queued, or after \<open>quit()\<close>, its eventfd is
  readable, or some thread stands between the two parts of \<open>queueInLoop\<close> or \<open>quit\<close> and the part it has left (the
  code's test and \<open>wakeup()\<close>) makes it readable. A call of another thread that is not interrupted returns with
  the eventfd readable. And functors are called in the order they were queued, each exactly once.\<close>

theorem loop_no_lost_wakeup:
  assumes "loop_reach el"
  shows "(pc el = Polling \<and> (pendingFunctors el \<noteq> [] \<or> quit_flag el) \<longrightarrow>
       wakeupFd el > 0 \<or> (\<exists>t el'. loop_step (Foreign_wake t) el = Some el' \<and> wakeupFd el' > 0))
    \<and> wakeupFd (el_queueInLoop False f el) > 0 \<and> wakeupFd (el_quit False el) > 0
    \<and> queued_log el = run_log el @ left_to_call el @ pendingFunctors el"
proof -
  have inv: "loop_inv el" using assms by (rule loop_reach_inv)
  have "wakeupFd el > 0 \<or> (\<exists>t el'. loop_step (Foreign_wake t) el = Some el' \<and> wakeupFd el' > 0)"
    if "pc el = Polling" "pendingFunctors el \<noteq> [] \<or> quit_flag el"
  proof -
    have "awake el" using inv that by (auto simp: loop_inv_def)
    then show ?thesis using midway_wakes [of el] unfolding awake_def by metis
  qed
  with inv show ?thesis by (simp add: foreign_call_wakes loop_inv_def del: loop_step.simps)
qed

text \<open>Two threads in \<open>queueInLoop(7)\<close> and \<open>quit()\<close>, both before their \<open>wakeup()\<close>, while the loop goes to \<open>poll\<close>.\<close>

definition two_callers :: event_loop where
  "two_callers = mk_event_loop\<lparr>looping := True, pc := Polling, pendingFunctors := [7], queued_log := [7], quit_flag := True,
     midway := [1 \<mapsto> Queue 7, 2 \<mapsto> Quit]\<rparr>"

lemma two_callers_reach: "loop_reach two_callers"
proof -
  have "loop_reach (mk_event_loop\<lparr>looping := True, pc := Testing\<rparr>)"
    by (rule loop_reach.Stepped [OF loop_reach.Created, of Start]) (simp add: loop_start_def mk_event_loop_def)
  then have "loop_reach (mk_event_loop\<lparr>looping := True, pc := Polling\<rparr>)"
    by (rule loop_reach.Stepped [of _ "Advance []"]) (simp add: advance_def mk_event_loop_def)
  then have "loop_reach (mk_event_loop\<lparr>looping := True, pc := Polling, pendingFunctors := [7], queued_log := [7], midway := [1 \<mapsto> Queue 7]\<rparr>)"
    by (rule loop_reach.Stepped [of _ "Foreign_call 1 (Queue 7)"]) (simp add: el_push_def mk_event_loop_def)
  then show ?thesis
    by (rule loop_reach.Stepped [of _ "Foreign_call 2 Quit"]) (simp add: el_set_quit_def mk_event_loop_def two_callers_def)
qed

theorem loop_no_lost_wakeup_witness:
  "pc two_callers = Polling \<and> wakeupFd two_callers = 0
     \<and> (\<exists>t el'. loop_step (Foreign_wake t) two_callers = Some el' \<and> wakeupFd el' > 0)"
  using loop_no_lost_wakeup [OF two_callers_reach] by (simp add: two_callers_def mk_event_loop_def)

subsection \<open>One turn of the loop\<close>

fun queues :: "loop_call list \<Rightarrow> functor_id list" where
  "queues [] = []"
| "queues (Queue f # xs) = f # queues xs"
| "queues (Quit # xs) = queues xs"

lemma run_calls_effect:
  "pendingFunctors (run_calls xs el) = pendingFunctors el @ queues xs
   \<and> run_log (run_calls xs el) = run_log el \<and> pc (run_calls xs el) = pc el
   \<and> callingPendingFunctors (run_calls xs el) = callingPendingFunctors el
   \<and> (callingPendingFunctors el \<longrightarrow> (queues xs \<noteq> [] \<or> wakeupFd el > 0) \<longrightarrow> wakeupFd (run_calls xs el) > 0)"
proof (induction xs arbitrary: el)
  case (Cons x xs)
  then show ?case by (cases x) (auto simp: call_defs)
qed simp

lemma run_functors_effect:
  "callingPendingFunctors el \<Longrightarrow>
     run_log (run_functors body fs el) = run_log el @ fs
   \<and> pendingFunctors (run_functors body fs el) = pendingFunctors el @ concat (map (queues \<circ> body) fs)
   \<and> (concat (map (queues \<circ> body) fs) \<noteq> [] \<or> wakeupFd el > 0 \<longrightarrow> wakeupFd (run_functors body fs el) > 0)"
proof (induction fs arbitrary: el)
  case (Cons f fs)
  define el1 where "el1 = run_calls (body f) (el\<lparr>run_log := run_log el @ [f], pc := Calling fs\<rparr>)"
  have "callingPendingFunctors el1" using Cons.prems run_calls_effect by (simp add: el1_def)
  from Cons.IH [OF this] Cons.prems run_calls_effect [of "body f" "el\<lparr>run_log := run_log el @ [f], pc := Calling fs\<rparr>"]
  show ?case by (auto simp: el1_def)
qed simp

lemma handle_channels_effect:
  "pendingFunctors (handle_channels handler cs el)
     = pendingFunctors el @ concat (map (\<lambda>c. if c = wakeupChannel then [] else queues (handler c)) cs)
   \<and> run_log (handle_channels handler cs el) = run_log el
   \<and> callingPendingFunctors (handle_channels handler cs el) = callingPendingFunctors el"
  by (induction cs arbitrary: el) (simp_all add: handle_channel_def el_handleRead_def Let_def run_calls_effect)

lemma loop_body_effect:
  defines "hs \<equiv> (\<lambda>handler cs. concat (map (\<lambda>c. if c = wakeupChannel then [] else queues (handler c)) cs))"
  shows "run_log (loop_body handler body active el) = run_log el @ pendingFunctors el @ hs handler active
   \<and> pendingFunctors (loop_body handler body active el)
       = concat (map (queues \<circ> body) (pendingFunctors el @ hs handler active))
   \<and> (pendingFunctors (loop_body handler body active el) \<noteq> [] \<longrightarrow> wakeupFd (loop_body handler body active el) > 0)"
proof -
  define e1 where "e1 = handle_channels handler active (poll_returns active (el\<lparr>activeChannels := [], pc := Polling\<rparr>))"
  have e1: "pendingFunctors e1 = pendingFunctors el @ hs handler active" "run_log e1 = run_log el"
    using handle_channels_effect [of handler active "poll_returns active (el\<lparr>activeChannels := [], pc := Polling\<rparr>)"]
    by (simp_all add: e1_def poll_returns_def hs_def)
  define e2 where "e2 = e1\<lparr>callingPendingFunctors := True, pendingFunctors := [], pc := Calling (pendingFunctors e1)\<rparr>"
  have "loop_body handler body active el
      = (run_functors body (pendingFunctors e1) e2)\<lparr>callingPendingFunctors := False, pc := Testing\<rparr>"
    by (simp add: loop_body_def e1_def [symmetric] doPendingFunctors_def e2_def Let_def)
  moreover have "callingPendingFunctors e2" "pendingFunctors e2 = []" "run_log e2 = run_log el"
    by (simp_all add: e2_def e1)
  ultimately show ?thesis
    using run_functors_effect [of e2 body "pendingFunctors e1"] e1 by simp
qed

text \<open>The sequential loop body is a run of the step machine.\<close>

lemma run_calls_reach:
  "loop_reach el \<Longrightarrow> in_callback el \<Longrightarrow> loop_reach (run_calls xs el)"
proof (induction xs arbitrary: el)
  case (Cons x xs)
  have "loop_reach (run_call x el)"
    by (rule loop_reach.Stepped [OF Cons.prems(1), of "In_loop x"]) (simp add: Cons.prems(2))
  moreover have "in_callback (run_call x el)"
    using Cons.prems(2) run_calls_effect [of "[x]" el] by (simp add: in_callback_def)
  ultimately show ?case using Cons.IH by simp
qed simp

lemma handle_channels_reach:
  "loop_reach el \<Longrightarrow> pc el = Handling cs \<Longrightarrow>
     loop_reach (handle_channels handler cs el) \<and> pc (handle_channels handler cs el) = Swapping"
proof (induction cs arbitrary: el)
  case Nil
  then show ?case
    using loop_reach.Stepped [OF Nil.prems(1), of "Advance []"] by (simp add: advance_def)
next
  case (Cons c cs)
  define e1 where "e1 = handle_channel (\<lambda>_. []) c (el\<lparr>pc := Handling cs\<rparr>)"
  have r: "loop_reach e1" "pc e1 = Handling cs"
    using loop_reach.Stepped [OF Cons.prems(1), of "Advance []"] Cons.prems(2)
    by (simp_all add: advance_def e1_def handle_channel_def el_handleRead_def Let_def)
  have e: "handle_channel handler c (el\<lparr>pc := Handling cs\<rparr>) = (if c = wakeupChannel then e1 else run_calls (handler c) e1)"
    by (simp add: e1_def handle_channel_def Let_def)
  have "loop_reach (handle_channel handler c (el\<lparr>pc := Handling cs\<rparr>))"
    "pc (handle_channel handler c (el\<lparr>pc := Handling cs\<rparr>)) = Handling cs"
    unfolding e using r run_calls_reach [OF r(1)] by (simp_all add: in_callback_def run_calls_effect)
  with Cons.IH show ?case by simp
qed

lemma run_functors_reach:
  "loop_reach el \<Longrightarrow> pc el = Calling fs \<Longrightarrow>
     loop_reach (run_functors body fs el) \<and> pc (run_functors body fs el) = Calling []"
proof (induction fs arbitrary: el)
  case (Cons f fs)
  define e1 where "e1 = el\<lparr>run_log := run_log el @ [f], pc := Calling fs\<rparr>"
  have "loop_reach e1"
    by (rule loop_reach.Stepped [OF Cons.prems(1), of "Advance []"]) (simp add: advance_def Cons.prems(2) e1_def)
  then have "loop_reach (run_calls (body f) e1)" "pc (run_calls (body f) e1) = Calling fs"
    using run_calls_reach [of e1 "body f"] by (simp_all add: run_calls_effect e1_def in_callback_def)
  with Cons.IH show ?case by (simp add: e1_def)
qed simp

lemma loop_body_reach:
  assumes "loop_reach el" "pc el = Testing" "\<not> quit_flag el"
  shows "loop_reach (loop_body handler body active el) \<and> pc (loop_body handler body active el) = Testing"
proof -
  have "loop_reach (el\<lparr>activeChannels := [], pc := Polling\<rparr>)"
    by (rule loop_reach.Stepped [OF assms(1), of "Advance []"]) (use assms in \<open>simp add: advance_def\<close>)
  then have "loop_reach (poll_returns active (el\<lparr>activeChannels := [], pc := Polling\<rparr>))"
    by (rule loop_reach.Stepped [of _ "Advance active"]) (simp add: advance_def)
  moreover have "pc (poll_returns active e) = Handling active" for e by (simp add: poll_returns_def)
  ultimately obtain e1 where e1: "e1 = handle_channels handler active (poll_returns active (el\<lparr>activeChannels := [], pc := Polling\<rparr>))"
    "loop_reach e1" "pc e1 = Swapping"
    using handle_channels_reach by blast
  define e2 where "e2 = e1\<lparr>callingPendingFunctors := True, pendingFunctors := [], pc := Calling (pendingFunctors e1)\<rparr>"
  have "loop_reach e2"
    by (rule loop_reach.Stepped [OF e1(2), of "Advance []"]) (simp add: advance_def e1(3) e2_def)
  then have r: "loop_reach (run_functors body (pendingFunctors e1) e2)" "pc (run_functors body (pendingFunctors e1) e2) = Calling []"
    using run_functors_reach [of e2 "pendingFunctors e1" body] by (simp_all add: e2_def)
  have "loop_reach ((run_functors body (pendingFunctors e1) e2)\<lparr>callingPendingFunctors := False, pc := Testing\<rparr>)"
    by (rule loop_reach.Stepped [OF r(1), of "Advance []"]) (simp add: advance_def r(2))
  then show ?thesis by (simp add: loop_body_def e1(1) [symmetric] doPendingFunctors_def e2_def Let_def)
qed

text \<open>C16: One turn of the loop calls every functor that was queued before it, and every functor queued
  by the handlers of this turn, in order, and then ends, even when functors queue functors: these are left for the
  next turn, whose \<open>poll\<close> will not wait, because the eventfd is readable.\<close>

theorem loop_turn_runs_functors:
  fixes handler :: "chid \<Rightarrow> loop_call list" and active :: "chid list"
  assumes "loop_reach el" "pc el = Testing" "\<not> quit_flag el"
  defines "pushed \<equiv> concat (map (\<lambda>c. if c = wakeupChannel then [] else queues (handler c)) active)"
  shows "\<exists>el'. el' = loop_body handler body active el \<and> loop_reach el' \<and> pc el' = Testing
    \<and> run_log el' = run_log el @ pendingFunctors el @ pushed
    \<and> pendingFunctors el' = concat (map (queues \<circ> body) (pendingFunctors el @ pushed))
    \<and> (pendingFunctors el' \<noteq> [] \<longrightarrow> wakeupFd el' > 0)"
  using loop_body_reach [OF assms(1-3), of handler body active] loop_body_effect [of handler body active el]
  by (simp add: pushed_def)

theorem loop_turn_runs_functors_witness:
  "\<exists>el. pc el = Testing \<and> run_log (loop_body (\<lambda>_. [Queue 4]) (\<lambda>_. [Queue 9]) [3] el) = run_log el @ [4]
     \<and> pendingFunctors (loop_body (\<lambda>_. [Queue 4]) (\<lambda>_. [Queue 9]) [3] el) = [9]"
proof -
  have "loop_reach (mk_event_loop\<lparr>looping := True, pc := Testing\<rparr>)"
    by (rule loop_reach.Stepped [OF loop_reach.Created, of Start]) (simp add: loop_start_def mk_event_loop_def)
  from loop_turn_runs_functors [OF this, where handler = "\<lambda>_. [Queue 4]" and active = "[3]" and body = "\<lambda>_. [Queue 9]"] show ?thesis
    by (intro exI [of _ "mk_event_loop\<lparr>looping := True, pc := Testing\<rparr>"])
      (simp add: mk_event_loop_def wakeupChannel_def)
qed

text \<open>\<open>quit()\<close> before \<open>loop()\<close> has no effect: \<open>loop()\<close> clears the flag.\<close>

lemma quit_before_loop_lost:
  "\<not> looping el \<Longrightarrow> map_option quit_flag (loop_start (el_quit inLoop el)) = Some False"
  by (simp add: loop_start_def call_defs wakeup_def)

end
