(* ===== verification/Net_TcpConnection.thy ===== *)
theory Net_TcpConnection
  imports Net_Buffer Net_Poller
begin

section \<open>Connections: \<open>net/TcpConnection.h\<close>, \<open>net/TcpConnection.cc\<close>\<close>

text \<open>
  A connection is its state, its channel, its two buffers and the functors it has queued in its event
  loop (\<open>pending\<close>, in queue order). Everything it does to the outside is recorded in \<open>trace\<close>: poller
  requests, bytes the kernel took, \<open>shutdown(2)\<close>, user callbacks; \<open>E_accept d\<close> is a history entry for
  the bytes of a message that \<open>sendInLoop\<close> has taken charge of. The results of \<open>write(2)\<close> and
  \<open>readv(2)\<close> are arguments. A user callback is what it calls afterwards: it is always the last action
  of its handler, except in \<open>handleClose\<close>, where it is followed by \<open>closeCallback_\<close> alone, which only
  schedules work. \<open>inLoop\<close> tells whether a call is made in the loop's thread, where \<open>runInLoop\<close> runs
  the functor at once; otherwise it is queued.
\<close>

datatype StateE = kDisconnected | kConnecting | kConnected | kDisconnecting

datatype tcp_effect =
    E_update events
  | E_remove
  | E_connection bool
  | E_message timestamp
  | E_close
  | E_accept bytes
  | E_wrote bytes
  | E_shutdownWrite
  | E_writeComplete
  | E_highWaterMark nat
  | E_runAfter int

datatype tcp_functor =
    F_send bytes
  | F_shutdown
  | F_forceClose
  | F_startRead
  | F_stopRead
  | F_writeComplete
  | F_highWaterMark nat

record tcp_conn =
  conn_state :: StateE
  reading :: bool
  chan :: channel
  highWaterMark :: nat
  writeCompleteCb :: bool
  highWaterMarkCb :: bool
  inputBuffer :: buffer
  outputBuffer :: buffer
  pending :: "tcp_functor list"
  trace :: "tcp_effect list"

definition mk_tcp_conn :: "fd \<Rightarrow> tcp_conn" where
  "mk_tcp_conn sockfd = \<lparr>conn_state = kConnecting, reading = True,
     chan = setErrorCallback (setCloseCallback (setWriteCallback (setReadCallback (mk_channel sockfd)))),
     highWaterMark = 64 * 1024 * 1024, writeCompleteCb = False, highWaterMarkCb = False,
     inputBuffer = mk_buffer kInitialSize, outputBuffer = mk_buffer kInitialSize, pending = [], trace = []\<rparr>"

definition emit :: "tcp_effect \<Rightarrow> tcp_conn \<Rightarrow> tcp_conn" where
  "emit e c = c\<lparr>trace := trace c @ [e]\<rparr>"

definition queueInLoop :: "tcp_functor \<Rightarrow> tcp_conn \<Rightarrow> tcp_conn" where
  "queueInLoop f c = c\<lparr>pending := pending c @ [f]\<rparr>"

definition setState :: "StateE \<Rightarrow> tcp_conn \<Rightarrow> tcp_conn" where
  "setState s c = c\<lparr>conn_state := s\<rparr>"

text \<open>\<open>channel_->enableReading()\<close> and its siblings, \<open>channel_->remove()\<close>.\<close>

definition chan_events :: "(events \<Rightarrow> events) \<Rightarrow> tcp_conn \<Rightarrow> tcp_conn" where
  "chan_events f c =
     (let e = f (events (chan c))
      in emit (E_update e) (c\<lparr>chan := (chan c)\<lparr>events := e, addedToLoop := True\<rparr>\<rparr>))"

definition chan_remove :: "tcp_conn \<Rightarrow> tcp_conn option" where
  "chan_remove c = assert_then (isNoneEvent (chan c))
     (Some (emit E_remove (c\<lparr>chan := (chan c)\<lparr>addedToLoop := False\<rparr>\<rparr>)))"

definition chan_enableReading where "chan_enableReading = chan_events (\<lambda>e. e OR kReadEvent)"
definition chan_disableReading where "chan_disableReading = chan_events (\<lambda>e. e AND NOT kReadEvent)"
definition chan_enableWriting where "chan_enableWriting = chan_events (\<lambda>e. e OR kWriteEvent)"
definition chan_disableWriting where "chan_disableWriting = chan_events (\<lambda>e. e AND NOT kWriteEvent)"
definition chan_disableAll where "chan_disableAll = chan_events (\<lambda>e. kNoneEvent)"

definition setHighWaterMarkCallback :: "nat \<Rightarrow> tcp_conn \<Rightarrow> tcp_conn" where
  "setHighWaterMarkCallback n c = c\<lparr>highWaterMarkCb := True, highWaterMark := n\<rparr>"

definition setWriteCompleteCallback :: "tcp_conn \<Rightarrow> tcp_conn" where
  "setWriteCompleteCallback c = c\<lparr>writeCompleteCb := True\<rparr>"

definition connected :: "tcp_conn \<Rightarrow> bool" where "connected c \<longleftrightarrow> conn_state c = kConnected"
definition disconnected :: "tcp_conn \<Rightarrow> bool" where "disconnected c \<longleftrightarrow> conn_state c = kDisconnected"

fun stateToString :: "StateE \<Rightarrow> string" where
  "stateToString kDisconnected = ''kDisconnected''"
| "stateToString kConnecting = ''kConnecting''"
| "stateToString kConnected = ''kConnected''"
| "stateToString kDisconnecting = ''kDisconnecting''"

definition EPIPE :: int where [const_defs]: "EPIPE = 32"
definition ECONNRESET :: int where [const_defs]: "ECONNRESET = 104"
definition EWOULDBLOCK :: int where [const_defs]: "EWOULDBLOCK = 11"

text \<open>\<open>write(2)\<close>: the \<open>errno\<close>, or the number of bytes taken.\<close>

type_synonym sys_write = "bytes \<Rightarrow> int + nat"

text \<open>\<open>remaining\<close> is a \<open>size_t\<close>: \<open>len - nwrote\<close> exceeds \<open>len\<close> exactly when \<open>nwrote\<close> does.\<close>

definition sendInLoop :: "sys_write \<Rightarrow> bytes \<Rightarrow> tcp_conn \<Rightarrow> tcp_conn option" where
  "sendInLoop sys data c =
     (if conn_state c = kDisconnected then Some c
      else do {
        (nwrote, remaining, faultError, c) \<leftarrow>
          (if \<not> isWriting (chan c) \<and> readableBytes (outputBuffer c) = 0
           then (case sys data of
                   Inr n \<Rightarrow> assert_then (n \<le> length data)
                     (let remaining = length data - n;
                          c = emit (E_wrote (take n data)) c
                      in Some (n, remaining, False,
                           if remaining = 0 \<and> writeCompleteCb c then queueInLoop F_writeComplete c else c))
                 | Inl err \<Rightarrow> Some (0, length data, err \<noteq> EWOULDBLOCK \<and> (err = EPIPE \<or> err = ECONNRESET), c))
           else Some (0, length data, False, c));
        assert_then (remaining \<le> length data)
         (let c = (if faultError then c else emit (E_accept data) c) in
          if \<not> faultError \<and> remaining > 0
          then let oldLen = readableBytes (outputBuffer c);
                   c = (if oldLen + remaining \<ge> highWaterMark c \<and> oldLen < highWaterMark c \<and> highWaterMarkCb c
                        then queueInLoop (F_highWaterMark (oldLen + remaining)) c else c)
               in do { b \<leftarrow> append_buf (drop nwrote data) (outputBuffer c);
                       let c = c\<lparr>outputBuffer := b\<rparr>;
                       Some (if \<not> isWriting (chan c) then chan_enableWriting c else c) }
          else Some c) })"

definition send :: "bool \<Rightarrow> sys_write \<Rightarrow> bytes \<Rightarrow> tcp_conn \<Rightarrow> tcp_conn option" where
  "send inLoop sys message c =
     (if conn_state c = kConnected
      then if inLoop then sendInLoop sys message c else Some (queueInLoop (F_send message) c)
      else Some c)"

text \<open>\<open>send(Buffer*)\<close>: the message is the readable part, which is retrieved when the state is right.\<close>

definition send_buffer :: "bool \<Rightarrow> sys_write \<Rightarrow> buffer \<Rightarrow> tcp_conn \<Rightarrow> (tcp_conn \<times> buffer) option" where
  "send_buffer inLoop sys b c =
     (if conn_state c = kConnected
      then if inLoop
           then do { c \<leftarrow> sendInLoop sys (bytes_between (peek b) (peek b + readableBytes b) b) c;
                     Some (c, retrieveAll b) }
           else do { (d, b) \<leftarrow> retrieveAllAsString b; Some (queueInLoop (F_send d) c, b) }
      else Some (c, b))"

definition shutdownInLoop :: "tcp_conn \<Rightarrow> tcp_conn" where
  "shutdownInLoop c = (if \<not> isWriting (chan c) then emit E_shutdownWrite c else c)"

definition shutdown :: "bool \<Rightarrow> tcp_conn \<Rightarrow> tcp_conn" where
  "shutdown inLoop c =
     (if conn_state c = kConnected
      then let c = setState kDisconnecting c
           in if inLoop then shutdownInLoop c else queueInLoop F_shutdown c
      else c)"

definition handleClose :: "tcp_conn \<Rightarrow> tcp_conn option" where
  "handleClose c =
     assert_then (conn_state c = kConnected \<or> conn_state c = kDisconnecting)
      (Some (emit E_close (emit (E_connection False) (chan_disableAll (setState kDisconnected c)))))"

definition forceCloseInLoop :: "tcp_conn \<Rightarrow> tcp_conn option" where
  "forceCloseInLoop c =
     (if conn_state c = kConnected \<or> conn_state c = kDisconnecting then handleClose c else Some c)"

definition forceClose :: "tcp_conn \<Rightarrow> tcp_conn" where
  "forceClose c =
     (if conn_state c = kConnected \<or> conn_state c = kDisconnecting
      then queueInLoop F_forceClose (setState kDisconnecting c) else c)"

text \<open>The timer later calls \<open>forceClose\<close> again, if the connection still exists.\<close>

definition forceCloseWithDelay :: "int \<Rightarrow> tcp_conn \<Rightarrow> tcp_conn" where
  "forceCloseWithDelay usec c =
     (if conn_state c = kConnected \<or> conn_state c = kDisconnecting
      then emit (E_runAfter usec) (setState kDisconnecting c) else c)"

definition startReadInLoop :: "tcp_conn \<Rightarrow> tcp_conn" where
  "startReadInLoop c =
     (if \<not> reading c \<or> \<not> isReading (chan c) then (chan_enableReading c)\<lparr>reading := True\<rparr> else c)"

definition startRead :: "bool \<Rightarrow> tcp_conn \<Rightarrow> tcp_conn" where
  "startRead inLoop c = (if inLoop then startReadInLoop c else queueInLoop F_startRead c)"

definition stopReadInLoop :: "tcp_conn \<Rightarrow> tcp_conn" where
  "stopReadInLoop c =
     (if reading c \<or> isReading (chan c) then (chan_disableReading c)\<lparr>reading := False\<rparr> else c)"

definition stopRead :: "bool \<Rightarrow> tcp_conn \<Rightarrow> tcp_conn" where
  "stopRead inLoop c = (if inLoop then stopReadInLoop c else queueInLoop F_stopRead c)"

definition connectEstablished :: "tcp_conn \<Rightarrow> tcp_conn option" where
  "connectEstablished c =
     assert_then (conn_state c = kConnecting)
      (let c = setState kConnected c;
           c = c\<lparr>chan := channel_tie 0 (chan c)\<rparr>;
           c = chan_enableReading c
       in Some (emit (E_connection True) c))"

definition connectDestroyed :: "tcp_conn \<Rightarrow> tcp_conn option" where
  "connectDestroyed c =
     (let c = (if conn_state c = kConnected
               then emit (E_connection False) (chan_disableAll (setState kDisconnected c)) else c)
      in chan_remove c)"

text \<open>The destructor's assertion.\<close>

definition tcp_dtor :: "tcp_conn \<Rightarrow> unit option" where
  "tcp_dtor c = assert_then (conn_state c = kDisconnected) (Some ())"

definition handleRead :: "(nat \<Rightarrow> int + bytes) \<Rightarrow> timestamp \<Rightarrow> tcp_conn \<Rightarrow> tcp_conn option" where
  "handleRead sys_readv receiveTime c =
     do { (n, err, b) \<leftarrow> readFd sys_readv (inputBuffer c);
          let c = c\<lparr>inputBuffer := b\<rparr>;
          if n > 0 then Some (emit (E_message receiveTime) c)
          else if n = 0 then handleClose c
          else Some c }"

definition handleWrite :: "sys_write \<Rightarrow> tcp_conn \<Rightarrow> tcp_conn option" where
  "handleWrite sys c =
     (if isWriting (chan c)
      then case sys (bytes_between (peek (outputBuffer c)) (peek (outputBuffer c) + readableBytes (outputBuffer c)) (outputBuffer c)) of
             Inl err \<Rightarrow> Some c
           | Inr n \<Rightarrow>
               if n > 0
               then do {
                 b \<leftarrow> retrieve n (outputBuffer c);
                 let c = emit (E_wrote (take n (bytes_between (peek (outputBuffer c)) (peek (outputBuffer c) + readableBytes (outputBuffer c)) (outputBuffer c))))
                           (c\<lparr>outputBuffer := b\<rparr>);
                 Some (if readableBytes b = 0
                       then let c = chan_disableWriting c;
                                c = (if writeCompleteCb c then queueInLoop F_writeComplete c else c)
                            in if conn_state c = kDisconnecting then shutdownInLoop c else c
                       else c) }
               else Some c
      else Some c)"

text \<open>\<open>handleError\<close> only logs the pending socket error.\<close>

definition handleError :: "tcp_conn \<Rightarrow> tcp_conn" where "handleError c = c"

subsection \<open>What the event loop does with a connection\<close>

fun run_callback :: "(nat \<Rightarrow> int + bytes) \<Rightarrow> sys_write \<Rightarrow> callback \<Rightarrow> tcp_conn \<Rightarrow> tcp_conn option" where
  "run_callback rd wr (ReadCallback t) c = handleRead rd t c"
| "run_callback rd wr WriteCallback c = handleWrite wr c"
| "run_callback rd wr CloseCallback c = handleClose c"
| "run_callback rd wr ErrorCallback c = Some (handleError c)"

fun run_callbacks :: "(nat \<Rightarrow> int + bytes) \<Rightarrow> sys_write \<Rightarrow> callback list \<Rightarrow> tcp_conn \<Rightarrow> tcp_conn option" where
  "run_callbacks rd wr [] c = Some c"
| "run_callbacks rd wr (x # xs) c = do { c \<leftarrow> run_callback rd wr x c; run_callbacks rd wr xs c }"

text \<open>The poller has reported \<open>re\<close>; the channel dispatches it (the connection is alive).\<close>

definition dispatch :: "events \<Rightarrow> (nat \<Rightarrow> int + bytes) \<Rightarrow> sys_write \<Rightarrow> timestamp \<Rightarrow> tcp_conn \<Rightarrow> tcp_conn option" where
  "dispatch re rd wr t c =
     (let c = c\<lparr>chan := set_revents re (chan c)\<rparr>
      in run_callbacks rd wr (handleEvent (\<lambda>_. True) t (chan c)) c)"

fun run_functor :: "sys_write \<Rightarrow> tcp_functor \<Rightarrow> tcp_conn \<Rightarrow> tcp_conn option" where
  "run_functor sys (F_send d) c = sendInLoop sys d c"
| "run_functor sys F_shutdown c = Some (shutdownInLoop c)"
| "run_functor sys F_forceClose c = forceCloseInLoop c"
| "run_functor sys F_startRead c = Some (startReadInLoop c)"
| "run_functor sys F_stopRead c = Some (stopReadInLoop c)"
| "run_functor sys F_writeComplete c = Some (emit E_writeComplete c)"
| "run_functor sys (F_highWaterMark n) c = Some (emit (E_highWaterMark n) c)"

datatype tcp_event =
    Establish
  | Destroy
  | Io events "nat \<Rightarrow> int + bytes" sys_write timestamp
  | Run_pending sys_write
  | Call_send bool sys_write bytes
  | Call_shutdown bool
  | Call_forceClose
  | Call_forceCloseWithDelay int
  | Call_startRead bool
  | Call_stopRead bool
  | Call_retrieve nat

fun tcp_step :: "tcp_event \<Rightarrow> tcp_conn \<Rightarrow> tcp_conn option" where
  "tcp_step Establish c = connectEstablished c"
| "tcp_step Destroy c = connectDestroyed c"
| "tcp_step (Io re rd wr t) c = dispatch re rd wr t c"
| "tcp_step (Run_pending sys) c =
     (case pending c of [] \<Rightarrow> Some c | f # fs \<Rightarrow> run_functor sys f (c\<lparr>pending := fs\<rparr>))"
| "tcp_step (Call_send inLoop sys d) c = send inLoop sys d c"
| "tcp_step (Call_shutdown inLoop) c = Some (shutdown inLoop c)"
| "tcp_step Call_forceClose c = Some (forceClose c)"
| "tcp_step (Call_forceCloseWithDelay us) c = Some (forceCloseWithDelay us c)"
| "tcp_step (Call_startRead inLoop) c = Some (startRead inLoop c)"
| "tcp_step (Call_stopRead inLoop) c = Some (stopRead inLoop c)"
| "tcp_step (Call_retrieve n) c = map_option (\<lambda>b. c\<lparr>inputBuffer := b\<rparr>) (retrieve n (inputBuffer c))"

subsection \<open>The invariant of a connection\<close>

text \<open>The four interest sets of a connection.\<close>

definition evw :: "bool \<Rightarrow> bool \<Rightarrow> events" where
  "evw r w = (if r then kReadEvent else 0) OR (if w then kWriteEvent else 0)"

lemma evw_ops [simp]:
  "evw r w OR kReadEvent = evw True w" "evw r w OR kWriteEvent = evw r True"
  "evw r w AND NOT kReadEvent = evw False w" "evw r w AND NOT kWriteEvent = evw r False"
  by (cases r; cases w; simp add: evw_def kReadEvent_def kWriteEvent_def POLLIN_def POLLPRI_def POLLOUT_def)+

lemma evw_test [simp]:
  "events ch = evw r w \<Longrightarrow> isWriting ch \<longleftrightarrow> w" "events ch = evw r w \<Longrightarrow> isReading ch \<longleftrightarrow> r"
  "evw r w = 0 \<longleftrightarrow> \<not> r \<and> \<not> w" "evw False False = 0"
  by (cases r; cases w; simp add: isWriting_def isReading_def evw_def kReadEvent_def kWriteEvent_def
      POLLIN_def POLLPRI_def POLLOUT_def)+

fun wrote_of :: "tcp_effect \<Rightarrow> bytes" where
  "wrote_of (E_wrote d) = d" | "wrote_of _ = []"

fun accept_of :: "tcp_effect \<Rightarrow> bytes" where
  "accept_of (E_accept d) = d" | "accept_of _ = []"

fun conn_of :: "tcp_effect \<Rightarrow> bool list" where
  "conn_of (E_connection b) = [b]" | "conn_of _ = []"

fun reqs_of :: "chid \<Rightarrow> tcp_effect \<Rightarrow> request list" where
  "reqs_of ch (E_update e) = [Update ch (\<lambda>_. e)]"
| "reqs_of ch E_remove = [Remove ch]"
| "reqs_of ch _ = []"

definition wire :: "tcp_conn \<Rightarrow> bytes" where "wire c = concat (map wrote_of (trace c))"
definition accepted :: "tcp_conn \<Rightarrow> bytes" where "accepted c = concat (map accept_of (trace c))"
definition ups :: "tcp_conn \<Rightarrow> bool list" where "ups c = concat (map conn_of (trace c))"
definition reqs :: "chid \<Rightarrow> tcp_conn \<Rightarrow> request list" where "reqs ch c = concat (map (reqs_of ch) (trace c))"

lemmas history_defs = wire_def accepted_def ups_def reqs_def

text \<open>Whenever the connection shut its writing side down, everything accepted had been written, unless
  the connection was already down.\<close>

definition shut_ok :: "tcp_effect list \<Rightarrow> bool" where
  "shut_ok tr \<longleftrightarrow> (\<forall>k < length tr. tr ! k = E_shutdownWrite \<longrightarrow>
     E_connection False \<in> set (take k tr)
     \<or> concat (map wrote_of (take k tr)) = concat (map accept_of (take k tr)))"

lemma shut_ok_snoc [simp]:
  "shut_ok (tr @ [e]) \<longleftrightarrow> shut_ok tr \<and> (e = E_shutdownWrite \<longrightarrow>
     E_connection False \<in> set tr \<or> concat (map wrote_of tr) = concat (map accept_of tr))"
  "shut_ok []"
  by (auto simp: shut_ok_def nth_append less_Suc_eq)

lemma shut_ok_more [simp]:
  "shut_ok (tr @ [a, b]) \<longleftrightarrow> shut_ok (tr @ [a]) \<and> (b = E_shutdownWrite \<longrightarrow>
     E_connection False \<in> set (tr @ [a]) \<or> concat (map wrote_of (tr @ [a])) = concat (map accept_of (tr @ [a])))"
  "c \<noteq> E_shutdownWrite \<Longrightarrow> shut_ok (tr @ [a, b, c]) \<longleftrightarrow> shut_ok (tr @ [a, b])"
  using shut_ok_snoc(1) [of "tr @ [a]" b] shut_ok_snoc(1) [of "tr @ [a, b]" c] by simp_all

lemma shut_ok_short [simp]: "shut_ok [a]" "b \<noteq> E_shutdownWrite \<Longrightarrow> shut_ok [a, b]"
  using shut_ok_snoc(1) [of "[]" a] shut_ok_snoc(1) [of "[a]" b] by simp_all

lemma ups_down: "False \<in> set (ups c) \<longleftrightarrow> E_connection False \<in> set (trace c)"
proof -
  have "False \<in> set (concat (map conn_of tr)) \<longleftrightarrow> E_connection False \<in> set tr" for tr
  proof (induction tr)
    case (Cons e tr)
    then show ?case by (cases e) auto
  qed simp
  then show ?thesis by (simp add: ups_def)
qed

lemma run_requests_append:
  "run_requests st (xs @ ys) s = do { s \<leftarrow> run_requests st xs s; run_requests st ys s }"
  by (induction xs arbitrary: s) (auto split: Option.bind_splits)

text \<open>The requests made so far are legal for a poller, and leave it with the channel's interest.\<close>

definition polled :: "(chid \<Rightarrow> fd) \<Rightarrow> chid \<Rightarrow> tcp_conn \<Rightarrow> bool" where
  "polled fds ch c \<longleftrightarrow> (\<exists>a. run_requests (spec_request fds) (reqs ch c) start_spec = Some a
     \<and> sp_reg a (fds ch) = (if addedToLoop (chan c) then Some (ch, events (chan c)) else None))"

definition active :: "tcp_conn \<Rightarrow> bool" where
  "active c \<longleftrightarrow> conn_state c = kConnected \<or> conn_state c = kDisconnecting"

definition tcp_inv :: "(chid \<Rightarrow> fd) \<Rightarrow> chid \<Rightarrow> tcp_conn \<Rightarrow> bool" where
  "tcp_inv fds ch c \<longleftrightarrow> wf_buffer (inputBuffer c) \<and> wf_buffer (outputBuffer c)
     \<and> wire c @ content (outputBuffer c) = accepted c
     \<and> (\<exists>r. events (chan c) = evw r (active c \<and> content (outputBuffer c) \<noteq> []) \<and> (r \<longrightarrow> active c))
     \<and> polled fds ch c
     \<and> (active c \<longrightarrow> addedToLoop (chan c))
     \<and> ups c = (case conn_state c of kConnecting \<Rightarrow> [] | kDisconnected \<Rightarrow> [True, False] | _ \<Rightarrow> [True])
     \<and> (conn_state c = kConnecting \<longrightarrow> trace c = [] \<and> pending c = [] \<and> \<not> addedToLoop (chan c)
          \<and> content (outputBuffer c) = [])
     \<and> shut_ok (trace c)"

lemma polled_update:
  assumes "polled fds ch c" "addedToLoop (chan c) \<or> trace c = [] \<and> f (events (chan c)) \<noteq> 0"
  shows "polled fds ch (chan_events f c)"
proof -
  from assms(1) obtain a where a: "run_requests (spec_request fds) (reqs ch c) start_spec = Some a"
    "sp_reg a (fds ch) = (if addedToLoop (chan c) then Some (ch, events (chan c)) else None)"
    by (auto simp: polled_def)
  have fresh: "trace c = [] \<Longrightarrow> a = start_spec" using a(1) by (simp add: reqs_def)
  have "reqs ch (chan_events f c) = reqs ch c @ [Update ch (\<lambda>_. f (events (chan c)))]"
    by (simp add: chan_events_def emit_def reqs_def Let_def)
  with a assms(2) fresh show ?thesis
    by (cases "addedToLoop (chan c)")
       (auto simp: polled_def run_requests_append chan_events_def emit_def Let_def start_spec_def)
qed

lemma polled_remove:
  assumes "polled fds ch c" "addedToLoop (chan c)" "events (chan c) = 0"
  shows "\<exists>c'. chan_remove c = Some c' \<and> polled fds ch c'"
proof -
  from assms obtain a where "run_requests (spec_request fds) (reqs ch c) start_spec = Some a"
    "sp_reg a (fds ch) = Some (ch, 0)"
    by (auto simp: polled_def)
  with assms(3) show ?thesis
    by (simp add: chan_remove_def isNoneEvent_def kNoneEvent_def polled_def emit_def reqs_def run_requests_append)
qed

lemma polled_same:
  "polled fds ch c \<Longrightarrow> reqs ch c' = reqs ch c \<Longrightarrow> events (chan c') = events (chan c) \<Longrightarrow>
     addedToLoop (chan c') = addedToLoop (chan c) \<Longrightarrow> polled fds ch c'"
  by (simp only: polled_def)

lemma emit_history [simp]:
  "wire (emit e c) = wire c @ wrote_of e" "accepted (emit e c) = accepted c @ accept_of e"
  "ups (emit e c) = ups c @ conn_of e" "reqs ch (emit e c) = reqs ch c @ reqs_of ch e"
  by (simp_all add: emit_def history_defs)

lemma emit_fields [simp]:
  "conn_state (emit e c) = conn_state c" "chan (emit e c) = chan c" "inputBuffer (emit e c) = inputBuffer c"
  "outputBuffer (emit e c) = outputBuffer c" "pending (emit e c) = pending c" "reading (emit e c) = reading c"
  "trace (emit e c) = trace c @ [e]" "writeCompleteCb (emit e c) = writeCompleteCb c"
  "highWaterMark (emit e c) = highWaterMark c" "highWaterMarkCb (emit e c) = highWaterMarkCb c"
  by (simp_all add: emit_def)

lemma queue_fields [simp]:
  "conn_state (queueInLoop f c) = conn_state c" "chan (queueInLoop f c) = chan c" "inputBuffer (queueInLoop f c) = inputBuffer c"
  "outputBuffer (queueInLoop f c) = outputBuffer c" "pending (queueInLoop f c) = pending c @ [f]" "reading (queueInLoop f c) = reading c"
  "trace (queueInLoop f c) = trace c" "writeCompleteCb (queueInLoop f c) = writeCompleteCb c"
  "highWaterMark (queueInLoop f c) = highWaterMark c" "highWaterMarkCb (queueInLoop f c) = highWaterMarkCb c"
  by (simp_all add: queueInLoop_def)

lemma maybe_queue [simp]:
  "conn_state (if P then queueInLoop f c else c) = conn_state c" "chan (if P then queueInLoop f c else c) = chan c"
  "inputBuffer (if P then queueInLoop f c else c) = inputBuffer c"
  "outputBuffer (if P then queueInLoop f c else c) = outputBuffer c" "trace (if P then queueInLoop f c else c) = trace c"
  "wire (if P then queueInLoop f c else c) = wire c" "accepted (if P then queueInLoop f c else c) = accepted c"
  "ups (if P then queueInLoop f c else c) = ups c" "reqs ch (if P then queueInLoop f c else c) = reqs ch c"
  by (simp_all add: history_defs)

lemma chan_events_fields [simp]:
  "conn_state (chan_events f c) = conn_state c" "inputBuffer (chan_events f c) = inputBuffer c"
  "outputBuffer (chan_events f c) = outputBuffer c" "pending (chan_events f c) = pending c" "reading (chan_events f c) = reading c"
  "events (chan (chan_events f c)) = f (events (chan c))" "addedToLoop (chan (chan_events f c))"
  "wire (chan_events f c) = wire c" "accepted (chan_events f c) = accepted c" "ups (chan_events f c) = ups c"
  "trace (chan_events f c) = trace c @ [E_update (f (events (chan c)))]" "writeCompleteCb (chan_events f c) = writeCompleteCb c"
  by (simp_all add: chan_events_def emit_def Let_def history_defs)

lemmas chan_op_defs = chan_enableReading_def chan_disableReading_def chan_enableWriting_def
  chan_disableWriting_def chan_disableAll_def

lemma polled_start: "polled fds ch (mk_tcp_conn sockfd)"
  by (simp add: polled_def mk_tcp_conn_def reqs_def start_spec_def mk_channel_def setErrorCallback_def
      setCloseCallback_def setWriteCallback_def setReadCallback_def)

lemma tcp_inv_start: "tcp_inv fds ch (mk_tcp_conn sockfd)"
proof -
  have "events (chan (mk_tcp_conn sockfd)) = evw False False" "\<not> addedToLoop (chan (mk_tcp_conn sockfd))"
    by (simp_all add: mk_tcp_conn_def mk_channel_def setErrorCallback_def
      setCloseCallback_def setWriteCallback_def setReadCallback_def)
  then show ?thesis
    unfolding tcp_inv_def using polled_start
    by (simp add: active_def history_defs mk_buffer_geometry)
      (auto simp: mk_tcp_conn_def mk_buffer_geometry intro: exI [of _ False])
qed

text \<open>Changes that no clause of the invariant sees.\<close>

lemma tcp_inv_quiet:
  assumes "tcp_inv fds ch c" "active c \<or> conn_state c = kDisconnected"
    and "conn_state c' = conn_state c" "events (chan c') = events (chan c)" "addedToLoop (chan c') = addedToLoop (chan c)"
    "wf_buffer (inputBuffer c')" "outputBuffer c' = outputBuffer c"
    "wire c' = wire c" "accepted c' = accepted c" "ups c' = ups c" "reqs ch c' = reqs ch c"
    "shut_ok (trace c) \<Longrightarrow> shut_ok (trace c')"
  shows "tcp_inv fds ch c'"
  using assms polled_same [of fds ch c c'] unfolding tcp_inv_def active_def by auto

subsection \<open>Every handler keeps the invariant\<close>

definition write_ok :: "sys_write \<Rightarrow> bool" where
  "write_ok sys \<longleftrightarrow> (\<forall>d n. sys d = Inr n \<longrightarrow> n \<le> length d)"

text \<open>Events the kernel may report: requested ones, errors and hang-up, and a hang-up of a socket
  that is watched for reading makes it readable.\<close>

definition io_ok :: "channel \<Rightarrow> events \<Rightarrow> bool" where
  "io_ok ch re \<longleftrightarrow> events ch \<noteq> 0
     \<and> (re AND (POLLIN OR POLLPRI) \<noteq> 0 \<longrightarrow> isReading ch) \<and> (re AND POLLOUT \<noteq> 0 \<longrightarrow> isWriting ch)
     \<and> re AND POLLRDHUP = 0 \<and> (re AND POLLHUP \<noteq> 0 \<longrightarrow> re AND POLLPRI = 0 \<or> re AND POLLIN \<noteq> 0)"

definition legal :: "tcp_event \<Rightarrow> tcp_conn \<Rightarrow> bool" where
  "legal e c \<longleftrightarrow> (case e of
       Establish \<Rightarrow> conn_state c = kConnecting
     | Destroy \<Rightarrow> addedToLoop (chan c) \<and> (conn_state c = kConnected \<or> conn_state c = kDisconnected)
     | Io re rd wr t \<Rightarrow> io_ok (chan c) re \<and> readv_ok rd \<and> write_ok wr
     | Run_pending sys \<Rightarrow> write_ok sys
         \<and> (pending c \<noteq> [] \<longrightarrow> hd (pending c) \<in> {F_startRead, F_stopRead} \<longrightarrow> active c)
     | Call_send inLoop sys d \<Rightarrow> write_ok sys
     | Call_startRead inLoop \<Rightarrow> if inLoop then active c else conn_state c \<noteq> kConnecting
     | Call_stopRead inLoop \<Rightarrow> if inLoop then active c else conn_state c \<noteq> kConnecting
     | Call_retrieve n \<Rightarrow> conn_state c \<noteq> kConnecting \<and> n \<le> length (content (inputBuffer c))
     | _ \<Rightarrow> True)"

lemma tcp_invD:
  assumes "tcp_inv fds ch c"
  shows "wf_buffer (inputBuffer c)" "wf_buffer (outputBuffer c)" "wire c @ content (outputBuffer c) = accepted c"
    "\<exists>r. events (chan c) = evw r (active c \<and> content (outputBuffer c) \<noteq> []) \<and> (r \<longrightarrow> active c)"
    "polled fds ch c" "active c \<Longrightarrow> addedToLoop (chan c)"
    "ups c = (case conn_state c of kConnecting \<Rightarrow> [] | kDisconnected \<Rightarrow> [True, False] | _ \<Rightarrow> [True])"
    "shut_ok (trace c)"
  using assms by (simp_all add: tcp_inv_def)

lemma tcp_writing:
  assumes "tcp_inv fds ch c"
  shows "isWriting (chan c) \<longleftrightarrow> active c \<and> content (outputBuffer c) \<noteq> []"
  using tcp_invD(4) [OF assms] by auto

lemma empty_content: "wf_buffer b \<Longrightarrow> content b = [] \<longleftrightarrow> readableBytes b = 0"
  by (metis length_content length_0_conv)

lemma queue_inv:
  assumes "tcp_inv fds ch c" "active c \<or> conn_state c = kDisconnected"
  shows "tcp_inv fds ch (queueInLoop f c)"
  by (rule tcp_inv_quiet [OF assms]) (use tcp_invD(1) [OF assms(1)] in \<open>simp_all add: history_defs\<close>)

text \<open>The last part of \<open>sendInLoop\<close>.\<close>

definition enqueue_rest :: "bytes \<Rightarrow> tcp_conn \<Rightarrow> tcp_conn option" where
  "enqueue_rest rest c =
     do { b \<leftarrow> append_buf rest (outputBuffer c);
          let c = c\<lparr>outputBuffer := b\<rparr>;
          Some (if \<not> isWriting (chan c) then chan_enableWriting c else c) }"

lemma sendInLoop_inv:
  assumes "tcp_inv fds ch c" "active c \<or> conn_state c = kDisconnected" "write_ok sys"
  shows "\<exists>c'. sendInLoop sys d c = Some c' \<and> tcp_inv fds ch c' \<and> conn_state c' = conn_state c"
proof (cases "conn_state c = kDisconnected")
  case True
  with assms(1) show ?thesis by (simp add: sendInLoop_def)
next
  case False
  then have act: "active c" using assms(2) by simp
  note inv = tcp_invD [OF assms(1)]
  obtain r where ev: "events (chan c) = evw r (content (outputBuffer c) \<noteq> [])" using inv(4) act by auto
  have wr: "isWriting (chan c) \<longleftrightarrow> content (outputBuffer c) \<noteq> []" using ev by simp
  have notcon: "conn_state c \<noteq> kConnecting" using act by (auto simp: active_def)
  \<comment> \<open>the tail of the function: \<open>c1\<close> after the direct write, \<open>rest\<close> still to be queued\<close>
  have tail: "\<exists>c'. enqueue_rest rest c2 = Some c'
      \<and> tcp_inv fds ch c' \<and> conn_state c' = conn_state c"
    if c2: "conn_state c2 = conn_state c" "chan c2 = chan c" "inputBuffer c2 = inputBuffer c"
      "outputBuffer c2 = outputBuffer c" "wire c2 @ content (outputBuffer c) @ rest = accepted c2"
      "ups c2 = ups c" "reqs ch c2 = reqs ch c" "shut_ok (trace c2)" and rest: "rest \<noteq> []" for c2 rest
  proof -
    obtain b where b: "append_buf rest (outputBuffer c) = Some b" "wf_buffer b" "content b = content (outputBuffer c) @ rest"
      using append_contract [OF inv(2)] .
    define c3 where "c3 = c2\<lparr>outputBuffer := b\<rparr>"
    have "reqs ch c3 = reqs ch c" using c2(7) by (simp add: c3_def reqs_def)
    then have p3: "polled fds ch c3"
      by (rule polled_same [OF inv(5)]) (simp_all add: c3_def c2)
    have h3: "wire c3 = wire c2" "accepted c3 = accepted c2" "ups c3 = ups c" "active c3" "addedToLoop (chan c3)"
      using c2 act inv(6) by (simp_all add: c3_def history_defs active_def)
    have "tcp_inv fds ch (if \<not> isWriting (chan c3) then chan_enableWriting c3 else c3)"
    proof (cases "isWriting (chan c)")
      case True
      then show ?thesis
        using inv b c2 h3 p3 rest ev act notcon wr
        by (auto simp: tcp_inv_def c3_def active_def)
    next
      case False
      have "polled fds ch (chan_enableWriting c3)"
        unfolding chan_op_defs by (rule polled_update [OF p3]) (simp add: h3)
      then show ?thesis
        using inv b c2 h3 rest ev act notcon wr False
        by (auto simp: tcp_inv_def c3_def active_def chan_op_defs)
    qed
    with b(1) c2(4) show ?thesis
      by (auto simp: enqueue_rest_def Let_def c3_def chan_op_defs c2(1))
  qed
  show ?thesis
  proof (cases "isWriting (chan c) \<or> readableBytes (outputBuffer c) \<noteq> 0")
    case True
    show ?thesis
    proof (cases "d = []")
      case True': True
      have "tcp_inv fds ch (emit (E_accept []) c)"
        by (rule tcp_inv_quiet [OF assms(1,2)]) (use inv(1) in simp_all)
      with True True' False show ?thesis by (auto simp: sendInLoop_def Let_def)
    next
      case ne: False
      have busy: "(\<not> isWriting (chan c) \<and> readableBytes (outputBuffer c) = 0) = False" using True by simp
      define c2 where "c2 = (if readableBytes (outputBuffer c) + length d \<ge> highWaterMark c
          \<and> readableBytes (outputBuffer c) < highWaterMark c \<and> highWaterMarkCb c
        then queueInLoop (F_highWaterMark (readableBytes (outputBuffer c) + length d)) (emit (E_accept d) c)
        else emit (E_accept d) c)"
      have "sendInLoop sys d c = enqueue_rest d c2"
        using False ne unfolding sendInLoop_def busy
        by (simp add: enqueue_rest_def Let_def c2_def cong: if_cong split del: if_split)
      moreover have "\<exists>c'. enqueue_rest d c2 = Some c' \<and> tcp_inv fds ch c' \<and> conn_state c' = conn_state c"
        by (rule tail) (use ne inv(3,8) in \<open>simp_all add: c2_def split del: if_split\<close>)
      ultimately show ?thesis by simp
    qed
  next
    case direct: False
    then have empty: "content (outputBuffer c) = []" using empty_content [OF inv(2)] by simp
    show ?thesis
    proof (cases "sys d")
      case (Inl err)
      show ?thesis
      proof (cases "err \<noteq> EWOULDBLOCK \<and> (err = EPIPE \<or> err = ECONNRESET)")
        case True
        with Inl direct False assms(1) show ?thesis by (simp add: sendInLoop_def Let_def)
      next
        case nofault: False
        show ?thesis
        proof (cases "d = []")
          case True
          have "tcp_inv fds ch (emit (E_accept []) c)"
            by (rule tcp_inv_quiet [OF assms(1,2)]) (use inv(1) in simp_all)
          with True Inl direct False nofault show ?thesis by (auto simp: sendInLoop_def Let_def)
        next
          case ne: False
          define c2 where "c2 = (if length d \<ge> highWaterMark c \<and> 0 < highWaterMark c \<and> highWaterMarkCb c
            then queueInLoop (F_highWaterMark (length d)) (emit (E_accept d) c) else emit (E_accept d) c)"
          have "sendInLoop sys d c = enqueue_rest d c2"
            using direct Inl nofault False ne
            by (simp add: sendInLoop_def enqueue_rest_def Let_def c2_def cong: if_cong split del: if_split)
          moreover have "\<exists>c'. enqueue_rest d c2 = Some c' \<and> tcp_inv fds ch c' \<and> conn_state c' = conn_state c"
            by (rule tail) (use ne inv(3,8) empty in \<open>simp_all add: c2_def split del: if_split\<close>)
          ultimately show ?thesis by simp
        qed
      qed
    next
      case (Inr n)
      then have n: "n \<le> length d" using assms(3) by (auto simp: write_ok_def)
      define c1 where "c1 = emit (E_wrote (take n d)) c"
      show ?thesis
      proof (cases "n = length d")
        case True
        define c2 where "c2 = emit (E_accept d) (if writeCompleteCb c then queueInLoop F_writeComplete c1 else c1)"
        have "sendInLoop sys d c = Some c2"
          using Inr True direct False by (simp add: sendInLoop_def Let_def c2_def c1_def)
        moreover have "tcp_inv fds ch c2"
          using inv empty True act notcon polled_same [OF inv(5), of c2]
          by (auto simp: tcp_inv_def c2_def c1_def active_def history_defs)
        ultimately show ?thesis by (auto simp: c2_def c1_def)
      next
        case less: False
        with n have rest: "drop n d \<noteq> []" "length d - n \<noteq> 0" "n < length d" by simp_all
        define c2 where "c2 = (if length d - n \<ge> highWaterMark c \<and> 0 < highWaterMark c \<and> highWaterMarkCb c
          then queueInLoop (F_highWaterMark (length d - n)) (emit (E_accept d) c1) else emit (E_accept d) c1)"
        have "sendInLoop sys d c = enqueue_rest (drop n d) c2"
          using direct Inr n rest False
          by (simp add: sendInLoop_def enqueue_rest_def Let_def c2_def c1_def cong: if_cong split del: if_split)
        moreover have "\<exists>c'. enqueue_rest (drop n d) c2 = Some c' \<and> tcp_inv fds ch c' \<and> conn_state c' = conn_state c"
          by (rule tail) (use rest inv(3,8) empty in \<open>simp_all add: c2_def c1_def split del: if_split\<close>)
        ultimately show ?thesis by simp
      qed
    qed
  qed
qed

lemma shutdown_legit:
  assumes "tcp_inv fds ch c" "active c \<or> conn_state c = kDisconnected" "\<not> isWriting (chan c)"
  shows "E_connection False \<in> set (trace c) \<or>
    concat (map wrote_of (trace c)) = concat (map accept_of (trace c))"
proof (cases "active c")
  case True
  then have "content (outputBuffer c) = []" using tcp_writing [OF assms(1)] assms(3) by simp
  then show ?thesis using tcp_invD(3) [OF assms(1)] by (simp add: wire_def accepted_def)
next
  case False
  then show ?thesis using tcp_invD(7) [OF assms(1)] assms(2) ups_down [of c] by simp
qed

lemma shutdownInLoop_inv:
  assumes "tcp_inv fds ch c" "active c \<or> conn_state c = kDisconnected"
  shows "tcp_inv fds ch (shutdownInLoop c)"
proof (cases "isWriting (chan c)")
  case True
  with assms(1) show ?thesis by (simp add: shutdownInLoop_def)
next
  case False
  have "tcp_inv fds ch (emit E_shutdownWrite c)"
    by (rule tcp_inv_quiet [OF assms])
      (use tcp_invD(1) [OF assms(1)] shutdown_legit [OF assms False] in simp_all)
  with False show ?thesis by (simp add: shutdownInLoop_def)
qed

lemma setState_inv:
  assumes "tcp_inv fds ch c" "active c"
  shows "tcp_inv fds ch (setState kDisconnecting c)"
  using assms polled_same [of fds ch c "setState kDisconnecting c"]
  by (auto simp: tcp_inv_def setState_def active_def history_defs)

lemma handleClose_inv:
  assumes "tcp_inv fds ch c" "active c"
  shows "\<exists>c'. handleClose c = Some c' \<and> tcp_inv fds ch c' \<and> conn_state c' = kDisconnected
     \<and> outputBuffer c' = outputBuffer c \<and> events (chan c') = 0 \<and> pending c' = pending c"
proof -
  define c1 where "c1 = chan_disableAll (setState kDisconnected c)"
  note inv = tcp_invD [OF assms(1)]
  have "polled fds ch (setState kDisconnected c)"
    by (rule polled_same [OF inv(5)]) (simp_all add: setState_def history_defs)
  then have "polled fds ch c1"
    unfolding c1_def chan_op_defs
    by (rule polled_update) (use inv(6) assms(2) in \<open>simp add: setState_def\<close>)
  moreover have f: "conn_state c1 = kDisconnected" "events (chan c1) = 0" "outputBuffer c1 = outputBuffer c"
    "inputBuffer c1 = inputBuffer c" "wire c1 = wire c" "accepted c1 = accepted c" "ups c1 = ups c" "pending c1 = pending c"
    "trace c1 = trace c @ [E_update kNoneEvent]"
    by (simp_all add: c1_def chan_op_defs setState_def kNoneEvent_def history_defs chan_events_def emit_def)
  moreover have "ups c = [True]" using inv(7) assms(2) by (auto simp: active_def)
  moreover have "polled fds ch (emit E_close (emit (E_connection False) c1))"
    by (rule polled_same [OF calculation(1)]) simp_all
  ultimately have "tcp_inv fds ch (emit E_close (emit (E_connection False) c1))"
    using inv by (auto simp: tcp_inv_def active_def)
  with f show ?thesis
    using assms(2) by (simp add: handleClose_def active_def flip: c1_def)
qed

lemma handleRead_inv:
  assumes "tcp_inv fds ch c" "active c" "readv_ok rd"
  shows "\<exists>c'. handleRead rd t c = Some c' \<and> tcp_inv fds ch c' \<and> (active c' \<or> conn_state c' = kDisconnected)"
proof -
  note inv = tcp_invD [OF assms(1)]
  obtain n err b where rf: "readFd rd (inputBuffer c) = Some (n, err, b)" "wf_buffer b"
    using readFd_total [OF inv(1) assms(3)] by blast
  define c1 where "c1 = c\<lparr>inputBuffer := b\<rparr>"
  have inv1: "tcp_inv fds ch c1" "active c1"
    using assms(2) by (auto intro!: tcp_inv_quiet [OF assms(1)] simp: c1_def rf(2) history_defs active_def)
  have "tcp_inv fds ch (emit (E_message t) c1)"
    by (rule tcp_inv_quiet [OF inv1(1)]) (use inv1(2) tcp_invD(1) [OF inv1(1)] in simp_all)
  then show ?thesis
    using rf(1) inv1 handleClose_inv [OF inv1]
    by (auto simp: handleRead_def c1_def [symmetric] Let_def) (simp_all add: active_def)
qed

lemma handleWrite_inv:
  assumes "tcp_inv fds ch c" "active c \<or> conn_state c = kDisconnected" "write_ok sys"
  shows "\<exists>c'. handleWrite sys c = Some c' \<and> tcp_inv fds ch c' \<and> conn_state c' = conn_state c"
proof (cases "isWriting (chan c)")
  case False
  with assms(1) show ?thesis by (simp add: handleWrite_def)
next
  case True
  note inv = tcp_invD [OF assms(1)]
  define out where "out = content (outputBuffer c)"
  have act: "active c" and ne: "out \<noteq> []" using tcp_writing [OF assms(1)] True by (simp_all add: out_def)
  obtain r where ev: "events (chan c) = evw r True" using inv(4) act ne by (auto simp: out_def)
  have arg: "bytes_between (peek (outputBuffer c)) (peek (outputBuffer c) + readableBytes (outputBuffer c)) (outputBuffer c) = out"
    using content_peek_take [OF inv(2), of "readableBytes (outputBuffer c)"] length_content [OF inv(2)]
    by (simp add: out_def)
  show ?thesis
  proof (cases "sys out")
    case (Inl err)
    with True assms(1) show ?thesis by (simp add: handleWrite_def arg)
  next
    case (Inr n)
    show ?thesis
    proof (cases "n > 0")
      case False
      with True Inr assms(1) show ?thesis by (simp add: handleWrite_def arg)
    next
      case pos: True
      have n: "n \<le> length out" using assms(3) Inr by (auto simp: write_ok_def)
      then obtain b where b: "retrieve n (outputBuffer c) = Some b"
        using retrieve_contract(1) [OF inv(2), of n] by (auto simp: out_def)
      then have wb: "wf_buffer b" "content b = drop n out" using retrieve_contract(2) [OF inv(2)] by (simp_all add: out_def)
      define c1 where "c1 = emit (E_wrote (take n out)) (c\<lparr>outputBuffer := b\<rparr>)"
      have h1: "wire c1 = wire c @ take n out" "accepted c1 = accepted c" "ups c1 = ups c" "reqs ch c1 = reqs ch c"
        "conn_state c1 = conn_state c" "chan c1 = chan c" "outputBuffer c1 = b" "inputBuffer c1 = inputBuffer c"
        "trace c1 = trace c @ [E_wrote (take n out)]"
        by (simp_all add: c1_def history_defs)
      have p1: "polled fds ch c1" by (rule polled_same [OF inv(5)]) (simp_all add: h1)
      have str: "wire c @ take n out @ drop n out = accepted c" using inv(3) by (simp add: out_def)
      have notcon: "conn_state c \<noteq> kConnecting" using act by (auto simp: active_def)
      show ?thesis
      proof (cases "readableBytes b = 0")
        case drained: True
        then have empty: "drop n out = []" using empty_content [OF wb(1)] wb(2) by simp
        define c2 where "c2 = chan_disableWriting c1"
        have "polled fds ch c2"
          unfolding c2_def chan_op_defs by (rule polled_update [OF p1]) (use inv(6) act in \<open>simp add: h1\<close>)
        then have inv2: "tcp_inv fds ch c2"
          using inv str wb empty act notcon h1 ev
          by (auto simp: tcp_inv_def c2_def chan_op_defs active_def)
        define c3 where "c3 = (if writeCompleteCb c2 then queueInLoop F_writeComplete c2 else c2)"
        have a2: "active c2" "conn_state c2 = conn_state c" using act by (simp_all add: c2_def chan_op_defs h1 active_def)
        then have inv3: "tcp_inv fds ch c3" "conn_state c3 = conn_state c" "active c3"
          using inv2 queue_inv [OF inv2] by (auto simp: c3_def active_def)
        have "handleWrite sys c = Some (if conn_state c3 = kDisconnecting then shutdownInLoop c3 else c3)"
          using True Inr pos b drained
          by (simp add: handleWrite_def arg c1_def [symmetric] c2_def [symmetric] Let_def a2(2) inv3(2))
            (simp add: c3_def)
        with inv3 shutdownInLoop_inv [OF inv3(1)] show ?thesis
          by (auto simp: shutdownInLoop_def)
      next
        case more: False
        then have "drop n out \<noteq> []" using empty_content [OF wb(1)] wb(2) by simp
        then have "tcp_inv fds ch c1"
          using inv str wb act notcon h1 p1 ev ne by (auto simp: tcp_inv_def active_def out_def)
        moreover have "handleWrite sys c = Some c1"
          using True Inr pos b more by (simp add: handleWrite_def arg c1_def [symmetric] Let_def)
        ultimately show ?thesis by (simp add: h1)
      qed
    qed
  qed
qed

lemma run_callback_inv:
  assumes "tcp_inv fds ch c" "readv_ok rd" "write_ok wr"
    and "x = CloseCallback \<or> x = ReadCallback t \<Longrightarrow> active c"
    and "active c \<or> conn_state c = kDisconnected" and "x \<noteq> ErrorCallback" "\<And>u. x = ReadCallback u \<Longrightarrow> u = t"
  shows "\<exists>c'. run_callback rd wr x c = Some c' \<and> tcp_inv fds ch c' \<and> (active c' \<or> conn_state c' = kDisconnected)"
proof (cases x)
  case CloseCallback
  then show ?thesis using handleClose_inv [OF assms(1)] assms(4) by auto
next
  case (ReadCallback u)
  then show ?thesis using handleRead_inv [OF assms(1) _ assms(2)] assms(4,7) by auto
next
  case WriteCallback
  then obtain c' where "run_callback rd wr x c = Some c'" "tcp_inv fds ch c'" "conn_state c' = conn_state c"
    using handleWrite_inv [OF assms(1,5,3)] by auto
  then show ?thesis using assms(5) by (simp add: active_def)
qed (use assms(6) in simp)

lemma run_callbacks_append:
  "run_callbacks rd wr (xs @ ys) c = do { c \<leftarrow> run_callbacks rd wr xs c; run_callbacks rd wr ys c }"
  by (induction xs arbitrary: c) (auto split: Option.bind_splits)

lemma dispatch_inv:
  assumes "tcp_inv fds ch c" "readv_ok rd" "write_ok wr" "io_ok (chan c) re"
  shows "\<exists>c'. dispatch re rd wr t c = Some c' \<and> tcp_inv fds ch c' \<and> (active c' \<or> conn_state c' = kDisconnected)"
proof -
  define c1 where "c1 = c\<lparr>chan := set_revents re (chan c)\<rparr>"
  have act: "active c" using tcp_invD(4) [OF assms(1)] assms(4) by (auto simp: io_ok_def)
  have inv1: "tcp_inv fds ch c1" "active c1"
    using act tcp_invD(1) [OF assms(1)]
    by (auto intro!: tcp_inv_quiet [OF assms(1)] simp: c1_def set_revents_def active_def history_defs)
  note start = inv1(1) assms(2,3)
  have clash: "\<not> (re AND POLLHUP \<noteq> 0 \<and> re AND POLLIN = 0 \<and> re AND (POLLIN OR POLLPRI OR POLLRDHUP) \<noteq> 0)"
    using assms(4) by (auto simp: io_ok_def bit.conj_disj_distrib)
  have err: "run_callbacks rd wr (if P then [ErrorCallback] else []) s = Some s" for P s
    by (simp add: handleError_def)
  have fin: "\<exists>c'. run_callbacks rd wr (if P then [WriteCallback] else []) s = Some c' \<and> tcp_inv fds ch c'
      \<and> (active c' \<or> conn_state c' = kDisconnected)"
    if "tcp_inv fds ch s" "active s \<or> conn_state s = kDisconnected" for P s
    using that run_callback_inv [OF that(1) assms(2,3) _ that(2), of WriteCallback t]
    by (cases P) auto
  have mid: "\<exists>c'. run_callbacks rd wr xs c1 = Some c' \<and> tcp_inv fds ch c'
      \<and> (active c' \<or> conn_state c' = kDisconnected)" if "xs \<in> {[], [CloseCallback], [ReadCallback t]}" for xs
  proof -
    have "\<exists>c'. run_callback rd wr x c1 = Some c' \<and> tcp_inv fds ch c' \<and> (active c' \<or> conn_state c' = kDisconnected)"
      if "x = CloseCallback \<or> x = ReadCallback t" for x
      by (rule run_callback_inv [OF start, of _ t]) (use that inv1(2) in auto)
    then have one: "\<exists>c'. run_callbacks rd wr [x] c1 = Some c' \<and> tcp_inv fds ch c' \<and> (active c' \<or> conn_state c' = kDisconnected)"
      if "x = CloseCallback \<or> x = ReadCallback t" for x
      using that by (metis run_callbacks.simps Option.bind_runit bind.bind_lunit)
    from that consider "xs = []" | "xs = [CloseCallback]" | "xs = [ReadCallback t]" by blast
    then show ?thesis
    proof cases
      case 1
      then show ?thesis using inv1 by simp
    next
      case 2
      show ?thesis unfolding 2 by (rule one) simp
    next
      case 3
      show ?thesis unfolding 3 by (rule one) simp
    qed
  qed
  define xs ys ws es where "xs = (if (re AND POLLHUP \<noteq> 0 \<and> re AND POLLIN = 0) \<and> closeCallback (chan c) then [CloseCallback] else [])"
    and "ys = (if re AND (POLLIN OR POLLPRI OR POLLRDHUP) \<noteq> 0 \<and> readCallback (chan c) then [ReadCallback t] else [])"
    and "ws = (if re AND POLLOUT \<noteq> 0 \<and> writeCallback (chan c) then [WriteCallback] else [])"
    and "es = (if re AND (POLLERR OR POLLNVAL) \<noteq> 0 \<and> errorCallback (chan c) then [ErrorCallback] else [])"
  have nest: "(if P then (if Q then v else []) else []) = (if P \<and> Q then v else [])" for P Q and v :: "callback list" by simp
  have split: "handleEvent (\<lambda>_. True) t (chan c1) = xs @ es @ ys @ ws"
    unfolding handleEvent_def handleEventWithGuard_def nest xs_def ys_def ws_def es_def c1_def set_revents_def by simp
  have "xs = [] \<or> ys = []" "xs = [] \<or> xs = [CloseCallback]" "ys = [] \<or> ys = [ReadCallback t]"
    using clash unfolding xs_def ys_def by presburger+
  then have "xs @ ys \<in> {[], [CloseCallback], [ReadCallback t]}" by auto
  then obtain c2 where c2: "run_callbacks rd wr (xs @ ys) c1 = Some c2" "tcp_inv fds ch c2"
    "active c2 \<or> conn_state c2 = kDisconnected"
    using mid by blast
  have "run_callbacks rd wr es s = Some s" for s unfolding es_def by (rule err)
  then have "dispatch re rd wr t c = run_callbacks rd wr ws c2"
    using c2(1) unfolding dispatch_def Let_def c1_def [symmetric] split
    by (auto simp: run_callbacks_append)
  with fin [OF c2(2,3)] show ?thesis unfolding ws_def by presburger
qed

lemma queued_inv:
  "tcp_inv fds ch c \<Longrightarrow> active c \<or> conn_state c = kDisconnected \<Longrightarrow> tcp_inv fds ch (c\<lparr>pending := fs\<rparr>)"
  by (rule tcp_inv_quiet) (simp_all add: tcp_inv_def history_defs)

lemma reading_inv:
  assumes "tcp_inv fds ch c" "active c" "f = (\<lambda>e. e OR kReadEvent) \<or> f = (\<lambda>e. e AND NOT kReadEvent)"
  shows "tcp_inv fds ch ((chan_events f c)\<lparr>reading := r\<rparr>)"
proof -
  note inv = tcp_invD [OF assms(1)]
  have "polled fds ch (chan_events f c)" by (rule polled_update [OF inv(5)]) (use inv(6) assms(2) in simp)
  then have "polled fds ch ((chan_events f c)\<lparr>reading := r\<rparr>)" by (rule polled_same) (simp_all add: history_defs)
  moreover have "wire ((chan_events f c)\<lparr>reading := r\<rparr>) = wire c" "accepted ((chan_events f c)\<lparr>reading := r\<rparr>) = accepted c"
    "ups ((chan_events f c)\<lparr>reading := r\<rparr>) = ups c"
    by (simp_all add: history_defs)
  ultimately show ?thesis
    using inv assms(2,3) by (auto simp: tcp_inv_def active_def)
qed

lemma connectEstablished_inv:
  assumes "tcp_inv fds ch c" "conn_state c = kConnecting"
  shows "\<exists>c'. connectEstablished c = Some c' \<and> tcp_inv fds ch c' \<and> conn_state c' = kConnected"
proof -
  note inv = tcp_invD [OF assms(1)]
  have fresh: "trace c = []" "pending c = []" "\<not> addedToLoop (chan c)" "content (outputBuffer c) = []"
    using assms by (simp_all add: tcp_inv_def)
  have ev: "events (chan c) = evw False False" using inv(4) assms(2) by (auto simp: active_def)
  define c1 where "c1 = (setState kConnected c)\<lparr>chan := channel_tie 0 (chan (setState kConnected c))\<rparr>"
  have c1: "conn_state c1 = kConnected" "events (chan c1) = evw False False" "trace c1 = []"
    "inputBuffer c1 = inputBuffer c" "outputBuffer c1 = outputBuffer c" "reqs ch c1 = reqs ch c"
    "addedToLoop (chan c1) = addedToLoop (chan c)"
    using fresh ev by (simp_all add: c1_def setState_def channel_tie_def history_defs)
  have "polled fds ch c1" by (rule polled_same [OF inv(5)]) (use c1 ev in simp_all)
  then have "polled fds ch (chan_enableReading c1)"
    unfolding chan_op_defs by (rule polled_update) (use c1 in \<open>simp add: kReadEvent_def POLLIN_def POLLPRI_def\<close>)
  then have "polled fds ch (emit (E_connection True) (chan_enableReading c1))"
    by (rule polled_same) simp_all
  moreover have "wire c1 = []" "accepted c1 = []" "ups c1 = []" using c1(3) by (simp_all add: history_defs)
  moreover have "\<exists>r. kReadEvent = evw r False" by (rule exI [of _ True]) (simp add: evw_def)
  ultimately have "tcp_inv fds ch (emit (E_connection True) (chan_enableReading c1))"
    using c1 inv fresh by (auto simp: tcp_inv_def active_def chan_op_defs)
  then show ?thesis
    using assms(2) c1(1) by (simp add: connectEstablished_def Let_def c1_def [symmetric] chan_op_defs)
qed

lemma connectDestroyed_inv:
  assumes "tcp_inv fds ch c" "addedToLoop (chan c)" "conn_state c = kConnected \<or> conn_state c = kDisconnected"
  shows "\<exists>c'. connectDestroyed c = Some c' \<and> tcp_inv fds ch c' \<and> conn_state c' = kDisconnected
     \<and> pending c' = pending c"
proof -
  define c1 where "c1 = (if conn_state c = kConnected
    then emit (E_connection False) (chan_disableAll (setState kDisconnected c)) else c)"
  have c1: "tcp_inv fds ch c1 \<and> conn_state c1 = kDisconnected \<and> addedToLoop (chan c1) \<and> events (chan c1) = 0
      \<and> pending c1 = pending c"
  proof (cases "conn_state c = kConnected")
    case True
    note inv = tcp_invD [OF assms(1)]
    define c2 where "c2 = chan_disableAll (setState kDisconnected c)"
    have "polled fds ch (setState kDisconnected c)"
      by (rule polled_same [OF inv(5)]) (simp_all add: setState_def history_defs)
    then have "polled fds ch c2"
      unfolding c2_def chan_op_defs by (rule polled_update) (use assms(2) in \<open>simp add: setState_def\<close>)
    then have "polled fds ch (emit (E_connection False) c2)" by (rule polled_same) simp_all
    moreover have "conn_state c2 = kDisconnected" "events (chan c2) = 0" "outputBuffer c2 = outputBuffer c"
      "inputBuffer c2 = inputBuffer c" "wire c2 = wire c" "accepted c2 = accepted c" "ups c2 = ups c" "pending c2 = pending c"
      "trace c2 = trace c @ [E_update kNoneEvent]" "addedToLoop (chan c2)"
      by (simp_all add: c2_def chan_op_defs setState_def kNoneEvent_def history_defs chan_events_def emit_def)
    ultimately show ?thesis
      using inv True by (auto simp: tcp_inv_def active_def c1_def c2_def [symmetric])
  next
    case False
    with assms tcp_invD(4) [OF assms(1)] show ?thesis by (auto simp: c1_def active_def)
  qed
  then obtain c2 where c2: "chan_remove c1 = Some c2" "polled fds ch c2"
    using polled_remove tcp_invD(5) by blast
  then have c2': "c2 = emit E_remove (c1\<lparr>chan := (chan c1)\<lparr>addedToLoop := False\<rparr>\<rparr>)"
    by (simp add: chan_remove_def assert_then_def split: if_splits)
  have h: "wire c2 = wire c1" "accepted c2 = accepted c1" "ups c2 = ups c1" "conn_state c2 = conn_state c1"
    "events (chan c2) = events (chan c1)" "outputBuffer c2 = outputBuffer c1" "inputBuffer c2 = inputBuffer c1"
    "trace c2 = trace c1 @ [E_remove]" "pending c2 = pending c1"
    by (simp_all add: c2' history_defs)
  have "tcp_inv fds ch c2" using c1 c2(2) h by (auto simp: tcp_inv_def active_def)
  then show ?thesis using c1 c2(1) h by (simp add: connectDestroyed_def c1_def [symmetric])
qed

lemma run_functor_inv:
  assumes "tcp_inv fds ch c" "active c \<or> conn_state c = kDisconnected" "write_ok sys"
    and "f \<in> {F_startRead, F_stopRead} \<longrightarrow> active c"
  shows "\<exists>c'. run_functor sys f c = Some c' \<and> tcp_inv fds ch c'"
proof (cases f)
  case (F_send d)
  then show ?thesis using sendInLoop_inv [OF assms(1,2,3)] by fastforce
next
  case F_shutdown
  then show ?thesis using shutdownInLoop_inv [OF assms(1,2)] by simp
next
  case F_forceClose
  then show ?thesis
    using handleClose_inv [OF assms(1)] assms(1) by (auto simp: forceCloseInLoop_def active_def)
next
  case F_startRead
  then show ?thesis
    using reading_inv [OF assms(1), of "\<lambda>e. e OR kReadEvent" True] assms(1,4)
    by (simp add: startReadInLoop_def chan_op_defs)
next
  case F_stopRead
  then show ?thesis
    using reading_inv [OF assms(1), of "\<lambda>e. e AND NOT kReadEvent" False] assms(1,4)
    by (simp add: stopReadInLoop_def chan_op_defs)
next
  case F_writeComplete
  have "tcp_inv fds ch (emit E_writeComplete c)"
    by (rule tcp_inv_quiet [OF assms(1,2)]) (use tcp_invD(1) [OF assms(1)] in simp_all)
  then show ?thesis using F_writeComplete by simp
next
  case (F_highWaterMark n)
  have "tcp_inv fds ch (emit (E_highWaterMark n) c)"
    by (rule tcp_inv_quiet [OF assms(1,2)]) (use tcp_invD(1) [OF assms(1)] in simp_all)
  then show ?thesis using F_highWaterMark by simp
qed

lemma tcp_step_inv:
  assumes "tcp_inv fds ch c" "legal e c"
  shows "\<exists>c'. tcp_step e c = Some c' \<and> tcp_inv fds ch c'"
proof (cases "conn_state c = kConnecting")
  case True
  then have "pending c = []" "\<not> active c" "events (chan c) = 0"
    using assms(1) by (auto simp: tcp_inv_def active_def)
  with True assms connectEstablished_inv [OF assms(1) True] show ?thesis
    by (cases e)
      (auto simp: legal_def io_ok_def send_def shutdown_def forceClose_def forceCloseWithDelay_def split: if_splits)
next
  case False
  then have live: "active c \<or> conn_state c = kDisconnected" by (cases "conn_state c") (simp_all add: active_def)
  note quiet = queue_inv [OF assms(1) live]
  show ?thesis
  proof (cases e)
    case Establish
    with False assms(2) show ?thesis by (simp add: legal_def)
  next
    case Destroy
    with assms connectDestroyed_inv [OF assms(1)] show ?thesis by (auto simp: legal_def)
  next
    case (Io re rd wr t)
    with assms(2) dispatch_inv [OF assms(1), of rd wr re t] show ?thesis by (auto simp: legal_def)
  next
    case (Run_pending sys)
    show ?thesis
    proof (cases "pending c")
      case Nil
      then show ?thesis using Run_pending assms(1) by simp
    next
      case (Cons f fs)
      have "\<exists>c'. run_functor sys f (c\<lparr>pending := fs\<rparr>) = Some c' \<and> tcp_inv fds ch c'"
        by (rule run_functor_inv [OF queued_inv [OF assms(1) live]])
          (use live assms(2) Cons Run_pending in \<open>auto simp: legal_def active_def\<close>)
      then show ?thesis using Run_pending Cons by simp
    qed
  next
    case (Call_send inLoop sys d)
    with assms(1,2) quiet sendInLoop_inv [OF assms(1) live, of sys d] show ?thesis
      by (auto simp: legal_def send_def)
  next
    case (Call_shutdown inLoop)
    have "tcp_inv fds ch (shutdown inLoop c)"
    proof (cases "conn_state c = kConnected")
      case True
      then have "active c" by (simp add: active_def)
      note s = setState_inv [OF assms(1) this]
      have "active (setState kDisconnecting c)" by (simp add: setState_def active_def)
      with s show ?thesis using True shutdownInLoop_inv [OF s] queue_inv [OF s] by (simp add: shutdown_def Let_def)
    next
      case False
      with assms(1) show ?thesis by (simp add: shutdown_def)
    qed
    with Call_shutdown show ?thesis by simp
  next
    case Call_forceClose
    have "active c \<Longrightarrow> tcp_inv fds ch (queueInLoop F_forceClose (setState kDisconnecting c))"
      by (rule queue_inv [OF setState_inv [OF assms(1)]]) (simp_all add: setState_def active_def)
    with assms(1) have "tcp_inv fds ch (forceClose c)" by (simp add: forceClose_def active_def)
    with Call_forceClose show ?thesis by simp
  next
    case (Call_forceCloseWithDelay us)
    have "tcp_inv fds ch (emit (E_runAfter us) (setState kDisconnecting c))" if "active c"
      by (rule tcp_inv_quiet [OF setState_inv [OF assms(1) that]])
        (use tcp_invD(1) [OF assms(1)] in \<open>simp_all add: setState_def active_def history_defs\<close>)
    with assms(1) have "tcp_inv fds ch (forceCloseWithDelay us c)" by (simp add: forceCloseWithDelay_def active_def)
    with Call_forceCloseWithDelay show ?thesis by simp
  next
    case (Call_startRead inLoop)
    then show ?thesis
      using reading_inv [OF assms(1), of "\<lambda>e. e OR kReadEvent" True] quiet assms
      by (auto simp: startRead_def startReadInLoop_def chan_op_defs legal_def)
  next
    case (Call_stopRead inLoop)
    then show ?thesis
      using reading_inv [OF assms(1), of "\<lambda>e. e AND NOT kReadEvent" False] quiet assms
      by (auto simp: stopRead_def stopReadInLoop_def chan_op_defs legal_def)
  next
    case (Call_retrieve n)
    with assms(2) obtain b where b: "retrieve n (inputBuffer c) = Some b"
      using retrieve_contract(1) [OF tcp_invD(1) [OF assms(1)], of n] by (auto simp: legal_def)
    then have "wf_buffer b" using retrieve_contract(2) [OF tcp_invD(1) [OF assms(1)]] by simp
    then have "tcp_inv fds ch (c\<lparr>inputBuffer := b\<rparr>)"
      by (intro tcp_inv_quiet [OF assms(1) live]) (simp_all add: history_defs)
    with b Call_retrieve show ?thesis by simp
  qed
qed

inductive tcp_reach :: "fd \<Rightarrow> tcp_conn \<Rightarrow> bool" for sockfd where
  Born: "tcp_reach sockfd (mk_tcp_conn sockfd)"
| Config_write: "tcp_reach sockfd c \<Longrightarrow> tcp_reach sockfd (setWriteCompleteCallback c)"
| Config_mark: "tcp_reach sockfd c \<Longrightarrow> tcp_reach sockfd (setHighWaterMarkCallback n c)"
| Step: "tcp_reach sockfd c \<Longrightarrow> legal e c \<Longrightarrow> tcp_step e c = Some c' \<Longrightarrow> tcp_reach sockfd c'"

inductive_cases tcp_reachE: "tcp_reach sockfd c"

lemma tcp_reach_inv: "tcp_reach sockfd c \<Longrightarrow> tcp_inv fds ch c"
proof (induction rule: tcp_reach.induct)
  case (Config_write c)
  then show ?case
    by (simp add: tcp_inv_def polled_def setWriteCompleteCallback_def active_def history_defs cong: if_cong split del: if_split)
next
  case (Config_mark c n)
  then show ?case
    by (simp add: tcp_inv_def polled_def setHighWaterMarkCallback_def active_def history_defs cong: if_cong split del: if_split)
next
  case (Step c e c')
  then show ?case using tcp_step_inv [OF Step.IH Step.hyps(2)] by simp
qed (rule tcp_inv_start)

subsection \<open>What a connection promises\<close>



text \<open>C1: No byte is lost, duplicated or reordered on its way out: the bytes the kernel has taken,
  followed by those waiting in the output buffer, are at every moment exactly the bytes of the
  messages accepted so far; and the connection watches for writability exactly while it is up and
  has bytes waiting.\<close>

theorem tcp_stream:
  assumes "tcp_reach sockfd c"
  shows "wire c @ content (outputBuffer c) = accepted c
    \<and> (isWriting (chan c) \<longleftrightarrow> conn_state c \<in> {kConnected, kDisconnecting} \<and> content (outputBuffer c) \<noteq> [])"
  using tcp_invD(3) tcp_writing tcp_reach_inv [OF assms, of "\<lambda>_. 0" 0] by (auto simp: active_def)

lemma established:
  "connectEstablished (mk_tcp_conn 5) = Some c \<Longrightarrow> tcp_reach 5 c"
  by (rule tcp_reach.Step [OF tcp_reach.Born, of Establish]) (simp_all add: legal_def mk_tcp_conn_def)

theorem tcp_stream_witness:
  "\<exists>c. connectEstablished (mk_tcp_conn 5) = Some c \<and> wire c @ content (outputBuffer c) = accepted c"
proof -
  obtain c where c: "connectEstablished (mk_tcp_conn 5) = Some c"
    by (simp add: connectEstablished_def mk_tcp_conn_def setState_def)
  from tcp_stream [OF established [OF this]] c show ?thesis by blast
qed

text \<open>C8: The writing side is shut down only when nothing is left to write: at each \<open>shutdown(2)\<close> on a
  connection that is not down yet, every accepted byte had been handed to the kernel before.\<close>

theorem tcp_shutdown_flushes:
  assumes "tcp_reach sockfd c" "k < length (trace c)" "trace c ! k = E_shutdownWrite"
    and "E_connection False \<notin> set (take k (trace c))"
  shows "concat (map wrote_of (take k (trace c))) = concat (map accept_of (take k (trace c)))"
  using tcp_invD(8) [OF tcp_reach_inv [OF assms(1), of "\<lambda>_. 0" 0]] assms(2-4) by (auto simp: shut_ok_def)

theorem tcp_shutdown_flushes_witness:
  "\<exists>c. connectEstablished (mk_tcp_conn 5) = Some c
     \<and> concat (map wrote_of (take 2 (trace (shutdown True c)))) = concat (map accept_of (take 2 (trace (shutdown True c))))"
proof -
  obtain c where c: "connectEstablished (mk_tcp_conn 5) = Some c"
    by (simp add: connectEstablished_def mk_tcp_conn_def setState_def)
  have r: "tcp_reach 5 (shutdown True c)"
    by (rule tcp_reach.Step [OF established [OF c], of "Call_shutdown True"]) (simp_all add: legal_def)
  have t: "trace (shutdown True c) = [E_update kReadEvent, E_connection True, E_shutdownWrite]"
    using c by (auto simp: connectEstablished_def mk_tcp_conn_def setState_def shutdown_def shutdownInLoop_def
        chan_op_defs chan_events_def emit_def channel_tie_def isWriting_def mk_channel_def const_defs
        setErrorCallback_def setCloseCallback_def setWriteCallback_def setReadCallback_def
        kReadEvent_def kWriteEvent_def POLLIN_def POLLPRI_def POLLOUT_def)
  show ?thesis
    using c tcp_shutdown_flushes [OF r, of 2] by (simp add: t numeral_2_eq_2)
qed

lemma enqueue_rest_effect:
  assumes "wf_buffer (outputBuffer c)"
  shows "\<exists>c'. enqueue_rest rest c = Some c' \<and> content (outputBuffer c') = content (outputBuffer c) @ rest
     \<and> accepted c' = accepted c \<and> wire c' = wire c \<and> pending c' = pending c"
proof -
  obtain b where b: "append_buf rest (outputBuffer c) = Some b" "content b = content (outputBuffer c) @ rest"
    using append_contract [OF assms] .
  then show ?thesis by (auto simp: enqueue_rest_def Let_def chan_op_defs history_defs chan_events_def emit_def)
qed

lemma sendInLoop_effect:
  assumes "tcp_inv fds ch c" "active c" "write_ok sys"
  defines "old \<equiv> content (outputBuffer c)"
  shows "\<exists>c'. sendInLoop sys d c = Some c' \<and>
    (if old = [] \<and> (sys d = Inl EPIPE \<or> sys d = Inl ECONNRESET) then c' = c
     else let n = (if old = [] then (case sys d of Inr n \<Rightarrow> n | Inl _ \<Rightarrow> 0) else 0)
       in accepted c' = accepted c @ d \<and> wire c' = wire c @ take n d
        \<and> content (outputBuffer c') = old @ drop n d
        \<and> pending c' = pending c
           @ (if old = [] \<and> sys d = Inr (length d) \<and> writeCompleteCb c then [F_writeComplete] else [])
           @ (if n < length d \<and> length old < highWaterMark c \<and> highWaterMark c \<le> length old + (length d - n)
                \<and> highWaterMarkCb c then [F_highWaterMark (length old + (length d - n))] else []))"
proof -
  note inv = tcp_invD [OF assms(1)]
  have wr: "isWriting (chan c) \<longleftrightarrow> old \<noteq> []" using tcp_writing [OF assms(1)] assms(2) by (simp add: old_def)
  have len: "readableBytes (outputBuffer c) = length old" using inv(2) by (simp add: old_def)
  have st: "conn_state c \<noteq> kDisconnected" using assms(2) by (auto simp: active_def)
  note rest = enqueue_rest_effect [unfolded enqueue_rest_def]
  have plan: "sendInLoop sys d c = do {
      (n, fault) \<leftarrow> Some (if old = [] then (case sys d of Inr n \<Rightarrow> (n, False) | Inl err \<Rightarrow> (0, err = EPIPE \<or> err = ECONNRESET)) else (0, False));
      let c = (if old = [] then (case sys d of Inr n \<Rightarrow>
                 let c = emit (E_wrote (take n d)) c in if n = length d \<and> writeCompleteCb c then queueInLoop F_writeComplete c else c
               | Inl err \<Rightarrow> c) else c);
      let c = (if fault then c else emit (E_accept d) c);
      if \<not> fault \<and> n < length d
      then enqueue_rest (drop n d) (if length old + (length d - n) \<ge> highWaterMark c \<and> length old < highWaterMark c \<and> highWaterMarkCb c
             then queueInLoop (F_highWaterMark (length old + (length d - n))) c else c)
      else Some c }"
  proof (cases "old = []")
    case True
    show ?thesis
    proof (cases "sys d")
      case (Inl e)
      with True st wr len show ?thesis
        by (cases "e = EPIPE \<or> e = ECONNRESET")
          (auto simp: sendInLoop_def enqueue_rest_def Let_def EWOULDBLOCK_def EPIPE_def ECONNRESET_def)
    next
      case (Inr n)
      then have "n \<le> length d" using assms(3) by (auto simp: write_ok_def)
      with Inr True st wr len show ?thesis
        by (cases "n = length d") (auto simp: sendInLoop_def enqueue_rest_def Let_def)
    qed
  next
    case False
    with st wr len show ?thesis by (auto simp: sendInLoop_def enqueue_rest_def Let_def)
  qed
  define n where "n = (if old = [] then (case sys d of Inr n \<Rightarrow> n | Inl _ \<Rightarrow> 0) else 0)"
  show ?thesis
  proof (cases "old = [] \<and> (sys d = Inl EPIPE \<or> sys d = Inl ECONNRESET)")
    case True
    with plan show ?thesis by auto
  next
    case False
    define c1 where "c1 = emit (E_accept d) (if old = [] then (case sys d of Inr n \<Rightarrow>
                 let c = emit (E_wrote (take n d)) c in if n = length d \<and> writeCompleteCb c then queueInLoop F_writeComplete c else c
               | Inl err \<Rightarrow> c) else c)"
    have c1: "accepted c1 = accepted c @ d" "wire c1 = wire c @ take n d" "outputBuffer c1 = outputBuffer c"
      "highWaterMark c1 = highWaterMark c" "highWaterMarkCb c1 = highWaterMarkCb c"
      "pending c1 = pending c @ (if old = [] \<and> sys d = Inr (length d) \<and> writeCompleteCb c then [F_writeComplete] else [])"
      by (auto simp: c1_def n_def Let_def history_defs split: sum.splits)
    have step: "sendInLoop sys d c = (if n < length d
      then enqueue_rest (drop n d) (if length old + (length d - n) \<ge> highWaterMark c1 \<and> length old < highWaterMark c1 \<and> highWaterMarkCb c1
             then queueInLoop (F_highWaterMark (length old + (length d - n))) c1 else c1)
      else Some c1)"
      unfolding plan using False
      by (cases "old = []"; cases "sys d") (auto simp: n_def c1_def Let_def)
    show ?thesis
    proof (cases "n < length d")
      case True
      define c2 where "c2 = (if length old + (length d - n) \<ge> highWaterMark c1 \<and> length old < highWaterMark c1 \<and> highWaterMarkCb c1
             then queueInLoop (F_highWaterMark (length old + (length d - n))) c1 else c1)"
      have c2: "accepted c2 = accepted c1" "wire c2 = wire c1" "outputBuffer c2 = outputBuffer c1"
        "pending c2 = pending c1 @ (if length old < highWaterMark c \<and> highWaterMark c \<le> length old + (length d - n)
                \<and> highWaterMarkCb c then [F_highWaterMark (length old + (length d - n))] else [])"
        by (auto simp: c2_def history_defs c1)
      have "wf_buffer (outputBuffer c2)" using inv(2) by (simp add: c1 c2)
      from enqueue_rest_effect [OF this, of "drop n d"] obtain c' where c':
        "enqueue_rest (drop n d) c2 = Some c'" "content (outputBuffer c') = old @ drop n d"
        "accepted c' = accepted c2" "wire c' = wire c2" "pending c' = pending c2"
        by (auto simp: c1 c2 old_def)
      have "sendInLoop sys d c = Some c'" using step True c'(1) by (simp add: c2_def)
      with c' show ?thesis unfolding if_not_P [OF False] Let_def n_def [symmetric] using True by (simp add: c1 c2)
    next
      case full: False
      then have "sendInLoop sys d c = Some c1" using step by simp
      with full show ?thesis unfolding if_not_P [OF False] Let_def n_def [symmetric]
        by (auto simp: c1 old_def)
    qed
  qed
qed

text \<open>C13: What \<open>sendInLoop\<close> does with a message on a connection that is up. With bytes already waiting
  it is queued behind them; otherwise it is written directly and what the kernel does not take is queued;
  \<open>EPIPE\<close> and \<open>ECONNRESET\<close> drop it, any other error queues all of it. The write-complete callback is
  scheduled exactly when all of it was written at once, the high-water-mark callback exactly when the
  waiting bytes cross the mark from below.\<close>

theorem sendInLoop_correct:
  assumes "tcp_reach sockfd c" "conn_state c = kConnected \<or> conn_state c = kDisconnecting" "write_ok sys"
  shows "\<exists>c'. sendInLoop sys d c = Some c' \<and>
    (let old = content (outputBuffer c) in
     if old = [] \<and> (sys d = Inl EPIPE \<or> sys d = Inl ECONNRESET) then c' = c
     else let n = (if old = [] then (case sys d of Inr n \<Rightarrow> n | Inl _ \<Rightarrow> 0) else 0)
       in accepted c' = accepted c @ d \<and> wire c' = wire c @ take n d
        \<and> content (outputBuffer c') = old @ drop n d
        \<and> pending c' = pending c
           @ (if old = [] \<and> sys d = Inr (length d) \<and> writeCompleteCb c then [F_writeComplete] else [])
           @ (if n < length d \<and> length old < highWaterMark c \<and> highWaterMark c \<le> length old + (length d - n)
                \<and> highWaterMarkCb c then [F_highWaterMark (length old + (length d - n))] else []))"
  using sendInLoop_effect [OF tcp_reach_inv [OF assms(1), of "\<lambda>_. 0" 0] _ assms(3), of d] assms(2)
  unfolding Let_def active_def by blast

lemma establishedE:
  obtains c where "connectEstablished (mk_tcp_conn 5) = Some c" "tcp_reach 5 c" "conn_state c = kConnected"
    "content (outputBuffer c) = []" "wire c = []" "isReading (chan c)" "addedToLoop (chan c)"
proof -
  obtain c where c: "connectEstablished (mk_tcp_conn 5) = Some c" "conn_state c = kConnected"
    "content (outputBuffer c) = []" "wire c = []" "isReading (chan c)" "addedToLoop (chan c)"
    by (simp add: connectEstablished_def mk_tcp_conn_def setState_def mk_buffer_geometry wire_def chan_op_defs
        chan_events_def emit_def channel_tie_def mk_channel_def const_defs isReading_def
        setErrorCallback_def setCloseCallback_def setWriteCallback_def setReadCallback_def
        kReadEvent_def POLLIN_def POLLPRI_def)
  with established [OF c(1)] show thesis using that by blast
qed

theorem sendInLoop_correct_witness:
  "\<exists>c c'. connectEstablished (mk_tcp_conn 5) = Some c \<and> sendInLoop (\<lambda>d. Inr (min 2 (length d))) ''abc'' c = Some c'
     \<and> wire c' = ''ab'' \<and> content (outputBuffer c') = ''c''"
proof -
  obtain c where c: "connectEstablished (mk_tcp_conn 5) = Some c" "tcp_reach 5 c" "conn_state c = kConnected"
    "content (outputBuffer c) = []" "wire c = []" by (rule establishedE)
  have "write_ok (\<lambda>d. Inr (min 2 (length d)))" by (simp add: write_ok_def)
  from sendInLoop_correct [OF c(2) _ this, of "''abc''"] c show ?thesis by (auto simp: numeral_2_eq_2)
qed

subsection \<open>A connection and its poller\<close>

text \<open>C14: Composition with the pollers: the updates and the removal that a legally used connection
  asks for never fail in either poller, and the kernel is then asked to watch the connection's descriptor for
  exactly the channel's events.\<close>

theorem tcp_polled:
  assumes "tcp_reach sockfd c" "0 \<le> sockfd"
  shows "\<exists>h1 p1 h2 p2.
     run_requests (channel_request ep_updateChannel ep_removeChannel) (reqs 0 c) (\<lambda>_. mk_channel sockfd, mk_epoll_poller) = Some (h1, p1)
   \<and> run_requests (channel_request pp_updateChannel pp_removeChannel) (reqs 0 c) (\<lambda>_. mk_channel sockfd, mk_poll_poller) = Some (h2, p2)
   \<and> ep_interest p1 sockfd = (if addedToLoop (chan c) \<and> events (chan c) \<noteq> 0 then Some (events (chan c)) else None)
   \<and> pp_interest p2 sockfd = ep_interest p1 sockfd"
proof -
  from tcp_invD(5) [OF tcp_reach_inv [OF assms(1)]] obtain a where
    a: "run_requests (spec_request (\<lambda>_. sockfd)) (reqs 0 c) start_spec = Some a"
    "sp_reg a sockfd = (if addedToLoop (chan c) then Some (0, events (chan c)) else None)"
    unfolding polled_def by meson
  from pollers_follow [OF _ a(1)] assms(2) obtain h1 p1 h2 p2 where
    "run_requests (channel_request ep_updateChannel ep_removeChannel) (reqs 0 c) (\<lambda>_. mk_channel sockfd, mk_epoll_poller) = Some (h1, p1)"
    "run_requests (channel_request pp_updateChannel pp_removeChannel) (reqs 0 c) (\<lambda>_. mk_channel sockfd, mk_poll_poller) = Some (h2, p2)"
    "ep_interest p1 = interest_of a" "pp_interest p2 = interest_of a"
    by blast
  with a(2) show ?thesis by (auto simp: interest_of_def)
qed

theorem tcp_polled_witness:
  "\<exists>c h1 p1. connectEstablished (mk_tcp_conn 5) = Some c
     \<and> run_requests (channel_request ep_updateChannel ep_removeChannel) (reqs 0 c) (\<lambda>_. mk_channel 5, mk_epoll_poller) = Some (h1, p1)
     \<and> ep_interest p1 5 \<noteq> None"
proof -
  obtain c where c: "connectEstablished (mk_tcp_conn 5) = Some c" "tcp_reach 5 c" "isReading (chan c)" "addedToLoop (chan c)"
    by (rule establishedE)
  then have "events (chan c) \<noteq> 0" by (auto simp: isReading_def)
  with tcp_polled [OF c(2)] c show ?thesis by fastforce
qed

subsection \<open>Progress and destruction\<close>

fun write_events :: "sys_write list \<Rightarrow> tcp_conn \<Rightarrow> tcp_conn option" where
  "write_events [] c = Some c"
| "write_events (sys # ss) c = do { c \<leftarrow> handleWrite sys c; write_events ss c }"

definition progress :: "sys_write \<Rightarrow> bool" where
  "progress sys \<longleftrightarrow> (\<forall>d. d \<noteq> [] \<longrightarrow> (\<exists>n. sys d = Inr n \<and> 0 < n \<and> n \<le> length d))"

lemma handleWrite_progress:
  assumes "tcp_inv fds ch c" "active c" "progress sys" "content (outputBuffer c) \<noteq> []"
  shows "\<exists>c'. handleWrite sys c = Some c' \<and> tcp_inv fds ch c' \<and> conn_state c' = conn_state c
     \<and> length (content (outputBuffer c')) < length (content (outputBuffer c)) \<and> accepted c' = accepted c
     \<and> (\<forall>e \<in> set (trace c). e \<in> set (trace c'))
     \<and> (content (outputBuffer c') = [] \<and> conn_state c = kDisconnecting \<longrightarrow> E_shutdownWrite \<in> set (trace c'))"
proof -
  note inv = tcp_invD [OF assms(1)]
  define out where "out = content (outputBuffer c)"
  obtain n where n: "sys out = Inr n" "0 < n" "n \<le> length out"
    using assms(3,4) by (auto simp: progress_def out_def)
  have w: "isWriting (chan c)" using tcp_writing [OF assms(1)] assms(2,4) by simp
  have arg: "bytes_between (peek (outputBuffer c)) (peek (outputBuffer c) + readableBytes (outputBuffer c)) (outputBuffer c) = out"
    using content_peek_take [OF inv(2), of "readableBytes (outputBuffer c)"] length_content [OF inv(2)]
    by (simp add: out_def)
  obtain b where b: "retrieve n (outputBuffer c) = Some b" "wf_buffer b" "content b = drop n out"
  proof -
    have "retrieve n (outputBuffer c) \<noteq> None" using retrieve_contract(1) [OF inv(2), of n] n(3) by (auto simp: out_def)
    then obtain b where "retrieve n (outputBuffer c) = Some b" by blast
    then show thesis using that [of b] retrieve_contract(2) [OF inv(2)] by (simp add: out_def)
  qed
  define c1 where "c1 = emit (E_wrote (take n out)) (c\<lparr>outputBuffer := b\<rparr>)"
  define fin where "fin = (\<lambda>c. (let c = chan_disableWriting c;
                                c = (if writeCompleteCb c then queueInLoop F_writeComplete c else c)
                            in if conn_state c = kDisconnecting then shutdownInLoop c else c))"
  have hw: "handleWrite sys c = Some (if readableBytes b = 0 then fin c1 else c1)"
    using w n b by (simp add: handleWrite_def arg c1_def fin_def)
  have c1: "accepted c1 = accepted c" "set (trace c) \<subseteq> set (trace c1)" "conn_state c1 = conn_state c"
    "outputBuffer c1 = b" "chan c1 = chan c"
    by (auto simp: c1_def history_defs)
  have ev: "events (chan c1) AND NOT kWriteEvent = evw r False" if "events (chan c) = evw r True" for r
    using that c1(5) by simp
  have f: "accepted (fin c1) = accepted c1" "set (trace c1) \<subseteq> set (trace (fin c1))" "outputBuffer (fin c1) = b"
    by (auto simp: fin_def Let_def shutdownInLoop_def chan_op_defs history_defs chan_events_def emit_def c1(4))
  have sd: "E_shutdownWrite \<in> set (trace (fin c1))" if "conn_state c = kDisconnecting"
  proof -
    obtain r where "events (chan c) = evw r True" using inv(4) assms(2,4) by auto
    then have "\<not> isWriting (chan (chan_disableWriting c1))"
      using evw_test(1) [of "chan (chan_disableWriting c1)" r False] ev by (simp add: chan_op_defs)
    then show ?thesis using that by (simp add: fin_def Let_def shutdownInLoop_def chan_op_defs c1(3))
  qed
  obtain c' where c': "handleWrite sys c = Some c'" "tcp_inv fds ch c'" "conn_state c' = conn_state c"
  proof -
    define sys' where "sys' = (\<lambda>d. if d = out then Inr n else Inr 0 :: int + nat)"
    have "write_ok sys'" using n(3) by (simp add: write_ok_def sys'_def)
    moreover have "handleWrite sys' c = handleWrite sys c" using n(1) by (simp add: handleWrite_def arg sys'_def)
    ultimately show thesis using handleWrite_inv [OF assms(1), of sys'] assms(2) that by auto
  qed
  have "outputBuffer c' = b" using hw c'(1) f(3) c1(4) by (auto split: if_splits)
  moreover have "accepted c' = accepted c" "set (trace c) \<subseteq> set (trace c')"
    using hw c'(1) f c1 by (auto split: if_splits)
  moreover have "length (drop n out) < length out" using n by simp
  moreover have "E_shutdownWrite \<in> set (trace c')" if "content b = []" "conn_state c = kDisconnecting"
    using hw c'(1) sd that empty_content [OF b(2)] by simp
  ultimately show ?thesis using c' b(3) by (auto simp: out_def)
qed

lemma write_events_drain:
  assumes "tcp_inv fds ch c" "active c" "\<And>sys. sys \<in> set ss \<Longrightarrow> progress sys"
    and "length (content (outputBuffer c)) \<le> length ss"
    and "content (outputBuffer c) = [] \<and> conn_state c = kDisconnecting \<Longrightarrow> E_shutdownWrite \<in> set (trace c)"
  shows "\<exists>c'. write_events ss c = Some c' \<and> content (outputBuffer c') = [] \<and> wire c' = accepted c
     \<and> (conn_state c = kDisconnecting \<longrightarrow> E_shutdownWrite \<in> set (trace c'))"
  using assms
proof (induction ss arbitrary: c)
  case Nil
  then show ?case using tcp_invD(3) [OF Nil.prems(1)] by simp
next
  case (Cons sys ss)
  show ?case
  proof (cases "content (outputBuffer c) = []")
    case True
    then have "handleWrite sys c = Some c" using tcp_writing [OF Cons.prems(1)] by (simp add: handleWrite_def)
    with True Cons show ?thesis by simp
  next
    case False
    obtain c' where c': "handleWrite sys c = Some c'" "tcp_inv fds ch c'" "conn_state c' = conn_state c"
      "length (content (outputBuffer c')) < length (content (outputBuffer c))" "accepted c' = accepted c"
      "content (outputBuffer c') = [] \<and> conn_state c = kDisconnecting \<longrightarrow> E_shutdownWrite \<in> set (trace c')"
      using handleWrite_progress [OF Cons.prems(1,2) Cons.prems(3) False] by auto
    have "\<exists>c''. write_events ss c' = Some c'' \<and> content (outputBuffer c'') = [] \<and> wire c'' = accepted c'
       \<and> (conn_state c' = kDisconnecting \<longrightarrow> E_shutdownWrite \<in> set (trace c''))"
      by (rule Cons.IH) (use Cons.prems c' in \<open>auto simp: active_def\<close>)
    with c' show ?thesis by auto
  qed
qed

text \<open>C15: Progress: when the kernel takes at least one byte each time the socket is writable, as many
  writability events as bytes are waiting empty the output buffer: everything accepted is on the wire,
  and a connection that is closing has its writing side shut down.\<close>

theorem tcp_output_drains:
  assumes "tcp_reach sockfd c" "conn_state c = kConnected \<or> conn_state c = kDisconnecting"
    and "content (outputBuffer c) \<noteq> []" "\<And>sys. sys \<in> set ss \<Longrightarrow> progress sys"
    and "length (content (outputBuffer c)) \<le> length ss"
  shows "\<exists>c'. write_events ss c = Some c' \<and> content (outputBuffer c') = [] \<and> wire c' = accepted c
     \<and> (conn_state c = kDisconnecting \<longrightarrow> E_shutdownWrite \<in> set (trace c'))"
  by (rule write_events_drain [OF tcp_reach_inv [OF assms(1), of "\<lambda>_. 0" 0]])
    (use assms in \<open>auto simp: active_def\<close>)

text \<open>C19: \<open>connectDestroyed\<close> and then the destructor succeed on a registered connection exactly when
  it is not half closed: in \<open>kDisconnecting\<close>, after \<open>shutdown()\<close>, one of their assertions fails.\<close>

theorem tcp_destroy:
  assumes "tcp_reach sockfd c" "addedToLoop (chan c)"
  shows "do { c \<leftarrow> connectDestroyed c; tcp_dtor c } = (if conn_state c = kDisconnecting then None else Some ())"
proof (cases "conn_state c = kDisconnecting")
  case True
  then show ?thesis
    by (auto simp: connectDestroyed_def chan_remove_def tcp_dtor_def assert_then_def emit_def split: Option.bind_splits)
next
  case False
  note inv = tcp_reach_inv [OF assms(1), of "\<lambda>_. 0" 0]
  have "conn_state c \<noteq> kConnecting" using inv assms(2) by (auto simp: tcp_inv_def)
  with False have "conn_state c = kConnected \<or> conn_state c = kDisconnected" by (cases "conn_state c") simp_all
  with connectDestroyed_inv [OF inv assms(2) this] False show ?thesis by (auto simp: tcp_dtor_def)
qed

theorem tcp_destroy_witness:
  "\<exists>c. connectEstablished (mk_tcp_conn 5) = Some c \<and> do { c \<leftarrow> connectDestroyed c; tcp_dtor c } = Some ()
     \<and> do { c \<leftarrow> connectDestroyed (shutdown True c); tcp_dtor c } = None"
proof -
  obtain c where c: "connectEstablished (mk_tcp_conn 5) = Some c" "tcp_reach 5 c" "conn_state c = kConnected" "addedToLoop (chan c)"
    by (rule establishedE)
  have r: "tcp_reach 5 (shutdown True c)"
    by (rule tcp_reach.Step [OF c(2), of "Call_shutdown True"]) (simp_all add: legal_def)
  have s: "conn_state (shutdown True c) = kDisconnecting" "addedToLoop (chan (shutdown True c))"
    using c(3,4) by (simp_all add: shutdown_def shutdownInLoop_def setState_def Let_def)
  show ?thesis using tcp_destroy [OF c(2,4)] tcp_destroy [OF r s(2)] c s(1) by auto
qed

theorem tcp_output_drains_witness:
  "\<exists>c d e. connectEstablished (mk_tcp_conn 5) = Some c \<and> sendInLoop (\<lambda>d. Inr 0) ''ab'' c = Some d
     \<and> write_events [\<lambda>d. Inr 1, \<lambda>d. Inr 1] d = Some e \<and> wire e = ''ab''"
proof -
  obtain c where c: "connectEstablished (mk_tcp_conn 5) = Some c" "tcp_reach 5 c" "conn_state c = kConnected"
    "content (outputBuffer c) = []" "wire c = []" by (rule establishedE)
  have ok: "write_ok (\<lambda>d. Inr 0)" by (simp add: write_ok_def)
  note inv = tcp_reach_inv [OF c(2), of "\<lambda>_. 0" 0]
  obtain d where d: "sendInLoop (\<lambda>d. Inr 0) ''ab'' c = Some d" "conn_state d = kConnected"
      "content (outputBuffer d) = ''ab''" "accepted d = ''ab''"
    using sendInLoop_effect [OF inv _ ok, of "''ab''"] sendInLoop_inv [OF inv _ ok, of "''ab''"] c
      tcp_invD(3) [OF inv] by (auto simp: active_def)
  have "tcp_reach 5 d"
    by (rule tcp_reach.Step [OF c(2), of "Call_send True (\<lambda>d. Inr 0) ''ab''"]) (use ok c d in \<open>simp_all add: legal_def send_def\<close>)
  from tcp_output_drains [OF this, of "[\<lambda>d. Inr 1, \<lambda>d. Inr 1]"] d c(1) show ?thesis
    by (fastforce simp: progress_def Suc_le_eq)
qed

text \<open>Outside of the legal uses: \<open>startRead\<close> on a closed connection registers its interest again, and
  \<open>connectDestroyed\<close> then fails the assertion of \<open>Channel::remove\<close>.\<close>

lemma startRead_after_close:
  "conn_state c = kDisconnected \<Longrightarrow> events (chan c) = 0 \<Longrightarrow> reading c \<Longrightarrow>
     connectDestroyed (startRead True c) = None"
  by (simp add: connectDestroyed_def startRead_def startReadInLoop_def chan_remove_def isNoneEvent_def kNoneEvent_def
      isReading_def chan_op_defs kReadEvent_def POLLIN_def POLLPRI_def)

end
