(* ===== verification/Net_EventLoopThread.thy ===== *)
theory Net_EventLoopThread
  imports Prelude
begin

section \<open>Loop threads: \<open>net/EventLoopThread.cc\<close>, \<open>net/EventLoopThreadPool.cc\<close>\<close>

subsection \<open>\<open>EventLoopThread\<close>\<close>

text \<open>
  Two threads: the one that calls \<open>startLoop\<close> and the one that runs \<open>threadFunc\<close>. A critical section is
  one step; a thread in \<open>cond_.wait()\<close> checks again after a \<open>notify\<close>. \<open>lt_loop\<close> says whether \<open>loop_\<close> is
  not NULL. \<open>startLoop\<close> reads \<open>loop_\<close> once more after it has released the mutex.
\<close>

datatype starter_pc = S_begin | S_lock | S_wait | S_return | S_done bool
datatype worker_pc = W_none | W_callback | W_publish | W_looping | W_clear | W_exit

record loop_thread =
  lt_loop :: bool
  exiting :: bool
  thread_started :: bool
  starter :: starter_pc
  worker :: worker_pc
  callbacks_run :: nat

definition mk_loop_thread :: loop_thread where
  "mk_loop_thread = \<lparr>lt_loop = False, exiting = False, thread_started = False, starter = S_begin, worker = W_none,
     callbacks_run = 0\<rparr>"

definition startLoop :: "loop_thread \<Rightarrow> loop_thread option" where
  "startLoop t =
     (case starter t of
        S_begin \<Rightarrow> assert_then (\<not> thread_started t)
                    (Some (t\<lparr>thread_started := True, worker := W_callback, starter := S_lock\<rparr>))
      | S_lock \<Rightarrow> Some (t\<lparr>starter := (if lt_loop t then S_return else S_wait)\<rparr>)
      | S_return \<Rightarrow> Some (t\<lparr>starter := S_done (lt_loop t)\<rparr>)
      | _ \<Rightarrow> None)"

definition threadFunc :: "bool \<Rightarrow> loop_thread \<Rightarrow> loop_thread option" where
  "threadFunc callback t =
     (case worker t of
        W_callback \<Rightarrow> Some (t\<lparr>callbacks_run := (if callback then Suc (callbacks_run t) else callbacks_run t), worker := W_publish\<rparr>)
      | W_publish \<Rightarrow> Some (t\<lparr>lt_loop := True, starter := (if starter t = S_wait then S_lock else starter t), worker := W_looping\<rparr>)
      | W_looping \<Rightarrow> Some (t\<lparr>worker := W_clear\<rparr>)
      | W_clear \<Rightarrow> Some (t\<lparr>lt_loop := False, worker := W_exit\<rparr>)
      | _ \<Rightarrow> None)"

text \<open>The destructor: whether it calls \<open>quit()\<close> and joins.\<close>

definition loop_thread_dtor :: "loop_thread \<Rightarrow> loop_thread \<times> bool" where
  "loop_thread_dtor t = (t\<lparr>exiting := True\<rparr>, lt_loop t)"

inductive lt_reach :: "bool \<Rightarrow> loop_thread \<Rightarrow> bool" for callback where
  Made: "lt_reach callback mk_loop_thread"
| Starter: "lt_reach callback t \<Longrightarrow> startLoop t = Some t' \<Longrightarrow> lt_reach callback t'"
| Worker: "lt_reach callback t \<Longrightarrow> threadFunc callback t = Some t' \<Longrightarrow> lt_reach callback t'"

inductive_cases lt_reachE: "lt_reach callback t"

definition lt_inv :: "bool \<Rightarrow> loop_thread \<Rightarrow> bool" where
  "lt_inv callback t \<longleftrightarrow>
     (lt_loop t \<longleftrightarrow> worker t \<in> {W_looping, W_clear})
   \<and> (thread_started t \<longleftrightarrow> starter t \<noteq> S_begin) \<and> (worker t = W_none \<longleftrightarrow> starter t = S_begin)
   \<and> (starter t = S_wait \<longrightarrow> worker t \<in> {W_callback, W_publish} \<or> worker t = W_exit)
   \<and> (starter t \<notin> {S_begin, S_lock, S_wait} \<longrightarrow> worker t \<in> {W_looping, W_clear, W_exit})
   \<and> (starter t = S_done False \<longrightarrow> worker t = W_exit)
   \<and> callbacks_run t = (if callback \<and> worker t \<notin> {W_none, W_callback} then 1 else 0)"

lemma lt_inv_reach: "lt_reach callback t \<Longrightarrow> lt_inv callback t"
proof (induction rule: lt_reach.induct)
  case Made
  show ?case by (simp add: lt_inv_def mk_loop_thread_def)
next
  case (Starter t t')
  then show ?case
    unfolding lt_inv_def startLoop_def by (cases "starter t"; cases "worker t"; simp; elim conjE; hypsubst; simp)
next
  case (Worker t t')
  then show ?case
    unfolding lt_inv_def threadFunc_def by (cases "worker t"; cases "starter t"; simp; elim conjE; hypsubst; simp)
qed

text \<open>The steps left: the starter's and the worker's up to \<open>loop()\<close>.\<close>

definition steps_left :: "loop_thread \<Rightarrow> nat" where
  "steps_left t = (case starter t of S_begin \<Rightarrow> 10 | S_lock \<Rightarrow> 3 | S_wait \<Rightarrow> 2 | S_return \<Rightarrow> 1 | S_done _ \<Rightarrow> 0)
     + (case worker t of W_callback \<Rightarrow> 4 | W_publish \<Rightarrow> 3 | _ \<Rightarrow> 0)"

lemma startLoop_progress:
  assumes "lt_reach callback t" "starter t \<noteq> S_done True" "starter t \<noteq> S_done False" "worker t \<noteq> W_exit"
  shows "(\<exists>t'. startLoop t = Some t' \<and> steps_left t' < steps_left t)
       \<or> (worker t \<in> {W_callback, W_publish} \<and> (\<exists>t'. threadFunc callback t = Some t' \<and> steps_left t' < steps_left t))"
  using assms lt_inv_reach [OF assms(1)]
  by (cases "starter t"; cases "worker t")
    (auto simp: startLoop_def threadFunc_def steps_left_def lt_inv_def)

subsection \<open>\<open>EventLoopThreadPool\<close>\<close>

text \<open>A loop is a number; \<open>baseLoop\<close> is 0 and loop \<open>i + 1\<close> belongs to thread \<open>i\<close>.\<close>

record loop_pool =
  pool_name :: string
  pool_started :: bool
  numThreads :: nat
  next_loop :: nat
  pool_loops :: "nat list"
  init_calls :: "nat list"

definition mk_loop_pool :: "string \<Rightarrow> loop_pool" where
  "mk_loop_pool nm = \<lparr>pool_name = nm, pool_started = False, numThreads = 0, next_loop = 0, pool_loops = [], init_calls = []\<rparr>"

definition setThreadNum :: "nat \<Rightarrow> loop_pool \<Rightarrow> loop_pool" where
  "setThreadNum n p = p\<lparr>numThreads := n\<rparr>"

definition pool_start :: "bool \<Rightarrow> loop_pool \<Rightarrow> loop_pool option" where
  "pool_start cb p =
     assert_then (\<not> pool_started p)
      (let p = p\<lparr>pool_started := True\<rparr>;
           p = p\<lparr>pool_loops := pool_loops p @ map Suc [0..<numThreads p],
                 init_calls := init_calls p @ (if cb then map Suc [0..<numThreads p] else [])\<rparr>
       in Some (if numThreads p = 0 \<and> cb then p\<lparr>init_calls := init_calls p @ [0]\<rparr> else p))"

definition getNextLoop :: "loop_pool \<Rightarrow> (nat \<times> loop_pool) option" where
  "getNextLoop p =
     assert_then (pool_started p)
      (if pool_loops p \<noteq> []
       then let l = pool_loops p ! next_loop p;
                n = next_loop p + 1;
                n = (if n \<ge> length (pool_loops p) then 0 else n)
            in Some (l, p\<lparr>next_loop := n\<rparr>)
       else Some (0, p))"

definition getLoopForHash :: "nat \<Rightarrow> loop_pool \<Rightarrow> nat" where
  "getLoopForHash hashCode p =
     (if pool_loops p \<noteq> [] then pool_loops p ! (hashCode mod length (pool_loops p)) else 0)"

definition getAllLoops :: "loop_pool \<Rightarrow> nat list option" where
  "getAllLoops p = assert_then (pool_started p) (Some (if pool_loops p = [] then [0] else pool_loops p))"

fun next_loops :: "nat \<Rightarrow> loop_pool \<Rightarrow> (nat list \<times> loop_pool) option" where
  "next_loops 0 p = Some ([], p)"
| "next_loops (Suc k) p = do { (l, p) \<leftarrow> getNextLoop p; (ls, p) \<leftarrow> next_loops k p; Some (l # ls, p) }"

lemma next_loops_from:
  "pool_started p \<Longrightarrow> pool_loops p \<noteq> [] \<Longrightarrow> next_loop p < length (pool_loops p) \<Longrightarrow>
     \<exists>p'. next_loops k p = Some (map (\<lambda>i. pool_loops p ! ((next_loop p + i) mod length (pool_loops p))) [0..<k], p')"
proof (induction k arbitrary: p)
  case (Suc k)
  let ?n = "length (pool_loops p)"
  define m where "m = (if next_loop p + 1 \<ge> ?n then 0 else next_loop p + 1)"
  have m: "m < ?n" "m = (next_loop p + 1) mod ?n" using Suc.prems(3) by (auto simp: m_def mod_if)
  obtain p' where p': "next_loops k (p\<lparr>next_loop := m\<rparr>)
      = Some (map (\<lambda>i. pool_loops p ! ((m + i) mod ?n)) [0..<k], p')"
    using Suc.IH [of "p\<lparr>next_loop := m\<rparr>"] Suc.prems m(1) by auto
  have shift: "(m + i) mod ?n = (next_loop p + Suc i) mod ?n" for i
    unfolding m(2) by (simp add: mod_add_left_eq)
  have "map (\<lambda>i. pool_loops p ! ((next_loop p + i) mod ?n)) [0..<Suc k]
      = pool_loops p ! next_loop p # map (\<lambda>i. pool_loops p ! ((m + i) mod ?n)) [0..<k]"
    unfolding upt_conv_Cons [OF zero_less_Suc] map_Suc_upt [symmetric] list.map list.map_comp
    using Suc.prems(3) by (simp add: comp_def shift)
  moreover have "getNextLoop p = Some (pool_loops p ! next_loop p, p\<lparr>next_loop := m\<rparr>)"
    using Suc.prems by (simp add: getNextLoop_def m_def Let_def)
  ultimately show ?case using p' by simp
qed simp

lemma round_robin:
  assumes "0 < n" "pool_start cb (setThreadNum n (mk_loop_pool nm)) = Some p"
  shows "\<exists>p'. next_loops k p = Some (map (\<lambda>i. Suc (i mod n)) [0..<k], p')"
proof -
  have p: "pool_started p" "pool_loops p = map Suc [0..<n]" "next_loop p = 0"
    using assms by (auto simp: pool_start_def setThreadNum_def mk_loop_pool_def Let_def)
  from next_loops_from [of p k] p assms(1) show ?thesis by (auto cong: map_cong)
qed

text \<open>A started pool of \<open>n > 0\<close> threads hands its loops out in turn: the \<open>i\<close>-th connection goes to the loop
  of thread \<open>i mod n\<close>; with no thread it is the base loop. A hash is always sent to the same loop, one of the pool's.\<close>

theorem pool_round_robin:
  assumes "pool_start cb (setThreadNum n (mk_loop_pool nm)) = Some p"
  shows "(\<exists>p'. next_loops k p = Some (map (\<lambda>i. if n = 0 then 0 else Suc (i mod n)) [0..<k], p'))
    \<and> getLoopForHash h p \<in> set (the (getAllLoops p))"
proof
  have p: "pool_started p" "pool_loops p = map Suc [0..<n]"
    using assms by (auto simp: pool_start_def setThreadNum_def mk_loop_pool_def Let_def)
  have "next_loops k p = Some (map (\<lambda>i. 0) [0..<k], p)" if "n = 0"
  proof -
    have "next_loops k p = Some (replicate k 0, p)"
      using p that by (induction k) (simp_all add: getNextLoop_def)
    then show ?thesis by (simp add: map_replicate_const)
  qed
  then show "\<exists>p'. next_loops k p = Some (map (\<lambda>i. if n = 0 then 0 else Suc (i mod n)) [0..<k], p')"
    using round_robin [OF _ assms] by (cases "n = 0") auto
  show "getLoopForHash h p \<in> set (the (getAllLoops p))"
    using p by (cases "n = 0") (auto simp: getLoopForHash_def getAllLoops_def)
qed

theorem pool_round_robin_witness:
  "\<exists>p p'. pool_start True (setThreadNum 3 (mk_loop_pool ''io'')) = Some p \<and> next_loops 4 p = Some ([1, 2, 3, 1], p')"
proof -
  obtain p where p: "pool_start True (setThreadNum 3 (mk_loop_pool ''io'')) = Some p"
    by (simp add: pool_start_def setThreadNum_def mk_loop_pool_def)
  have "map (\<lambda>i. if (3::nat) = 0 then 0 else Suc (i mod 3)) [0..<4] = [1, 2, 3, 1]" by code_simp
  with pool_round_robin [OF p, of 4] p show ?thesis by fastforce
qed

end
