(* ===== verification/Net_Connect.thy ===== *)
theory Net_Connect
  imports Net_Channel "HOL-Library.Multiset"
begin

section \<open>Accepting and connecting: \<open>net/Acceptor.cc\<close>, \<open>net/Connector.cc\<close>\<close>

subsection \<open>Error numbers\<close>

definition EPERM :: int where "EPERM = 1"
definition EINTR :: int where "EINTR = 4"
definition EAGAIN :: int where "EAGAIN = 11"
definition EMFILE :: int where "EMFILE = 24"
definition EPROTO :: int where "EPROTO = 71"
definition EADDRINUSE :: int where "EADDRINUSE = 98"
definition EADDRNOTAVAIL :: int where "EADDRNOTAVAIL = 99"
definition ENETUNREACH :: int where "ENETUNREACH = 101"
definition ECONNABORTED :: int where "ECONNABORTED = 103"
definition EISCONN :: int where "EISCONN = 106"
definition ECONNREFUSED :: int where "ECONNREFUSED = 111"
definition EINPROGRESS :: int where "EINPROGRESS = 115"

lemmas errno_defs = EPERM_def EINTR_def EAGAIN_def EMFILE_def EPROTO_def EADDRINUSE_def EADDRNOTAVAIL_def
  ENETUNREACH_def ECONNABORTED_def EISCONN_def ECONNREFUSED_def EINPROGRESS_def

text \<open>\<open>sockets::accept\<close>: the descriptor, an error the caller handles, or \<open>LOG_FATAL\<close> (None).\<close>

definition sockets_accept :: "int + fd \<Rightarrow> (int + fd) option" where
  "sockets_accept r =
     (case r of
        Inr fd \<Rightarrow> Some (Inr fd)
      | Inl err \<Rightarrow> if err \<in> {EAGAIN, ECONNABORTED, EINTR, EPROTO, EPERM, EMFILE} then Some (Inl err) else None)"

subsection \<open>\<open>Acceptor\<close>\<close>

datatype acc_effect =
    A_listen
  | A_events events
  | A_remove
  | A_accepted fd
  | A_newConnection fd
  | A_opened fd
  | A_closed fd

record acceptor =
  listenning :: bool
  idleFd :: fd
  acc_trace :: "acc_effect list"

definition acc_emit :: "acc_effect \<Rightarrow> acceptor \<Rightarrow> acceptor" where
  "acc_emit e a = a\<lparr>acc_trace := acc_trace a @ [e]\<rparr>"

text \<open>\<open>devnull\<close> is what \<open>open("/dev/null")\<close> returns.\<close>

definition mk_acceptor :: "fd \<Rightarrow> acceptor option" where
  "mk_acceptor devnull =
     assert_then (devnull \<ge> 0) (Some \<lparr>listenning = False, idleFd = devnull, acc_trace = [A_opened devnull]\<rparr>)"

definition acc_listen :: "acceptor \<Rightarrow> acceptor" where
  "acc_listen a = acc_emit (A_events kReadEvent) (acc_emit A_listen (a\<lparr>listenning := True\<rparr>))"

text \<open>\<open>close(-1)\<close> fails and changes nothing.\<close>

definition sys_close :: "fd \<Rightarrow> acceptor \<Rightarrow> acceptor" where
  "sys_close fd a = (if fd \<ge> 0 then acc_emit (A_closed fd) a else a)"

definition acc_handleRead :: "int + fd \<Rightarrow> fd \<Rightarrow> fd \<Rightarrow> bool \<Rightarrow> acceptor \<Rightarrow> acceptor option" where
  "acc_handleRead r second devnull callback a =
     do { r \<leftarrow> sockets_accept r;
          Some (case r of
              Inr connfd \<Rightarrow>
                let a = acc_emit (A_accepted connfd) a
                in if callback then acc_emit (A_newConnection connfd) a else sys_close connfd a
            | Inl err \<Rightarrow>
                if err = EMFILE
                then let a = sys_close (idleFd a) a;
                         a = a\<lparr>idleFd := second\<rparr>;
                         a = (if second \<ge> 0 then acc_emit (A_accepted second) a else a);
                         a = sys_close (idleFd a) a;
                         a = (if devnull \<ge> 0 then acc_emit (A_opened devnull) a else a)
                     in a\<lparr>idleFd := devnull\<rparr>
                else a) }"

definition acc_dtor :: "acceptor \<Rightarrow> acceptor" where
  "acc_dtor a = sys_close (idleFd a) (acc_emit A_remove (acc_emit (A_events kNoneEvent) a))"

fun got :: "acc_effect \<Rightarrow> fd list" where
  "got (A_accepted f) = [f]" | "got (A_opened f) = [f]" | "got _ = []"

fun gone :: "acc_effect \<Rightarrow> fd list" where
  "gone (A_newConnection f) = [f]" | "gone (A_closed f) = [f]" | "gone _ = []"

text \<open>Descriptors the acceptor has obtained, and those it has closed or given away: the difference is the idle one.\<close>

definition acc_balanced :: "acceptor \<Rightarrow> bool" where
  "acc_balanced a \<longleftrightarrow>
     mset (concat (map got (acc_trace a))) =
     mset (concat (map gone (acc_trace a))) + (if idleFd a \<ge> 0 then {# idleFd a #} else {#})"

lemma acc_handleRead_balanced:
  assumes "acc_balanced a" "\<And>f. r = Inr f \<Longrightarrow> 0 \<le> f" "acc_handleRead r second devnull callback a = Some a'"
  shows "acc_balanced a'"
proof (cases r)
  case (Inr f)
  with assms show ?thesis
    by (cases callback) (auto simp: acc_balanced_def acc_handleRead_def sockets_accept_def acc_emit_def sys_close_def Let_def)
next
  case (Inl err)
  with assms show ?thesis
    by (cases "err = EMFILE")
      (auto simp: acc_balanced_def acc_handleRead_def sockets_accept_def acc_emit_def sys_close_def Let_def split: if_splits)
qed

text \<open>Every accepted descriptor is given to the callback or closed; in particular when the process has run
  out of descriptors the pending connection is accepted on the reserved one and closed.\<close>

lemma acceptor_no_leak:
  assumes "acc_balanced a" "\<And>f. r = Inr f \<Longrightarrow> 0 \<le> f" "acc_handleRead r second devnull callback a = Some a'"
  shows "mset (concat (map got (acc_trace (acc_dtor a')))) = mset (concat (map gone (acc_trace (acc_dtor a'))))"
  using acc_handleRead_balanced [OF assms] by (cases "idleFd a' \<ge> 0") (simp_all add: acc_balanced_def acc_dtor_def sys_close_def acc_emit_def)

subsection \<open>\<open>Connector\<close>\<close>

datatype conn_states = C_kDisconnected | C_kConnecting | C_kConnected

datatype conn_functor = CF_start | CF_stop | CF_reset

datatype conn_effect =
    C_socket fd
  | C_close fd
  | C_hand fd
  | C_retry int
  | C_restart
  | C_events fd events
  | C_remove fd

record connector =
  want :: bool
  cn_state :: conn_states
  cn_channel :: "channel option"
  retryDelayMs :: int
  cn_pending :: "conn_functor list"
  cn_timers :: nat
  cn_trace :: "conn_effect list"

definition kInitRetryDelayMs :: int where "kInitRetryDelayMs = 500"
definition kMaxRetryDelayMs :: int where "kMaxRetryDelayMs = 30 * 1000"

definition mk_connector :: connector where
  "mk_connector = \<lparr>want = False, cn_state = C_kDisconnected, cn_channel = None, retryDelayMs = kInitRetryDelayMs,
     cn_pending = [], cn_timers = 0, cn_trace = []\<rparr>"

definition cn_emit :: "conn_effect \<Rightarrow> connector \<Rightarrow> connector" where
  "cn_emit e c = c\<lparr>cn_trace := cn_trace c @ [e]\<rparr>"

definition cn_queue :: "conn_functor \<Rightarrow> connector \<Rightarrow> connector" where
  "cn_queue f c = c\<lparr>cn_pending := cn_pending c @ [f]\<rparr>"

definition cn_setState :: "conn_states \<Rightarrow> connector \<Rightarrow> connector" where
  "cn_setState s c = c\<lparr>cn_state := s\<rparr>"

definition cn_retry :: "fd \<Rightarrow> connector \<Rightarrow> connector" where
  "cn_retry sockfd c =
     (let c = cn_setState C_kDisconnected (cn_emit (C_close sockfd) c)
      in if want c
         then let c = cn_emit (C_retry (retryDelayMs c)) (c\<lparr>cn_timers := Suc (cn_timers c)\<rparr>)
              in c\<lparr>retryDelayMs := min (retryDelayMs c * 2) kMaxRetryDelayMs\<rparr>
         else c)"

definition cn_connecting :: "fd \<Rightarrow> connector \<Rightarrow> connector option" where
  "cn_connecting sockfd c =
     (let c = cn_setState C_kConnecting c in
      assert_then (cn_channel c = None)
       (let ch = setErrorCallback (setWriteCallback (mk_channel sockfd));
            ch = ch\<lparr>events := events ch OR kWriteEvent, addedToLoop := True\<rparr>
        in Some (cn_emit (C_events sockfd (events ch)) (c\<lparr>cn_channel := Some ch\<rparr>))))"

text \<open>The socket created and the result of \<open>connect(2)\<close> on it: 0 or the error number.\<close>

definition cn_connect :: "fd \<Rightarrow> int \<Rightarrow> connector \<Rightarrow> connector option" where
  "cn_connect sockfd savedErrno c =
     (let c = cn_emit (C_socket sockfd) c in
      if savedErrno \<in> {0, EINPROGRESS, EINTR, EISCONN} then cn_connecting sockfd c
      else if savedErrno \<in> {EAGAIN, EADDRINUSE, EADDRNOTAVAIL, ECONNREFUSED, ENETUNREACH} then Some (cn_retry sockfd c)
      else Some (cn_emit (C_close sockfd) c))"

definition cn_startInLoop :: "fd \<Rightarrow> int \<Rightarrow> connector \<Rightarrow> connector option" where
  "cn_startInLoop sockfd err c =
     assert_then (cn_state c = C_kDisconnected) (if want c then cn_connect sockfd err c else Some c)"

definition cn_start :: "bool \<Rightarrow> fd \<Rightarrow> int \<Rightarrow> connector \<Rightarrow> connector option" where
  "cn_start inLoop sockfd err c =
     (let c = c\<lparr>want := True\<rparr>
      in if inLoop then cn_startInLoop sockfd err c else Some (cn_queue CF_start c))"

text \<open>\<open>channel_\<close> is dereferenced: a null pointer ends the process.\<close>

definition cn_removeAndResetChannel :: "connector \<Rightarrow> (fd \<times> connector) option" where
  "cn_removeAndResetChannel c =
     do { ch \<leftarrow> cn_channel c;
          let ch = ch\<lparr>events := kNoneEvent, addedToLoop := False\<rparr>;
          let c = cn_emit (C_remove (ch_fd ch)) (cn_emit (C_events (ch_fd ch) kNoneEvent) (c\<lparr>cn_channel := Some ch\<rparr>));
          Some (ch_fd ch, cn_queue CF_reset c) }"

definition cn_resetChannel :: "connector \<Rightarrow> connector" where
  "cn_resetChannel c = c\<lparr>cn_channel := None\<rparr>"

definition cn_stopInLoop :: "connector \<Rightarrow> connector option" where
  "cn_stopInLoop c =
     (if cn_state c = C_kConnecting
      then do { (sockfd, c) \<leftarrow> cn_removeAndResetChannel (cn_setState C_kDisconnected c); Some (cn_retry sockfd c) }
      else Some c)"

definition cn_stop :: "connector \<Rightarrow> connector" where
  "cn_stop c = cn_queue CF_stop (c\<lparr>want := False\<rparr>)"

definition cn_restart :: "fd \<Rightarrow> int \<Rightarrow> connector \<Rightarrow> connector option" where
  "cn_restart sockfd err c =
     (let c = cn_emit C_restart (cn_setState C_kDisconnected c)
      in cn_startInLoop sockfd err (c\<lparr>retryDelayMs := kInitRetryDelayMs, want := True\<rparr>))"

definition cn_handleWrite :: "int \<Rightarrow> bool \<Rightarrow> connector \<Rightarrow> connector option" where
  "cn_handleWrite so_error selfConnect c =
     (if cn_state c = C_kConnecting
      then do { (sockfd, c) \<leftarrow> cn_removeAndResetChannel c;
                Some (if so_error \<noteq> 0 then cn_retry sockfd c
                      else if selfConnect then cn_retry sockfd c
                      else let c = cn_setState C_kConnected c
                           in if want c then cn_emit (C_hand sockfd) c else cn_emit (C_close sockfd) c) }
      else assert_then (cn_state c = C_kDisconnected) (Some c))"

definition cn_handleError :: "connector \<Rightarrow> connector option" where
  "cn_handleError c =
     (if cn_state c = C_kConnecting
      then do { (sockfd, c) \<leftarrow> cn_removeAndResetChannel c; Some (cn_retry sockfd c) }
      else Some c)"

definition cn_dtor :: "connector \<Rightarrow> unit option" where
  "cn_dtor c = assert_then (cn_channel c = None) (Some ())"

subsection \<open>A connector in its loop\<close>

datatype conn_event =
    CE_start bool fd int
  | CE_stop
  | CE_restart fd int
  | CE_pending fd int
  | CE_timer fd int
  | CE_event timestamp events int bool

fun cn_functor :: "fd \<Rightarrow> int \<Rightarrow> conn_functor \<Rightarrow> connector \<Rightarrow> connector option" where
  "cn_functor sockfd err CF_start c = cn_startInLoop sockfd err c"
| "cn_functor sockfd err CF_stop c = cn_stopInLoop c"
| "cn_functor sockfd err CF_reset c = Some (cn_resetChannel c)"

text \<open>An event of the connector's channel: \<open>Channel::handleEvent\<close> runs the callbacks that are set, the error callback
  before the write callback when \<open>poll\<close> reports both. \<open>so_error\<close> and \<open>selfConnect\<close> are what the socket says.\<close>

fun cn_callback :: "int \<Rightarrow> bool \<Rightarrow> callback \<Rightarrow> connector \<Rightarrow> connector option" where
  "cn_callback so_error selfConnect WriteCallback c = cn_handleWrite so_error selfConnect c"
| "cn_callback so_error selfConnect ErrorCallback c = cn_handleError c"
| "cn_callback so_error selfConnect CloseCallback c = None"
| "cn_callback so_error selfConnect (ReadCallback t) c = None"

fun cn_callbacks :: "int \<Rightarrow> bool \<Rightarrow> callback list \<Rightarrow> connector \<Rightarrow> connector option" where
  "cn_callbacks so_error selfConnect [] c = Some c"
| "cn_callbacks so_error selfConnect (f # fs) c =
     do { c \<leftarrow> cn_callback so_error selfConnect f c; cn_callbacks so_error selfConnect fs c }"

definition cn_handleEvent :: "timestamp \<Rightarrow> events \<Rightarrow> int \<Rightarrow> bool \<Rightarrow> connector \<Rightarrow> connector option" where
  "cn_handleEvent now ev so_error selfConnect c =
     do { ch \<leftarrow> cn_channel c;
          let ch = set_revents ev ch;
          cn_callbacks so_error selfConnect (handleEvent (\<lambda>_. True) now ch) (c\<lparr>cn_channel := Some ch\<rparr>) }"

fun cn_step :: "conn_event \<Rightarrow> connector \<Rightarrow> connector option" where
  "cn_step (CE_start inLoop sockfd err) c = cn_start inLoop sockfd err c"
| "cn_step CE_stop c = Some (cn_stop c)"
| "cn_step (CE_restart sockfd err) c = cn_restart sockfd err c"
| "cn_step (CE_pending sockfd err) c =
     (case cn_pending c of [] \<Rightarrow> Some c | f # fs \<Rightarrow> cn_functor sockfd err f (c\<lparr>cn_pending := fs\<rparr>))"
| "cn_step (CE_timer sockfd err) c =
     (if cn_timers c > 0 then cn_startInLoop sockfd err (c\<lparr>cn_timers := cn_timers c - 1\<rparr>) else Some c)"
| "cn_step (CE_event now ev so_error selfConnect) c = cn_handleEvent now ev so_error selfConnect c"

text \<open>
  \<open>attempts\<close>: connection attempts under way or scheduled. A client starts a connector when none is
  and its channel is gone, and restarts it when the connection it was given has ended. Events come, with any flags,
  from a channel that is registered, and the functor that resets the channel runs before any timer does.
\<close>

definition cn_registered :: "connector \<Rightarrow> bool" where
  "cn_registered c \<longleftrightarrow> (\<exists>ch. cn_channel c = Some ch \<and> addedToLoop ch)"

definition attempts :: "connector \<Rightarrow> nat" where
  "attempts c = cn_timers c + count_list (cn_pending c) CF_start + (if cn_state c = C_kConnecting then 1 else 0)"

definition cn_legal :: "conn_event \<Rightarrow> connector \<Rightarrow> bool" where
  "cn_legal e c \<longleftrightarrow> (case e of
       CE_start inLoop sockfd err \<Rightarrow> attempts c = 0 \<and> cn_channel c = None \<and> cn_state c = C_kDisconnected \<and> CF_reset \<notin> set (cn_pending c)
     | CE_restart sockfd err \<Rightarrow> attempts c = 0 \<and> cn_channel c = None \<and> CF_reset \<notin> set (cn_pending c)
     | CE_timer sockfd err \<Rightarrow> CF_reset \<notin> set (cn_pending c)
     | CE_event _ _ _ _ \<Rightarrow> cn_registered c
     | _ \<Rightarrow> True)"

inductive cn_reach :: "connector \<Rightarrow> bool" where
  New: "cn_reach mk_connector"
| Next: "cn_reach c \<Longrightarrow> cn_legal e c \<Longrightarrow> cn_step e c = Some c' \<Longrightarrow> cn_reach c'"

inductive_cases cn_reachE: "cn_reach c"

fun c_got :: "conn_effect \<Rightarrow> fd list" where
  "c_got (C_socket f) = [f]" | "c_got _ = []"

fun c_gone :: "conn_effect \<Rightarrow> fd list" where
  "c_gone (C_close f) = [f]" | "c_gone (C_hand f) = [f]" | "c_gone _ = []"

text \<open>The delay of the next retry after a trace.\<close>

fun step_delay :: "conn_effect \<Rightarrow> int \<Rightarrow> int" where
  "step_delay C_restart d = 500"
| "step_delay (C_retry _) d = min (d * 2) 30000"
| "step_delay _ d = d"

definition next_delay :: "conn_effect list \<Rightarrow> int" where
  "next_delay tr = fold step_delay tr 500"

definition delays_ok :: "conn_effect list \<Rightarrow> bool" where
  "delays_ok tr \<longleftrightarrow> (\<forall>k d. k < length tr \<longrightarrow> tr ! k = C_retry d \<longrightarrow> d = next_delay (take k tr))"

lemma next_delay_append [simp]: "next_delay (tr @ es) = fold step_delay es (next_delay tr)" "next_delay [] = 500"
  by (simp_all add: next_delay_def)

lemma delays_ok_snoc [simp]:
  "delays_ok (tr @ [e]) \<longleftrightarrow> delays_ok tr \<and> (\<forall>d. e = C_retry d \<longrightarrow> d = next_delay tr)" "delays_ok []"
  by (auto simp: delays_ok_def nth_append less_Suc_eq)

lemma delays_ok_two [simp]:
  "delays_ok (tr @ [a, b]) \<longleftrightarrow> delays_ok (tr @ [a]) \<and> (\<forall>d. b = C_retry d \<longrightarrow> d = next_delay (tr @ [a]))"
  using delays_ok_snoc(1) [of "tr @ [a]" b] by simp

definition cn_open :: "connector \<Rightarrow> fd multiset" where
  "cn_open c = (case cn_channel c of Some ch \<Rightarrow> if cn_state c = C_kConnecting then {# ch_fd ch #} else {#} | None \<Rightarrow> {#})"

definition cn_ledger :: "connector \<Rightarrow> bool" where
  "cn_ledger c \<longleftrightarrow> mset (concat (map c_got (cn_trace c))) = mset (concat (map c_gone (cn_trace c))) + cn_open c
     \<and> retryDelayMs c = next_delay (cn_trace c) \<and> delays_ok (cn_trace c)"

definition cn_shape :: "connector \<Rightarrow> bool" where
  "cn_shape c \<longleftrightarrow> attempts c \<le> 1
     \<and> (cn_state c = C_kConnecting \<longrightarrow> cn_channel c \<noteq> None \<and> CF_reset \<notin> set (cn_pending c))
     \<and> (cn_channel c \<noteq> None \<longrightarrow> cn_state c = C_kConnecting \<or> CF_reset \<in> set (cn_pending c))
     \<and> count_list (cn_pending c) CF_reset \<le> 1
     \<and> (CF_start \<in> set (cn_pending c) \<longrightarrow> CF_reset \<notin> set (cn_pending c))
     \<and> (CF_start \<in> set (cn_pending c) \<or> cn_timers c > 0 \<longrightarrow> cn_state c = C_kDisconnected)
     \<and> (cn_registered c \<longrightarrow> cn_state c = C_kConnecting)
     \<and> (\<forall>ch. cn_channel c = Some ch \<longrightarrow> \<not> tied ch \<and> \<not> readCallback ch \<and> \<not> closeCallback ch)"

lemmas cn_ops = cn_emit_def cn_queue_def cn_setState_def Let_def

lemma cn_retry_ok:
  assumes "attempts c = 0 \<or> attempts c = 1 \<and> cn_state c = C_kConnecting" "CF_reset \<in> set (cn_pending c) \<or> cn_channel c = None"
    "count_list (cn_pending c) CF_reset \<le> 1" "CF_start \<notin> set (cn_pending c)"
    "mset (concat (map c_got (cn_trace c))) = mset (concat (map c_gone (cn_trace c))) + {# fd #}"
    "retryDelayMs c = next_delay (cn_trace c)" "delays_ok (cn_trace c)" "cn_timers c = 0"
    "\<not> cn_registered c" "\<forall>ch. cn_channel c = Some ch \<longrightarrow> \<not> tied ch \<and> \<not> readCallback ch \<and> \<not> closeCallback ch"
  shows "cn_shape (cn_retry fd c) \<and> cn_ledger (cn_retry fd c) \<and> cn_state (cn_retry fd c) = C_kDisconnected"
proof -
  have "count_list (cn_pending c) CF_start = 0" using assms(4) by (simp add: count_list_0_iff)
  with assms show ?thesis
    by (cases "want c")
      (auto simp: cn_retry_def cn_ops cn_shape_def cn_ledger_def cn_open_def attempts_def
        cn_registered_def kMaxRetryDelayMs_def split: option.splits)
qed

lemma cn_startInLoop_ok:
  assumes "cn_state c = C_kDisconnected" "cn_channel c = None" "attempts c = 0" "CF_reset \<notin> set (cn_pending c)"
    "cn_ledger c"
  shows "\<exists>c'. cn_startInLoop fd err c = Some c' \<and> cn_shape c' \<and> cn_ledger c'"
proof -
  have zero: "cn_timers c = 0" "CF_start \<notin> set (cn_pending c)" "count_list (cn_pending c) CF_start = 0"
    "count_list (cn_pending c) CF_reset = 0"
    using assms(3,4) by (simp_all add: attempts_def count_list_0_iff split: if_splits)
  have same: "cn_shape c"
    using assms zero by (simp add: cn_shape_def cn_registered_def)
  define c1 where "c1 = cn_emit (C_socket fd) c"
  have c1: "cn_state c1 = C_kDisconnected" "cn_channel c1 = None" "cn_timers c1 = 0" "cn_pending c1 = cn_pending c"
    "retryDelayMs c1 = next_delay (cn_trace c1)" "delays_ok (cn_trace c1)"
    "mset (concat (map c_got (cn_trace c1))) = mset (concat (map c_gone (cn_trace c1))) + {# fd #}"
    using assms zero by (simp_all add: c1_def cn_emit_def cn_ledger_def cn_open_def)
  have conn: "\<exists>c'. cn_connecting fd c1 = Some c' \<and> cn_shape c' \<and> cn_ledger c'"
    using c1 zero assms(4) 
    by (simp add: cn_connecting_def cn_ops cn_shape_def cn_ledger_def cn_open_def attempts_def mk_channel_def
        setErrorCallback_def setWriteCallback_def cn_registered_def)
  have retry: "cn_shape (cn_retry fd c1) \<and> cn_ledger (cn_retry fd c1) \<and> cn_state (cn_retry fd c1) = C_kDisconnected"
    by (rule cn_retry_ok) (use c1 zero in \<open>simp_all add: attempts_def cn_registered_def\<close>)
  have other: "cn_shape (cn_emit (C_close fd) c1) \<and> cn_ledger (cn_emit (C_close fd) c1)"
    using c1 zero assms(4) by (simp add: cn_emit_def cn_shape_def cn_ledger_def cn_open_def attempts_def cn_registered_def)
  show ?thesis
  proof (cases "want c")
    case False
    with assms same show ?thesis by (simp add: cn_startInLoop_def)
  next
    case True
    with assms(1) have "cn_startInLoop fd err c = cn_connect fd err c" by (simp add: cn_startInLoop_def)
    moreover have "cn_connect fd err c = cn_connecting fd c1 \<or> cn_connect fd err c = Some (cn_retry fd c1)
        \<or> cn_connect fd err c = Some (cn_emit (C_close fd) c1)"
      by (simp add: cn_connect_def c1_def Let_def)
    ultimately show ?thesis using conn retry other by auto
  qed
qed

lemma cn_remove_ok:
  assumes "cn_shape c" "cn_ledger c" "cn_state c = C_kConnecting"
  shows "\<exists>f c'. cn_removeAndResetChannel c = Some (f, c') \<and> cn_state c' = C_kConnecting \<and> CF_reset \<in> set (cn_pending c')
     \<and> count_list (cn_pending c') CF_reset \<le> 1 \<and> CF_start \<notin> set (cn_pending c') \<and> cn_timers c' = 0 \<and> want c' = want c
     \<and> retryDelayMs c' = next_delay (cn_trace c') \<and> delays_ok (cn_trace c')
     \<and> mset (concat (map c_got (cn_trace c'))) = mset (concat (map c_gone (cn_trace c'))) + {# f #}
     \<and> \<not> cn_registered c' \<and> (\<forall>ch. cn_channel c' = Some ch \<longrightarrow> \<not> tied ch \<and> \<not> readCallback ch \<and> \<not> closeCallback ch)
     \<and> (\<forall>s. cn_removeAndResetChannel (c\<lparr>cn_state := s\<rparr>) = Some (f, c'\<lparr>cn_state := s\<rparr>))"
proof -
  from assms obtain ch where ch: "cn_channel c = Some ch" by (auto simp: cn_shape_def)
  have zero: "cn_timers c = 0" "count_list (cn_pending c) CF_start = 0" "CF_reset \<notin> set (cn_pending c)"
    using assms by (simp_all add: cn_shape_def attempts_def)
  then have "CF_start \<notin> set (cn_pending c)" "count_list (cn_pending c) CF_reset = 0"
    by (simp_all add: count_list_0_iff)
  moreover have "\<not> tied ch \<and> \<not> readCallback ch \<and> \<not> closeCallback ch" using assms(1) ch by (simp add: cn_shape_def)
  ultimately show ?thesis using zero ch assms(2,3)
    by (simp add: cn_removeAndResetChannel_def cn_ops cn_ledger_def cn_open_def cn_registered_def)
qed

lemma cn_handleError_ok:
  assumes "cn_shape c" "cn_ledger c" "cn_state c = C_kConnecting"
  shows "\<exists>c'. cn_handleError c = Some c' \<and> cn_shape c' \<and> cn_ledger c' \<and> cn_state c' = C_kDisconnected"
proof -
  obtain f c' where r: "cn_removeAndResetChannel c = Some (f, c')" "cn_state c' = C_kConnecting"
    "CF_reset \<in> set (cn_pending c')" "count_list (cn_pending c') CF_reset \<le> 1" "CF_start \<notin> set (cn_pending c')"
    "cn_timers c' = 0" "retryDelayMs c' = next_delay (cn_trace c')" "delays_ok (cn_trace c')"
    "mset (concat (map c_got (cn_trace c'))) = mset (concat (map c_gone (cn_trace c'))) + {# f #}"
    "\<not> cn_registered c'" "\<forall>ch. cn_channel c' = Some ch \<longrightarrow> \<not> tied ch \<and> \<not> readCallback ch \<and> \<not> closeCallback ch"
    using cn_remove_ok [OF assms] by blast
  have "cn_shape (cn_retry f c') \<and> cn_ledger (cn_retry f c') \<and> cn_state (cn_retry f c') = C_kDisconnected"
    by (rule cn_retry_ok) (use r in \<open>simp_all add: attempts_def count_list_0_iff\<close>)
  then show ?thesis using r(1) assms(3) by (simp add: cn_handleError_def)
qed

lemma cn_handleWrite_ok:
  assumes "cn_shape c" "cn_ledger c" "cn_state c \<noteq> C_kConnected"
  shows "\<exists>c'. cn_handleWrite so_error selfConnect c = Some c' \<and> cn_shape c' \<and> cn_ledger c'"
proof (cases "cn_state c = C_kConnecting")
  case True
  obtain f c' where r: "cn_removeAndResetChannel c = Some (f, c')" "cn_state c' = C_kConnecting"
    "CF_reset \<in> set (cn_pending c')" "count_list (cn_pending c') CF_reset \<le> 1" "CF_start \<notin> set (cn_pending c')"
    "cn_timers c' = 0" "retryDelayMs c' = next_delay (cn_trace c')" "delays_ok (cn_trace c')"
    "mset (concat (map c_got (cn_trace c'))) = mset (concat (map c_gone (cn_trace c'))) + {# f #}"
    "\<not> cn_registered c'" "\<forall>ch. cn_channel c' = Some ch \<longrightarrow> \<not> tied ch \<and> \<not> readCallback ch \<and> \<not> closeCallback ch"
    using cn_remove_ok [OF assms(1,2) True] by blast
  have "cn_shape (cn_retry f c') \<and> cn_ledger (cn_retry f c') \<and> cn_state (cn_retry f c') = C_kDisconnected"
    by (rule cn_retry_ok) (use r in \<open>simp_all add: attempts_def count_list_0_iff\<close>)
  moreover have "cn_shape (cn_emit x (cn_setState C_kConnected c')) \<and> cn_ledger (cn_emit x (cn_setState C_kConnected c'))"
    if "x = C_hand f \<or> x = C_close f" for x
    using r that by (auto simp: cn_shape_def cn_ledger_def cn_ops attempts_def cn_open_def count_list_0_iff cn_registered_def split: option.splits)
  ultimately show ?thesis using r(1) True by (simp add: cn_handleWrite_def Let_def)
next
  case False
  then have "cn_state c = C_kDisconnected" using assms(3) by (cases "cn_state c") simp_all
  with assms show ?thesis by (simp add: cn_handleWrite_def)
qed

text \<open>Whatever flags \<open>poll\<close> reports: nothing, the error callback, the write callback, or one after the other, in which case
  the write callback finds the connector disconnected.\<close>

lemma cn_handleEvent_ok:
  assumes "cn_shape c" "cn_ledger c" "cn_registered c"
  shows "\<exists>c'. cn_handleEvent now ev so_error selfConnect c = Some c' \<and> cn_shape c' \<and> cn_ledger c'"
proof -
  obtain ch where ch: "cn_channel c = Some ch" using assms(3) by (auto simp: cn_registered_def)
  define c1 where "c1 = c\<lparr>cn_channel := Some (set_revents ev ch)\<rparr>"
  have c1: "cn_shape c1" "cn_ledger c1" "cn_state c1 = C_kConnecting"
    using assms ch by (auto simp: c1_def cn_shape_def cn_ledger_def cn_open_def cn_registered_def attempts_def set_revents_def split: if_splits)
  obtain E W where cb: "handleEvent (\<lambda>_. True) now (set_revents ev ch) = (if E then [ErrorCallback] else []) @ (if W then [WriteCallback] else [])"
    "E \<longleftrightarrow> ev AND (POLLERR OR POLLNVAL) \<noteq> 0 \<and> errorCallback ch" "W \<longleftrightarrow> ev AND POLLOUT \<noteq> 0 \<and> writeCallback ch"
    using assms(1) ch by (auto simp: cn_shape_def handleEvent_def handleEventWithGuard_def set_revents_def)
  obtain c2 where c2: "cn_handleError c1 = Some c2" "cn_shape c2" "cn_ledger c2" "cn_state c2 = C_kDisconnected"
    using cn_handleError_ok [OF c1] by blast
  obtain c3 where c3: "cn_handleWrite so_error selfConnect c1 = Some c3" "cn_shape c3" "cn_ledger c3"
    using cn_handleWrite_ok [OF c1(1,2)] c1(3) by auto
  obtain c4 where c4: "cn_handleWrite so_error selfConnect c2 = Some c4" "cn_shape c4" "cn_ledger c4"
    using cn_handleWrite_ok [OF c2(2,3)] c2(4) by auto
  have "cn_handleEvent now ev so_error selfConnect c
      = cn_callbacks so_error selfConnect ((if E then [ErrorCallback] else []) @ (if W then [WriteCallback] else [])) c1"
    using ch cb(1) by (simp add: cn_handleEvent_def c1_def Let_def)
  then show ?thesis using c1 c2 c3 c4 by (cases E; cases W) simp_all
qed

lemma cn_step_ok:
  assumes "cn_shape c" "cn_ledger c" "cn_legal e c"
  shows "\<exists>c'. cn_step e c = Some c' \<and> cn_shape c' \<and> cn_ledger c'"
proof (cases e)
  case (CE_start inLoop sockfd err)
  define c1 where "c1 = c\<lparr>want := True\<rparr>"
  have c1: "cn_state c1 = C_kDisconnected" "cn_channel c1 = None" "attempts c1 = 0" "CF_reset \<notin> set (cn_pending c1)" "cn_ledger c1"
    using assms CE_start by (auto simp: c1_def cn_legal_def attempts_def cn_ledger_def cn_open_def)
  have "cn_shape (cn_queue CF_start c1) \<and> cn_ledger (cn_queue CF_start c1)"
    using c1 by (auto simp: cn_shape_def cn_ledger_def cn_open_def cn_queue_def attempts_def count_list_0_iff cn_registered_def)
  with cn_startInLoop_ok [OF c1] CE_start show ?thesis
    by (auto simp: cn_start_def c1_def [symmetric] Let_def)
next
  case CE_stop
  with assms show ?thesis
    by (simp add: cn_stop_def cn_shape_def cn_ledger_def cn_open_def cn_queue_def attempts_def cn_registered_def cong: if_cong option.case_cong split del: if_split)
next
  case (CE_restart sockfd err)
  define c1 where "c1 = (cn_emit C_restart (cn_setState C_kDisconnected c))\<lparr>retryDelayMs := kInitRetryDelayMs, want := True\<rparr>"
  have "cn_state c1 = C_kDisconnected" "cn_channel c1 = None" "attempts c1 = 0" "CF_reset \<notin> set (cn_pending c1)" "cn_ledger c1"
    using assms CE_restart
    by (auto simp: c1_def cn_legal_def attempts_def cn_ledger_def cn_open_def cn_ops kInitRetryDelayMs_def split: if_splits)
  from cn_startInLoop_ok [OF this] CE_restart show ?thesis by (simp add: cn_restart_def c1_def Let_def)
next
  case (CE_pending sockfd err)
  show ?thesis
  proof (cases "cn_pending c")
    case Nil
    with assms CE_pending show ?thesis by simp
  next
    case (Cons f fs)
    define c1 where "c1 = c\<lparr>cn_pending := fs\<rparr>"
    show ?thesis
    proof (cases f)
      case CF_start
      have "cn_state c1 = C_kDisconnected" "cn_channel c1 = None" "attempts c1 = 0" "CF_reset \<notin> set (cn_pending c1)" "cn_ledger c1"
        using assms Cons CF_start by (auto simp: c1_def attempts_def cn_ledger_def cn_open_def cn_shape_def)
      from cn_startInLoop_ok [OF this] CE_pending Cons CF_start show ?thesis by (simp add: c1_def)
    next
      case CF_reset
      with assms Cons have "cn_state c \<noteq> C_kConnecting" by (auto simp: cn_shape_def)
      with assms Cons CF_reset CE_pending show ?thesis
        by (auto simp: cn_resetChannel_def attempts_def cn_ledger_def cn_open_def cn_shape_def cn_registered_def count_list_0_iff split: option.splits)
    next
      case CF_stop
      have s1: "cn_shape c1" "cn_ledger c1"
        using assms Cons CF_stop
        by (simp_all add: c1_def attempts_def cn_ledger_def cn_open_def cn_shape_def cn_registered_def cong: if_cong option.case_cong split del: if_split)
      show ?thesis
      proof (cases "cn_state c1 = C_kConnecting")
        case False
        with s1 CE_pending Cons CF_stop show ?thesis by (simp add: cn_stopInLoop_def c1_def)
      next
        case True
        obtain f c' where r: "cn_removeAndResetChannel (c1\<lparr>cn_state := C_kDisconnected\<rparr>) = Some (f, c'\<lparr>cn_state := C_kDisconnected\<rparr>)"
          "CF_reset \<in> set (cn_pending c')" "count_list (cn_pending c') CF_reset \<le> 1" "CF_start \<notin> set (cn_pending c')"
          "cn_timers c' = 0" "retryDelayMs c' = next_delay (cn_trace c')" "delays_ok (cn_trace c')"
          "mset (concat (map c_got (cn_trace c'))) = mset (concat (map c_gone (cn_trace c'))) + {# f #}"
          "\<not> cn_registered c'" "\<forall>ch. cn_channel c' = Some ch \<longrightarrow> \<not> tied ch \<and> \<not> readCallback ch \<and> \<not> closeCallback ch"
          using cn_remove_ok [OF s1 True] by blast
        have "cn_shape (cn_retry f (c'\<lparr>cn_state := C_kDisconnected\<rparr>)) \<and> cn_ledger (cn_retry f (c'\<lparr>cn_state := C_kDisconnected\<rparr>))
            \<and> cn_state (cn_retry f (c'\<lparr>cn_state := C_kDisconnected\<rparr>)) = C_kDisconnected"
          by (rule cn_retry_ok) (use r in \<open>simp_all add: attempts_def count_list_0_iff cn_registered_def\<close>)
        with r(1) True CE_pending Cons CF_stop show ?thesis by (simp add: cn_stopInLoop_def c1_def cn_setState_def)
      qed
    qed
  qed
next
  case (CE_timer sockfd err)
  show ?thesis
  proof (cases "cn_timers c > 0")
    case False
    with assms CE_timer show ?thesis by simp
  next
    case True
    define c1 where "c1 = c\<lparr>cn_timers := cn_timers c - 1\<rparr>"
    have "cn_state c1 = C_kDisconnected" "cn_channel c1 = None" "attempts c1 = 0" "CF_reset \<notin> set (cn_pending c1)" "cn_ledger c1"
      using assms True CE_timer by (auto simp: c1_def attempts_def cn_ledger_def cn_open_def cn_shape_def cn_legal_def)
    from cn_startInLoop_ok [OF this] CE_timer True show ?thesis by (simp add: c1_def)
  qed
next
  case (CE_event now ev so_error selfConnect)
  then show ?thesis using cn_handleEvent_ok [OF assms(1,2)] assms(3) by (simp add: cn_legal_def)
qed

lemma cn_reach_ok: "cn_reach c \<Longrightarrow> cn_shape c \<and> cn_ledger c"
proof (induction rule: cn_reach.induct)
  case New
  show ?case
    by (simp add: mk_connector_def cn_shape_def cn_ledger_def cn_open_def attempts_def cn_registered_def kInitRetryDelayMs_def)
next
  case (Next c e c')
  then show ?case using cn_step_ok by fastforce
qed



lemma fold_retries:
  "fold step_delay (map C_retry ds) (min (500 * 2 ^ k) 30000) = min (500 * 2 ^ (k + length ds)) 30000"
proof (induction ds arbitrary: k)
  case (Cons d ds)
  have "min (min (500 * 2 ^ k) 30000 * 2) 30000 = min (500 * 2 ^ Suc k) (30000::int)" by (auto simp: min_def)
  then show ?case using Cons [of "Suc k"] by simp
qed simp

lemma next_delay_retries:
  assumes "\<forall>e \<in> set es. (\<exists>d. e = C_retry d) \<or> step_delay e = id"
  shows "fold step_delay es (min (500 * 2 ^ k) 30000) = min (500 * 2 ^ (k + length (filter (\<lambda>e. \<exists>d. e = C_retry d) es))) 30000"
  using assms
proof (induction es arbitrary: k)
  case (Cons e es)
  show ?case
  proof (cases "\<exists>d. e = C_retry d")
    case True
    have "min (min (500 * 2 ^ k) 30000 * 2) 30000 = min (500 * 2 ^ Suc k) (30000::int)" by (auto simp: min_def)
    then show ?thesis using Cons.IH [of "Suc k"] Cons.prems True by auto
  next
    case False
    with Cons show ?thesis by (auto simp: id_def)
  qed
qed simp

lemma step_delay_id: "(\<forall>d. e \<noteq> C_retry d) \<Longrightarrow> e \<noteq> C_restart \<Longrightarrow> step_delay e = id"
  by (cases e) (auto simp: fun_eq_iff)

text \<open>C28: Retries back off exponentially: as long as the connector is not restarted, the \<open>n\<close>-th retry is scheduled
  after \<open>500 * 2 ^ n\<close> milliseconds, but never after more than 30 seconds.\<close>

theorem connector_backoff:
  assumes "cn_reach c" "C_restart \<notin> set (take k (cn_trace c))" "k < length (cn_trace c)" "cn_trace c ! k = C_retry d"
  shows "d = min (500 * 2 ^ length (filter (\<lambda>e. \<exists>d. e = C_retry d) (take k (cn_trace c)))) 30000"
proof -
  have "d = next_delay (take k (cn_trace c))"
    using cn_reach_ok [OF assms(1)] assms(3,4) by (simp add: cn_ledger_def delays_ok_def)
  also have "\<dots> = fold step_delay (take k (cn_trace c)) (min (500 * 2 ^ 0) 30000)" by (simp add: next_delay_def)
  also have "\<dots> = min (500 * 2 ^ (0 + length (filter (\<lambda>e. \<exists>d. e = C_retry d) (take k (cn_trace c))))) 30000"
    by (rule next_delay_retries) (use assms(2) step_delay_id in blast)
  finally show ?thesis by simp
qed

theorem connector_backoff_witness:
  "\<exists>c. cn_step (CE_start True 7 ECONNREFUSED) mk_connector = Some c \<and> cn_trace c ! 2 = C_retry 500"
proof -
  obtain c where c: "cn_step (CE_start True 7 ECONNREFUSED) mk_connector = Some c"
    "cn_trace c = [C_socket 7, C_close 7, C_retry 500]"
    by (simp add: cn_start_def cn_startInLoop_def cn_connect_def cn_retry_def cn_ops mk_connector_def errno_defs
        kInitRetryDelayMs_def)
  have "cn_reach c"
    by (rule cn_reach.Next [OF cn_reach.New _ c(1)]) (simp add: cn_legal_def mk_connector_def attempts_def)
  from connector_backoff [OF this, of 2 500] c show ?thesis by (simp add: numeral_2_eq_2)
qed

text \<open>A second \<open>start()\<close> while an attempt is under way, and a \<open>stop(); start()\<close> in the loop's thread, fail the
  assertion of \<open>startInLoop\<close>; a timer that was not cancelled by \<open>stop()\<close> can fail it later.\<close>

lemma start_twice_fails:
  "cn_state c = C_kConnecting \<Longrightarrow> cn_step (CE_start True fd err) c = None"
  "cn_state c = C_kConnecting \<Longrightarrow> do { c \<leftarrow> cn_step CE_stop c; cn_step (CE_start True fd err) c } = None"
  "cn_state c = C_kConnecting \<Longrightarrow> cn_timers c > 0 \<Longrightarrow> cn_step (CE_timer fd err) c = None"
  by (simp_all add: cn_start_def cn_startInLoop_def cn_stop_def cn_queue_def)

end
