(* ===== verification/Decimal.thy ===== *)
theory Decimal
  imports Prelude
begin

section \<open>Decimal text\<close>

text \<open>What \<open>printf("%d")\<close> writes, its inverse, and what \<open>atoi\<close> reads. Shared by the parts of the program that
  print and parse numbers.\<close>

definition digit_char :: "nat \<Rightarrow> char" where "digit_char d = char_of (48 + d)"
definition char_digit :: "char \<Rightarrow> nat" where "char_digit c = of_char c - 48"
definition is_digit :: "char \<Rightarrow> bool" where "is_digit c \<longleftrightarrow> 48 \<le> (of_char c :: nat) \<and> (of_char c :: nat) \<le> 57"

fun dec_nat :: "nat \<Rightarrow> string" where
  "dec_nat n = (if n < 10 then [digit_char n] else dec_nat (n div 10) @ [digit_char (n mod 10)])"

declare dec_nat.simps [simp del]

definition dec_int :: "int \<Rightarrow> string" where
  "dec_int i = (if i < 0 then CHR ''-'' # dec_nat (nat (- i)) else dec_nat (nat i))"

definition undec :: "string \<Rightarrow> nat" where
  "undec s = foldl (\<lambda>v c. v * 10 + char_digit c) 0 s"

lemma of_char_digit [simp]: "d < 10 \<Longrightarrow> (of_char (digit_char d) :: nat) = 48 + d"
  by (simp add: digit_char_def)

lemma char_digit_inverse [simp]: "d < 10 \<Longrightarrow> char_digit (digit_char d) = d"
  by (simp add: char_digit_def)

lemma is_digit_char [simp]: "d < 10 \<Longrightarrow> is_digit (digit_char d)"
  by (simp add: is_digit_def)

lemma undec_snoc [simp]: "undec (s @ [c]) = undec s * 10 + char_digit c"
  by (simp add: undec_def)

lemma undec_Nil [simp]: "undec [] = 0"
  by (simp add: undec_def)

lemma undec_dec_nat [simp]: "undec (dec_nat n) = n"
proof (induction n rule: dec_nat.induct)
  case (1 n)
  show ?case
  proof (cases "n < 10")
    case True
    then show ?thesis using undec_snoc [of "[]" "digit_char n"] by (simp add: dec_nat.simps)
  next
    case False
    with 1 show ?thesis by (simp add: dec_nat.simps [of n])
  qed
qed

lemma dec_nat_inject [simp]: "dec_nat m = dec_nat n \<longleftrightarrow> m = n"
  by (metis undec_dec_nat)

lemma dec_nat_digits: "\<forall>c \<in> set (dec_nat n). is_digit c"
proof (induction n rule: dec_nat.induct)
  case (1 n)
  then show ?case by (cases "n < 10") (simp_all add: dec_nat.simps [of n])
qed

lemma dec_nat_not_Nil [simp]: "dec_nat n \<noteq> []"
  by (simp add: dec_nat.simps)

lemma length_dec_nat: "0 < k \<Longrightarrow> n < 10 ^ k \<Longrightarrow> length (dec_nat n) \<le> k"
proof (induction n arbitrary: k rule: dec_nat.induct)
  case (1 n)
  show ?case
  proof (cases "n < 10")
    case True
    with 1 show ?thesis by (simp add: dec_nat.simps)
  next
    case False
    then obtain j where j: "k = Suc j" "0 < j" using 1(3) 1(2)
      by (cases k; cases "k - 1") auto
    then have "n div 10 < 10 ^ j" using 1(3) by simp
    with 1(1) [OF False j(2)] False j show ?thesis by (simp add: dec_nat.simps [of n])
  qed
qed

text \<open>The digits of a number never contain a character that is not a digit.\<close>

lemma dec_nat_split:
  assumes "\<not> is_digit c" "xs @ c # dec_nat m = ys @ c # dec_nat n"
  shows "xs = ys \<and> m = n"
proof -
  have m: "c \<notin> set (dec_nat k)" for k using dec_nat_digits assms(1) by blast
  have "takeWhile (\<lambda>x. x \<noteq> c) (rev (dec_nat k) @ c # rev zs) = rev (dec_nat k)" for k zs
    using m [of k] by (auto simp: takeWhile_tail)
  moreover have "rev (dec_nat m) @ c # rev xs = rev (dec_nat n) @ c # rev ys"
    using arg_cong [OF assms(2), of rev] by simp
  ultimately have "rev (dec_nat m) = rev (dec_nat n)" by metis
  with assms(2) show ?thesis by simp
qed

subsection \<open>\<open>atoi\<close>\<close>

text \<open>Leading white space, an optional sign, then as many digits as follow; a value that does not fit an
  \<open>int\<close> is undefined in C and left to the caller's bound.\<close>

definition is_space :: "char \<Rightarrow> bool" where
  "is_space c \<longleftrightarrow> c = CHR '' '' \<or> (9 \<le> (of_char c :: nat) \<and> (of_char c :: nat) \<le> 13)"

definition atoi :: "string \<Rightarrow> int" where
  "atoi s =
     (let s = dropWhile is_space s in
      case s of
        [] \<Rightarrow> 0
      | c # t \<Rightarrow> if c = CHR ''-'' then - int (undec (takeWhile is_digit t))
                 else if c = CHR ''+'' then int (undec (takeWhile is_digit t))
                 else int (undec (takeWhile is_digit s)))"

lemma digit_not_space: "is_digit c \<Longrightarrow> \<not> is_space c \<and> c \<noteq> CHR ''-'' \<and> c \<noteq> CHR ''+''"
  by (auto simp: is_digit_def is_space_def)

lemma takeWhile_dec_nat [simp]: "takeWhile is_digit (dec_nat n) = dec_nat n"
  using dec_nat_digits [of n] by (simp add: takeWhile_eq_all_conv)

lemma atoi_dec_int: "atoi (dec_int i) = i"
proof (cases "i < 0")
  case True
  then show ?thesis by (simp add: dec_int_def atoi_def is_space_def)
next
  case False
  obtain c t where ct: "dec_nat (nat i) = c # t" by (cases "dec_nat (nat i)") auto
  then have "is_digit c" using dec_nat_digits [of "nat i"] by simp
  then have c: "\<not> is_space c" "c \<noteq> CHR ''-''" "c \<noteq> CHR ''+''" using digit_not_space by auto
  have "atoi (dec_int i) = int (undec (takeWhile is_digit (dec_nat (nat i))))"
    using False c by (simp add: dec_int_def atoi_def ct)
  then show ?thesis using False by simp
qed

end
