(* ===== verification/Net_TcpServer.thy ===== *)
theory Net_TcpServer
  imports Net_TcpConnection Net_EventLoopThread Net_Connect Decimal
begin

section \<open>Servers and clients: \<open>net/TcpServer.cc\<close>, \<open>net/TcpClient.cc\<close>\<close>

subsection \<open>What a connection does to its owner\<close>

text \<open>A step of a connection calls \<open>closeCallback_\<close> exactly when it disconnects it.\<close>

definition closed_once :: "tcp_conn \<Rightarrow> bool" where
  "closed_once c \<longleftrightarrow> (E_close \<in> set (trace c) \<longleftrightarrow> conn_state c = kDisconnected)"

definition keeps :: "tcp_conn \<Rightarrow> tcp_conn \<Rightarrow> bool" where
  "keeps c c' \<longleftrightarrow> (closed_once c \<longrightarrow> closed_once c') \<and> (addedToLoop (chan c) \<longrightarrow> addedToLoop (chan c'))
     \<and> (conn_state c = kDisconnected \<longrightarrow> conn_state c' = kDisconnected)
     \<and> (conn_state c' = kConnecting \<longleftrightarrow> conn_state c = kConnecting)"

lemma keeps_refl [simp]: "keeps c c" by (simp add: keeps_def)

lemma keeps_trans: "keeps a b \<Longrightarrow> keeps b c \<Longrightarrow> keeps a c" by (auto simp: keeps_def)

lemma keeps_emit [simp]: "e \<noteq> E_close \<Longrightarrow> keeps c (emit e c)"
  by (auto simp: keeps_def closed_once_def)

lemma keeps_queue [simp]: "keeps c (queueInLoop f c)"
  by (auto simp: keeps_def closed_once_def)

lemma keeps_events [simp]: "keeps c (chan_events f c)"
  by (auto simp: keeps_def closed_once_def)

lemma keeps_fields [simp]:
  "keeps c (c\<lparr>outputBuffer := b\<rparr>)" "keeps c (c\<lparr>inputBuffer := b\<rparr>)" "keeps c (c\<lparr>pending := fs\<rparr>)" "keeps c (c\<lparr>reading := r\<rparr>)"
  "addedToLoop ch = addedToLoop (chan c) \<Longrightarrow> keeps c (c\<lparr>chan := ch\<rparr>)"
  by (simp_all add: keeps_def closed_once_def)

lemma keeps_if [simp]: "keeps c a \<Longrightarrow> keeps c b \<Longrightarrow> keeps c (if P then a else b)" by simp

lemma keeps_setState: "conn_state c = kConnected \<or> conn_state c = kDisconnecting \<Longrightarrow> keeps c (setState kDisconnecting c)"
  by (auto simp: keeps_def closed_once_def setState_def)

lemma keeps_shutdownInLoop [simp]: "keeps c (shutdownInLoop c)"
  by (simp add: shutdownInLoop_def)

lemma keeps_handleClose: "handleClose c = Some c' \<Longrightarrow> keeps c c'"
  by (auto simp: handleClose_def keeps_def closed_once_def setState_def chan_op_defs)

lemma keeps_enqueue: "enqueue_rest d c = Some c' \<Longrightarrow> keeps c c'"
proof -
  have "keeps c (chan_enableWriting (c\<lparr>outputBuffer := b\<rparr>))" for b
    unfolding chan_op_defs by (rule keeps_trans [OF keeps_fields(1) keeps_events])
  then show "enqueue_rest d c = Some c' \<Longrightarrow> keeps c c'"
    by (auto simp: enqueue_rest_def Let_def split: if_splits)
qed

lemma keeps_from:
  "keeps (queueInLoop f c) c' \<Longrightarrow> keeps c c'"
  "keeps (emit (E_accept d) c) c' \<Longrightarrow> keeps c c'" "keeps (emit (E_wrote d) c) c' \<Longrightarrow> keeps c c'"
  by (rule keeps_trans; simp)+

lemma keeps_sendInLoop: "sendInLoop sys d c = Some c' \<Longrightarrow> keeps c c'"
  unfolding sendInLoop_def enqueue_rest_def [unfolded Let_def, symmetric] Let_def
  by (auto dest!: keeps_enqueue keeps_from split: if_splits sum.splits
      intro: keeps_trans [OF keeps_emit keeps_emit] keeps_trans [OF keeps_trans [OF keeps_emit keeps_queue] keeps_emit])

lemma keeps_handleRead: "handleRead rd t c = Some c' \<Longrightarrow> keeps c c'"
  by (auto simp: handleRead_def Let_def dest!: keeps_handleClose split: if_splits
      intro: keeps_trans [OF keeps_fields(2)] keeps_trans [OF keeps_fields(2) keeps_emit])

lemma keeps_handleWrite:
  assumes "handleWrite sys c = Some c'"
  shows "keeps c c'"
proof -
  have w: "keeps c (emit (E_wrote x) (c\<lparr>outputBuffer := b\<rparr>))" for x b
    by (rule keeps_trans [OF keeps_fields(1) keeps_emit]) simp
  have d: "keeps c (chan_disableWriting c2)" if "keeps c c2" for c2
    unfolding chan_op_defs by (rule keeps_trans [OF that keeps_events])
  have s: "keeps c (shutdownInLoop c2)" "keeps c (queueInLoop f c2)" if "keeps c c2" for c2 f
    using keeps_trans [OF that] by simp_all
  show ?thesis
    using assms by (auto simp: handleWrite_def Let_def w d s split: if_splits sum.splits)
qed

lemma keeps_run_callback: "run_callback rd wr x c = Some c' \<Longrightarrow> keeps c c'"
  by (cases x) (auto simp: keeps_handleRead keeps_handleWrite keeps_handleClose handleError_def)

lemma keeps_run_callbacks: "run_callbacks rd wr xs c = Some c' \<Longrightarrow> keeps c c'"
  by (induction xs arbitrary: c) (auto dest!: keeps_run_callback intro: keeps_trans)

lemma keeps_dispatch: "dispatch re rd wr t c = Some c' \<Longrightarrow> keeps c c'"
proof -
  have "keeps c (c\<lparr>chan := set_revents re (chan c)\<rparr>)" by (simp add: set_revents_def)
  then show "dispatch re rd wr t c = Some c' \<Longrightarrow> keeps c c'"
    using keeps_run_callbacks keeps_trans unfolding dispatch_def Let_def by blast
qed

lemma keeps_readInLoop: "keeps c (startReadInLoop c)" "keeps c (stopReadInLoop c)"
proof -
  have "keeps c ((chan_events f c)\<lparr>reading := b\<rparr>)" for f b
    by (rule keeps_trans [OF keeps_events keeps_fields(4)])
  then show "keeps c (startReadInLoop c)" "keeps c (stopReadInLoop c)"
    by (simp_all add: startReadInLoop_def stopReadInLoop_def chan_op_defs)
qed

lemma keeps_run_functor: "run_functor sys f c = Some c' \<Longrightarrow> keeps c c'"
  by (cases f) (auto simp: keeps_readInLoop forceCloseInLoop_def dest!: keeps_sendInLoop keeps_handleClose split: if_splits)

lemma keeps_step:
  assumes "tcp_step e c = Some c'" "e \<noteq> Establish" "e \<noteq> Destroy"
  shows "keeps c c'"
proof (cases e)
  case (Run_pending sys)
  with assms(1) show ?thesis
    by (auto split: list.splits dest!: keeps_run_functor intro: keeps_trans [OF keeps_fields(3)])
next
  case (Call_shutdown inLoop)
  have "keeps c (shutdownInLoop (setState kDisconnecting c))" "keeps c (queueInLoop F_shutdown (setState kDisconnecting c))"
    if "conn_state c = kConnected"
    by (rule keeps_trans [OF keeps_setState]; simp add: that)+
  with assms(1) Call_shutdown show ?thesis by (auto simp: shutdown_def Let_def split: if_splits)
next
  case Call_forceClose
  have "keeps c (queueInLoop F_forceClose (setState kDisconnecting c))"
    if "conn_state c = kConnected \<or> conn_state c = kDisconnecting"
    by (rule keeps_trans [OF keeps_setState [OF that]]) simp
  with assms(1) Call_forceClose show ?thesis by (auto simp: forceClose_def split: if_splits)
next
  case (Call_forceCloseWithDelay us)
  have "keeps c (emit (E_runAfter us) (setState kDisconnecting c))"
    if "conn_state c = kConnected \<or> conn_state c = kDisconnecting"
    by (rule keeps_trans [OF keeps_setState [OF that]]) simp
  with assms(1) Call_forceCloseWithDelay show ?thesis by (auto simp: forceCloseWithDelay_def split: if_splits)
qed (use assms in \<open>auto simp: send_def startRead_def stopRead_def keeps_readInLoop split: if_splits
      dest!: keeps_sendInLoop keeps_dispatch\<close>)

subsection \<open>\<open>TcpServer\<close>\<close>

text \<open>
  A connection object is named by the number it was created with. \<open>conns\<close> holds all objects with
  their name and the index of their loop (0 is the server's own loop), \<open>connections\<close> is the map of
  the code. \<open>base_queue\<close> holds the \<open>removeConnectionInLoop\<close> functors queued in the server's loop,
  \<open>io_queue\<close> the functors queued for each connection in its loop. Loops of different threads may
  run their functors in any order.
\<close>

datatype srv_functor = IO_established | IO_destroyed

record tcp_server =
  srv_name :: string
  ipPort :: string
  srv_started :: bool
  srv_listening :: bool
  srv_pool :: loop_pool
  nextConnId :: nat
  connections :: "string \<Rightarrow> nat option"
  conns :: "nat \<Rightarrow> (tcp_conn \<times> string \<times> nat) option"
  base_queue :: "nat list"
  io_queue :: "nat \<Rightarrow> srv_functor list"

definition mk_tcp_server :: "string \<Rightarrow> string \<Rightarrow> tcp_server" where
  "mk_tcp_server nameArg listenAddr = \<lparr>srv_name = nameArg, ipPort = listenAddr, srv_started = False, srv_listening = False,
     srv_pool = mk_loop_pool nameArg, nextConnId = 1, connections = Map.empty, conns = Map.empty,
     base_queue = [], io_queue = (\<lambda>_. [])\<rparr>"

definition srv_setThreadNum :: "nat \<Rightarrow> tcp_server \<Rightarrow> tcp_server" where
  "srv_setThreadNum n s = s\<lparr>srv_pool := setThreadNum n (srv_pool s)\<rparr>"

definition srv_start :: "bool \<Rightarrow> tcp_server \<Rightarrow> tcp_server option" where
  "srv_start cb s =
     (if srv_started s then Some s
      else do { p \<leftarrow> pool_start cb (srv_pool s);
                assert_then (\<not> srv_listening s)
                  (Some (s\<lparr>srv_started := True, srv_pool := p, srv_listening := True\<rparr>)) })"

text \<open>\<open>snprintf\<close> into a buffer of 64 bytes keeps 63 characters.\<close>

definition conn_name :: "string \<Rightarrow> string \<Rightarrow> nat \<Rightarrow> string" where
  "conn_name nm ipp n = nm @ take 63 (''-'' @ ipp @ ''#'' @ dec_nat n)"

definition newConnection :: "fd \<Rightarrow> bool \<Rightarrow> tcp_server \<Rightarrow> tcp_server option" where
  "newConnection sockfd writeComplete s =
     do { (ioLoop, p) \<leftarrow> getNextLoop (srv_pool s);
          let n = nextConnId s;
          let connName = conn_name (srv_name s) (ipPort s) n;
          let conn = mk_tcp_conn sockfd;
          let conn = (if writeComplete then setWriteCompleteCallback conn else conn);
          let s = s\<lparr>srv_pool := p, nextConnId := n + 1, connections := (connections s)(connName \<mapsto> n)\<rparr>;
          if ioLoop = 0
          then do { conn \<leftarrow> connectEstablished conn; Some (s\<lparr>conns := (conns s)(n \<mapsto> (conn, connName, ioLoop))\<rparr>) }
          else Some (s\<lparr>conns := (conns s)(n \<mapsto> (conn, connName, ioLoop)),
                       io_queue := (io_queue s)(n := io_queue s n @ [IO_established])\<rparr>) }"

definition removeConnectionInLoop :: "nat \<Rightarrow> tcp_server \<Rightarrow> tcp_server option" where
  "removeConnectionInLoop n s =
     do { (c, connName, ioLoop) \<leftarrow> conns s n;
          assert_then (connections s connName \<noteq> None)
            (Some (s\<lparr>connections := (connections s)(connName := None),
                     io_queue := (io_queue s)(n := io_queue s n @ [IO_destroyed])\<rparr>)) }"

text \<open>Called by the connection's close callback, in the thread of the connection's loop.\<close>

definition removeConnection :: "nat \<Rightarrow> tcp_server \<Rightarrow> tcp_server option" where
  "removeConnection n s =
     do { (c, connName, ioLoop) \<leftarrow> conns s n;
          if ioLoop = 0 then removeConnectionInLoop n s else Some (s\<lparr>base_queue := base_queue s @ [n]\<rparr>) }"

text \<open>The destructor, run when the loops have nothing queued; \<open>order\<close> is the iteration order of the map.\<close>

fun tcp_server_dtor :: "nat list \<Rightarrow> tcp_server \<Rightarrow> tcp_server option" where
  "tcp_server_dtor [] s = Some s"
| "tcp_server_dtor (n # order) s =
     do { (c, connName, ioLoop) \<leftarrow> conns s n;
          c \<leftarrow> connectDestroyed c;
          u \<leftarrow> tcp_dtor c;
          tcp_server_dtor order (s\<lparr>conns := (conns s)(n := None)\<rparr>) }"

datatype srv_event =
    SV_start bool
  | SV_accept fd bool
  | SV_conn nat tcp_event
  | SV_io nat
  | SV_base

fun srv_step :: "srv_event \<Rightarrow> tcp_server \<Rightarrow> tcp_server option" where
  "srv_step (SV_start cb) s = srv_start cb s"
| "srv_step (SV_accept sockfd wc) s = newConnection sockfd wc s"
| "srv_step (SV_conn n e) s =
     do { (c, nm, l) \<leftarrow> conns s n;
          c' \<leftarrow> tcp_step e c;
          let s = s\<lparr>conns := (conns s)(n \<mapsto> (c', nm, l))\<rparr>;
          if E_close \<in> set (trace c') \<and> E_close \<notin> set (trace c) then removeConnection n s else Some s }"
| "srv_step (SV_io n) s =
     (case io_queue s n of
        [] \<Rightarrow> Some s
      | f # fs \<Rightarrow>
          do { (c, nm, l) \<leftarrow> conns s n;
               c \<leftarrow> (case f of IO_established \<Rightarrow> connectEstablished c | IO_destroyed \<Rightarrow> connectDestroyed c);
               Some (s\<lparr>conns := (conns s)(n \<mapsto> (c, nm, l)), io_queue := (io_queue s)(n := fs)\<rparr>) })"
| "srv_step SV_base s =
     (case base_queue s of [] \<Rightarrow> Some s | n # ns \<Rightarrow> removeConnectionInLoop n (s\<lparr>base_queue := ns\<rparr>))"

definition srv_legal :: "srv_event \<Rightarrow> tcp_server \<Rightarrow> bool" where
  "srv_legal e s \<longleftrightarrow> (case e of
       SV_start cb \<Rightarrow> True
     | SV_accept sockfd wc \<Rightarrow> srv_started s \<and> nextConnId s < 2 ^ 31
     | SV_conn n e \<Rightarrow> e \<noteq> Establish \<and> e \<noteq> Destroy \<and> (\<exists>c nm l. conns s n = Some (c, nm, l) \<and> legal e c)
     | SV_io n \<Rightarrow> True
     | SV_base \<Rightarrow> True)"

inductive srv_reach :: "string \<Rightarrow> string \<Rightarrow> nat \<Rightarrow> tcp_server \<Rightarrow> bool" for nm ipp threads where
  Srv_new: "srv_reach nm ipp threads (srv_setThreadNum threads (mk_tcp_server nm ipp))"
| Srv_next: "srv_reach nm ipp threads s \<Longrightarrow> srv_legal e s \<Longrightarrow> srv_step e s = Some s' \<Longrightarrow> srv_reach nm ipp threads s'"

inductive_cases srv_reachE: "srv_reach nm ipp threads s"

text \<open>The stages of a connection's life, as the server sees them.\<close>

definition stage :: "tcp_server \<Rightarrow> nat \<Rightarrow> tcp_conn \<Rightarrow> string \<Rightarrow> bool" where
  "stage s n c nm \<longleftrightarrow>
     (conn_state c = kConnecting \<and> io_queue s n = [IO_established] \<and> connections s nm = Some n \<and> n \<notin> set (base_queue s))
   \<or> (active c \<and> io_queue s n = [] \<and> connections s nm = Some n \<and> n \<notin> set (base_queue s))
   \<or> (conn_state c = kDisconnected \<and> addedToLoop (chan c) \<and> io_queue s n = [] \<and> connections s nm = Some n \<and> n \<in> set (base_queue s))
   \<or> (conn_state c = kDisconnected \<and> addedToLoop (chan c) \<and> io_queue s n = [IO_destroyed] \<and> connections s nm = None \<and> n \<notin> set (base_queue s))
   \<or> (conn_state c = kDisconnected \<and> \<not> addedToLoop (chan c) \<and> io_queue s n = [] \<and> connections s nm = None \<and> n \<notin> set (base_queue s))"

definition conn_ok :: "string \<Rightarrow> string \<Rightarrow> tcp_server \<Rightarrow> nat \<Rightarrow> bool" where
  "conn_ok nm ipp s n \<longleftrightarrow> (case conns s n of
       None \<Rightarrow> n \<notin> set (base_queue s) \<and> io_queue s n = [] \<and> connections s (conn_name nm ipp n) = None
     | Some (c, cn, l) \<Rightarrow> n < nextConnId s \<and> cn = conn_name nm ipp n \<and> tcp_inv (\<lambda>_. 0) 0 c \<and> closed_once c \<and> stage s n c cn)"

definition srv_inv :: "string \<Rightarrow> string \<Rightarrow> tcp_server \<Rightarrow> bool" where
  "srv_inv nm ipp s \<longleftrightarrow> srv_name s = nm \<and> ipPort s = ipp \<and> nextConnId s \<le> 2 ^ 31
     \<and> (srv_started s \<longleftrightarrow> pool_started (srv_pool s)) \<and> (srv_listening s \<longleftrightarrow> srv_started s)
     \<and> distinct (base_queue s) \<and> (\<forall>n < 2 ^ 31. conn_ok nm ipp s n) \<and> (\<forall>n \<ge> 2 ^ 31. conns s n = None \<and> n \<notin> set (base_queue s) \<and> io_queue s n = [])
     \<and> (\<forall>n. conns s n \<noteq> None \<longrightarrow> n < nextConnId s)"

lemma conn_name_inject:
  assumes "length ipp \<le> 51" "m < 2 ^ 31" "n < 2 ^ 31" "conn_name nm ipp m = conn_name nm ipp n"
  shows "m = n"
proof -
  have len: "length (dec_nat k) \<le> 10" if "k < 2 ^ 31" for k
    by (rule length_dec_nat) (use that in simp_all)
  have "take 63 (''-'' @ ipp @ ''#'' @ dec_nat k) = ''-'' @ ipp @ ''#'' @ dec_nat k" if "k < 2 ^ 31" for k
    using len [OF that] assms(1) by simp
  then have "(''-'' @ ipp) @ CHR ''#'' # dec_nat m = (''-'' @ ipp) @ CHR ''#'' # dec_nat n"
    using assms(2-4) by (simp add: conn_name_def)
  then show ?thesis by (simp del: append.simps)
qed

lemma conn_ok_frame:
  assumes "conn_ok nm ipp s m" "conns s' m = conns s m" "io_queue s' m = io_queue s m"
    "m \<in> set (base_queue s') \<longleftrightarrow> m \<in> set (base_queue s)"
    "connections s' (conn_name nm ipp m) = connections s (conn_name nm ipp m)" "nextConnId s \<le> nextConnId s'"
  shows "conn_ok nm ipp s' m"
  using assms by (cases "conns s m") (auto simp: conn_ok_def stage_def)

lemma srv_inv_at:
  assumes "srv_inv nm ipp s" "length ipp \<le> 51" "n < 2 ^ 31"
    and "srv_name s' = srv_name s" "ipPort s' = ipPort s" "srv_started s' = srv_started s"
    and "pool_started (srv_pool s') = pool_started (srv_pool s)" "srv_listening s' = srv_listening s"
    and "nextConnId s' = nextConnId s \<or> nextConnId s' = n + 1 \<and> nextConnId s = n"
    and "distinct (base_queue s')" "\<And>m. m \<noteq> n \<Longrightarrow> m \<in> set (base_queue s') \<longleftrightarrow> m \<in> set (base_queue s)"
    and "\<And>m. m \<noteq> n \<Longrightarrow> conns s' m = conns s m" "\<And>m. m \<noteq> n \<Longrightarrow> io_queue s' m = io_queue s m"
    and "\<And>k. k \<noteq> conn_name nm ipp n \<Longrightarrow> connections s' k = connections s k"
    and "conn_ok nm ipp s' n" "conns s' n \<noteq> None"
  shows "srv_inv nm ipp s'"
proof -
  have "conn_ok nm ipp s' m" if m: "m < 2 ^ 31" for m
  proof (cases "m = n")
    case False
    then have "conn_name nm ipp m \<noteq> conn_name nm ipp n" using conn_name_inject [OF assms(2) m assms(3)] by blast
    with False m assms show ?thesis
      by (intro conn_ok_frame [of nm ipp s m s']) (auto simp: srv_inv_def)
  qed (use assms(15) in simp)
  moreover have "n < nextConnId s'" using assms(15,16) by (auto simp: conn_ok_def)
  moreover have "nextConnId s' \<le> 2 ^ 31" using assms(1,3,9) by (auto simp: srv_inv_def)
  moreover have "m < nextConnId s'" if "conns s' m \<noteq> None" for m
  proof (cases "m = n")
    case False
    then have "m < nextConnId s" using that assms(1,12) by (simp add: srv_inv_def)
    then show ?thesis using assms(9) by auto
  qed (use calculation(2) in simp)
  moreover have "conns s' m = None \<and> m \<notin> set (base_queue s') \<and> io_queue s' m = []" if "m \<ge> 2 ^ 31" for m
    using that assms(1,3,11-13) by (auto simp: srv_inv_def)
  ultimately show ?thesis using assms(1,4-8,10) by (simp add: srv_inv_def)
qed

lemma disconnected_quiet:
  assumes "tcp_inv fds ch c" "conn_state c = kDisconnected" "legal e c" "e \<noteq> Destroy" "e \<noteq> Establish" "tcp_step e c = Some c'"
  shows "addedToLoop (chan c') = addedToLoop (chan c)"
proof -
  have "events (chan c) = 0" using tcp_invD(4) [OF assms(1)] assms(2) by (auto simp: active_def)
  moreover have "chan (shutdownInLoop x) = chan x" for x by (simp add: shutdownInLoop_def)
  moreover have "run_functor sys f x = Some y \<Longrightarrow> conn_state x = kDisconnected \<Longrightarrow> f \<notin> {F_startRead, F_stopRead} \<Longrightarrow> chan y = chan x" for sys f x y
    using calculation(2) by (cases f) (auto simp: sendInLoop_def forceCloseInLoop_def)
  ultimately show ?thesis
    using assms(2-)
    by (cases e) (auto simp: legal_def io_ok_def active_def send_def shutdown_def forceClose_def forceCloseWithDelay_def
        startRead_def stopRead_def split: list.splits if_splits)
qed

lemma closed_once_established:
  "tcp_inv fds ch c \<Longrightarrow> connectEstablished c = Some c' \<Longrightarrow> closed_once c'"
  by (auto simp: connectEstablished_def Let_def tcp_inv_def closed_once_def setState_def chan_op_defs chan_events_def emit_def)

lemma connectDestroyed_dead:
  "connectDestroyed c = Some c' \<Longrightarrow> conn_state c = kDisconnected \<Longrightarrow> closed_once c \<Longrightarrow>
     \<not> addedToLoop (chan c') \<and> closed_once c' \<and> conn_state c' = kDisconnected"
  by (auto simp: connectDestroyed_def chan_remove_def closed_once_def)

lemma srv_accept_ok:
  assumes "srv_inv nm ipp s" "length ipp \<le> 51" "srv_started s" "nextConnId s < 2 ^ 31"
  shows "\<exists>s'. newConnection sockfd wc s = Some s' \<and> srv_inv nm ipp s'"
proof -
  define n where "n = nextConnId s"
  define conn where "conn = (if wc then setWriteCompleteCallback (mk_tcp_conn sockfd) else mk_tcp_conn sockfd)"
  define cn where "cn = conn_name nm ipp n"
  have st: "pool_started (srv_pool s)" "conns s n = None" "srv_name s = nm" "ipPort s = ipp" "conn_ok nm ipp s n"
    using assms by (auto simp: srv_inv_def n_def) (metis less_irrefl prod_cases3 not_None_eq)
  then have free: "n \<notin> set (base_queue s)" "io_queue s n = []" "connections s cn = None"
    by (simp_all add: conn_ok_def cn_def)
  obtain l p where lp: "getNextLoop (srv_pool s) = Some (l, p)" "pool_started p"
    using st(1) by (cases "pool_loops (srv_pool s) = []") (simp_all add: getNextLoop_def Let_def)
  have "tcp_reach sockfd conn" by (auto simp: conn_def intro: tcp_reach.intros)
  note ti = tcp_reach_inv [OF this, of "\<lambda>_. 0" 0]
  have cs: "conn_state conn = kConnecting" "closed_once conn"
    by (auto simp: conn_def mk_tcp_conn_def setWriteCompleteCallback_def closed_once_def)
  obtain c' where c': "connectEstablished conn = Some c'" "tcp_inv (\<lambda>_. 0) 0 c'" "conn_state c' = kConnected"
    using connectEstablished_inv [OF ti cs(1)] by blast
  note co = closed_once_established [OF ti c'(1)]
  define s1 where "s1 = s\<lparr>srv_pool := p, nextConnId := n + 1, connections := (connections s)(cn \<mapsto> n)\<rparr>"
  define s2 where "s2 = s1\<lparr>conns := (conns s1)(n \<mapsto> (c', cn, l))\<rparr>"
  define s3 where "s3 = s1\<lparr>conns := (conns s1)(n \<mapsto> (conn, cn, l)), io_queue := (io_queue s1)(n := io_queue s1 n @ [IO_established])\<rparr>"
  have "newConnection sockfd wc s = Some (if l = 0 then s2 else s3)"
    using lp(1) c'(1) by (simp add: newConnection_def Let_def n_def [symmetric] conn_def [symmetric] st(3,4) cn_def [symmetric]
        s1_def s2_def s3_def)
  moreover have "srv_inv nm ipp s2"
    by (rule srv_inv_at [OF assms(1,2), of n])
      (use assms free c' co lp st in \<open>auto simp: n_def [symmetric] s1_def s2_def cn_def conn_ok_def stage_def active_def srv_inv_def\<close>)
  moreover have "srv_inv nm ipp s3"
    by (rule srv_inv_at [OF assms(1,2), of n])
      (use assms free ti cs lp st in \<open>auto simp: n_def [symmetric] s1_def s3_def cn_def conn_ok_def stage_def active_def srv_inv_def\<close>)
  ultimately show ?thesis by auto
qed

lemma srv_io_ok:
  assumes "srv_inv nm ipp s" "length ipp \<le> 51"
  shows "\<exists>s'. srv_step (SV_io n) s = Some s' \<and> srv_inv nm ipp s'"
proof (cases "io_queue s n")
  case Nil
  with assms show ?thesis by simp
next
  case (Cons f fs)
  then have "\<not> n \<ge> 2 ^ 31" using assms(1) by (auto simp: srv_inv_def)
  then have n: "n < 2 ^ 31" by simp
  then have ok: "conn_ok nm ipp s n" using assms(1) by (simp add: srv_inv_def)
  with Cons obtain c cn l where c: "conns s n = Some (c, cn, l)" "cn = conn_name nm ipp n" "tcp_inv (\<lambda>_. 0) 0 c"
      "closed_once c" "stage s n c cn" "n < nextConnId s"
    by (auto simp: conn_ok_def split: option.splits)
  show ?thesis
  proof (cases f)
    case IO_established
    with c(5) Cons have s: "conn_state c = kConnecting" "fs = []" "connections s cn = Some n" "n \<notin> set (base_queue s)"
      by (auto simp: stage_def)
    obtain c' where c': "connectEstablished c = Some c'" "tcp_inv (\<lambda>_. 0) 0 c'" "conn_state c' = kConnected"
      using connectEstablished_inv [OF c(3) s(1)] by blast
    define s' where "s' = s\<lparr>conns := (conns s)(n \<mapsto> (c', cn, l)), io_queue := (io_queue s)(n := fs)\<rparr>"
    have "srv_inv nm ipp s'"
      by (rule srv_inv_at [OF assms n])
        (use assms(1) c s c' closed_once_established [OF c(3) c'(1)] in
          \<open>auto simp: s'_def conn_ok_def stage_def active_def srv_inv_def\<close>)
    then show ?thesis using Cons IO_established c(1) c'(1) by (simp add: s'_def)
  next
    case IO_destroyed
    with c(5) Cons have s: "conn_state c = kDisconnected" "addedToLoop (chan c)" "fs = []" "connections s cn = None" "n \<notin> set (base_queue s)"
      by (auto simp: stage_def)
    obtain c' where c': "connectDestroyed c = Some c'" "tcp_inv (\<lambda>_. 0) 0 c'"
      using connectDestroyed_inv [OF c(3) s(2)] s(1) by blast
    define s' where "s' = s\<lparr>conns := (conns s)(n \<mapsto> (c', cn, l)), io_queue := (io_queue s)(n := fs)\<rparr>"
    have "srv_inv nm ipp s'"
      by (rule srv_inv_at [OF assms n])
        (use assms(1) c s c' connectDestroyed_dead [OF c'(1) s(1) c(4)] in
          \<open>auto simp: s'_def conn_ok_def stage_def active_def srv_inv_def\<close>)
    then show ?thesis using Cons IO_destroyed c(1) c'(1) by (simp add: s'_def)
  qed
qed

lemma srv_base_ok:
  assumes "srv_inv nm ipp s" "length ipp \<le> 51"
  shows "\<exists>s'. srv_step SV_base s = Some s' \<and> srv_inv nm ipp s'"
proof (cases "base_queue s")
  case Nil
  with assms show ?thesis by simp
next
  case (Cons n ns)
  then have "\<not> n \<ge> 2 ^ 31" using assms(1) by (auto simp: srv_inv_def)
  then have n: "n < 2 ^ 31" by simp
  have d: "distinct ns" "n \<notin> set ns" using Cons assms(1) by (auto simp: srv_inv_def)
  have "conn_ok nm ipp s n" using n assms(1) by (simp add: srv_inv_def)
  with Cons obtain c cn l where c: "conns s n = Some (c, cn, l)" "cn = conn_name nm ipp n" "tcp_inv (\<lambda>_. 0) 0 c"
      "closed_once c" "stage s n c cn" "n < nextConnId s"
    by (auto simp: conn_ok_def split: option.splits)
  then have s: "conn_state c = kDisconnected" "addedToLoop (chan c)" "connections s cn = Some n" "io_queue s n = []"
    using Cons by (auto simp: stage_def)
  define s' where "s' = s\<lparr>base_queue := ns, connections := (connections s)(cn := None),
                     io_queue := (io_queue s)(n := io_queue s n @ [IO_destroyed])\<rparr>"
  have "srv_inv nm ipp s'"
    by (rule srv_inv_at [OF assms n])
      (use assms(1) c s Cons d in \<open>auto simp: s'_def conn_ok_def stage_def srv_inv_def\<close>)
  then show ?thesis using Cons c(1) s by (simp add: removeConnectionInLoop_def s'_def)
qed

lemma srv_conn_ok:
  assumes "srv_inv nm ipp s" "length ipp \<le> 51" "srv_legal (SV_conn n e) s"
  shows "\<exists>s'. srv_step (SV_conn n e) s = Some s' \<and> srv_inv nm ipp s'"
proof -
  from assms(3) obtain c cn l where c1: "conns s n = Some (c, cn, l)" "legal e c" "e \<noteq> Establish" "e \<noteq> Destroy"
    by (auto simp: srv_legal_def)
  have "\<not> n \<ge> 2 ^ 31" using c1(1) assms(1) by (auto simp: srv_inv_def)
  then have n: "n < 2 ^ 31" by simp
  have "conn_ok nm ipp s n" using n assms(1) by (simp add: srv_inv_def)
  with c1(1) have c2: "cn = conn_name nm ipp n" "tcp_inv (\<lambda>_. 0) 0 c" "closed_once c" "stage s n c cn" "n < nextConnId s"
    by (auto simp: conn_ok_def)
  obtain c' where c': "tcp_step e c = Some c'" "tcp_inv (\<lambda>_. 0) 0 c'" using tcp_step_inv [OF c2(2) c1(2)] by blast
  have k: "keeps c c'" by (rule keeps_step [OF c'(1) c1(3,4)])
  then have co: "closed_once c'" using c2(3) by (simp add: keeps_def)
  define s1 where "s1 = s\<lparr>conns := (conns s)(n \<mapsto> (c', cn, l))\<rparr>"
  have new: "E_close \<in> set (trace c') \<and> E_close \<notin> set (trace c) \<longleftrightarrow> conn_state c' = kDisconnected \<and> conn_state c \<noteq> kDisconnected"
    using co c2(3) by (simp add: closed_once_def)
  show ?thesis
  proof (cases "conn_state c' = kDisconnected \<and> conn_state c \<noteq> kDisconnected")
    case False
    have "stage s n c' cn"
    proof (cases "conn_state c = kDisconnected")
      case True
      then have "conn_state c' = kDisconnected" using k by (simp add: keeps_def)
      with True c2(4) disconnected_quiet [OF c2(2) True c1(2) c1(4,3) c'(1)] show ?thesis by (auto simp: stage_def active_def)
    next
      case live: False
      have "conn_state c = kConnecting \<longleftrightarrow> conn_state c' = kConnecting" using k by (simp add: keeps_def)
      with live False c2(4) show ?thesis by (cases "conn_state c'") (auto simp: stage_def active_def)
    qed
    then have "srv_inv nm ipp s1"
      by (intro srv_inv_at [OF assms(1,2) n])
        (use assms(1) c2 c' co in \<open>auto simp: s1_def conn_ok_def stage_def srv_inv_def\<close>)
    with False new c1(1) c'(1) show ?thesis by (auto simp: s1_def Let_def)
  next
    case closing: True
    then have act: "active c" "io_queue s n = []" "connections s cn = Some n" "n \<notin> set (base_queue s)"
      using c2(4) k by (auto simp: stage_def active_def keeps_def)
    have added: "addedToLoop (chan c')" using tcp_invD(6) [OF c2(2)] act(1) k by (simp add: keeps_def)
    have step: "srv_step (SV_conn n e) s = removeConnection n s1"
      using closing new c1(1) c'(1) by (simp add: s1_def Let_def)
    show ?thesis
    proof (cases "l = 0")
      case True
      define s' where "s' = s1\<lparr>connections := (connections s1)(cn := None),
                     io_queue := (io_queue s1)(n := io_queue s1 n @ [IO_destroyed])\<rparr>"
      have "srv_inv nm ipp s'"
        by (rule srv_inv_at [OF assms(1,2) n])
          (use assms(1) c2 c' co closing act added in \<open>auto simp: s'_def s1_def conn_ok_def stage_def srv_inv_def\<close>)
      moreover have "removeConnection n s1 = Some s'"
        using True act(3) by (simp add: removeConnection_def removeConnectionInLoop_def s'_def s1_def)
      ultimately show ?thesis unfolding step by blast
    next
      case False
      define s' where "s' = s1\<lparr>base_queue := base_queue s1 @ [n]\<rparr>"
      have "srv_inv nm ipp s'"
        by (rule srv_inv_at [OF assms(1,2) n])
          (use assms(1) c2 c' co closing act added in \<open>auto simp: s'_def s1_def conn_ok_def stage_def srv_inv_def\<close>)
      moreover have "removeConnection n s1 = Some s'" using False by (simp add: removeConnection_def s'_def s1_def)
      ultimately show ?thesis unfolding step by blast
    qed
  qed
qed

lemma srv_step_ok:
  assumes "srv_inv nm ipp s" "length ipp \<le> 51" "srv_legal e s"
  shows "\<exists>s'. srv_step e s = Some s' \<and> srv_inv nm ipp s'"
proof (cases e)
  case (SV_start cb)
  show ?thesis
  proof (cases "srv_started s")
    case True
    with SV_start assms(1) show ?thesis by (simp add: srv_start_def)
  next
    case False
    then have np: "\<not> pool_started (srv_pool s)" "\<not> srv_listening s" using assms(1) by (auto simp: srv_inv_def)
    then obtain p where p: "pool_start cb (srv_pool s) = Some p" "pool_started p" by (auto simp: pool_start_def Let_def)
    define s' where "s' = s\<lparr>srv_started := True, srv_pool := p, srv_listening := True\<rparr>"
    have "conn_ok nm ipp s m \<Longrightarrow> conn_ok nm ipp s' m" for m by (erule conn_ok_frame) (simp_all add: s'_def)
    then have "srv_inv nm ipp s'" using assms(1) p(2) by (simp add: srv_inv_def s'_def)
    with SV_start False np p show ?thesis by (simp add: srv_start_def s'_def)
  qed
next
  case (SV_accept sockfd wc)
  with assms srv_accept_ok show ?thesis by (simp add: srv_legal_def)
next
  case (SV_conn n e)
  with assms srv_conn_ok show ?thesis by blast
next
  case (SV_io n)
  with assms srv_io_ok show ?thesis by blast
next
  case SV_base
  with assms srv_base_ok show ?thesis by blast
qed

lemma srv_reach_ok: "srv_reach nm ipp threads s \<Longrightarrow> length ipp \<le> 51 \<Longrightarrow> srv_inv nm ipp s"
proof (induction rule: srv_reach.induct)
  case Srv_new
  show ?case by (simp add: srv_setThreadNum_def mk_tcp_server_def srv_inv_def conn_ok_def setThreadNum_def mk_loop_pool_def)
next
  case (Srv_next s e s')
  then show ?case using srv_step_ok by fastforce
qed



text \<open>The destructor fails when one of the connections is half closed.\<close>

lemma server_dtor_half_closed:
  assumes "conns s n = Some (c, cn, l)" "tcp_inv fds ch c" "conn_state c = kDisconnecting"
  shows "tcp_server_dtor (n # order) s = None"
  using assms by (auto simp: connectDestroyed_def chan_remove_def tcp_dtor_def emit_def split: Option.bind_splits)

subsection \<open>\<open>TcpClient\<close>\<close>

text \<open>\<open>client_conns\<close> are all connection objects, \<open>connection\<close> the one \<open>connection_\<close> points at, \<open>destroy_queue\<close> the
  queued \<open>connectDestroyed\<close> functors; \<open>sockfd\<close> and \<open>err\<close> are what the connector is given by the system.\<close>

record tcp_client =
  connector_of :: connector
  client_name :: string
  retry_flag :: bool
  connect_flag :: bool
  client_nextId :: nat
  connection :: "nat option"
  client_conns :: "nat \<Rightarrow> tcp_conn option"
  client_names :: "nat \<Rightarrow> string"
  destroy_queue :: "nat list"

definition mk_tcp_client :: "string \<Rightarrow> tcp_client" where
  "mk_tcp_client nm = \<lparr>connector_of = mk_connector, client_name = nm, retry_flag = False, connect_flag = True, client_nextId = 1,
     connection = None, client_conns = Map.empty, client_names = (\<lambda>_. []), destroy_queue = []\<rparr>"

definition client_enableRetry :: "tcp_client \<Rightarrow> tcp_client" where
  "client_enableRetry t = t\<lparr>retry_flag := True\<rparr>"

definition client_connect :: "bool \<Rightarrow> fd \<Rightarrow> int \<Rightarrow> tcp_client \<Rightarrow> tcp_client option" where
  "client_connect inLoop sockfd err t =
     do { c \<leftarrow> cn_start inLoop sockfd err (connector_of t); Some (t\<lparr>connect_flag := True, connector_of := c\<rparr>) }"

definition client_disconnect :: "bool \<Rightarrow> tcp_client \<Rightarrow> tcp_client option" where
  "client_disconnect inLoop t =
     (let t = t\<lparr>connect_flag := False\<rparr> in
      case connection t of
        None \<Rightarrow> Some t
      | Some n \<Rightarrow> do { c \<leftarrow> client_conns t n;
                      Some (t\<lparr>client_conns := (client_conns t)(n \<mapsto> shutdown inLoop c)\<rparr>) })"

definition client_stop :: "tcp_client \<Rightarrow> tcp_client" where
  "client_stop t = t\<lparr>connect_flag := False, connector_of := cn_stop (connector_of t)\<rparr>"

text \<open>\<open>snprintf\<close> into 32 bytes keeps 31 characters: with a long peer address the number is cut off.\<close>

definition client_newConnection :: "string \<Rightarrow> fd \<Rightarrow> bool \<Rightarrow> tcp_client \<Rightarrow> tcp_client option" where
  "client_newConnection peer sockfd writeComplete t =
     (let n = client_nextId t;
          connName = client_name t @ take 31 ('':'' @ peer @ ''#'' @ dec_nat n);
          conn = mk_tcp_conn sockfd;
          conn = (if writeComplete then setWriteCompleteCallback conn else conn);
          t = t\<lparr>client_nextId := n + 1, connection := Some n, client_names := (client_names t)(n := connName)\<rparr>
      in do { conn \<leftarrow> connectEstablished conn; Some (t\<lparr>client_conns := (client_conns t)(n \<mapsto> conn)\<rparr>) })"

definition client_removeConnection :: "fd \<Rightarrow> int \<Rightarrow> nat \<Rightarrow> tcp_client \<Rightarrow> tcp_client option" where
  "client_removeConnection sockfd err n t =
     assert_then (connection t = Some n)
      (let t = t\<lparr>connection := None, destroy_queue := destroy_queue t @ [n]\<rparr>
       in if retry_flag t \<and> connect_flag t
          then do { c \<leftarrow> cn_restart sockfd err (connector_of t); Some (t\<lparr>connector_of := c\<rparr>) }
          else Some t)"

text \<open>The destructor: with a connection that nobody else holds it forces it closed (its close callback is then
  \<open>detail::removeConnection\<close>, which only queues \<open>connectDestroyed\<close>); without one it stops the connector.\<close>

definition client_dtor :: "bool \<Rightarrow> tcp_client \<Rightarrow> tcp_client option" where
  "client_dtor unique t =
     (case connection t of
        Some n \<Rightarrow> do { c \<leftarrow> client_conns t n;
                      Some (if unique then t\<lparr>client_conns := (client_conns t)(n \<mapsto> forceClose c)\<rparr> else t) }
      | None \<Rightarrow> Some (t\<lparr>connector_of := cn_stop (connector_of t)\<rparr>))"

text \<open>A new connection is up at once and is the client's connection; when it is removed and the client retries, the
  connector starts over with the initial delay.\<close>

lemma client_newConnection_up:
  "\<exists>t' c. client_newConnection peer sockfd wc t = Some t' \<and> connection t' = Some (client_nextId t)
     \<and> client_conns t' (client_nextId t) = Some c \<and> conn_state c = kConnected"
  by (simp add: client_newConnection_def connectEstablished_def mk_tcp_conn_def setState_def Let_def
      setWriteCompleteCallback_def chan_op_defs)

lemma client_reconnects:
  assumes "connection t = Some n" "retry_flag t" "connect_flag t" "cn_state (connector_of t) = C_kConnected"
    "cn_channel (connector_of t) = None"
  shows "\<exists>t'. client_removeConnection sockfd ECONNREFUSED n t = Some t' \<and> connection t' = None
     \<and> cn_trace (connector_of t') = cn_trace (connector_of t) @ [C_restart, C_socket sockfd, C_close sockfd, C_retry 500]
     \<and> retryDelayMs (connector_of t') = 1000"
  using assms
  by (simp add: client_removeConnection_def cn_restart_def cn_startInLoop_def cn_connect_def cn_retry_def cn_ops
      errno_defs kInitRetryDelayMs_def kMaxRetryDelayMs_def)

end
