(* ===== verification/Base_LogStream.thy ===== *)
theory Base_LogStream
  imports Base_Time Decimal
begin

section \<open>Log lines: \<open>base/LogStream.h\<close>, \<open>base/LogStream.cc\<close>, \<open>base/Logging.cc\<close>\<close>

subsection \<open>\<open>FixedBuffer\<close>\<close>

text \<open>The array \<open>data_\<close> and the position \<open>cur_\<close> in it.\<close>

record fixed_buffer =
  fb_data :: bytes
  fb_cur :: nat

definition kSmallBuffer :: nat where "kSmallBuffer = 4000"
definition kLargeBuffer :: nat where "kLargeBuffer = 4000 * 1000"

definition mk_fixed_buffer :: "nat \<Rightarrow> fixed_buffer" where
  "mk_fixed_buffer n = \<lparr>fb_data = replicate n (CHR 0x00), fb_cur = 0\<rparr>"

definition fb_length :: "fixed_buffer \<Rightarrow> nat" where "fb_length b = fb_cur b"
definition fb_avail :: "fixed_buffer \<Rightarrow> nat" where "fb_avail b = length (fb_data b) - fb_cur b"
definition fb_toString :: "fixed_buffer \<Rightarrow> string" where "fb_toString b = take (fb_cur b) (fb_data b)"
definition fb_add :: "nat \<Rightarrow> fixed_buffer \<Rightarrow> fixed_buffer" where "fb_add n b = b\<lparr>fb_cur := fb_cur b + n\<rparr>"
definition fb_reset :: "fixed_buffer \<Rightarrow> fixed_buffer" where "fb_reset b = b\<lparr>fb_cur := 0\<rparr>"
definition fb_bzero :: "fixed_buffer \<Rightarrow> fixed_buffer" where
  "fb_bzero b = b\<lparr>fb_data := replicate (length (fb_data b)) (CHR 0x00)\<rparr>"

definition fb_append :: "bytes \<Rightarrow> fixed_buffer \<Rightarrow> fixed_buffer" where
  "fb_append d b =
     (if fb_avail b > length d
      then b\<lparr>fb_data := write_at (fb_cur b) d (fb_data b), fb_cur := fb_cur b + length d\<rparr> else b)"

text \<open>The position is always inside the array: there is room for a terminating NUL.\<close>

definition fb_ok :: "fixed_buffer \<Rightarrow> bool" where "fb_ok b \<longleftrightarrow> fb_cur b < length (fb_data b)"

lemma take_write_all: "i + length d \<le> length xs \<Longrightarrow> take (i + length d) (write_at i d xs) = take i xs @ d"
  by (simp add: write_at_def)

lemma fb_append_ok:
  assumes "fb_ok b"
  shows "fb_ok (fb_append d b) \<and> length (fb_data (fb_append d b)) = length (fb_data b)
    \<and> fb_toString (fb_append d b) = fb_toString b @ (if length d < fb_avail b then d else [])"
  using assms by (auto simp: fb_append_def fb_ok_def fb_avail_def fb_toString_def take_write_all)

subsection \<open>Integers to text\<close>

definition digits :: string where "digits = ''9876543210123456789''"
definition zero :: "int \<Rightarrow> char" where "zero lsd = digits ! nat (9 + lsd)"
definition digitsHex :: string where "digitsHex = ''0123456789ABCDEF''"

text \<open>The do-while loops of \<open>convert\<close> and \<open>convertHex\<close>: the characters in the order they are written.\<close>

lemma c_div_shrinks: "c_div i 10 \<noteq> 0 \<Longrightarrow> \<bar>c_div i 10\<bar> < \<bar>i\<bar>"
proof -
  assume nz: "c_div i 10 \<noteq> 0"
  then have "i \<noteq> 0" by (auto simp: c_div_def)
  then have "\<bar>c_div i 10\<bar> = \<bar>i\<bar> div 10" by (simp add: c_div_def abs_mult sgn_if)
  with \<open>i \<noteq> 0\<close> show ?thesis by simp
qed

function convert_loop :: "int \<Rightarrow> string" where
  "convert_loop i = zero (c_mod i 10) # (if c_div i 10 \<noteq> 0 then convert_loop (c_div i 10) else [])"
  by auto
termination by (relation "measure (\<lambda>i. nat \<bar>i\<bar>)") (use c_div_shrinks in auto)

declare convert_loop.simps [simp del]

definition convert :: "int \<Rightarrow> string" where
  "convert value = rev (convert_loop value @ (if value < 0 then ''-'' else []))"

fun hex_loop :: "nat \<Rightarrow> string" where
  "hex_loop i = digitsHex ! (i mod 16) # (if i div 16 \<noteq> 0 then hex_loop (i div 16) else [])"

declare hex_loop.simps [simp del]

definition convertHex :: "nat \<Rightarrow> string" where
  "convertHex value = rev (hex_loop value)"

lemma zero_digit: "\<bar>d\<bar> < 10 \<Longrightarrow> zero d = digit_char (nat \<bar>d\<bar>)"
proof -
  assume "\<bar>d\<bar> < 10"
  then have "- 9 \<le> d \<and> d \<le> 9" by arith
  then have "d \<in> set [-9..9]" unfolding set_upto by simp
  moreover have "\<forall>d \<in> set [-9..9]. zero d = digit_char (nat \<bar>d\<bar>)" by code_simp
  ultimately show ?thesis by blast
qed

lemma convert_loop_dec: "rev (convert_loop i) = dec_nat (nat \<bar>i\<bar>)"
proof (induction i rule: convert_loop.induct)
  case (1 i)
  have q: "\<bar>c_div i 10\<bar> = \<bar>i\<bar> div 10"
    by (cases "i = 0") (simp_all add: c_div_def abs_mult sgn_if)
  have m: "\<bar>c_mod i 10\<bar> = \<bar>i\<bar> mod 10"
    by (cases "i < 0") (simp_all add: c_mod_def c_div_def sgn_if minus_div_mult_eq_mod minus_mult_div_eq_mod, presburger?)
  have z: "zero (c_mod i 10) = digit_char (nat \<bar>i\<bar> mod 10)"
    using zero_digit [of "c_mod i 10"] c_mod_bound [of 10 i] m by (simp add: nat_mod_distrib)
  show ?case
  proof (cases "c_div i 10 = 0")
    case True
    then have "nat \<bar>i\<bar> < 10" using q by simp
    with True z show ?thesis by (simp add: convert_loop.simps [of i] dec_nat.simps)
  next
    case False
    then have "\<not> nat \<bar>i\<bar> < 10" using q by simp
    with False z 1 q show ?thesis
      by (simp add: convert_loop.simps [of i] dec_nat.simps [of "nat \<bar>i\<bar>"] nat_div_distrib)
  qed
qed

lemma convert_dec: "convert i = dec_int i"
  by (simp add: convert_def convert_loop_dec dec_int_def)

lemma length_convert: "\<bar>i\<bar> < 10 ^ 20 \<Longrightarrow> length (convert i) \<le> 21"
proof -
  assume "\<bar>i\<bar> < 10 ^ 20"
  then have "nat \<bar>i\<bar> < 10 ^ 20" by simp
  then have "length (dec_nat (nat \<bar>i\<bar>)) \<le> 20" by (intro length_dec_nat) simp_all
  then show ?thesis by (auto simp: convert_dec dec_int_def)
qed

lemma length_hex_loop: "n < 16 ^ k \<Longrightarrow> 0 < k \<Longrightarrow> length (hex_loop n) \<le> k"
proof (induction n arbitrary: k rule: hex_loop.induct)
  case (1 i)
  show ?case
  proof (cases "i div 16 = 0")
    case True
    with 1 show ?thesis by (simp add: hex_loop.simps [of i])
  next
    case False
    obtain j where j: "k = Suc j" using 1(3) by (cases k) auto
    have "0 < j" using False 1(2) j by (cases j) auto
    with 1 False j show ?thesis by (simp add: hex_loop.simps [of i])
  qed
qed

text \<open>Hexadecimal text, by the codes of the characters: 48 is \<open>'0'\<close> and 65 is \<open>'A'\<close>.\<close>

definition hex_char :: "nat \<Rightarrow> char" where
  "hex_char d = char_of (if d < 10 then 48 + d else 65 + (d - 10))"

definition hex_value :: "char \<Rightarrow> nat" where
  "hex_value c = (if (of_char c :: nat) < 65 then of_char c - 48 else of_char c - 65 + 10)"

fun hex_nat :: "nat \<Rightarrow> string" where
  "hex_nat n = (if n < 16 then [hex_char n] else hex_nat (n div 16) @ [hex_char (n mod 16)])"

declare hex_nat.simps [simp del]

definition unhex :: "string \<Rightarrow> nat" where "unhex s = foldl (\<lambda>v c. v * 16 + hex_value c) 0 s"

lemma digitsHex_char: "d < 16 \<Longrightarrow> digitsHex ! d = hex_char d \<and> hex_value (hex_char d) = d"
proof -
  assume "d < 16"
  then have "d \<in> set [0..<16]" by simp
  moreover have "\<forall>d \<in> set [0..<16]. digitsHex ! d = hex_char d \<and> hex_value (hex_char d) = d" by code_simp
  ultimately show ?thesis by blast
qed

lemma convertHex_hex_nat: "convertHex n = hex_nat n"
proof -
  have "rev (hex_loop n) = hex_nat n" for n
  proof (induction n rule: hex_loop.induct)
    case (1 i)
    then show ?case
      using digitsHex_char [of "i mod 16"]
      by (cases "i < 16") (simp_all add: hex_loop.simps [of i] hex_nat.simps [of i] div_eq_0_iff)
  qed
  then show ?thesis by (simp add: convertHex_def)
qed

lemma unhex_hex_nat: "unhex (hex_nat n) = n"
proof (induction n rule: hex_nat.induct)
  case (1 n)
  have snoc: "unhex (s @ [c]) = unhex s * 16 + hex_value c" "unhex [c] = hex_value c" for s c by (simp_all add: unhex_def)
  show ?case
    using 1 digitsHex_char [of "n mod 16"] by (cases "n < 16") (simp_all add: hex_nat.simps [of n] snoc)
qed

subsection \<open>\<open>LogStream\<close>\<close>

text \<open>The values \<open>operator<<\<close> takes: integers of every width, pointers, \<open>double\<close>s with the text that \<open>snprintf\<close>
  gives for \<open>"%.12g"\<close>, C strings (NULL allowed), counted strings.\<close>

datatype log_item =
    L_bool bool
  | L_int int
  | L_ptr nat
  | L_double string
  | L_char char
  | L_cstr "string option"
  | L_string string

definition kMaxNumericSize :: nat where "kMaxNumericSize = 32"

definition put_number :: "string \<Rightarrow> fixed_buffer \<Rightarrow> fixed_buffer" where
  "put_number s b = fb_add (length s) (b\<lparr>fb_data := write_at (fb_cur b) (s @ [CHR 0x00]) (fb_data b)\<rparr>)"

definition formatInteger :: "int \<Rightarrow> fixed_buffer \<Rightarrow> fixed_buffer" where
  "formatInteger v b = (if fb_avail b \<ge> kMaxNumericSize then put_number (convert v) b else b)"

definition format_pointer :: "nat \<Rightarrow> fixed_buffer \<Rightarrow> fixed_buffer" where
  "format_pointer p b = (if fb_avail b \<ge> kMaxNumericSize then put_number (''0x'' @ convertHex p) b else b)"

definition format_double :: "string \<Rightarrow> fixed_buffer \<Rightarrow> fixed_buffer" where
  "format_double s b = (if fb_avail b \<ge> kMaxNumericSize then put_number s b else b)"

definition put_cstr :: "string option \<Rightarrow> fixed_buffer \<Rightarrow> fixed_buffer" where
  "put_cstr str b = (case str of Some s \<Rightarrow> fb_append s b | None \<Rightarrow> fb_append ''(null)'' b)"

fun put :: "log_item \<Rightarrow> fixed_buffer \<Rightarrow> fixed_buffer" where
  "put (L_bool v) b = fb_append (if v then ''1'' else ''0'') b"
| "put (L_int v) b = formatInteger v b"
| "put (L_ptr p) b = format_pointer p b"
| "put (L_double s) b = format_double s b"
| "put (L_char c) b = fb_append [c] b"
| "put (L_cstr s) b = put_cstr s b"
| "put (L_string s) b = fb_append s b"

text \<open>64-bit values, and what \<open>snprintf\<close> can return for a buffer of 32 bytes.\<close>

fun item_ok :: "log_item \<Rightarrow> bool" where
  "item_ok (L_int v) \<longleftrightarrow> - (2 ^ 63) \<le> v \<and> v < 2 ^ 64"
| "item_ok (L_ptr p) \<longleftrightarrow> p < 2 ^ 64"
| "item_ok (L_double s) \<longleftrightarrow> length s < 32"
| "item_ok _ \<longleftrightarrow> True"

fun item_text :: "log_item \<Rightarrow> string" where
  "item_text (L_bool v) = (if v then ''1'' else ''0'')"
| "item_text (L_int v) = dec_int v"
| "item_text (L_ptr p) = ''0x'' @ convertHex p"
| "item_text (L_double s) = s"
| "item_text (L_char c) = [c]"
| "item_text (L_cstr s) = (case s of Some s \<Rightarrow> s | None \<Rightarrow> ''(null)'')"
| "item_text (L_string s) = s"

fun item_room :: "log_item \<Rightarrow> nat" where
  "item_room (L_int v) = 32" | "item_room (L_ptr p) = 32" | "item_room (L_double s) = 32"
| "item_room i = Suc (length (item_text i))"

lemma put_number_ok:
  assumes "fb_ok b" "length s < 32" "fb_avail b \<ge> kMaxNumericSize"
  shows "fb_ok (put_number s b) \<and> length (fb_data (put_number s b)) = length (fb_data b)
    \<and> fb_toString (put_number s b) = fb_toString b @ s"
proof -
  have r: "fb_cur b + length (s @ [CHR 0x00]) \<le> length (fb_data b)"
    using assms by (simp add: fb_avail_def kMaxNumericSize_def)
  have "take (fb_cur b + length s) (write_at (fb_cur b) (s @ [CHR 0x00]) (fb_data b)) = take (fb_cur b) (fb_data b) @ s"
    using r by (simp add: write_at_def)
  with r show ?thesis by (simp add: put_number_def fb_add_def fb_ok_def fb_toString_def)
qed

lemma put_ok:
  assumes "fb_ok b" "item_ok i"
  shows "fb_ok (put i b) \<and> length (fb_data (put i b)) = length (fb_data b)
    \<and> fb_toString (put i b) = fb_toString b @ (if item_room i \<le> fb_avail b then item_text i else [])"
proof (cases i)
  case (L_int v)
  with assms(2) have "\<bar>v\<bar> < 10 ^ 20" by (simp add: abs_if)
  then have "length (convert v) < 32" using length_convert [of v] by simp
  with put_number_ok [OF assms(1)] assms(1) L_int show ?thesis
    by (simp add: formatInteger_def kMaxNumericSize_def convert_dec)
next
  case (L_ptr p)
  have "length (convertHex p) \<le> 16"
    using assms(2) L_ptr length_hex_loop [of p 16] by (simp add: convertHex_def)
  then have "length (''0x'' @ convertHex p) < 32" by simp
  from put_number_ok [OF assms(1) this] assms(1) L_ptr show ?thesis
    by (simp add: format_pointer_def kMaxNumericSize_def)
next
  case (L_double s)
  with put_number_ok [OF assms(1)] assms show ?thesis
    by (simp add: format_double_def kMaxNumericSize_def)
next
  case (L_cstr s)
  with fb_append_ok [OF assms(1)] show ?thesis by (auto simp: put_cstr_def Suc_le_eq split: option.splits)
qed (use fb_append_ok [OF assms(1)] in \<open>auto simp: Suc_le_eq\<close>)

text \<open>C29: \<open>convert\<close>, which takes signed remainders as indexes into one symmetric digit string, writes exactly what
  \<open>printf("%d")\<close> writes, also for the least value of a type, and reading it back gives the value; \<open>convertHex\<close> writes exactly
  the hexadecimal text, with the digits 0 to 9 and A to F and without leading zeros, and reading it back gives the value.\<close>

theorem convert_correct:
  "convert i = (if i < 0 then CHR ''-'' # dec_nat (nat (- i)) else dec_nat (nat i))
   \<and> atoi (convert i) = i \<and> convertHex n = hex_nat n \<and> unhex (convertHex n) = n"
  using atoi_dec_int [of i] unfolding convert_dec convertHex_hex_nat unhex_hex_nat by (simp add: dec_int_def)

fun accepted_text :: "log_item list \<Rightarrow> fixed_buffer \<Rightarrow> string" where
  "accepted_text [] b = []"
| "accepted_text (i # is) b = (if item_room i \<le> fb_avail b then item_text i else []) @ accepted_text is (put i b)"

text \<open>C30: A log stream never writes outside its array: whatever is written to it, each item is written completely or,
  when it does not fit, not at all; the position stays inside the array.\<close>

theorem logstream_bounded:
  assumes "fb_ok b" "\<forall>i \<in> set is. item_ok i"
  shows "fb_ok (fold put is b) \<and> length (fb_data (fold put is b)) = length (fb_data b)
    \<and> fb_toString (fold put is b) = fb_toString b @ accepted_text is b"
  using assms
proof (induction "is" arbitrary: b)
  case (Cons i "is")
  then have "item_ok i" by simp
  from put_ok [OF Cons.prems(1) this] Cons show ?case by simp
qed (simp add: fb_ok_def)

theorem logstream_bounded_witness:
  "fb_toString (fold put [L_int (- 7), L_string '' ok'', L_bool True] (mk_fixed_buffer kSmallBuffer)) = ''-7 ok1''"
proof -
  have "fb_ok (mk_fixed_buffer kSmallBuffer)" by (simp add: fb_ok_def mk_fixed_buffer_def kSmallBuffer_def)
  moreover have "fb_avail (put (L_int (- 7)) (mk_fixed_buffer kSmallBuffer)) \<ge> 100"
    "fb_avail (put (L_string '' ok'') (put (L_int (- 7)) (mk_fixed_buffer kSmallBuffer))) \<ge> 90"
    by (simp_all add: fb_avail_def formatInteger_def put_number_def fb_add_def mk_fixed_buffer_def kSmallBuffer_def kMaxNumericSize_def
        convert_dec dec_int_def dec_nat.simps fb_append_def)
  moreover have "dec_int (- 7) = ''-7''" by code_simp
  ultimately show ?thesis
    using logstream_bounded [of "mk_fixed_buffer kSmallBuffer" "[L_int (- 7), L_string '' ok'', L_bool True]"]
    by (simp add: mk_fixed_buffer_def kSmallBuffer_def fb_toString_def fb_avail_def)
qed

subsection \<open>\<open>Logger\<close>\<close>

text \<open>The environment of a logging thread (its cached second and time text) and the program-wide settings are
  arguments; \<open>out\<close> is what \<open>g_output\<close> has been given so far.\<close>

datatype LogLevel = TRACE | DEBUG | INFO | WARN | ERROR | FATAL

fun level_number :: "LogLevel \<Rightarrow> nat" where
  "level_number TRACE = 0" | "level_number DEBUG = 1" | "level_number INFO = 2"
| "level_number WARN = 3" | "level_number ERROR = 4" | "level_number FATAL = 5"

fun LogLevelName :: "LogLevel \<Rightarrow> string" where
  "LogLevelName TRACE = ''TRACE ''" | "LogLevelName DEBUG = ''DEBUG ''" | "LogLevelName INFO = ''INFO  ''"
| "LogLevelName WARN = ''WARN  ''" | "LogLevelName ERROR = ''ERROR ''" | "LogLevelName FATAL = ''FATAL ''"

definition initLogLevel :: "bool \<Rightarrow> bool \<Rightarrow> LogLevel" where
  "initLogLevel env_trace env_debug = (if env_trace then TRACE else if env_debug then DEBUG else INFO)"

text \<open>The macros \<open>LOG_TRACE\<close>, \<open>LOG_DEBUG\<close>, \<open>LOG_INFO\<close> test the level; the others always log.\<close>

definition log_enabled :: "LogLevel \<Rightarrow> LogLevel \<Rightarrow> bool" where
  "log_enabled g level \<longleftrightarrow> level \<in> {WARN, ERROR, FATAL} \<or> level_number g \<le> level_number level"

text \<open>\<open>strrchr(data_, '/')\<close>.\<close>

definition SourceFile :: "string \<Rightarrow> string" where
  "SourceFile filename = rev (takeWhile (\<lambda>c. c \<noteq> CHR ''/'') (rev filename))"

record time_cache =
  t_lastSecond :: int
  t_time :: string

definition pad_left :: "nat \<Rightarrow> char \<Rightarrow> string \<Rightarrow> string" where
  "pad_left n c s = replicate (n - length s) c @ s"

definition tm_text :: "tm \<Rightarrow> string" where
  "tm_text t = pad_left 4 (CHR '' '') (dec_int (tm_year t + 1900)) @ pad_left 2 (CHR ''0'') (dec_int (tm_mon t + 1))
     @ pad_left 2 (CHR ''0'') (dec_int (tm_mday t)) @ '' '' @ pad_left 2 (CHR ''0'') (dec_int (tm_hour t)) @ '':''
     @ pad_left 2 (CHR ''0'') (dec_int (tm_min t)) @ '':'' @ pad_left 2 (CHR ''0'') (dec_int (tm_sec t))"

definition formatTime :: "time_zone \<Rightarrow> timestamp \<Rightarrow> time_cache \<Rightarrow> (time_cache \<times> log_item list) option" where
  "formatTime g_logTimeZone now cache =
     (let us = microSecondsSinceEpoch now;
          seconds = c_div us kMicroSecondsPerSecond;
          microseconds = to_int32 (c_mod us kMicroSecondsPerSecond)
      in do {
        cache \<leftarrow> (if seconds \<noteq> t_lastSecond cache
                  then do { t \<leftarrow> (if timezone_valid g_logTimeZone then toLocalTime g_logTimeZone seconds else Some (gmtime_r seconds));
                            let text = tm_text t;
                            assert_then (length text = 17) (Some \<lparr>t_lastSecond = seconds, t_time = text\<rparr>) }
                  else Some cache);
        let frac = ''.'' @ pad_left 6 (CHR ''0'') (dec_int microseconds) @ (if timezone_valid g_logTimeZone then '' '' else ''Z '');
        assert_then (length frac = (if timezone_valid g_logTimeZone then 8 else 9))
          (Some (cache, [L_string (t_time cache), L_string frac])) })"

definition Logger_Impl :: "time_zone \<Rightarrow> timestamp \<Rightarrow> string \<Rightarrow> (int \<Rightarrow> string) \<Rightarrow> LogLevel \<Rightarrow> int \<Rightarrow> time_cache
    \<Rightarrow> (time_cache \<times> log_item list) option" where
  "Logger_Impl tz now tidString strerror level savedErrno cache =
     do { (cache, items) \<leftarrow> formatTime tz now cache;
          let items = items @ [L_string tidString, L_string (LogLevelName level)];
          Some (cache, if savedErrno \<noteq> 0
                       then items @ [L_cstr (Some (strerror savedErrno)), L_cstr (Some '' (errno=''), L_int savedErrno, L_cstr (Some '') '')]
                       else items) }"

definition Logger_finish :: "string \<Rightarrow> int \<Rightarrow> log_item list" where
  "Logger_finish basename line = [L_cstr (Some '' - ''), L_string basename, L_char (CHR '':''), L_int line, L_char (CHR 0x0A)]"

text \<open>A whole statement \<open>LOG_X << items\<close>: constructor, user's items, destructor. The result is the cache, the line given to
  \<open>g_output\<close>, and whether the process is aborted.\<close>

definition log_line :: "time_zone \<Rightarrow> timestamp \<Rightarrow> string \<Rightarrow> (int \<Rightarrow> string) \<Rightarrow> LogLevel \<Rightarrow> int \<Rightarrow> string \<Rightarrow> int \<Rightarrow> log_item list
    \<Rightarrow> time_cache \<Rightarrow> (time_cache \<times> string \<times> bool) option" where
  "log_line tz now tid strerror level savedErrno file line items cache =
     do { (cache, header) \<leftarrow> Logger_Impl tz now tid strerror level savedErrno cache;
          let b = fold put (header @ items @ Logger_finish (SourceFile file) line) (mk_fixed_buffer kSmallBuffer);
          Some (cache, fb_toString b, level = FATAL) }"

lemma SourceFile_correct:
  "CHR ''/'' \<notin> set (SourceFile f) \<and> (\<exists>dir. f = dir @ SourceFile f \<and> (dir = [] \<or> last dir = CHR ''/''))"
proof (intro conjI)
  show "CHR ''/'' \<notin> set (SourceFile f)" by (auto simp: SourceFile_def dest: set_takeWhileD)
  define dir where "dir = rev (dropWhile (\<lambda>c. c \<noteq> CHR ''/'') (rev f))"
  have "f = rev (dropWhile (\<lambda>c. c \<noteq> CHR ''/'') (rev f)) @ rev (takeWhile (\<lambda>c. c \<noteq> CHR ''/'') (rev f))"
    by (metis rev_append rev_rev_ident takeWhile_dropWhile_id)
  moreover have "dir = [] \<or> last dir = CHR ''/''"
    using hd_dropWhile [of "\<lambda>c. c \<noteq> CHR ''/''" "rev f"] by (auto simp: dir_def last_rev)
  ultimately show "\<exists>dir. f = dir @ SourceFile f \<and> (dir = [] \<or> last dir = CHR ''/'')"
    unfolding SourceFile_def dir_def [symmetric] by blast
qed

text \<open>A log line never exceeds its buffer, whatever is logged.\<close>

lemma log_line_bounded:
  assumes "log_line tz now tid strerror level savedErrno file line items cache = Some (cache', text, dies)"
    and "\<forall>i \<in> set items. item_ok i" "- (2 ^ 31) \<le> savedErrno \<and> savedErrno < 2 ^ 31" "- (2 ^ 31) \<le> line \<and> line < 2 ^ 31"
  shows "length text < kSmallBuffer \<and> (dies \<longleftrightarrow> level = FATAL)"
proof -
  obtain header where h: "Logger_Impl tz now tid strerror level savedErrno cache = Some (cache', header)"
    "text = fb_toString (fold put (header @ items @ Logger_finish (SourceFile file) line) (mk_fixed_buffer kSmallBuffer))"
    "dies \<longleftrightarrow> level = FATAL"
    using assms(1) by (auto simp: log_line_def Let_def)
  have "\<forall>i \<in> set header. item_ok i"
    using h(1) assms(3) by (auto simp: Logger_Impl_def formatTime_def Let_def split: if_splits)
  moreover have "\<forall>i \<in> set (Logger_finish (SourceFile file) line). item_ok i" using assms(4) by (auto simp: Logger_finish_def)
  ultimately have ok: "\<forall>i \<in> set (header @ items @ Logger_finish (SourceFile file) line). item_ok i" using assms(2) by auto
  have bounded: "fb_ok (fold put is b) \<and> length (fb_data (fold put is b)) = length (fb_data b)"
    if "fb_ok b" "\<forall>i \<in> set is. item_ok i" for "is" b
    using that put_ok by (induction "is" arbitrary: b) auto
  have "fb_ok (mk_fixed_buffer kSmallBuffer)" "length (fb_data (mk_fixed_buffer kSmallBuffer)) = kSmallBuffer"
    by (simp_all add: fb_ok_def mk_fixed_buffer_def kSmallBuffer_def)
  with bounded [OF this(1) ok] h(2,3) show ?thesis by (simp add: fb_ok_def fb_toString_def)
qed

end
