(* ===== verification/Base_AsyncLogging.thy ===== *)
theory Base_AsyncLogging
  imports Base_LogStream
begin

section \<open>Log files: \<open>base/FileUtil.cc\<close>, \<open>base/LogFile.cc\<close>, \<open>base/AsyncLogging.cc\<close>\<close>

subsection \<open>\<open>AppendFile\<close>\<close>

text \<open>\<open>written\<close> is what \<open>fwrite_unlocked\<close> has taken; its results are an argument, one per call.\<close>

record append_file =
  filename :: string
  writtenBytes :: nat
  written :: bytes

definition mk_append_file :: "string \<Rightarrow> append_file" where
  "mk_append_file nm = \<lparr>filename = nm, writtenBytes = 0, written = []\<rparr>"

type_synonym sys_fwrite = "bytes \<Rightarrow> nat"

text \<open>The loop ends because each round writes at least a byte or breaks; \<open>sys\<close> never takes more than it is given.\<close>

function append_loop :: "sys_fwrite \<Rightarrow> bytes \<Rightarrow> append_file \<Rightarrow> append_file" where
  "append_loop sys rest f =
     (if rest = [] then f
      else let x = sys rest in
           if x = 0 then f else append_loop sys (drop x rest) (f\<lparr>written := written f @ take x rest\<rparr>))"
  by auto
termination by (relation "measure (\<lambda>(sys, rest, f). length rest)") auto

declare append_loop.simps [simp del]

definition file_append :: "sys_fwrite \<Rightarrow> bytes \<Rightarrow> append_file \<Rightarrow> append_file" where
  "file_append sys logline f =
     (let n = sys logline;
          f = append_loop sys (drop n logline) (f\<lparr>written := written f @ take n logline\<rparr>)
      in f\<lparr>writtenBytes := writtenBytes f + length logline\<rparr>)"

lemma append_loop_all:
  "(\<And>d. d \<noteq> [] \<Longrightarrow> 0 < sys d) \<Longrightarrow>
     written (append_loop sys rest f) = written f @ rest \<and> filename (append_loop sys rest f) = filename f
     \<and> writtenBytes (append_loop sys rest f) = writtenBytes f"
proof (induction sys rest f rule: append_loop.induct)
  case (1 sys rest f)
  then show ?case by (cases "rest = []") (simp_all add: append_loop.simps [of sys rest f] append_loop.simps [of sys "[]" f] Let_def)
qed

lemma file_append_all:
  assumes "\<And>d. d \<noteq> [] \<Longrightarrow> 0 < sys d"
  shows "written (file_append sys d f) = written f @ d \<and> filename (file_append sys d f) = filename f
    \<and> writtenBytes (file_append sys d f) = writtenBytes f + length d"
  using append_loop_all [OF assms] by (simp add: file_append_def Let_def)

subsection \<open>\<open>ReadSmallFile\<close>\<close>

text \<open>The results of \<open>read(2)\<close> in turn: an error number or the bytes; the loop ends at the limit, at the end of the file,
  or at an error.\<close>

fun read_loop :: "nat \<Rightarrow> (int + bytes) list \<Rightarrow> bytes \<Rightarrow> int \<Rightarrow> bytes \<times> int" where
  "read_loop maxSize [] content err = (content, err)"
| "read_loop maxSize (r # rs) content err =
     (if length content < maxSize
      then case r of Inr d \<Rightarrow> if d \<noteq> [] then read_loop maxSize rs (content @ d) err else (content, err)
                   | Inl e \<Rightarrow> (content, e)
      else (content, err))"

definition kReadBufferSize :: nat where "kReadBufferSize = 64 * 1024"

text \<open>Each result is at most what was asked for.\<close>

fun reads_ok :: "nat \<Rightarrow> nat \<Rightarrow> (int + bytes) list \<Rightarrow> bool" where
  "reads_ok maxSize n [] \<longleftrightarrow> True"
| "reads_ok maxSize n (Inl e # rs) \<longleftrightarrow> True"
| "reads_ok maxSize n (Inr d # rs) \<longleftrightarrow> length d \<le> min (maxSize - n) kReadBufferSize \<and> reads_ok maxSize (n + length d) rs"

datatype stat_result = Stat_ok (st_isreg: bool) (st_isdir: bool) (st_size: int) (st_mtime: int) (st_ctime: int) | Stat_fail int

definition EISDIR :: int where "EISDIR = 21"

text \<open>The content, the error number, and what is stored through the three pointers that are not NULL (\<open>want\<close>).\<close>

definition readToString :: "nat \<Rightarrow> bool \<times> bool \<times> bool \<Rightarrow> int \<Rightarrow> int \<Rightarrow> stat_result \<Rightarrow> (int + bytes) list
    \<Rightarrow> bytes \<times> int \<times> int option \<times> int option \<times> int option" where
  "readToString maxSize want fd open_err fstat reads =
     (let (wantSize, wantModify, wantCreate) = want; err = open_err in
      if fd \<ge> 0
      then let (err, sz, mtime, ctime) =
                 (if wantSize
                  then case fstat of
                         Stat_ok reg dir sz mtime ctime \<Rightarrow>
                           (if \<not> reg \<and> dir then EISDIR else err, if reg then Some sz else None,
                            if wantModify then Some mtime else None, if wantCreate then Some ctime else None)
                       | Stat_fail e \<Rightarrow> (e, None, None, None)
                  else (err, None, None, None));
               (content, err) = read_loop maxSize reads [] err
           in (content, err, sz, mtime, ctime)
      else ([], err, None, None, None))"

definition readToBuffer :: "int \<Rightarrow> int \<Rightarrow> int + bytes \<Rightarrow> int \<times> (nat \<times> bytes) option" where
  "readToBuffer fd open_err pread =
     (if fd \<ge> 0
      then case pread of Inr d \<Rightarrow> (open_err, Some (length d, d @ [CHR 0x00])) | Inl e \<Rightarrow> (e, None)
      else (open_err, None))"

lemma read_loop_bounded:
  "reads_ok maxSize (length content) rs \<Longrightarrow> length content \<le> maxSize \<Longrightarrow> length (fst (read_loop maxSize rs content err)) \<le> maxSize"
proof (induction rs arbitrary: content)
  case (Cons r rs)
  then show ?case by (cases r) auto
qed simp

lemma readToString_bounded:
  assumes "reads_ok maxSize 0 reads"
  shows "length (fst (readToString maxSize want fd err fstat reads)) \<le> maxSize"
proof -
  have "\<forall>e c e'. read_loop maxSize reads [] e = (c, e') \<longrightarrow> length c \<le> maxSize"
    using read_loop_bounded [of maxSize "[]" reads] assms by (metis fst_conv le0 list.size(3))
  then show ?thesis by (auto simp: readToString_def Let_def split: prod.splits)
qed

subsection \<open>\<open>LogFile\<close>\<close>

text \<open>\<open>clock\<close> gives the results of \<open>time(NULL)\<close> one after the other (the seconds since 1970); \<open>old_files\<close> are the files
  that have been closed. The name of a file depends on the base name, the second, the host and the process.\<close>

record log_file =
  lf_basename :: string
  rollSize :: nat
  lf_flushInterval :: int
  checkEveryN :: nat
  lf_count :: nat
  startOfPeriod :: int
  lastRoll :: int
  lastFlush :: int
  lf_file :: "append_file option"
  old_files :: "append_file list"
  flushes :: nat

definition kRollPerSeconds :: int where "kRollPerSeconds = 60 * 60 * 24"

definition tm_name :: "tm \<Rightarrow> string" where
  "tm_name t = ''.'' @ pad_left 4 (CHR ''0'') (dec_int (tm_year t + 1900)) @ pad_left 2 (CHR ''0'') (dec_int (tm_mon t + 1))
     @ pad_left 2 (CHR ''0'') (dec_int (tm_mday t)) @ ''-'' @ pad_left 2 (CHR ''0'') (dec_int (tm_hour t))
     @ pad_left 2 (CHR ''0'') (dec_int (tm_min t)) @ pad_left 2 (CHR ''0'') (dec_int (tm_sec t)) @ ''.''"

definition getLogFileName :: "string \<Rightarrow> nat \<Rightarrow> string \<Rightarrow> int \<Rightarrow> string" where
  "getLogFileName hostname pid bname now =
     bname @ tm_name (gmtime_r now) @ hostname @ ''.'' @ dec_nat pid @ ''.log''"

definition period :: "int \<Rightarrow> int" where "period now = c_div now kRollPerSeconds * kRollPerSeconds"

definition rollFile :: "string \<Rightarrow> nat \<Rightarrow> int \<Rightarrow> log_file \<Rightarrow> log_file \<times> bool" where
  "rollFile hostname pid now l =
     (let nm = getLogFileName hostname pid (lf_basename l) now;
          start = period now
      in if now > lastRoll l
         then (l\<lparr>lastRoll := now, lastFlush := now, startOfPeriod := start,
                 old_files := old_files l @ (case lf_file l of Some f \<Rightarrow> [f] | None \<Rightarrow> []),
                 lf_file := Some (mk_append_file nm)\<rparr>, True)
         else (l, False))"

definition mk_log_file :: "string \<Rightarrow> nat \<Rightarrow> int \<Rightarrow> string \<Rightarrow> nat \<Rightarrow> int \<Rightarrow> nat \<Rightarrow> log_file option" where
  "mk_log_file hostname pid now bname roll flushInterval everyN =
     assert_then (CHR ''/'' \<notin> set bname)
      (Some (fst (rollFile hostname pid now
         \<lparr>lf_basename = bname, rollSize = roll, lf_flushInterval = flushInterval, checkEveryN = everyN, lf_count = 0,
          startOfPeriod = 0, lastRoll = 0, lastFlush = 0, lf_file = None, old_files = [], flushes = 0\<rparr>)))"

definition lf_flush :: "log_file \<Rightarrow> log_file option" where
  "lf_flush l = do { f \<leftarrow> lf_file l; Some (l\<lparr>flushes := Suc (flushes l)\<rparr>) }"

text \<open>\<open>now\<close> is read for the check, \<open>now'\<close> by \<open>rollFile\<close>. A null file is dereferenced: None.\<close>

definition append_unlocked :: "sys_fwrite \<Rightarrow> string \<Rightarrow> nat \<Rightarrow> int \<Rightarrow> int \<Rightarrow> bytes \<Rightarrow> log_file \<Rightarrow> log_file option" where
  "append_unlocked sys hostname pid now now' logline l =
     do { f \<leftarrow> lf_file l;
          let f = file_append sys logline f;
          let l = l\<lparr>lf_file := Some f\<rparr>;
          if writtenBytes f > rollSize l then Some (fst (rollFile hostname pid now' l))
          else let l = l\<lparr>lf_count := Suc (lf_count l)\<rparr>
               in if lf_count l \<ge> checkEveryN l
                  then let l = l\<lparr>lf_count := 0\<rparr>;
                           thisPeriod = period now
                       in if thisPeriod \<noteq> startOfPeriod l then Some (fst (rollFile hostname pid now' l))
                          else if now - lastFlush l > lf_flushInterval l
                               then lf_flush (l\<lparr>lastFlush := now\<rparr>)
                               else Some l
                  else Some l }"

definition files_text :: "log_file \<Rightarrow> bytes" where
  "files_text l = concat (map written (old_files l)) @ (case lf_file l of Some f \<Rightarrow> written f | None \<Rightarrow> [])"

lemma rollFile_text [simp]:
  "files_text (fst (rollFile hostname pid now l)) = files_text l"
  "lf_file l \<noteq> None \<Longrightarrow> lf_file (fst (rollFile hostname pid now l)) \<noteq> None"
  by (auto simp: rollFile_def files_text_def mk_append_file_def Let_def split: option.splits)

lemma append_unlocked_text:
  assumes "\<And>d. d \<noteq> [] \<Longrightarrow> 0 < sys d" "lf_file l \<noteq> None"
  shows "\<exists>l'. append_unlocked sys hostname pid now now' logline l = Some l' \<and> files_text l' = files_text l @ logline
    \<and> lf_file l' \<noteq> None"
proof -
  obtain f where f: "lf_file l = Some f" using assms(2) by auto
  define l1 where "l1 = l\<lparr>lf_file := Some (file_append sys logline f)\<rparr>"
  have t: "files_text l1 = files_text l @ logline" using file_append_all [OF assms(1)] by (simp add: l1_def files_text_def f)
  have same: "files_text (l1\<lparr>lf_count := c\<rparr>) = files_text l1" "files_text (l1\<lparr>lf_count := c, lastFlush := w, flushes := k\<rparr>) = files_text l1" for c w k
    by (simp_all add: files_text_def)
  have nn: "lf_file (l1\<lparr>lf_count := c\<rparr>) \<noteq> None" "lf_file l1 \<noteq> None" for c by (simp_all add: l1_def)
  show ?thesis
    using t rollFile_text(2) [OF nn(1)] rollFile_text(2) [OF nn(2)]
    by (simp add: append_unlocked_def f l1_def [symmetric] Let_def same lf_flush_def)
      (auto simp: same l1_def files_text_def)
qed

subsection \<open>\<open>AsyncLogging\<close>\<close>

text \<open>What the logging thread needs of its file: \<open>append\<close> adds the bytes and never fails.\<close>

locale log_sink =
  fixes out :: "bytes \<Rightarrow> 's \<Rightarrow> 's option" and text_of :: "'s \<Rightarrow> bytes" and ready :: "'s \<Rightarrow> bool"
  assumes out_total: "ready s \<Longrightarrow> \<exists>s'. out d s = Some s' \<and> ready s' \<and> text_of s' = text_of s @ d"

text \<open>
  The front end's buffers and the thread's: a critical section is one step, and \<open>al_pc\<close> says where the
  thread is. \<open>appended\<close> records the lines passed to \<open>append\<close>, every one of them, and \<open>dropped\<close> whether the thread has
  ever thrown buffers away.
\<close>

datatype al_pc = A_top | A_write | A_done

record 's async_log =
  running :: bool
  currentBuffer :: fixed_buffer
  nextBuffer :: "fixed_buffer option"
  full_buffers :: "fixed_buffer list"
  newBuffer1 :: "fixed_buffer option"
  newBuffer2 :: "fixed_buffer option"
  toWrite :: "fixed_buffer list"
  al_pc :: al_pc
  sink :: 's
  appended :: "bytes list"
  dropped :: bool
  notified :: nat

definition mk_async_log :: "'s \<Rightarrow> 's async_log" where
  "mk_async_log s = \<lparr>running = True, currentBuffer = fb_bzero (mk_fixed_buffer kLargeBuffer),
     nextBuffer = Some (fb_bzero (mk_fixed_buffer kLargeBuffer)), full_buffers = [],
     newBuffer1 = Some (mk_fixed_buffer kLargeBuffer), newBuffer2 = Some (mk_fixed_buffer kLargeBuffer), toWrite = [],
     al_pc = A_top, sink = s, appended = [], dropped = False, notified = 0\<rparr>"

definition al_append :: "bytes \<Rightarrow> 's async_log \<Rightarrow> 's async_log" where
  "al_append logline a =
     (let a = a\<lparr>appended := appended a @ [logline]\<rparr> in
      if fb_avail (currentBuffer a) > length logline
      then a\<lparr>currentBuffer := fb_append logline (currentBuffer a)\<rparr>
      else let a = a\<lparr>full_buffers := full_buffers a @ [currentBuffer a]\<rparr>;
               a = (case nextBuffer a of
                      Some b \<Rightarrow> a\<lparr>currentBuffer := b, nextBuffer := None\<rparr>
                    | None \<Rightarrow> a\<lparr>currentBuffer := mk_fixed_buffer kLargeBuffer\<rparr>)
           in a\<lparr>currentBuffer := fb_append logline (currentBuffer a), notified := Suc (notified a)\<rparr>)"

definition al_stop :: "'s async_log \<Rightarrow> 's async_log" where
  "al_stop a = a\<lparr>running := False\<rparr>"

text \<open>The thread's critical section, after the wait.\<close>

definition al_swap :: "'s async_log \<Rightarrow> 's async_log option" where
  "al_swap a =
     (case (newBuffer1 a, newBuffer2 a) of
        (Some b1, Some b2) \<Rightarrow>
          assert_then (fb_length b1 = 0) (assert_then (fb_length b2 = 0) (assert_then (toWrite a = [])
            (let bufs = full_buffers a @ [currentBuffer a];
                 a = a\<lparr>currentBuffer := b1, newBuffer1 := None, toWrite := bufs, full_buffers := []\<rparr>;
                 a = (if nextBuffer a = None then a\<lparr>nextBuffer := Some b2, newBuffer2 := None\<rparr> else a)
             in Some (a\<lparr>al_pc := A_write\<rparr>))))
      | _ \<Rightarrow> None)"

fun write_buffers :: "(bytes \<Rightarrow> 's \<Rightarrow> 's option) \<Rightarrow> fixed_buffer list \<Rightarrow> 's \<Rightarrow> 's option" where
  "write_buffers out [] s = Some s"
| "write_buffers out (b # bs) s = do { s \<leftarrow> out (fb_toString b) s; write_buffers out bs s }"

text \<open>\<open>!newBuffer\<close>: take the last written buffer back.\<close>

definition refill :: "fixed_buffer option \<Rightarrow> fixed_buffer list \<Rightarrow> (fixed_buffer option \<times> fixed_buffer list) option" where
  "refill nb bufs =
     (case nb of
        Some b \<Rightarrow> Some (nb, bufs)
      | None \<Rightarrow> assert_then (bufs \<noteq> []) (Some (Some (fb_reset (last bufs)), butlast bufs)))"

definition al_write :: "(bytes \<Rightarrow> 's \<Rightarrow> 's option) \<Rightarrow> string \<Rightarrow> 's async_log \<Rightarrow> 's async_log option" where
  "al_write out notice a =
     assert_then (toWrite a \<noteq> [])
      (do { (s, bufs, lost) \<leftarrow>
              (if length (toWrite a) > 25
               then do { s \<leftarrow> out notice (sink a); Some (s, take 2 (toWrite a), True) }
               else Some (sink a, toWrite a, dropped a));
            s \<leftarrow> write_buffers out bufs s;
            let bufs = (if length bufs > 2 then take 2 bufs else bufs);
            (b1, bufs) \<leftarrow> refill (newBuffer1 a) bufs;
            (b2, bufs) \<leftarrow> refill (newBuffer2 a) bufs;
            Some (a\<lparr>sink := s, dropped := lost, newBuffer1 := b1, newBuffer2 := b2, toWrite := [], al_pc := A_top\<rparr>) })"

definition al_thread :: "(bytes \<Rightarrow> 's \<Rightarrow> 's option) \<Rightarrow> string \<Rightarrow> 's async_log \<Rightarrow> 's async_log option" where
  "al_thread out notice a =
     (case al_pc a of
        A_top \<Rightarrow> if running a then al_swap a else Some (a\<lparr>al_pc := A_done\<rparr>)
      | A_write \<Rightarrow> al_write out notice a
      | A_done \<Rightarrow> Some a)"

datatype al_event = AL_append bytes | AL_stop | AL_thread string

fun al_step :: "(bytes \<Rightarrow> 's \<Rightarrow> 's option) \<Rightarrow> al_event \<Rightarrow> 's async_log \<Rightarrow> 's async_log option" where
  "al_step out (AL_append d) a = Some (al_append d a)"
| "al_step out AL_stop a = Some (al_stop a)"
| "al_step out (AL_thread notice) a = al_thread out notice a"

fun al_run :: "(bytes \<Rightarrow> 's \<Rightarrow> 's option) \<Rightarrow> al_event list \<Rightarrow> 's async_log \<Rightarrow> 's async_log option" where
  "al_run out [] a = Some a"
| "al_run out (e # es) a = do { a \<leftarrow> al_step out e a; al_run out es a }"

definition texts :: "fixed_buffer list \<Rightarrow> bytes" where "texts bs = concat (map fb_toString bs)"

definition empty_buffer :: "fixed_buffer \<Rightarrow> bool" where
  "empty_buffer b \<longleftrightarrow> fb_cur b = 0 \<and> length (fb_data b) = kLargeBuffer"

definition big_ok :: "fixed_buffer \<Rightarrow> bool" where
  "big_ok b \<longleftrightarrow> fb_ok b \<and> length (fb_data b) = kLargeBuffer"

lemma empty_big [simp]: "empty_buffer b \<Longrightarrow> big_ok b" "empty_buffer b \<Longrightarrow> fb_toString b = []"
  "empty_buffer (mk_fixed_buffer kLargeBuffer)" "big_ok b \<Longrightarrow> empty_buffer (fb_reset b)" "fb_bzero (mk_fixed_buffer n) = mk_fixed_buffer n"
  by (auto simp: empty_buffer_def big_ok_def fb_ok_def fb_toString_def mk_fixed_buffer_def fb_reset_def fb_bzero_def kLargeBuffer_def)

text \<open>The lines that a buffer can hold at all: \<open>FixedBuffer::append\<close> ignores a line that does not fit into an empty one.\<close>

definition kept_text :: "bytes list \<Rightarrow> bytes" where
  "kept_text ls = concat (filter (\<lambda>d. length d < kLargeBuffer) ls)"

lemma kept_text_simps [simp]:
  "kept_text [] = []" "kept_text (xs @ ys) = kept_text xs @ kept_text ys"
  "kept_text [d] = (if length d < kLargeBuffer then d else [])"
  by (simp_all add: kept_text_def)

fun appends :: "al_event list \<Rightarrow> bytes list" where
  "appends [] = []"
| "appends (AL_append d # es) = d # appends es"
| "appends (AL_stop # es) = appends es"
| "appends (AL_thread notice # es) = appends es"

lemma al_append_appended: "appended (al_append d a) = appended a @ [d]" "sink (al_append d a) = sink a" "al_pc (al_append d a) = al_pc a"
  by (simp_all add: al_append_def Let_def split: option.splits)

lemma al_thread_appended: "al_thread out notice a = Some a' \<Longrightarrow> appended a' = appended a"
  by (auto simp: al_thread_def al_swap_def al_write_def assert_then_def Let_def bind_eq_Some_conv
      split: al_pc.splits option.splits if_splits)

lemma al_run_appended: "al_run out es a = Some a' \<Longrightarrow> appended a' = appended a @ appends es"
proof (induction es arbitrary: a)
  case (Cons e es)
  then show ?case
    by (cases e) (auto simp: bind_eq_Some_conv al_append_appended al_stop_def dest: al_thread_appended)
qed simp

lemma al_done_fixed: "al_pc a = A_done \<Longrightarrow> al_run out es a = Some a' \<Longrightarrow> sink a' = sink a"
proof (induction es arbitrary: a)
  case (Cons e es)
  then obtain a1 where "al_step out e a = Some a1" "al_run out es a1 = Some a'" by (auto simp: bind_eq_Some_conv)
  moreover from this(1) Cons.prems(1) have "al_pc a1 = A_done" "sink a1 = sink a"
    by (cases e; auto simp: al_append_appended al_stop_def al_thread_def)+
  ultimately show ?case using Cons.IH by metis
qed simp

context log_sink begin

definition al_inv :: "bytes \<Rightarrow> 's async_log \<Rightarrow> bool" where
  "al_inv base a \<longleftrightarrow> ready (sink a) \<and> big_ok (currentBuffer a) \<and> (\<forall>b \<in> set (full_buffers a). big_ok b) \<and> (\<forall>b \<in> set (toWrite a). big_ok b)
     \<and> (\<forall>b. nextBuffer a = Some b \<longrightarrow> empty_buffer b)
     \<and> (nextBuffer a = None \<longrightarrow> full_buffers a \<noteq> [])
     \<and> (\<forall>b. newBuffer1 a = Some b \<longrightarrow> empty_buffer b) \<and> (\<forall>b. newBuffer2 a = Some b \<longrightarrow> empty_buffer b)
     \<and> (al_pc a \<noteq> A_write \<longrightarrow> newBuffer1 a \<noteq> None \<and> newBuffer2 a \<noteq> None \<and> toWrite a = [])
     \<and> (al_pc a = A_write \<longrightarrow> newBuffer1 a = None \<and> toWrite a \<noteq> [] \<and> (newBuffer2 a = None \<longrightarrow> length (toWrite a) \<ge> 2))
     \<and> (\<not> dropped a \<longrightarrow> text_of (sink a) @ texts (toWrite a) @ texts (full_buffers a) @ fb_toString (currentBuffer a)
          = base @ kept_text (appended a))"

lemma al_append_inv:
  assumes "al_inv base a"
  shows "al_inv base (al_append d a)"
proof -
  have cur: "big_ok (fb_append d b) \<and> fb_toString (fb_append d b) = fb_toString b @ (if length d < fb_avail b then d else [])"
    if "big_ok b" for b
    using that fb_append_ok [of b d] by (simp add: big_ok_def)
  have fresh: "big_ok (fb_append d b) \<and> fb_toString (fb_append d b) = (if length d < kLargeBuffer then d else [])"
    if "empty_buffer b" for b
    using cur [of b] that by (simp add: empty_buffer_def fb_avail_def)
  show ?thesis
  proof (cases "fb_avail (currentBuffer a) > length d")
    case True
    moreover have "fb_avail (currentBuffer a) \<le> kLargeBuffer"
      using assms by (simp add: al_inv_def big_ok_def fb_avail_def)
    ultimately show ?thesis
      using assms cur [of "currentBuffer a"] by (simp add: al_append_def al_inv_def Let_def)
  next
    case False
    with assms fresh fresh [OF empty_big(3)] show ?thesis
      by (cases "nextBuffer a") (simp_all add: al_append_def al_inv_def Let_def texts_def)
  qed
qed

lemma al_swap_inv:
  assumes "al_inv base a" "al_pc a = A_top"
  shows "\<exists>a'. al_swap a = Some a' \<and> al_inv base a' \<and> al_pc a' = A_write"
proof -
  obtain b1 b2 where b: "newBuffer1 a = Some b1" "newBuffer2 a = Some b2" "empty_buffer b1" "empty_buffer b2" "toWrite a = []"
    using assms by (auto simp: al_inv_def)
  then have "fb_length b1 = 0" "fb_length b2 = 0" by (simp_all add: fb_length_def empty_buffer_def)
  with b assms show ?thesis
    by (cases "nextBuffer a") (auto simp: al_swap_def al_inv_def Let_def texts_def Suc_le_eq)
qed

lemma write_buffers_text:
  "ready s \<Longrightarrow> \<exists>s'. write_buffers out bs s = Some s' \<and> ready s' \<and> text_of s' = text_of s @ texts bs"
proof (induction bs arbitrary: s)
  case (Cons b bs)
  obtain s1 where "out (fb_toString b) s = Some s1" "ready s1" "text_of s1 = text_of s @ fb_toString b"
    using out_total [OF Cons.prems] by blast
  with Cons.IH [OF this(2)] show ?case by (auto simp: texts_def)
qed (simp add: texts_def)

lemma refill_ok:
  assumes "\<forall>b. nb = Some b \<longrightarrow> empty_buffer b" "\<forall>b \<in> set bufs. big_ok b" "nb = None \<longrightarrow> bufs \<noteq> []"
  shows "\<exists>b bufs'. refill nb bufs = Some (Some b, bufs') \<and> empty_buffer b \<and> (\<forall>b \<in> set bufs'. big_ok b)
    \<and> length bufs' = length bufs - (if nb = None then 1 else 0)"
  using assms by (cases nb) (auto simp: refill_def dest: in_set_butlastD)

lemma al_write_inv:
  assumes "al_inv base a" "al_pc a = A_write"
  shows "\<exists>a'. al_write out notice a = Some a' \<and> al_inv base a' \<and> al_pc a' = A_top
    \<and> (\<not> dropped a' \<longleftrightarrow> \<not> dropped a \<and> length (toWrite a) \<le> 25)"
proof -
  note inv = assms(1) [unfolded al_inv_def]
  have rdy: "ready (sink a)" and tw: "toWrite a \<noteq> []" "\<forall>b \<in> set (toWrite a). big_ok b"
    and n1: "newBuffer1 a = None" and n2: "newBuffer2 a = None \<longrightarrow> length (toWrite a) \<ge> 2"
    "\<forall>b. newBuffer2 a = Some b \<longrightarrow> empty_buffer b"
    using inv assms(2) by simp_all
  define bufs where "bufs = (if length (toWrite a) > 25 then take 2 (toWrite a) else toWrite a)"
  define lost where "lost \<longleftrightarrow> length (toWrite a) > 25 \<or> dropped a"
  obtain s0 where s0: "(if length (toWrite a) > 25 then out notice (sink a) else Some (sink a)) = Some s0" "ready s0"
    "length (toWrite a) \<le> 25 \<longrightarrow> s0 = sink a"
    using out_total [OF rdy, of notice] rdy by (cases "length (toWrite a) > 25") auto
  obtain s1 where s1: "write_buffers out bufs s0 = Some s1" "ready s1" "text_of s1 = text_of s0 @ texts bufs"
    using write_buffers_text [OF s0(2)] by blast
  define kept where "kept = (if length bufs > 2 then take 2 bufs else bufs)"
  have kept: "\<forall>b \<in> set kept. big_ok b" "length kept = min 2 (length (toWrite a))" "kept \<noteq> []"
    using tw by (auto simp: kept_def bufs_def dest: in_set_takeD)
  obtain b1 r1 where r1: "refill (newBuffer1 a) kept = Some (Some b1, r1)" "empty_buffer b1" "\<forall>b \<in> set r1. big_ok b"
    "length r1 = length kept - 1"
    using refill_ok [of "newBuffer1 a" kept] n1 kept by auto
  have nn: "newBuffer2 a = None \<longrightarrow> r1 \<noteq> []" using r1(4) kept(2) n2(1) by auto
  obtain b2 r2 where r2: "refill (newBuffer2 a) r1 = Some (Some b2, r2)" "empty_buffer b2"
    using refill_ok [OF n2(2) r1(3) nn] by blast
  define a' where "a' = a\<lparr>sink := s1, dropped := lost, newBuffer1 := Some b1, newBuffer2 := Some b2, toWrite := [], al_pc := A_top\<rparr>"
  have first: "(if length (toWrite a) > 25
      then do { s \<leftarrow> out notice (sink a); Some (s, take 2 (toWrite a), True) }
      else Some (sink a, toWrite a, dropped a)) = Some (s0, bufs, lost)"
    using s0(1) by (cases "length (toWrite a) > 25") (simp_all add: bufs_def lost_def)
  have "al_write out notice a = Some a'"
    unfolding al_write_def first using tw(1) s1(1) r1(1) r2(1) by (simp add: kept_def [symmetric] a'_def Let_def)
  moreover have "al_inv base a'"
    using inv s1 r1(2) r2(2) s0(3) by (auto simp: al_inv_def a'_def lost_def bufs_def texts_def)
  ultimately show ?thesis by (auto simp: a'_def lost_def)
qed

lemma al_step_inv:
  assumes "al_inv base a"
  shows "\<exists>a'. al_step out e a = Some a' \<and> al_inv base a'"
proof (cases e)
  case (AL_append d)
  then show ?thesis using al_append_inv [OF assms] by simp
next
  case AL_stop
  then show ?thesis using assms by (simp add: al_stop_def al_inv_def)
next
  case (AL_thread notice)
  show ?thesis
  proof (cases "al_pc a")
    case A_top
    have "al_inv base (a\<lparr>al_pc := A_done\<rparr>)" using assms A_top by (auto simp: al_inv_def)
    then show ?thesis using AL_thread A_top al_swap_inv [OF assms A_top] by (auto simp: al_thread_def)
  next
    case A_write
    then show ?thesis using AL_thread al_write_inv [OF assms A_write] by (auto simp: al_thread_def)
  next
    case A_done
    then show ?thesis using AL_thread assms by (simp add: al_thread_def)
  qed
qed

lemma al_run_inv: "al_inv base a \<Longrightarrow> \<exists>a'. al_run out es a = Some a' \<and> al_inv base a'"
proof (induction es arbitrary: a)
  case (Cons e es)
  obtain a1 where "al_step out e a = Some a1" "al_inv base a1" using al_step_inv [OF Cons.prems] by blast
  with Cons.IH show ?case by auto
qed simp

lemma al_start_inv: "ready s \<Longrightarrow> al_inv (text_of s) (mk_async_log s)"
proof -
  assume "ready s"
  moreover have "fb_toString (mk_fixed_buffer kLargeBuffer) = []" by (rule empty_big(2) [OF empty_big(3)])
  ultimately show ?thesis
    using empty_big(1) [OF empty_big(3)] by (simp add: al_inv_def mk_async_log_def texts_def)
qed

lemma al_lossless:
  assumes "ready s"
  shows "\<exists>a. al_run out es (mk_async_log s) = Some a
    \<and> (\<not> dropped a \<longrightarrow> text_of (sink a) @ texts (toWrite a) @ texts (full_buffers a) @ fb_toString (currentBuffer a)
         = text_of s @ kept_text (appends es))
    \<and> (al_pc a = A_done \<longrightarrow> toWrite a = [] \<and> (\<forall>es' a'. al_run out es' a = Some a' \<longrightarrow> sink a' = sink a))"
proof -
  obtain a where a: "al_run out es (mk_async_log s) = Some a" "al_inv (text_of s) a"
    using al_run_inv [OF al_start_inv [OF assms]] by blast
  have "appended a = appends es" using al_run_appended [OF a(1)] by (simp add: mk_async_log_def)
  moreover have "al_pc a = A_done \<longrightarrow> (\<forall>es' a'. al_run out es' a = Some a' \<longrightarrow> sink a' = sink a)"
    using al_done_fixed by blast
  ultimately show ?thesis using a unfolding al_inv_def by (intro exI [of _ a]) auto
qed

end

text \<open>A \<open>fwrite\<close> that takes at least a byte, and a clock.\<close>

definition takes :: "(bytes \<Rightarrow> nat) \<Rightarrow> sys_fwrite" where
  "takes k d = (if d = [] then 0 else min (length d) (Suc (k d)))"

lemma takes_pos: "d \<noteq> [] \<Longrightarrow> 0 < takes k d" by (simp add: takes_def)

definition file_sink :: "(bytes \<Rightarrow> nat) \<Rightarrow> string \<Rightarrow> nat \<Rightarrow> (log_file \<Rightarrow> int) \<Rightarrow> (log_file \<Rightarrow> int) \<Rightarrow> bytes \<Rightarrow> log_file \<Rightarrow> log_file option" where
  "file_sink k hostname pid clock clock' d l = append_unlocked (takes k) hostname pid (clock l) (clock' l) d l"

interpretation log_to_file: log_sink "file_sink k hostname pid clock clock'" files_text "\<lambda>l. lf_file l \<noteq> None"
  for k hostname pid clock clock'
proof
  fix l :: log_file and d
  assume l: "lf_file l \<noteq> None"
  show "\<exists>l'. file_sink k hostname pid clock clock' d l = Some l' \<and> lf_file l' \<noteq> None \<and> files_text l' = files_text l @ d"
    using append_unlocked_text [of "takes k" l hostname pid "clock l" "clock' l" d] l takes_pos
    unfolding file_sink_def by metis
qed



text \<open>What \<open>stop\<close> loses: the thread leaves its loop without a last swap, so what is in the front end's buffers is never written.\<close>

lemma stop_loses_current:
  "al_pc a = A_top \<Longrightarrow> al_run out [AL_stop, AL_thread notice] a = Some a' \<Longrightarrow>
     al_pc a' = A_done \<and> sink a' = sink a \<and> currentBuffer a' = currentBuffer a"
  by (auto simp: al_thread_def al_stop_def)

end
