(* ===== verification/Net_Http.thy ===== *)
theory Net_Http
  imports Net_TcpConnection Decimal "HOL-Library.Char_ord" "HOL-Library.List_Lexorder" "HOL-Library.Sublist"
begin

section \<open>HTTP: \<open>net/http/\<close>\<close>

subsection \<open>\<open>std::map\<close>\<close>

text \<open>A map from strings: a list sorted by key, as the map iterates.\<close>

fun map_put :: "string \<Rightarrow> 'v \<Rightarrow> (string \<times> 'v) list \<Rightarrow> (string \<times> 'v) list" where
  "map_put k v [] = [(k, v)]"
| "map_put k v ((k', v') # xs) =
     (if k = k' then (k, v) # xs else if k < k' then (k, v) # (k', v') # xs else (k', v') # map_put k v xs)"

lemma map_of_map_put [simp]: "map_of (map_put k v xs) = (map_of xs)(k \<mapsto> v)"
proof (induction k v xs rule: map_put.induct)
  case (2 k v k' v' xs)
  consider "k = k'" | "k \<noteq> k'" "k < k'" | "k \<noteq> k'" "\<not> k < k'" by blast
  then show ?case
  proof cases
    case 3
    then show ?thesis using 2 fun_upd_twist [of k' k "map_of xs" "Some v'" "Some v"] by (simp add: fun_upd_def)
  qed (simp_all add: fun_upd_def fun_eq_iff)
qed simp

lemma map_put_keys: "set (map fst (map_put k v xs)) = insert k (set (map fst xs))"
  by (induction k v xs rule: map_put.induct) (simp_all add: insert_commute)

lemma map_put_sorted: "sorted_wrt (<) (map fst xs) \<Longrightarrow> sorted_wrt (<) (map fst (map_put k v xs))"
proof (induction k v xs rule: map_put.induct)
  case (2 k v k' v' xs)
  have "\<forall>y \<in> fst ` set (map_put k v xs). y = k \<or> y \<in> fst ` set xs" using map_put_keys [of k v xs] by auto
  then show ?case
    using 2 less_trans [of k k'] by (cases "k < k'"; cases "k = k'") (auto simp: not_less_iff_gr_or_eq, fastforce)
qed simp

subsection \<open>\<open>HttpRequest\<close>\<close>

datatype Method = kInvalid | kGet | kPost | kHead | kPut | kDelete
datatype Version = kUnknown | kHttp10 | kHttp11

record http_request =
  req_method :: Method
  version :: Version
  path :: string
  query :: string
  receiveTime :: timestamp
  headers :: "(string \<times> string) list"

definition mk_http_request :: http_request where
  "mk_http_request = \<lparr>req_method = kInvalid, version = kUnknown, path = [], query = [], receiveTime = Timestamp_default, headers = []\<rparr>"

definition setMethod :: "string \<Rightarrow> http_request \<Rightarrow> (bool \<times> http_request) option" where
  "setMethod m r =
     assert_then (req_method r = kInvalid)
      (let k = (if m = ''GET'' then kGet else if m = ''POST'' then kPost else if m = ''HEAD'' then kHead
                else if m = ''PUT'' then kPut else if m = ''DELETE'' then kDelete else kInvalid)
       in Some (k \<noteq> kInvalid, r\<lparr>req_method := k\<rparr>))"

fun methodString :: "Method \<Rightarrow> string" where
  "methodString kGet = ''GET''" | "methodString kPost = ''POST''" | "methodString kHead = ''HEAD''"
| "methodString kPut = ''PUT''" | "methodString kDelete = ''DELETE''" | "methodString kInvalid = ''UNKNOWN''"

definition setVersion :: "Version \<Rightarrow> http_request \<Rightarrow> http_request" where "setVersion v r = r\<lparr>version := v\<rparr>"
definition setPath :: "string \<Rightarrow> http_request \<Rightarrow> http_request" where "setPath p r = r\<lparr>path := p\<rparr>"
definition setQuery :: "string \<Rightarrow> http_request \<Rightarrow> http_request" where "setQuery q r = r\<lparr>query := q\<rparr>"
definition setReceiveTime :: "timestamp \<Rightarrow> http_request \<Rightarrow> http_request" where "setReceiveTime t r = r\<lparr>receiveTime := t\<rparr>"

text \<open>\<open>start\<close>, \<open>colon\<close>, \<open>end\<close> delimit the header line; \<open>colon\<close> is the offset in it.\<close>

definition addHeader :: "string \<Rightarrow> nat \<Rightarrow> http_request \<Rightarrow> http_request" where
  "addHeader line colon r =
     (let field = take colon line;
          value = dropWhile is_space (drop (colon + 1) line);
          value = rev (dropWhile is_space (rev value))
      in r\<lparr>headers := map_put field value (headers r)\<rparr>)"

definition getHeader :: "string \<Rightarrow> http_request \<Rightarrow> string" where
  "getHeader field r = (case map_of (headers r) field of Some v \<Rightarrow> v | None \<Rightarrow> [])"

subsection \<open>\<open>HttpContext\<close>\<close>

datatype HttpRequestParseState = kExpectRequestLine | kExpectHeaders | kExpectBody | kGotAll

record http_context =
  hc_state :: HttpRequestParseState
  request :: http_request

definition mk_http_context :: http_context where
  "mk_http_context = \<lparr>hc_state = kExpectRequestLine, request = mk_http_request\<rparr>"

definition gotAll :: "http_context \<Rightarrow> bool" where "gotAll c \<longleftrightarrow> hc_state c = kGotAll"

definition hc_reset :: "http_context \<Rightarrow> http_context" where
  "hc_reset c = c\<lparr>hc_state := kExpectRequestLine, request := mk_http_request\<rparr>"

text \<open>Pointers into the line are offsets; \<open>end\<close> is its length.\<close>

definition processRequestLine :: "string \<Rightarrow> http_request \<Rightarrow> (bool \<times> http_request) option" where
  "processRequestLine line r =
     (let space = find_index (\<lambda>c. c = CHR '' '') line in
      if space = length line then Some (False, r)
      else do {
        (known, r) \<leftarrow> setMethod (take space line) r;
        if \<not> known then Some (False, r)
        else Some (let target = drop (space + 1) line;
                       space = find_index (\<lambda>c. c = CHR '' '') target in
              if space = length target then (False, r)
              else (let uri = take space target;
                        question = find_index (\<lambda>c. c = CHR ''?'') uri;
                        r = (if question \<noteq> length uri then setQuery (drop question uri) (setPath (take question uri) r)
                             else setPath uri r);
                        v = drop (space + 1) target
                    in if length v = 8 \<and> take 7 v = ''HTTP/1.''
                       then if last v = CHR ''1'' then (True, setVersion kHttp11 r)
                            else if last v = CHR ''0'' then (True, setVersion kHttp10 r)
                            else (False, r)
                       else (False, r))) })"

text \<open>The loop of \<open>parseRequest\<close>. In the states \<open>kExpectBody\<close> and \<open>kGotAll\<close> it does not end.\<close>

partial_function (option) parse_loop :: "timestamp \<Rightarrow> http_context \<Rightarrow> buffer \<Rightarrow> (bool \<times> http_context \<times> buffer) option" where
  "parse_loop t c b =
     (case hc_state c of
        kExpectRequestLine \<Rightarrow>
          (case findCRLF b of
             Some crlf \<Rightarrow> do {
               (ok, r) \<leftarrow> processRequestLine (bytes_between (peek b) crlf b) (request c);
               if ok
               then do { b \<leftarrow> retrieveUntil (crlf + 2) b;
                         parse_loop t (c\<lparr>request := setReceiveTime t r, hc_state := kExpectHeaders\<rparr>) b }
               else Some (False, c\<lparr>request := r\<rparr>, b) }
           | None \<Rightarrow> Some (True, c, b))
      | kExpectHeaders \<Rightarrow>
          (case findCRLF b of
             Some crlf \<Rightarrow>
               (let line = bytes_between (peek b) crlf b;
                    colon = find_index (\<lambda>c. c = CHR '':'') line
                in if colon \<noteq> length line
                   then do { b \<leftarrow> retrieveUntil (crlf + 2) b;
                             parse_loop t (c\<lparr>request := addHeader line colon (request c)\<rparr>) b }
                   else do { b \<leftarrow> retrieveUntil (crlf + 2) b; Some (True, c\<lparr>hc_state := kGotAll\<rparr>, b) })
           | None \<Rightarrow> Some (True, c, b))
      | kExpectBody \<Rightarrow> parse_loop t c b
      | kGotAll \<Rightarrow> parse_loop t c b)"

definition parseRequest :: "timestamp \<Rightarrow> http_context \<Rightarrow> buffer \<Rightarrow> (bool \<times> http_context \<times> buffer) option" where
  "parseRequest t c b = parse_loop t c b"

subsection \<open>The parser on the bytes of a stream\<close>

definition find_crlf :: "bytes \<Rightarrow> nat option" where
  "find_crlf s = (let i = std_search kCRLF s in if i = length s then None else Some i)"

lemma two: "length kCRLF = 2" by (simp add: const_defs)

lemma find_crlf_bound: "find_crlf s = Some i \<Longrightarrow> i + 2 \<le> length s"
proof -
  assume a: "find_crlf s = Some i"
  then have "i < length s" using std_search_le [of kCRLF s] by (auto simp: find_crlf_def Let_def split: if_splits)
  then have "take 2 (drop i s) = kCRLF" using std_search_hit [of kCRLF s] a two by (auto simp: find_crlf_def Let_def split: if_splits)
  then have "length (take 2 (drop i s)) = 2" using two by simp
  then show ?thesis by (simp add: min_def split: if_splits)
qed

lemma find_crlf_append: "find_crlf s = Some i \<Longrightarrow> find_crlf (s @ u) = Some i"
proof (induction s arbitrary: i)
  case Nil
  then show ?case by (simp add: find_crlf_def)
next
  case (Cons x xs)
  show ?case
  proof (cases "take 2 (x # xs) = kCRLF")
    case True
    then have "length (take 2 (x # xs)) = 2" using two by simp
    then have "take 2 ((x # xs) @ u) = take 2 (x # xs)" by (simp add: min_def split: if_splits)
    with True Cons.prems show ?thesis by (simp add: find_crlf_def two split: if_splits)
  next
    case False
    with Cons.prems have i: "std_search kCRLF xs \<noteq> length xs" "i = Suc (std_search kCRLF xs)"
      by (auto simp: find_crlf_def Let_def two split: if_splits)
    then have fx: "find_crlf xs = Some (std_search kCRLF xs)" by (simp add: find_crlf_def)
    with find_crlf_bound have "length xs \<ge> 2" by fastforce
    then have "take 2 ((x # xs) @ u) = take 2 (x # xs)" by (cases xs) simp_all
    with False Cons.IH [OF fx] i show ?thesis by (auto simp: find_crlf_def Let_def two split: if_splits)
  qed
qed

lemma find_crlf_line: "CHR 0x0D \<notin> set line \<Longrightarrow> find_crlf (line @ kCRLF @ u) = Some (length line)"
  by (induction line) (auto simp: find_crlf_def const_defs Let_def split: if_splits)

function aparse :: "timestamp \<Rightarrow> http_context \<Rightarrow> bytes \<Rightarrow> (bool \<times> http_context \<times> bytes) option" where
  "aparse t c s =
     (case hc_state c of
        kExpectRequestLine \<Rightarrow>
          (case find_crlf s of
             Some i \<Rightarrow> do {
               (ok, r) \<leftarrow> processRequestLine (take i s) (request c);
               if ok then aparse t (c\<lparr>request := setReceiveTime t r, hc_state := kExpectHeaders\<rparr>) (drop (i + 2) s)
               else Some (False, c\<lparr>request := r\<rparr>, s) }
           | None \<Rightarrow> Some (True, c, s))
      | kExpectHeaders \<Rightarrow>
          (case find_crlf s of
             Some i \<Rightarrow>
               (let line = take i s; colon = find_index (\<lambda>c. c = CHR '':'') line
                in if colon \<noteq> length line then aparse t (c\<lparr>request := addHeader line colon (request c)\<rparr>) (drop (i + 2) s)
                   else Some (True, c\<lparr>hc_state := kGotAll\<rparr>, drop (i + 2) s))
           | None \<Rightarrow> Some (True, c, s))
      | _ \<Rightarrow> None)"
  by auto
termination
proof (relation "measure (\<lambda>(t, c, s). length s)")
  show "wf (measure (\<lambda>(t, c, s). length s))" by simp
qed (use find_crlf_bound in \<open>fastforce\<close>)+

declare aparse.simps [simp del]

lemma findCRLF_find: "wf_buffer b \<Longrightarrow> findCRLF b = map_option (\<lambda>i. peek b + i) (find_crlf (content b))"
proof -
  assume w: "wf_buffer b"
  then have "length (content b) = writerIndex b - readerIndex b" "readerIndex b \<le> writerIndex b"
    by (auto simp: readableBytes_def wf_buffer_def)
  then show ?thesis
    by (auto simp: findCRLF_def find_crlf_def Let_def content_peek_all) (auto simp: geometry)
qed

text \<open>On a buffer the parser does what it does on the buffer's content, and it always returns.\<close>

lemma parse_loop_content:
  "aparse t c s = Some (ok, c', rest) \<Longrightarrow> wf_buffer b \<Longrightarrow> content b = s \<Longrightarrow>
     \<exists>b'. parse_loop t c b = Some (ok, c', b') \<and> wf_buffer b' \<and> content b' = rest"
proof (induction t c s arbitrary: b rule: aparse.induct)
  case (1 t c s)
  note fc = findCRLF_find [OF 1(4)]
  have line: "bytes_between (peek b) (peek b + i) b = take i s"
    and retr: "\<exists>b2. retrieveUntil (peek b + i + 2) b = Some b2 \<and> wf_buffer b2 \<and> content b2 = drop (i + 2) s"
    if i: "find_crlf s = Some i" for i
  proof -
    have len: "i + 2 \<le> length (content b)" using find_crlf_bound [OF i] 1(5) by simp
    then show "bytes_between (peek b) (peek b + i) b = take i s"
      using content_peek_take [OF 1(4), of i] length_content [OF 1(4)] 1(5) by simp
    have "retrieve (i + 2) b \<noteq> None" using retrieve_contract(1) [OF 1(4)] len by (simp add: not_less)
    then obtain b2 where b2: "retrieve (i + 2) b = Some b2" by blast
    moreover have "retrieveUntil (peek b + (i + 2)) b = retrieve (i + 2) b"
      using len length_content [OF 1(4)] 1(4) by (intro retrieveUntil_eq) (auto simp: geometry wf_buffer_def)
    ultimately show "\<exists>b2. retrieveUntil (peek b + i + 2) b = Some b2 \<and> wf_buffer b2 \<and> content b2 = drop (i + 2) s"
      using retrieve_contract(2) [OF 1(4) b2] 1(5) by (simp add: add.assoc)
  qed
  show ?case
  proof (cases "find_crlf s")
    case None
    have "hc_state c = kExpectRequestLine \<or> hc_state c = kExpectHeaders"
      using 1(3) by (cases "hc_state c") (simp_all add: aparse.simps [of t c s])
    then have "aparse t c s = Some (True, c, s)" "parse_loop t c b = Some (True, c, b)"
      using None fc 1(5) by (elim disjE; simp add: aparse.simps [of t c s] parse_loop.simps [of t c b])+
    with 1(3-5) show ?thesis by simp
  next
    case (Some i)
    note ln = line [OF Some]
    obtain b2 where b2: "retrieveUntil (peek b + i + 2) b = Some b2" "wf_buffer b2" "content b2 = drop (i + 2) s"
      using retr [OF Some] by blast
    have f: "findCRLF b = Some (peek b + i)" using fc Some 1(5) by simp
    show ?thesis
    proof (cases "hc_state c")
      case kExpectRequestLine
      obtain k r where kr: "processRequestLine (take i s) (request c) = Some (k, r)"
        using 1(3) kExpectRequestLine Some by (auto simp: aparse.simps [of t c s])
      show ?thesis
      proof (cases k)
        case True
        then show ?thesis
          using 1(1) [OF kExpectRequestLine Some kr refl True _ b2(2,3)] 1(3) kExpectRequestLine Some kr f ln b2(1)
          by (simp add: aparse.simps [of t c s] parse_loop.simps [of t c b])
      next
        case False
        with kr 1(3-5) kExpectRequestLine Some f ln show ?thesis
          by (simp add: aparse.simps [of t c s] parse_loop.simps [of t c b])
      qed
    next
      case kExpectHeaders
      show ?thesis
      proof (cases "find_index (\<lambda>c. c = CHR '':'') (take i s) = length (take i s)")
        case True
        with 1(3) kExpectHeaders Some f ln b2 show ?thesis
          by (simp add: aparse.simps [of t c s] parse_loop.simps [of t c b] Let_def)
      next
        case False
        with 1(2) [OF kExpectHeaders Some refl refl False _ b2(2,3)] 1(3) kExpectHeaders Some f ln b2(1) show ?thesis
          by (simp add: aparse.simps [of t c s] parse_loop.simps [of t c b] Let_def)
      qed
    qed (use 1(3) in \<open>simp_all add: aparse.simps [of t c s]\<close>)
  qed
qed

text \<open>The parser returns in its two working states, unless the assertion of \<open>setMethod\<close> fails.\<close>

definition working :: "http_context \<Rightarrow> bool" where
  "working c \<longleftrightarrow> hc_state c = kExpectRequestLine \<and> req_method (request c) = kInvalid \<or> hc_state c = kExpectHeaders"

lemma processRequestLine_total: "req_method r = kInvalid \<Longrightarrow> \<exists>ok r'. processRequestLine line r = Some (ok, r')"
proof -
  assume "req_method r = kInvalid"
  then obtain k r' where "setMethod (take (find_index (\<lambda>c. c = CHR '' '') line) line) r = Some (k, r')"
    by (simp add: setMethod_def Let_def)
  then show ?thesis unfolding processRequestLine_def Let_def by (simp del: split_paired_Ex split: prod.split) blast
qed

lemma aparse_total: "working c \<Longrightarrow> \<exists>ok c' rest. aparse t c s = Some (ok, c', rest) \<and> hc_state c' \<noteq> kExpectBody
    \<and> (ok \<and> hc_state c' \<noteq> kGotAll \<longrightarrow> working c')"
proof (induction t c s rule: aparse.induct)
  case (1 t c s)
  show ?case
  proof (cases "find_crlf s")
    case None
    with 1(3) show ?thesis by (auto simp: aparse.simps [of t c s] working_def)
  next
    case (Some i)
    show ?thesis
    proof (cases "hc_state c = kExpectRequestLine")
      case True
      with 1(3) obtain k r where kr: "processRequestLine (take i s) (request c) = Some (k, r)"
        using processRequestLine_total [of "request c" "take i s"] by (auto simp: working_def)
      show ?thesis
      proof (cases k)
        case k: True
        then show ?thesis using 1(1) [OF True Some kr refl k] True Some kr
          by (simp add: aparse.simps [of t c s] working_def)
      next
        case False
        with True Some kr show ?thesis by (auto simp: aparse.simps [of t c s])
      qed
    next
      case False
      then have st: "hc_state c = kExpectHeaders" using 1(3) by (simp add: working_def)
      show ?thesis
      proof (cases "find_index (\<lambda>c. c = CHR '':'') (take i s) = length (take i s)")
        case True
        with st Some show ?thesis by (auto simp: aparse.simps [of t c s] Let_def)
      next
        case False
        from 1(2) [OF st Some refl refl False] st Some False show ?thesis
          by (simp add: aparse.simps [of t c s] working_def Let_def)
      qed
    qed
  qed
qed

lemma aparse_suffix: "aparse t c s = Some (ok, c', rest) \<Longrightarrow> suffix rest s"
proof (induction t c s rule: aparse.induct)
  case (1 t c s)
  show ?case
  proof (cases "find_crlf s")
    case None
    with 1(3) show ?thesis by (cases "hc_state c") (auto simp: aparse.simps [of t c s])
  next
    case (Some i)
    show ?thesis
    proof (cases "hc_state c")
      case kExpectRequestLine
      obtain k r where kr: "processRequestLine (take i s) (request c) = Some (k, r)"
        using 1(3) kExpectRequestLine Some by (auto simp: aparse.simps [of t c s])
      show ?thesis
        using 1(1) [OF kExpectRequestLine Some kr refl] 1(3) kExpectRequestLine Some kr suffix_drop [of "i + 2" s]
        by (auto simp: aparse.simps [of t c s] split: if_splits intro: suffix_order.order_trans)
    next
      case kExpectHeaders
      show ?thesis
        using 1(2) [OF kExpectHeaders Some refl refl] 1(3) kExpectHeaders Some suffix_drop [of "i + 2" s]
        by (auto simp: aparse.simps [of t c s] Let_def split: if_splits intro: suffix_order.order_trans)
    qed (use 1(3) in \<open>simp_all add: aparse.simps [of t c s]\<close>)
  qed
qed

text \<open>C24: The loop of \<open>parseRequest\<close> ends: on a context that is waiting for a request line with no method read yet,
  or for headers, it returns on every buffer, without a failed assertion; when it reports no error the context is again such a
  context or holds a whole request, and the bytes it leaves are a suffix of the buffer's content.\<close>

theorem parseRequest_terminates:
  assumes "working c" "wf_buffer b"
  shows "\<exists>ok c' b'. parseRequest t c b = Some (ok, c', b') \<and> wf_buffer b' \<and> suffix (content b') (content b)
    \<and> (ok \<longrightarrow> gotAll c' \<or> working c')"
proof -
  obtain ok c' rest where a: "aparse t c (content b) = Some (ok, c', rest)" "ok \<and> hc_state c' \<noteq> kGotAll \<longrightarrow> working c'"
    using aparse_total [OF assms(1)] by blast
  with parse_loop_content [OF a(1) assms(2) refl] aparse_suffix [OF a(1)] show ?thesis
    by (auto simp: parseRequest_def gotAll_def)
qed

theorem parseRequest_terminates_witness:
  "\<exists>ok c' b'. parseRequest (Timestamp 5) mk_http_context (mk_buffer 10) = Some (ok, c', b') \<and> content b' = []"
  using parseRequest_terminates [of mk_http_context "mk_buffer 10" "Timestamp 5"]
  by (auto simp: working_def mk_http_context_def mk_http_request_def mk_buffer_geometry)

lemma aparse_append:
  "aparse t c s = Some (True, c', rest) \<Longrightarrow> hc_state c' \<noteq> kGotAll \<Longrightarrow> aparse t c (s @ u) = aparse t c' (rest @ u)"
proof (induction t c s rule: aparse.induct)
  case (1 t c s)
  show ?case
  proof (cases "find_crlf s")
    case None
    with 1(3) show ?thesis by (cases "hc_state c") (auto simp: aparse.simps [of t c s])
  next
    case (Some i)
    have len: "i + 2 \<le> length s" using find_crlf_bound [OF Some] .
    have su: "find_crlf (s @ u) = Some i" "take i (s @ u) = take i s" "drop (i + 2) (s @ u) = drop (i + 2) s @ u"
      using find_crlf_append [OF Some] len by simp_all
    show ?thesis
    proof (cases "hc_state c")
      case kExpectRequestLine
      obtain k r where kr: "processRequestLine (take i s) (request c) = Some (k, r)"
        using 1(3) kExpectRequestLine Some by (auto simp: aparse.simps [of t c s])
      then have k: k using 1(3) kExpectRequestLine Some by (auto simp: aparse.simps [of t c s] split: if_splits)
      show ?thesis
        using 1(1) [OF kExpectRequestLine Some kr refl k _ 1(4)] 1(3) kExpectRequestLine Some kr k su
        by (simp add: aparse.simps [of t c s] aparse.simps [of t c "s @ u"] del: take_append drop_append)
    next
      case kExpectHeaders
      have ne: "find_index (\<lambda>c. c = CHR '':'') (take i s) \<noteq> length (take i s)"
        using 1(3,4) kExpectHeaders Some by (auto simp: aparse.simps [of t c s] Let_def split: if_splits)
      show ?thesis
        using 1(2) [OF kExpectHeaders Some refl refl ne _ 1(4)] 1(3) kExpectHeaders Some ne su
        by (simp add: aparse.simps [of t c s] aparse.simps [of t c "s @ u"] Let_def del: take_append drop_append)
    qed (use 1(3) in \<open>simp_all add: aparse.simps [of t c s]\<close>)
  qed
qed

text \<open>C12: The parser does not depend on how a stream is cut into segments: when it has consumed one part and asks for more,
  parsing the rest with the next part gives the same result, the same context and the same bytes left as parsing both parts at once.\<close>

theorem http_segments:
  assumes "working c" "wf_buffer b1" "wf_buffer b" "content b = content b1 @ u"
    and "parseRequest t c b1 = Some (True, c1, b1')" "hc_state c1 \<noteq> kGotAll" "append_buf u b1' = Some b2"
  shows "map_option (\<lambda>(ok, c, b). (ok, c, content b)) (parseRequest t c b)
       = map_option (\<lambda>(ok, c, b). (ok, c, content b)) (parseRequest t c1 b2)
     \<and> parseRequest t c b \<noteq> None"
proof -
  obtain ok c' rest where a: "aparse t c (content b1) = Some (ok, c', rest)" using aparse_total [OF assms(1)] by blast
  from parse_loop_content [OF this assms(2) refl] assms(5)
  have e: "ok" "c' = c1" "wf_buffer b1'" "content b1' = rest" by (auto simp: parseRequest_def)
  obtain b2' where "append_buf u b1' = Some b2'" "wf_buffer b2'" "content b2' = content b1' @ u"
    using append_contract [OF e(3)] .
  with assms(7) have b2: "wf_buffer b2" "content b2 = rest @ u" using e(4) by simp_all
  have s: "aparse t c (content b) = aparse t c1 (content b2)"
    using aparse_append [of t c "content b1" c1 rest u] a e assms(4,6) b2 by simp
  obtain ok2 c2 rest2 where a2: "aparse t c (content b) = Some (ok2, c2, rest2)" using aparse_total [OF assms(1)] by blast
  from parse_loop_content [OF a2 assms(3) refl] parse_loop_content [OF a2 [unfolded s] b2(1) refl]
  show ?thesis by (auto simp: parseRequest_def)
qed

theorem http_segments_witness:
  "\<exists>b1 b b1' b2. content b1 = ''GE'' \<and> content b = ''GET'' \<and> parseRequest (Timestamp 5) mk_http_context b1 = Some (True, mk_http_context, b1')
     \<and> append_buf ''T'' b1' = Some b2
     \<and> map_option (\<lambda>(ok, c, b). (ok, c, content b)) (parseRequest (Timestamp 5) mk_http_context b)
       = map_option (\<lambda>(ok, c, b). (ok, c, content b)) (parseRequest (Timestamp 5) mk_http_context b2)"
proof -
  have buf: "\<exists>b. wf_buffer b \<and> content b = d" for d
  proof -
    obtain b where "append_buf d (mk_buffer 10) = Some b" "wf_buffer b" "content b = content (mk_buffer 10) @ d"
      using append_contract [OF wf_mk_buffer] .
    then show ?thesis by (auto simp: mk_buffer_geometry)
  qed
  obtain b1 b where b1: "wf_buffer b1" "content b1 = ''GE''" and b: "wf_buffer b" "content b = ''GET''"
    using buf by metis
  have "aparse (Timestamp 5) mk_http_context ''GE'' = Some (True, mk_http_context, ''GE'')"
    by (simp add: aparse.simps mk_http_context_def find_crlf_def const_defs)
  from parse_loop_content [OF this b1] obtain b1' where
    p: "parseRequest (Timestamp 5) mk_http_context b1 = Some (True, mk_http_context, b1')" "wf_buffer b1'"
    by (auto simp: parseRequest_def)
  obtain b2 where b2: "append_buf ''T'' b1' = Some b2" using append_contract [OF p(2)] by blast
  have "working mk_http_context" "hc_state mk_http_context \<noteq> kGotAll"
    by (simp_all add: working_def mk_http_context_def mk_http_request_def)
  then have "map_option (\<lambda>(ok, c, b). (ok, c, content b)) (parseRequest (Timestamp 5) mk_http_context b)
       = map_option (\<lambda>(ok, c, b). (ok, c, content b)) (parseRequest (Timestamp 5) mk_http_context b2)"
    using http_segments [OF _ b1(1) b(1) _ p(1) _ b2] b1(2) b(2) by simp
  with b1(2) b(2) p(1) b2 show ?thesis by blast
qed

subsection \<open>Printing a request and parsing it\<close>

definition header_line :: "string \<times> string \<Rightarrow> bytes" where
  "header_line h = fst h @ '': '' @ snd h @ kCRLF"

definition request_text :: "Method \<Rightarrow> string \<Rightarrow> string \<Rightarrow> char \<Rightarrow> (string \<times> string) list \<Rightarrow> bytes" where
  "request_text m p q v hs = methodString m @ '' '' @ p @ q @ '' HTTP/1.'' @ [v] @ kCRLF @ concat (map header_line hs) @ kCRLF"

definition trimmed :: "string \<Rightarrow> bool" where
  "trimmed v \<longleftrightarrow> v = [] \<or> \<not> is_space (hd v) \<and> \<not> is_space (last v)"

definition header_ok :: "string \<times> string \<Rightarrow> bool" where
  "header_ok h \<longleftrightarrow> CHR '':'' \<notin> set (fst h) \<and> CHR 0x0D \<notin> set (fst h) \<and> CHR 0x0D \<notin> set (snd h) \<and> trimmed (snd h)"

definition target_ok :: "string \<Rightarrow> string \<Rightarrow> bool" where
  "target_ok p q \<longleftrightarrow> CHR '' '' \<notin> set p \<and> CHR ''?'' \<notin> set p \<and> CHR 0x0D \<notin> set p
     \<and> CHR '' '' \<notin> set q \<and> CHR 0x0D \<notin> set q \<and> (q = [] \<or> hd q = CHR ''?'')"

lemma find_index_none: "x \<notin> set xs \<Longrightarrow> find_index (\<lambda>c. c = x) xs = length xs"
  by (induction xs) auto

lemma find_index_at: "x \<notin> set xs \<Longrightarrow> find_index (\<lambda>c. c = x) (xs @ x # ys) = length xs"
  by (induction xs) auto

lemma request_line_parse:
  assumes "m \<noteq> kInvalid" "target_ok p q" "v = CHR ''0'' \<or> v = CHR ''1''" "req_method r = kInvalid" "query r = []"
  shows "processRequestLine (methodString m @ '' '' @ p @ q @ '' HTTP/1.'' @ [v]) r
    = Some (True, r\<lparr>req_method := m, path := p, query := q, version := (if v = CHR ''1'' then kHttp11 else kHttp10)\<rparr>)"
proof -
  let ?line = "methodString m @ '' '' @ p @ q @ '' HTTP/1.'' @ [v]"
  have ms: "CHR '' '' \<notin> set (methodString m)" by (cases m) simp_all
  have sp: "find_index (\<lambda>c. c = CHR '' '') ?line = length (methodString m)"
    using find_index_at [OF ms, of "p @ q @ '' HTTP/1.'' @ [v]"] by simp
  have set: "setMethod (methodString m) r = Some (True, r\<lparr>req_method := m\<rparr>)"
    using assms(1,4) by (cases m) (simp_all add: setMethod_def)
  have pq: "CHR '' '' \<notin> set (p @ q)" using assms(2) by (simp add: target_ok_def)
  have sp2: "find_index (\<lambda>c. c = CHR '' '') (p @ q @ '' HTTP/1.'' @ [v]) = length (p @ q)"
    using find_index_at [OF pq, of "''HTTP/1.'' @ [v]"] by simp
  have qu: "find_index (\<lambda>c. c = CHR ''?'') (p @ q) = length p"
  proof (cases q)
    case Nil
    then show ?thesis using find_index_none [of "CHR ''?''" p] assms(2) by (simp add: target_ok_def)
  next
    case (Cons x xs)
    then show ?thesis using find_index_at [of "CHR ''?''" p xs] assms(2) by (simp add: target_ok_def)
  qed
  have q0: "r\<lparr>req_method := m, path := p\<rparr> = r\<lparr>req_method := m, path := p, query := []\<rparr>" using assms(5) by simp
  have pieces: "take (length (methodString m)) ?line = methodString m"
    "drop (length (methodString m) + 1) ?line = p @ q @ '' HTTP/1.'' @ [v]"
    "take (length (p @ q)) (p @ q @ '' HTTP/1.'' @ [v]) = p @ q"
    "drop (length (p @ q) + 1) (p @ q @ '' HTTP/1.'' @ [v]) = ''HTTP/1.'' @ [v]"
    "length (methodString m) \<noteq> length ?line" "length (p @ q) \<noteq> length (p @ q @ '' HTTP/1.'' @ [v])"
    "length (''HTTP/1.'' @ [v]) = 8" "take 7 (''HTTP/1.'' @ [v]) = ''HTTP/1.''" "last (''HTTP/1.'' @ [v]) = v"
    "take (length p) (p @ q) = p" "drop (length p) (p @ q) = q"
    by simp_all
  define uri where "uri = (if length p \<noteq> length (p @ q) then setQuery q (setPath p (r\<lparr>req_method := m\<rparr>)) else setPath (p @ q) (r\<lparr>req_method := m\<rparr>))"
  have uri: "uri = r\<lparr>req_method := m, path := p, query := q\<rparr>"
    using q0 by (simp add: uri_def setPath_def setQuery_def)
  have "processRequestLine ?line r = Some (if v = CHR ''1'' then (True, setVersion kHttp11 uri)
      else if v = CHR ''0'' then (True, setVersion kHttp10 uri) else (False, uri))"
    unfolding processRequestLine_def Let_def sp pieces set bind.bind_lunit prod.case sp2 qu uri_def
    by (simp only: pieces sp2 qu if_False not_True_eq_False simp_thms if_True)
  then show ?thesis using assms(3) by (auto simp: uri setVersion_def)
qed

lemma dropWhile_trim:
  assumes "trimmed v"
  shows "rev (dropWhile is_space (rev (dropWhile is_space (CHR '' '' # v)))) = v"
proof -
  have "is_space (CHR '' '')" by (simp add: is_space_def)
  moreover have "dropWhile is_space v = v" "dropWhile is_space (rev v) = rev v"
    using assms by (auto simp: trimmed_def dropWhile_eq_self_iff hd_rev)
  ultimately show ?thesis by simp
qed

lemma split_line: "drop (length l + 2) (l @ kCRLF @ s) = s" "take (length l) (l @ kCRLF @ s) = l"
  using two by simp_all

lemma header_parse:
  assumes "header_ok h"
  shows "addHeader (fst h @ '': '' @ snd h) (length (fst h)) r = r\<lparr>headers := map_put (fst h) (snd h) (headers r)\<rparr>"
    and "find_index (\<lambda>c. c = CHR '':'') (fst h @ '': '' @ snd h) = length (fst h)"
proof -
  show "addHeader (fst h @ '': '' @ snd h) (length (fst h)) r = r\<lparr>headers := map_put (fst h) (snd h) (headers r)\<rparr>"
    using dropWhile_trim [of "snd h"] assms by (simp add: addHeader_def header_ok_def Let_def del: dropWhile.simps)
  show "find_index (\<lambda>c. c = CHR '':'') (fst h @ '': '' @ snd h) = length (fst h)"
    using find_index_at [of "CHR '':''" "fst h" "'' '' @ snd h"] assms by (simp add: header_ok_def)
qed

lemma headers_parse:
  "\<forall>h \<in> set hs. header_ok h \<Longrightarrow> hc_state c = kExpectHeaders \<Longrightarrow>
     aparse t c (concat (map header_line hs) @ kCRLF @ u)
     = Some (True, c\<lparr>hc_state := kGotAll, request := (request c)\<lparr>headers := fold (\<lambda>(k, v). map_put k v) hs (headers (request c))\<rparr>\<rparr>, u)"
proof (induction hs arbitrary: c)
  case Nil
  have "find_crlf (kCRLF @ u) = Some 0" using find_crlf_line [of "[]" u] by simp
  with Nil show ?case by (simp add: aparse.simps [of t c] Let_def two)
next
  case (Cons h hs)
  let ?line = "fst h @ '': '' @ snd h"
  define s where "s = concat (map header_line hs) @ kCRLF @ u"
  have h: "header_ok h" using Cons.prems by simp
  then have "CHR 0x0D \<notin> set ?line" by (auto simp: header_ok_def)
  then have f: "find_crlf (?line @ kCRLF @ s) = Some (length ?line)" by (rule find_crlf_line)
  note d = split_line(1) [of ?line s]
  have "aparse t c (?line @ kCRLF @ s)
      = aparse t (c\<lparr>request := addHeader ?line (length (fst h)) (request c)\<rparr>) s"
    unfolding aparse.simps [of t c "?line @ kCRLF @ s"] f using Cons.prems(2) d
    by (simp add: header_parse(2) [OF h] Let_def del: append_assoc append.simps)
  moreover define c1 where "c1 = c\<lparr>request := (request c)\<lparr>headers := map_put (fst h) (snd h) (headers (request c))\<rparr>\<rparr>"
  moreover have "aparse t c1 s
      = Some (True, c1\<lparr>hc_state := kGotAll, request := (request c1)\<lparr>headers := fold (\<lambda>(k, v). map_put k v) hs (headers (request c1))\<rparr>\<rparr>, u)"
    unfolding s_def by (rule Cons.IH) (use Cons.prems in \<open>simp_all add: c1_def\<close>)
  ultimately have "aparse t c (?line @ kCRLF @ s)
      = Some (True, c\<lparr>hc_state := kGotAll, request := (request c)\<lparr>headers := fold (\<lambda>(k, v). map_put k v) (h # hs) (headers (request c))\<rparr>\<rparr>, u)"
    unfolding header_parse(1) [OF h] by (simp add: case_prod_unfold del: append_assoc append.simps)
  then show ?case by (simp add: header_line_def [of h] s_def)
qed

lemma request_parse:
  assumes "m \<noteq> kInvalid" "target_ok p q" "v = CHR ''0'' \<or> v = CHR ''1''" "\<forall>h \<in> set hs. header_ok h"
  shows "aparse t mk_http_context (request_text m p q v hs @ u)
    = Some (True, \<lparr>hc_state = kGotAll, request = \<lparr>req_method = m, version = (if v = CHR ''1'' then kHttp11 else kHttp10), path = p,
        query = q, receiveTime = t, headers = fold (\<lambda>(k, v). map_put k v) hs []\<rparr>\<rparr>, u)"
proof -
  define line where "line = methodString m @ '' '' @ p @ q @ '' HTTP/1.'' @ [v]"
  define s where "s = concat (map header_line hs) @ kCRLF @ u"
  define r where "r = mk_http_request\<lparr>req_method := m, path := p, query := q, version := (if v = CHR ''1'' then kHttp11 else kHttp10)\<rparr>"
  have "CHR 0x0D \<notin> set (methodString m)" by (cases m) simp_all
  then have "CHR 0x0D \<notin> set line" using assms(2,3) by (auto simp: target_ok_def line_def)
  then have f: "find_crlf (line @ kCRLF @ s) = Some (length line)" by (rule find_crlf_line)
  have t: "request_text m p q v hs @ u = line @ kCRLF @ s" by (simp add: request_text_def s_def line_def)
  have l: "processRequestLine line mk_http_request = Some (True, r)"
    unfolding line_def r_def by (rule request_line_parse [OF assms(1-3)]) (simp_all add: mk_http_request_def)
  have "aparse t mk_http_context (line @ kCRLF @ s)
    = aparse t (mk_http_context\<lparr>request := setReceiveTime t r, hc_state := kExpectHeaders\<rparr>) s"
    unfolding aparse.simps [of t mk_http_context "line @ kCRLF @ s"] f
    using l split_line [of line s] by (simp add: mk_http_context_def)
  moreover have "aparse t (mk_http_context\<lparr>request := setReceiveTime t r, hc_state := kExpectHeaders\<rparr>) s
    = Some (True, \<lparr>hc_state = kGotAll, request = (setReceiveTime t r)\<lparr>headers := fold (\<lambda>(k, v). map_put k v) hs []\<rparr>\<rparr>, u)"
    unfolding s_def using assms(4)
    by (simp add: headers_parse mk_http_context_def) (simp add: r_def mk_http_request_def setReceiveTime_def)
  ultimately show ?thesis unfolding t by (simp add: r_def mk_http_request_def setReceiveTime_def)
qed

text \<open>C23: A request printed in the usual form is parsed into its req_method, path, query (with its question mark), version and
  headers, whatever bytes follow it in the stream; the bytes that follow stay in the buffer.\<close>

theorem http_request_roundtrip:
  assumes "m \<noteq> kInvalid" "target_ok p q" "v = CHR ''0'' \<or> v = CHR ''1''" "\<forall>h \<in> set hs. header_ok h"
    and "wf_buffer b" "content b = request_text m p q v hs @ u"
  shows "\<exists>c b'. parseRequest t mk_http_context b = Some (True, c, b') \<and> gotAll c \<and> content b' = u
    \<and> req_method (request c) = m \<and> path (request c) = p \<and> query (request c) = q \<and> receiveTime (request c) = t
    \<and> version (request c) = (if v = CHR ''1'' then kHttp11 else kHttp10)
    \<and> (\<forall>k. map_of (headers (request c)) k = map_of (rev hs) k)"
proof -
  have "map_of (fold (\<lambda>(k, v). map_put k v) hs xs) = map_of xs ++ map_of (rev hs)" for xs
  proof (induction hs arbitrary: xs)
    case (Cons h hs)
    then show ?case by (cases h) (simp add: map_add_upd_left map_add_assoc [symmetric] map_add_def fun_eq_iff split: option.splits)
  qed simp
  then have "map_of (fold (\<lambda>(k, v). map_put k v) hs []) = map_of (rev hs)" by simp
  then show ?thesis
    using parse_loop_content [OF request_parse [OF assms(1-4), of t u] assms(5,6)]
    by (auto simp: parseRequest_def gotAll_def)
qed

theorem http_request_roundtrip_witness:
  "\<exists>b c b'. content b = request_text kGet ''/a'' ''?x'' (CHR ''1'') [(''Host'', ''h'')] @ ''next''
     \<and> parseRequest (Timestamp 5) mk_http_context b = Some (True, c, b') \<and> content b' = ''next''
     \<and> query (request c) = ''?x'' \<and> map_of (headers (request c)) ''Host'' = Some ''h''"
proof -
  obtain b where b: "append_buf (request_text kGet ''/a'' ''?x'' (CHR ''1'') [(''Host'', ''h'')] @ ''next'') (mk_buffer 10) = Some b"
    "wf_buffer b" "content b = content (mk_buffer 10) @ request_text kGet ''/a'' ''?x'' (CHR ''1'') [(''Host'', ''h'')] @ ''next''"
    using append_contract [OF wf_mk_buffer] .
  then have c: "content b = request_text kGet ''/a'' ''?x'' (CHR ''1'') [(''Host'', ''h'')] @ ''next''" by (simp add: mk_buffer_geometry)
  have "target_ok ''/a'' ''?x''" "\<forall>h \<in> set [(''Host'', ''h'')]. header_ok h"
    by (simp_all add: target_ok_def header_ok_def trimmed_def is_space_def)
  from http_request_roundtrip [OF _ this(1) _ this(2) b(2) c, of "Timestamp 5"] c show ?thesis by auto
qed

subsection \<open>\<open>HttpResponse\<close>\<close>

record http_response =
  resp_headers :: "(string \<times> string) list"
  statusCode :: nat
  statusMessage :: string
  closeConnection :: bool
  body :: string

definition mk_http_response :: "bool \<Rightarrow> http_response" where
  "mk_http_response close = \<lparr>resp_headers = [], statusCode = 0, statusMessage = [], closeConnection = close, body = []\<rparr>"

definition k200Ok :: nat where "k200Ok = 200"
definition k404NotFound :: nat where "k404NotFound = 404"

definition setStatusCode :: "nat \<Rightarrow> http_response \<Rightarrow> http_response" where "setStatusCode c r = r\<lparr>statusCode := c\<rparr>"
definition setStatusMessage :: "string \<Rightarrow> http_response \<Rightarrow> http_response" where "setStatusMessage m r = r\<lparr>statusMessage := m\<rparr>"
definition setCloseConnection :: "bool \<Rightarrow> http_response \<Rightarrow> http_response" where "setCloseConnection b r = r\<lparr>closeConnection := b\<rparr>"
definition resp_addHeader :: "string \<Rightarrow> string \<Rightarrow> http_response \<Rightarrow> http_response" where
  "resp_addHeader k v r = r\<lparr>resp_headers := map_put k v (resp_headers r)\<rparr>"
definition setContentType :: "string \<Rightarrow> http_response \<Rightarrow> http_response" where
  "setContentType t r = resp_addHeader ''Content-Type'' t r"
definition setBody :: "string \<Rightarrow> http_response \<Rightarrow> http_response" where "setBody b r = r\<lparr>body := b\<rparr>"

text \<open>A sequence of \<open>output->append\<close>; \<open>snprintf\<close> into 32 bytes keeps 31 characters.\<close>

fun append_all :: "bytes list \<Rightarrow> buffer \<Rightarrow> buffer option" where
  "append_all [] b = Some b"
| "append_all (d # ds) b = do { b \<leftarrow> append_buf d b; append_all ds b }"

definition response_parts :: "http_response \<Rightarrow> bytes list" where
  "response_parts r =
     [take 31 (''HTTP/1.1 '' @ dec_nat (statusCode r) @ '' ''), statusMessage r, kCRLF]
     @ (if closeConnection r then [''Connection: close'' @ kCRLF]
        else [take 31 (''Content-Length: '' @ dec_nat (length (body r)) @ kCRLF), ''Connection: Keep-Alive'' @ kCRLF])
     @ concat (map (\<lambda>(k, v). [k, '': '', v, kCRLF]) (resp_headers r))
     @ [kCRLF, body r]"

definition appendToBuffer :: "http_response \<Rightarrow> buffer \<Rightarrow> buffer option" where
  "appendToBuffer r output = append_all (response_parts r) output"

lemma append_all_content: "wf_buffer b \<Longrightarrow> \<exists>b'. append_all ds b = Some b' \<and> wf_buffer b' \<and> content b' = content b @ concat ds"
proof (induction ds arbitrary: b)
  case (Cons d ds)
  obtain b1 where "append_buf d b = Some b1" "wf_buffer b1" "content b1 = content b @ d"
    using append_contract [OF Cons.prems] .
  with Cons.IH [of b1] show ?case by auto
qed simp

subsection \<open>\<open>HttpServer\<close>\<close>

definition defaultHttpCallback :: "http_request \<Rightarrow> http_response \<Rightarrow> http_response" where
  "defaultHttpCallback req resp = setCloseConnection True (setStatusMessage ''Not Found'' (setStatusCode k404NotFound resp))"

definition http_onConnection :: "tcp_conn \<Rightarrow> http_context option \<Rightarrow> http_context option" where
  "http_onConnection conn ctx = (if connected conn then Some mk_http_context else ctx)"

text \<open>\<open>callback\<close> is the user's \<open>httpCallback_\<close>; the connection's operations run in the loop's thread.\<close>

definition onRequest :: "(http_request \<Rightarrow> http_response \<Rightarrow> http_response) \<Rightarrow> sys_write \<Rightarrow> http_request \<Rightarrow> tcp_conn \<Rightarrow> tcp_conn option" where
  "onRequest callback sys req conn =
     (let connection = getHeader ''Connection'' req;
          close = (connection = ''close'' \<or> (version req = kHttp10 \<and> connection \<noteq> ''Keep-Alive''));
          response = callback req (mk_http_response close)
      in do { b \<leftarrow> appendToBuffer response (mk_buffer kInitialSize);
              (conn, b) \<leftarrow> send_buffer True sys b conn;
              Some (if closeConnection response then shutdown True conn else conn) })"

definition bad_request :: bytes where "bad_request = ''HTTP/1.1 400 Bad Request'' @ kCRLF @ kCRLF"

text \<open>\<open>buf\<close> is the connection's input buffer.\<close>

definition http_onMessage :: "(http_request \<Rightarrow> http_response \<Rightarrow> http_response) \<Rightarrow> sys_write \<Rightarrow> timestamp \<Rightarrow> tcp_conn \<times> http_context
    \<Rightarrow> (tcp_conn \<times> http_context) option" where
  "http_onMessage callback sys t s =
     (let (conn, ctx) = s in
      do { (ok, ctx, b) \<leftarrow> parseRequest t ctx (inputBuffer conn);
           let conn = conn\<lparr>inputBuffer := b\<rparr>;
           conn \<leftarrow> (if ok then Some conn
                   else do { conn \<leftarrow> send True sys bad_request conn; Some (shutdown True conn) });
           if gotAll ctx
           then do { conn \<leftarrow> onRequest callback sys (request ctx) conn; Some (conn, hc_reset ctx) }
           else Some (conn, ctx) })"

text \<open>After a bad request line whose method was known, the context keeps the req_method and the line stays in the buffer: the next
  message runs into the assertion of \<open>setMethod\<close>.\<close>

lemma bad_line_parse:
  assumes "hc_state c = kExpectRequestLine" "CHR 0x0D \<notin> set line" "processRequestLine line (request c) = Some (False, r)"
  shows "aparse t c (line @ kCRLF @ u) = Some (False, c\<lparr>request := r\<rparr>, line @ kCRLF @ u)"
proof -
  have "find_crlf (line @ kCRLF @ u) = Some (length line)" by (rule find_crlf_line [OF assms(2)])
  then show ?thesis
    unfolding aparse.simps [of t c "line @ kCRLF @ u"] using assms split_line [of line u] by simp
qed

lemma bad_request_then_more_fails:
  assumes "wf_buffer b" "content b = ''GET /'' @ kCRLF" "append_buf u b = Some b2"
  shows "\<exists>c b'. parseRequest t mk_http_context b = Some (False, c, b') \<and> content b' = content b \<and> parseRequest t c b2 = None"
proof -
  define line where "line = ''GET /''"
  define c where "c = mk_http_context\<lparr>request := mk_http_request\<lparr>req_method := kGet\<rparr>\<rparr>"
  have n: "CHR 0x0D \<notin> set line" by (simp add: line_def)
  have l: "processRequestLine line (request mk_http_context) = Some (False, mk_http_request\<lparr>req_method := kGet\<rparr>)"
    "processRequestLine line (request c) = None"
    by (simp_all add: processRequestLine_def setMethod_def mk_http_request_def Let_def line_def c_def mk_http_context_def)
  have a: "aparse t mk_http_context (line @ kCRLF @ []) = Some (False, c, line @ kCRLF @ [])"
    unfolding c_def by (rule bad_line_parse [OF _ n l(1)]) (simp add: mk_http_context_def)
  have c1: "content b = line @ kCRLF @ []" by (simp add: assms(2) line_def)
  have b2: "wf_buffer b2" "content b2 = line @ kCRLF @ u"
    using append_contract [OF assms(1), of u] assms(3) c1 by (metis append_assoc append_Nil2 option.inject)+
  have "findCRLF b2 = Some (peek b2 + length line)" using findCRLF_find [OF b2(1)] find_crlf_line [OF n, of u] b2(2) by simp
  moreover have "bytes_between (peek b2) (peek b2 + length line) b2 = line"
    using content_peek_take [OF b2(1), of "length line"] length_content [OF b2(1)] b2(2) by simp
  moreover have "hc_state c = kExpectRequestLine" by (simp add: c_def mk_http_context_def)
  ultimately have "parse_loop t c b2 = None"
    using l(2) by (simp add: parse_loop.simps [of t c b2])
  with parse_loop_content [OF a assms(1) c1] c1 show ?thesis by (auto simp: parseRequest_def)
qed

text \<open>A header line without a colon ends the headers, and one call takes at most one request from the buffer.\<close>

lemma line_without_colon_ends:
  assumes "CHR '':'' \<notin> set line" "CHR 0x0D \<notin> set line" "hc_state c = kExpectHeaders"
  shows "aparse t c (line @ kCRLF @ u) = Some (True, c\<lparr>hc_state := kGotAll\<rparr>, u)"
proof -
  have "find_crlf (line @ kCRLF @ u) = Some (length line)" by (rule find_crlf_line [OF assms(2)])
  then show ?thesis
    unfolding aparse.simps [of t c "line @ kCRLF @ u"] using assms(3) find_index_none [OF assms(1)] split_line [of line u]
    by (simp add: Let_def)
qed

definition response_text :: "http_response \<Rightarrow> bytes" where
  "response_text r = ''HTTP/1.1 '' @ dec_nat (statusCode r) @ '' '' @ statusMessage r @ kCRLF
     @ (if closeConnection r then ''Connection: close'' @ kCRLF
        else ''Content-Length: '' @ dec_nat (length (body r)) @ kCRLF @ ''Connection: Keep-Alive'' @ kCRLF)
     @ concat (map header_line (resp_headers r)) @ kCRLF @ body r"

lemma response_correct:
  assumes "statusCode r < 1000" "length (body r) < 10 ^ 9"
  shows "\<exists>b. appendToBuffer r (mk_buffer kInitialSize) = Some b \<and> wf_buffer b \<and> content b = response_text r"
proof -
  have "length (dec_nat (statusCode r)) \<le> 3" "length (dec_nat (length (body r))) \<le> 9"
    by (rule length_dec_nat; use assms in simp)+
  then have t1: "take 31 (''HTTP/1.1 '' @ dec_nat (statusCode r) @ '' '') = ''HTTP/1.1 '' @ dec_nat (statusCode r) @ '' ''"
    and t2: "take 31 (''Content-Length: '' @ dec_nat (length (body r)) @ kCRLF) = ''Content-Length: '' @ dec_nat (length (body r)) @ kCRLF"
    using two by (simp_all del: append.simps)
  have "concat (concat (map (\<lambda>(k, v). [k, '': '', v, kCRLF]) hs)) = concat (map header_line hs)" for hs
    by (induction hs) (auto simp: header_line_def)
  then have "concat (response_parts r) = response_text r"
    unfolding response_parts_def response_text_def t1 t2 by (simp del: append.simps(2))
  then show ?thesis
    using append_all_content [OF wf_mk_buffer, of "response_parts r" kInitialSize]
    by (simp only: appendToBuffer_def mk_buffer_geometry append.simps(1))
qed

lemma quiet:
  "conn_state (emit e c) = conn_state c" "inputBuffer (emit e c) = inputBuffer c"
  "conn_state (queueInLoop q c) = conn_state c" "inputBuffer (queueInLoop q c) = inputBuffer c"
  "conn_state (chan_enableWriting c) = conn_state c" "inputBuffer (chan_enableWriting c) = inputBuffer c"
  by (simp_all add: emit_def queueInLoop_def chan_op_defs Let_def)

text \<open>\<open>sendInLoop\<close> up to its tail: the direct write, when there was one.\<close>

lemma sendInLoop_shape:
  assumes "sendInLoop sys d c = Some c'" "conn_state c \<noteq> kDisconnected"
  obtains n m f c1 where "c1 \<in> {c, emit (E_wrote (take n d)) c, queueInLoop F_writeComplete (emit (E_wrote (take n d)) c)}"
    "(let c = (if f then c1 else emit (E_accept d) c1) in
          if \<not> f \<and> m > 0
          then let oldLen = readableBytes (outputBuffer c);
                   c = (if oldLen + m \<ge> highWaterMark c \<and> oldLen < highWaterMark c \<and> highWaterMarkCb c
                        then queueInLoop (F_highWaterMark (oldLen + m)) c else c)
               in do { b \<leftarrow> append_buf (drop n d) (outputBuffer c);
                       let c = c\<lparr>outputBuffer := b\<rparr>;
                       Some (if \<not> isWriting (chan c) then chan_enableWriting c else c) }
          else Some c) = Some c'"
proof -
  note False = assms(2)
  have "\<exists>n m f c1. c1 \<in> {c, emit (E_wrote (take n d)) c, queueInLoop F_writeComplete (emit (E_wrote (take n d)) c)} \<and> (let c = (if f then c1 else emit (E_accept d) c1) in
          if \<not> f \<and> m > 0
          then let oldLen = readableBytes (outputBuffer c);
                   c = (if oldLen + m \<ge> highWaterMark c \<and> oldLen < highWaterMark c \<and> highWaterMarkCb c
                        then queueInLoop (F_highWaterMark (oldLen + m)) c else c)
               in do { b \<leftarrow> append_buf (drop n d) (outputBuffer c);
                       let c = c\<lparr>outputBuffer := b\<rparr>;
                       Some (if \<not> isWriting (chan c) then chan_enableWriting c else c) }
          else Some c) = Some c'"
  proof (cases "\<not> isWriting (chan c) \<and> readableBytes (outputBuffer c) = 0")
    case w: True
    show ?thesis
    proof (cases "sys d")
      case (Inl err)
      show ?thesis
        by (rule exI [of _ 0], rule exI [of _ "length d"], rule exI [of _ "err \<noteq> EWOULDBLOCK \<and> (err = EPIPE \<or> err = ECONNRESET)"],
            rule exI [of _ c]) (use assms False w Inl in \<open>simp add: sendInLoop_def\<close>)
    next
      case (Inr n)
      let ?c = "emit (E_wrote (take n d)) c"
      show ?thesis
        by (rule exI [of _ n], rule exI [of _ "length d - n"], rule exI [of _ False],
            rule exI [of _ "if length d - n = 0 \<and> writeCompleteCb ?c then queueInLoop F_writeComplete ?c else ?c"])
          (use assms False w Inr in \<open>simp add: sendInLoop_def Let_def quiet cong: if_cong split: if_split_asm del: if_split\<close>)
    qed
  next
    case w: False
    show ?thesis
      by (rule exI [of _ 0], rule exI [of _ "length d"], rule exI [of _ False], rule exI [of _ c])
        (use assms False w in \<open>simp add: sendInLoop_def\<close>)
  qed
  with that show thesis by blast
qed

lemma sendInLoop_keeps:
  assumes "sendInLoop sys d c = Some c'"
  shows "conn_state c' = conn_state c \<and> inputBuffer c' = inputBuffer c"
proof (cases "conn_state c = kDisconnected")
  case False
  show ?thesis
    by (rule sendInLoop_shape [OF assms False]) (auto simp: Let_def quiet bind_eq_Some_conv split: if_split_asm)
qed (use assms in \<open>simp add: sendInLoop_def\<close>)

lemma reply:
  assumes "tcp_inv fds ch c" "conn_state c = kConnected" "write_ok sys" "\<forall>d. sys d \<noteq> Inl EPIPE \<and> sys d \<noteq> Inl ECONNRESET"
    and "statusCode r < 1000" "length (body r) < 10 ^ 9"
    and "r = callback req (mk_http_response (let connection = getHeader ''Connection'' req in
           connection = ''close'' \<or> version req = kHttp10 \<and> connection \<noteq> ''Keep-Alive''))"
  shows "\<exists>c'. onRequest callback sys req c = Some c' \<and> accepted c' = accepted c @ response_text r
    \<and> inputBuffer c' = inputBuffer c \<and> conn_state c' = (if closeConnection r then kDisconnecting else kConnected)"
proof -
  obtain b where b: "appendToBuffer r (mk_buffer kInitialSize) = Some b" "wf_buffer b" "content b = response_text r"
    using response_correct [OF assms(5,6)] by blast
  have cb: "bytes_between (peek b) (peek b + readableBytes b) b = response_text r"
    using content_peek_take [OF b(2), of "readableBytes b"] b(3) length_content [OF b(2)] by simp
  obtain c1 where c1: "sendInLoop sys (response_text r) c = Some c1" "accepted c1 = accepted c @ response_text r"
    using sendInLoop_effect [OF assms(1) _ assms(3), of "response_text r"] assms(2,4) unfolding Let_def active_def by metis
  from sendInLoop_keeps [OF c1(1)] assms(2) have k: "conn_state c1 = kConnected" "inputBuffer c1 = inputBuffer c" by simp_all
  have "onRequest callback sys req c = Some (if closeConnection r then shutdown True c1 else c1)"
    unfolding onRequest_def Let_def send_buffer_def using assms(2,7) b(1) cb c1(1) by (simp add: Let_def)
  then show ?thesis using c1(2) k
    by (simp add: shutdown_def setState_def shutdownInLoop_def emit_def history_defs Let_def)
qed

lemma tcp_inv_input: "tcp_inv fds ch c \<Longrightarrow> wf_buffer b \<Longrightarrow> tcp_inv fds ch (c\<lparr>inputBuffer := b\<rparr>)"
  using polled_same [of fds ch c "c\<lparr>inputBuffer := b\<rparr>"] by (simp add: tcp_inv_def active_def history_defs)

lemma tcp_inv_input_wf: "tcp_inv fds ch c \<Longrightarrow> wf_buffer (inputBuffer c)"
  by (simp add: tcp_inv_def)

text \<open>C11: The server answers a request: when the input buffer of a connection that is up holds a whole request and what
  follows it, the message callback hands the connection exactly the printed response of the user's callback to send, leaves what
  follows in the buffer, starts a fresh context, and shuts the connection down exactly when the response says so.\<close>

theorem http_server_replies:
  assumes "tcp_reach sockfd c" "conn_state c = kConnected" "write_ok sys" "\<forall>d. sys d \<noteq> Inl EPIPE \<and> sys d \<noteq> Inl ECONNRESET"
    and "m \<noteq> kInvalid" "target_ok p q" "v = CHR ''0'' \<or> v = CHR ''1''" "\<forall>h \<in> set hs. header_ok h"
    and "content (inputBuffer c) = request_text m p q v hs @ u"
    and "req = \<lparr>req_method = m, version = (if v = CHR ''1'' then kHttp11 else kHttp10), path = p, query = q, receiveTime = t,
          headers = fold (\<lambda>(k, v). map_put k v) hs []\<rparr>"
    and "r = callback req (mk_http_response (let connection = getHeader ''Connection'' req in
           connection = ''close'' \<or> version req = kHttp10 \<and> connection \<noteq> ''Keep-Alive''))"
    and "statusCode r < 1000" "length (body r) < 10 ^ 9"
  shows "\<exists>c'. http_onMessage callback sys t (c, mk_http_context) = Some (c', mk_http_context)
    \<and> accepted c' = accepted c @ response_text r \<and> content (inputBuffer c') = u
    \<and> conn_state c' = (if closeConnection r then kDisconnecting else kConnected)"
proof -
  let ?ctx = "\<lparr>hc_state = kGotAll, request = req\<rparr>"
  note inv = tcp_reach_inv [OF assms(1), of "\<lambda>_. 0" 0]
  obtain b where b: "parseRequest t mk_http_context (inputBuffer c) = Some (True, ?ctx, b)" "wf_buffer b" "content b = u"
    using parse_loop_content [OF request_parse [OF assms(5-8), of t u] tcp_inv_input_wf [OF inv] assms(9)] assms(10)
    by (auto simp: parseRequest_def)
  obtain c' where c': "onRequest callback sys req (c\<lparr>inputBuffer := b\<rparr>) = Some c'"
    "accepted c' = accepted (c\<lparr>inputBuffer := b\<rparr>) @ response_text r" "inputBuffer c' = inputBuffer (c\<lparr>inputBuffer := b\<rparr>)"
    "conn_state c' = (if closeConnection r then kDisconnecting else kConnected)"
    using reply [where callback = callback and req = req and r = r, OF tcp_inv_input [OF inv b(2)] _ assms(3,4,12,13) assms(11)] assms(2) by auto
  have "http_onMessage callback sys t (c, mk_http_context) = Some (c', mk_http_context)"
    using b(1) c'(1) by (simp add: http_onMessage_def gotAll_def hc_reset_def mk_http_context_def)
  with c' b(3) show ?thesis by (simp add: accepted_def)
qed

lemma request_arrives:
  assumes "length d < 65536" "d \<noteq> []"
  obtains c where "tcp_reach 5 c" "conn_state c = kConnected" "content (inputBuffer c) = d" "accepted c = []"
proof -
  obtain c where c: "connectEstablished (mk_tcp_conn 5) = Some c" "tcp_reach 5 c" "conn_state c = kConnected"
      "content (outputBuffer c) = []" "wire c = []" "isReading (chan c)" "addedToLoop (chan c)" by (rule establishedE)
  define rd :: "nat \<Rightarrow> int + bytes" where "rd = (\<lambda>room. if length d \<le> room then Inr d else Inl 0)"
  have rd: "readv_ok rd" by (simp add: rd_def readv_ok_def)
  have i: "inputBuffer c = mk_buffer kInitialSize" "accepted c = []" "tied (chan c)" "readCallback (chan c)"
    using c(1) by (auto simp: connectEstablished_def mk_tcp_conn_def setState_def 
        chan_op_defs chan_events_def emit_def channel_tie_def mk_channel_def history_defs
        setErrorCallback_def setCloseCallback_def setWriteCallback_def setReadCallback_def)
  obtain n err b where b: "readFd rd (inputBuffer c) = Some (n, err, b)" "n = int (length d)" "content b = d"
    using readFd_contract [OF wf_mk_buffer rd, of kInitialSize] assms i(1)
    by (auto simp: rd_def mk_buffer_geometry extrabuf_size_def split: if_split_asm)
  let ?c = "emit (E_message (Timestamp 1)) (c\<lparr>chan := set_revents POLLIN (chan c), inputBuffer := b\<rparr>)"
  have "tcp_step (Io POLLIN rd (\<lambda>_. Inl 0) (Timestamp 1)) c = Some ?c"
    using b i assms by (simp add: dispatch_def handleEvent_def handleEventWithGuard_def set_revents_def handleRead_def POLLIN_def
        POLLHUP_def POLLERR_def POLLNVAL_def POLLPRI_def POLLRDHUP_def POLLOUT_def)
  then have "tcp_reach 5 ?c"
    by (rule tcp_reach.Step [OF c(2), rotated]) (use c(6) rd in \<open>auto simp: legal_def io_ok_def isReading_def write_ok_def POLLIN_def POLLOUT_def
        POLLRDHUP_def POLLHUP_def POLLPRI_def\<close>)
  with that [of ?c] c b(3) i(2) show thesis by (simp add: emit_def history_defs)
qed

theorem http_server_replies_witness:
  "\<exists>c c'. content (inputBuffer c) = request_text kGet ''/a'' ''?x'' (CHR ''1'') [(''Connection'', ''close'')] @ ''GET''
     \<and> http_onMessage defaultHttpCallback (\<lambda>d. Inr (length d)) (Timestamp 5) (c, mk_http_context) = Some (c', mk_http_context)
     \<and> accepted c' = ''HTTP/1.1 404 Not Found'' @ kCRLF @ ''Connection: close'' @ kCRLF @ kCRLF
     \<and> content (inputBuffer c') = ''GET'' \<and> conn_state c' = kDisconnecting"
proof -
  let ?d = "request_text kGet ''/a'' ''?x'' (CHR ''1'') [(''Connection'', ''close'')] @ ''GET''"
  obtain c where c: "tcp_reach 5 c" "conn_state c = kConnected" "content (inputBuffer c) = ?d" "accepted c = []"
    by (rule request_arrives [of ?d]) (simp_all add: request_text_def header_line_def const_defs)
  let ?h = "[(''Connection'', ''close'')]"
  let ?q = "\<lparr>req_method = kGet, version = kHttp11, path = ''/a'', query = ''?x'', receiveTime = Timestamp 5, headers = ?h\<rparr>"
  let ?r = "defaultHttpCallback ?q (mk_http_response True)"
  have w: "write_ok (\<lambda>d. Inr (length d))" by (simp add: write_ok_def)
  have h: "target_ok ''/a'' ''?x''" "\<forall>h \<in> set ?h. header_ok h"
    by (simp_all add: target_ok_def header_ok_def trimmed_def is_space_def)
  have d404: "dec_nat 404 = ''404''" by code_simp
  have r: "statusCode ?r = 404" "body ?r = []" "closeConnection ?r"
    "response_text ?r = ''HTTP/1.1 404 Not Found'' @ kCRLF @ ''Connection: close'' @ kCRLF @ kCRLF"
    by (simp_all add: defaultHttpCallback_def mk_http_response_def setCloseConnection_def setStatusMessage_def
        setStatusCode_def k404NotFound_def response_text_def d404)
  have "\<exists>c'. http_onMessage defaultHttpCallback (\<lambda>d. Inr (length d)) (Timestamp 5) (c, mk_http_context) = Some (c', mk_http_context)
     \<and> accepted c' = accepted c @ response_text ?r \<and> content (inputBuffer c') = ''GET''
     \<and> conn_state c' = (if closeConnection ?r then kDisconnecting else kConnected)"
    by (rule http_server_replies [OF c(1,2) w _ _ h(1) _ h(2) c(3), where req = ?q])
      (simp_all add: r getHeader_def)
  with c r show ?thesis by auto
qed

end
