(* ===== verification/Net_Frames.thy ===== *)
theory Net_Frames
  imports Net_Buffer
begin

section \<open>Messages in a byte stream\<close>

text \<open>
  What the codecs share. A codec looks at the front of the bytes received so far (a scan): it finds a frame,
  needs more bytes, or finds an error. \<open>decode\<close> repeats this on a stream; the locales say what a scan has to satisfy
  so that the messages do not depend on how the stream was cut into segments. \<open>buffer_loop\<close> is the codecs'
  \<open>while\<close> loop over a \<open>Buffer\<close>, its body a definition of the codec.
\<close>

datatype ('m, 'e) scan_result = More | Frame "'m list" nat | Bad 'e

function decode :: "(bytes \<Rightarrow> ('m, 'e) scan_result) \<Rightarrow> bytes \<Rightarrow> 'm list \<times> bytes \<times> 'e option" where
  "decode scan s =
     (case scan s of
        More \<Rightarrow> ([], s, None)
      | Bad e \<Rightarrow> ([], s, Some e)
      | Frame ms n \<Rightarrow>
          if 0 < n \<and> n \<le> length s
          then (let (ms', rest, e) = decode scan (drop n s) in (ms @ ms', rest, e))
          else ([], s, None))"
  by auto
termination by (relation "measure (\<lambda>(scan, s). length s)") auto

declare decode.simps [simp del]

locale scanner =
  fixes scan :: "bytes \<Rightarrow> ('m, 'e) scan_result"
  assumes frame_inside: "scan s = Frame ms n \<Longrightarrow> 0 < n \<and> n \<le> length s"
    and frame_stable: "scan s = Frame ms n \<Longrightarrow> scan (s @ u) = Frame ms n"
    and bad_stable: "scan s = Bad e \<Longrightarrow> scan (s @ u) = Bad e"
begin

lemma frame_shrinks: "scan s = Frame ms n \<Longrightarrow> length (drop n s) < length s"
  using frame_inside [of s ms n] by auto

lemma decode_step:
  "scan s = More \<Longrightarrow> decode scan s = ([], s, None)"
  "scan s = Bad e \<Longrightarrow> decode scan s = ([], s, Some e)"
  "scan s = Frame ms n \<Longrightarrow> decode scan s = (let (ms', rest, e) = decode scan (drop n s) in (ms @ ms', rest, e))"
  using frame_inside [of s ms n] by (simp_all add: decode.simps [of scan s])

text \<open>Decoding in two parts is decoding at once.\<close>

lemma decode_append:
  "decode scan s = (ms, rest, e) \<Longrightarrow>
     decode scan (s @ u) = (case e of
        None \<Rightarrow> (let (ms', rest', e') = decode scan (rest @ u) in (ms @ ms', rest', e'))
      | Some x \<Rightarrow> (ms, rest @ u, Some x))"
proof (induction s arbitrary: ms rest e rule: measure_induct_rule [of length])
  case (less s)
  show ?case
  proof (cases "scan s")
    case More
    with less(2) show ?thesis by (auto simp: decode_step split: prod.split)
  next
    case (Bad x)
    with less(2) bad_stable [OF Bad] show ?thesis by (auto simp: decode_step)
  next
    case (Frame ks n)
    note i = frame_inside [OF Frame]
    obtain ms' rest' e' where d: "decode scan (drop n s) = (ms', rest', e')" by (metis prod_cases3)
    with less(2) Frame have m: "ms = ks @ ms'" "rest = rest'" "e = e'" by (auto simp: decode_step(3) [OF Frame])
    have "decode scan (s @ u) = (let (ms', rest, e) = decode scan (drop n s @ u) in (ks @ ms', rest, e))"
      using decode_step(3) [OF frame_stable [OF Frame, of u]] i by simp
    with less(1) [OF frame_shrinks [OF Frame] d] m show ?thesis by (cases e) (auto split: prod.split)
  qed
qed

lemma decode_idle: "decode scan s = (ms, rest, None) \<Longrightarrow> scan rest = More"
proof (induction s arbitrary: ms rule: measure_induct_rule [of length])
  case (less s)
  show ?case
  proof (cases "scan s")
    case (Frame ks n)
    obtain ms' rest' e' where d: "decode scan (drop n s) = (ms', rest', e')" by (metis prod_cases3)
    from less(1) [OF frame_shrinks [OF Frame]] less(2) Frame d show ?thesis
      by (auto simp: decode_step(3) [OF Frame])
  qed (use less(2) in \<open>auto simp: decode_step\<close>)
qed

end

text \<open>A scan with the frames a sender writes.\<close>

locale framing = scanner scan for scan :: "bytes \<Rightarrow> ('m, 'e) scan_result" +
  fixes frame :: "'m \<Rightarrow> bytes" and sendable :: "'m \<Rightarrow> bool"
  assumes scan_frame: "sendable m \<Longrightarrow> scan (frame m @ u) = Frame [m] (length (frame m))"
    and scan_empty: "scan [] = More"
begin

lemma decode_frames: "\<forall>m \<in> set ms. sendable m \<Longrightarrow> decode scan (concat (map frame ms)) = (ms, [], None)"
proof (induction ms)
  case (Cons m ms)
  then show ?case using decode_step(3) [OF scan_frame [of m "concat (map frame ms)"]] by simp
qed (simp add: decode_step scan_empty)

text \<open>A prefix of a stream of frames decodes without error to a prefix of the messages.\<close>

lemma decode_prefix:
  assumes "\<forall>m \<in> set ms. sendable m" "concat (map frame ms) = s @ u"
  shows "\<exists>ks ls rest. ms = ks @ ls \<and> decode scan s = (ks, rest, None) \<and> decode scan (rest @ u) = (ls, [], None)"
proof -
  obtain ks rest e where d: "decode scan s = (ks, rest, e)" by (metis prod_cases3)
  have w: "decode scan (s @ u) = (ms, [], None)" using decode_frames [OF assms(1)] assms(2) by simp
  with decode_append [OF d, of u] have e: "e = None" by (auto split: option.splits)
  with decode_append [OF d, of u] w obtain ls where "ms = ks @ ls" "decode scan (rest @ u) = (ls, [], None)"
    by (auto split: prod.splits)
  with d e show ?thesis by blast
qed

end

subsection \<open>Room in front of a buffer\<close>

lemma room_kept:
  "makeSpace n b = Some b' \<Longrightarrow> kCheapPrepend \<le> prependableBytes b \<Longrightarrow> kCheapPrepend \<le> prependableBytes b'"
  "ensureWritableBytes n b = Some b' \<Longrightarrow> kCheapPrepend \<le> prependableBytes b \<Longrightarrow> kCheapPrepend \<le> prependableBytes b'"
  "append_buf d b = Some b' \<Longrightarrow> kCheapPrepend \<le> prependableBytes b \<Longrightarrow> kCheapPrepend \<le> prependableBytes b'"
proof -
  show m: "makeSpace n b = Some b' \<Longrightarrow> kCheapPrepend \<le> prependableBytes b \<Longrightarrow> kCheapPrepend \<le> prependableBytes b'" for n b'
    by (auto simp: makeSpace_def prependableBytes_def Let_def split: if_splits)
  show e: "ensureWritableBytes n b = Some b' \<Longrightarrow> kCheapPrepend \<le> prependableBytes b \<Longrightarrow> kCheapPrepend \<le> prependableBytes b'" for n b'
    by (auto simp: ensureWritableBytes_def split: if_splits dest: m)
  assume "append_buf d b = Some b'" "kCheapPrepend \<le> prependableBytes b"
  then obtain b1 where "ensureWritableBytes (length d) b = Some b1" "readerIndex b' = readerIndex b1"
    by (auto simp: append_buf_def hasWritten_def)
  with e [of "length d" b1] \<open>kCheapPrepend \<le> prependableBytes b\<close> show "kCheapPrepend \<le> prependableBytes b'"
    by (simp add: prependableBytes_def)
qed

lemma mk_buffer_room: "prependableBytes (mk_buffer n) = kCheapPrepend"
  by (simp add: prependableBytes_def mk_buffer_def)

text \<open>A write through \<open>beginWrite\<close> and \<open>hasWritten\<close>.\<close>

lemma write_contract:
  assumes "wf_buffer b" "length d \<le> writableBytes b"
  obtains b' where "hasWritten (length d) (b\<lparr>buf := write_at (beginWrite b) d (buf b)\<rparr>) = Some b'" "wf_buffer b'"
    "content b' = content b @ d" "prependableBytes b' = prependableBytes b"
proof
  have "writableBytes (b\<lparr>buf := write_at (writerIndex b) d (buf b)\<rparr>) = writableBytes b"
    using assms by (auto simp: geometry wf_buffer_def)
  then show "hasWritten (length d) (b\<lparr>buf := write_at (beginWrite b) d (buf b)\<rparr>) = Some (fill_writable d b)"
    using assms(2) by (simp add: hasWritten_def beginWrite_def fill_writable_def)
  show "wf_buffer (fill_writable d b)" "content (fill_writable d b) = content b @ d"
    using fill_writable_contract [OF assms] by simp_all
  show "prependableBytes (fill_writable d b) = prependableBytes b"
    by (simp add: fill_writable_def prependableBytes_def)
qed

subsection \<open>The loop over a buffer\<close>

text \<open>One pass through the body of a codec's loop says whether the loop goes on, which callbacks it ran,
  and the buffer after it. \<open>None\<close> of the loop is a failed assertion, or a loop that never ends.\<close>

datatype ('m, 'e) codec_event = Deliver 'm | Failed 'e

type_synonym ('m, 'e) loop_body = "buffer \<Rightarrow> (bool \<times> ('m, 'e) codec_event list \<times> buffer) option"

partial_function (option) buffer_loop ::
    "('m, 'e) loop_body \<Rightarrow> ('m, 'e) codec_event list \<Rightarrow> buffer \<Rightarrow> (('m, 'e) codec_event list \<times> buffer) option" where
  "buffer_loop body evs b =
     do { (more, es, b') \<leftarrow> body b;
          if more then buffer_loop body (evs @ es) b' else Some (evs @ es, b') }"

definition body_scans :: "('m, 'e) loop_body \<Rightarrow> (bytes \<Rightarrow> ('m, 'e) scan_result) \<Rightarrow> bool" where
  "body_scans body scan \<longleftrightarrow> (\<forall>b. wf_buffer b \<longrightarrow>
     (case scan (content b) of
        More \<Rightarrow> body b = Some (False, [], b)
      | Frame ms n \<Rightarrow> \<exists>b'. body b = Some (True, map Deliver ms, b') \<and> wf_buffer b' \<and> content b' = drop n (content b)
      | Bad e \<Rightarrow> body b = Some (False, [Failed e], b)))"

text \<open>A body that does as the scan says unless the scan finds an error.\<close>

definition body_reads :: "('m, 'e) loop_body \<Rightarrow> (bytes \<Rightarrow> ('m, 'e) scan_result) \<Rightarrow> bool" where
  "body_reads body scan \<longleftrightarrow> (\<forall>b. wf_buffer b \<longrightarrow>
     (case scan (content b) of
        More \<Rightarrow> body b = Some (False, [], b)
      | Frame ms n \<Rightarrow> \<exists>b'. body b = Some (True, map Deliver ms, b') \<and> wf_buffer b' \<and> content b' = drop n (content b)
      | Bad e \<Rightarrow> True))"

lemma body_scans_reads: "body_scans body scan \<Longrightarrow> body_reads body scan"
  unfolding body_scans_def body_reads_def by (fastforce split: scan_result.splits)

definition events_of :: "'m list \<Rightarrow> 'e option \<Rightarrow> ('m, 'e) codec_event list" where
  "events_of ms e = map Deliver ms @ (case e of None \<Rightarrow> [] | Some x \<Rightarrow> [Failed x])"

text \<open>A received segment: it is appended to the buffer, then the loop runs.\<close>

fun feed :: "('m, 'e) loop_body \<Rightarrow> bytes list \<Rightarrow> ('m, 'e) codec_event list \<Rightarrow> buffer \<Rightarrow> (('m, 'e) codec_event list \<times> buffer) option" where
  "feed body [] evs b = Some (evs, b)"
| "feed body (d # ds) evs b =
     do { b \<leftarrow> append_buf d b; (evs, b) \<leftarrow> buffer_loop body evs b; feed body ds evs b }"

context scanner
begin

lemma buffer_loop_reads:
  assumes "body_reads body scan"
  shows "decode scan s = (ms, rest, e) \<Longrightarrow> wf_buffer b \<Longrightarrow> content b = s \<Longrightarrow>
     \<exists>b'. buffer_loop body evs b = (case e of None \<Rightarrow> Some (evs @ map Deliver ms, b') | Some x \<Rightarrow> buffer_loop body (evs @ map Deliver ms) b')
       \<and> wf_buffer b' \<and> content b' = rest"
proof (induction s arbitrary: b evs ms rest e rule: measure_induct_rule [of length])
  case (less s)
  note body = assms [unfolded body_reads_def, rule_format, OF less(3)]
  show ?case
  proof (cases "scan s")
    case More
    with less(2-4) body show ?thesis by (auto simp: decode_step buffer_loop.simps [of body evs b])
  next
    case (Bad x)
    with less(2-4) show ?thesis by (auto simp: decode_step)
  next
    case (Frame ks n)
    obtain ms' rest' e' where d: "decode scan (drop n s) = (ms', rest', e')" by (metis prod_cases3)
    from body Frame less(4) obtain b1 where b1: "body b = Some (True, map Deliver ks, b1)" "wf_buffer b1" "content b1 = drop n s" by auto
    have "buffer_loop body evs b = buffer_loop body (evs @ map Deliver ks) b1" using b1(1) by (subst buffer_loop.simps) simp
    with less(1) [OF frame_shrinks [OF Frame] d b1(2,3), where evs = "evs @ map Deliver ks"] less(2) Frame d show ?thesis
      by (auto simp: decode_step(3) [OF Frame] split: option.splits)
  qed
qed

lemma bad_left: "decode scan s = (ms, rest, Some x) \<Longrightarrow> scan rest = Bad x"
proof (induction s arbitrary: ms rule: measure_induct_rule [of length])
  case (less s)
  show ?case
  proof (cases "scan s")
    case (Frame ks n)
    obtain ms' rest' e' where d: "decode scan (drop n s) = (ms', rest', e')" by (metis prod_cases3)
    from less(1) [OF frame_shrinks [OF Frame]] less(2) Frame d show ?thesis
      by (auto simp: decode_step(3) [OF Frame])
  qed (use less(2) in \<open>auto simp: decode_step\<close>)
qed

lemma buffer_loop_decode:
  assumes "body_scans body scan" "decode scan s = (ms, rest, e)" "wf_buffer b" "content b = s"
  shows "\<exists>b'. buffer_loop body evs b = Some (evs @ events_of ms e, b') \<and> wf_buffer b' \<and> content b' = rest"
proof -
  obtain b' where b': "buffer_loop body evs b = (case e of None \<Rightarrow> Some (evs @ map Deliver ms, b') | Some x \<Rightarrow> buffer_loop body (evs @ map Deliver ms) b')"
    "wf_buffer b'" "content b' = rest"
    using buffer_loop_reads [OF body_scans_reads [OF assms(1)] assms(2-4), of evs] by blast
  show ?thesis
  proof (cases e)
    case None
    then show ?thesis using b' by (simp add: events_of_def)
  next
    case (Some x)
    then have "body b' = Some (False, [Failed x], b')"
      using assms(1) [unfolded body_scans_def, rule_format, OF b'(2)] bad_left [of s ms rest x] assms(2) b'(3) by simp
    then have "buffer_loop body (evs @ map Deliver ms) b' = Some (evs @ events_of ms e, b')"
      using Some by (subst buffer_loop.simps) (simp add: events_of_def)
    then show ?thesis using b' Some by auto
  qed
qed

end

context framing
begin

text \<open>Whatever the segments of a stream of frames are, exactly the messages are delivered.\<close>

lemma feed_frames:
  assumes "body_reads body scan"
  shows "\<forall>m \<in> set ms. sendable m \<Longrightarrow> wf_buffer b \<Longrightarrow> decode scan (content b) = ([], content b, None) \<Longrightarrow>
     decode scan (content b @ concat ds) = (ms, [], None) \<Longrightarrow>
     \<exists>b'. feed body ds evs b = Some (evs @ map Deliver ms, b') \<and> wf_buffer b' \<and> content b' = []"
proof (induction ds arbitrary: b ms evs)
  case Nil
  then show ?case by auto
next
  case (Cons d ds)
  obtain b1 where b1: "append_buf d b = Some b1" "wf_buffer b1" "content b1 = content b @ d"
    using append_contract [OF Cons.prems(2)] .
  obtain ks rest e where k: "decode scan (content b @ d) = (ks, rest, e)" by (metis prod_cases3)
  from decode_append [OF k, of "concat ds"] Cons.prems(4) have e: "e = None" by (auto split: option.splits)
  with decode_append [OF k, of "concat ds"] Cons.prems(4)
  obtain ls where l: "ms = ks @ ls" "decode scan (rest @ concat ds) = (ls, [], None)" by (auto split: prod.splits)
  from buffer_loop_reads [OF assms k b1(2,3), of evs] e obtain b2 where
    b2: "buffer_loop body evs b1 = Some (evs @ map Deliver ks, b2)" "wf_buffer b2" "content b2 = rest"
    by auto
  have "decode scan (content b2) = ([], content b2, None)"
    using decode_idle [of "content b @ d" ks rest] k e b2(3) by (simp add: decode_step(1))
  from Cons.IH [OF _ b2(2) this, of ls "evs @ map Deliver ks"] Cons.prems(1) l b2(3) b1(1) b2(1)
  show ?case by auto
qed

end

end
