(* ===== verification/Net_Protobuf.thy ===== *)
theory Net_Protobuf
  imports Net_Frames Net_TcpConnection
begin

section \<open>The protobuf codec: \<open>net/protobuf/ProtobufCodecLite.cc\<close>\<close>

text \<open>
  Wire format: a length, a tag, the serialized message, and an Adler-32 checksum of tag and message. zlib and
  protobuf are arguments: \<open>adler32\<close>; \<open>ser\<close>, the bytes \<open>SerializeWithCachedSizesToArray\<close> writes (\<open>ByteSize\<close>
  is their number); \<open>prs\<close>, which is \<open>ParseFromArray\<close> into a new message.
\<close>

type_synonym adler = "64 word \<Rightarrow> bytes \<Rightarrow> 64 word"

datatype ErrorCode = kNoError | kInvalidLength | kCheckSumError | kInvalidNameLen | kUnknownMessageType | kParseError

fun errorCodeToString :: "ErrorCode \<Rightarrow> string" where
  "errorCodeToString kNoError = ''NoError''"
| "errorCodeToString kInvalidLength = ''InvalidLength''"
| "errorCodeToString kCheckSumError = ''CheckSumError''"
| "errorCodeToString kInvalidNameLen = ''InvalidNameLen''"
| "errorCodeToString kUnknownMessageType = ''UnknownMessageType''"
| "errorCodeToString kParseError = ''ParseError''"

definition kHeaderLen :: int where [const_defs]: "kHeaderLen = 4"
definition kChecksumLen :: int where [const_defs]: "kChecksumLen = 4"
definition kMaxMessageLen :: int where [const_defs]: "kMaxMessageLen = 64 * 1024 * 1024"

text \<open>\<open>tag_\<close> and \<open>rawCb_\<close>; the raw callback sees the whole frame and its arrival time.\<close>

record pb_codec =
  tag :: string
  rawCb :: "(bytes \<Rightarrow> timestamp \<Rightarrow> bool) option"

definition kMinMessageLen :: "pb_codec \<Rightarrow> int" where
  "kMinMessageLen k = to_int32 (int (length (tag k)) + kChecksumLen)"

definition asInt32 :: "bytes \<Rightarrow> int" where
  "asInt32 p = sint (networkToHost32 (load_mem (take 4 p)))"

definition checksum :: "adler \<Rightarrow> bytes \<Rightarrow> int \<Rightarrow> int" where
  "checksum adler32 p len = sint (ucast (adler32 1 (take (nat (len mod 2 ^ 32)) p)) :: 32 word)"

definition validateChecksum :: "adler \<Rightarrow> bytes \<Rightarrow> int \<Rightarrow> bool" where
  "validateChecksum adler32 p len =
     (let expectedCheckSum = asInt32 (drop (nat (len - kChecksumLen)) p)
      in checksum adler32 p (len - kChecksumLen) = expectedCheckSum)"

definition parseFromBuffer :: "(bytes \<Rightarrow> 'm option) \<Rightarrow> bytes \<Rightarrow> 'm option" where
  "parseFromBuffer prs p = prs p"

text \<open>\<open>parse\<close>: an error code, or the message.\<close>

definition pb_parse :: "adler \<Rightarrow> (bytes \<Rightarrow> 'm option) \<Rightarrow> pb_codec \<Rightarrow> bytes \<Rightarrow> int \<Rightarrow> ErrorCode + 'm" where
  "pb_parse adler32 prs k p len =
     (if validateChecksum adler32 p len
      then if take (length (tag k)) p = tag k
           then let data = drop (length (tag k)) p;
                    dataLen = len - kChecksumLen - to_int32 (int (length (tag k)))
                in case parseFromBuffer prs (take (nat dataLen) data) of
                     Some message \<Rightarrow> Inr message
                   | None \<Rightarrow> Inl kParseError
           else Inl kUnknownMessageType
      else Inl kCheckSumError)"

definition serializeToBuffer :: "('m \<Rightarrow> bytes) \<Rightarrow> 'm \<Rightarrow> buffer \<Rightarrow> (int \<times> buffer) option" where
  "serializeToBuffer ser message b =
     (let byte_size = to_int32 (int (length (ser message)))
      in do { b \<leftarrow> ensureWritableBytes (nat (byte_size + kChecksumLen)) b;
              b \<leftarrow> hasWritten (nat byte_size) (b\<lparr>buf := write_at (beginWrite b) (ser message) (buf b)\<rparr>);
              Some (byte_size, b) })"

definition fillEmptyBuffer :: "adler \<Rightarrow> ('m \<Rightarrow> bytes) \<Rightarrow> pb_codec \<Rightarrow> 'm \<Rightarrow> buffer \<Rightarrow> buffer option" where
  "fillEmptyBuffer adler32 ser k message b =
     assert_then (readableBytes b = 0)
      (do { b \<leftarrow> append_buf (tag k) b;
            (byte_size, b) \<leftarrow> serializeToBuffer ser message b;
            let checkSum = checksum adler32 (bytes_between (peek b) (beginWrite b) b) (to_int32 (int (readableBytes b)));
            b \<leftarrow> appendInt32 (word_of_int checkSum) b;
            assert_then (int (readableBytes b) = int (length (tag k)) + byte_size + kChecksumLen)
             (let len = hostToNetwork32 (word_of_int (to_int32 (int (readableBytes b))))
              in prepend (mem_of len) b) })"

text \<open>\<open>send\<close>, in the loop's thread.\<close>

definition codec_send :: "adler \<Rightarrow> ('m \<Rightarrow> bytes) \<Rightarrow> pb_codec \<Rightarrow> sys_write \<Rightarrow> 'm \<Rightarrow> tcp_conn \<Rightarrow> tcp_conn option" where
  "codec_send adler32 ser k sys message conn =
     do { b \<leftarrow> fillEmptyBuffer adler32 ser k message (mk_buffer kInitialSize);
          (conn, b) \<leftarrow> send_buffer True sys b conn;
          Some conn }"

definition defaultErrorCallback :: "tcp_conn \<Rightarrow> tcp_conn" where
  "defaultErrorCallback conn = (if connected conn then shutdown True conn else conn)"

text \<open>\<open>rawCb_ && !rawCb_(...)\<close>.\<close>

definition raw_rejects :: "pb_codec \<Rightarrow> bytes \<Rightarrow> timestamp \<Rightarrow> bool" where
  "raw_rejects k p t \<longleftrightarrow> (case rawCb k of Some cb \<Rightarrow> \<not> cb p t | None \<Rightarrow> False)"

text \<open>One pass of the loop of \<open>onMessage\<close>; \<open>Deliver\<close> is a call of \<open>messageCallback_\<close>, \<open>Failed\<close> one of
  \<open>errorCallback_\<close>.\<close>

definition codec_body :: "adler \<Rightarrow> (bytes \<Rightarrow> 'm option) \<Rightarrow> pb_codec \<Rightarrow> timestamp \<Rightarrow> ('m, ErrorCode) loop_body" where
  "codec_body adler32 prs k t b =
     (if readableBytes b \<ge> nat (kMinMessageLen k + kHeaderLen)
      then do {
        w \<leftarrow> peekInt32 b;
        let len = sint w;
        if len > kMaxMessageLen \<or> len < kMinMessageLen k then Some (False, [Failed kInvalidLength], b)
        else if readableBytes b \<ge> nat (kHeaderLen + len)
        then if raw_rejects k (bytes_between (peek b) (peek b + nat (kHeaderLen + len)) b) t
             then do { b \<leftarrow> retrieve (nat (kHeaderLen + len)) b; Some (True, [], b) }
             else (case pb_parse adler32 prs k (bytes_between (peek b + nat kHeaderLen) (beginWrite b) b) len of
                     Inr message \<Rightarrow> do { b \<leftarrow> retrieve (nat (kHeaderLen + len)) b; Some (True, [Deliver message], b) }
                   | Inl errorCode \<Rightarrow> Some (False, [Failed errorCode], b))
        else Some (False, [], b) }
      else Some (False, [], b))"

definition codec_onMessage where
  "codec_onMessage adler32 prs k t b = buffer_loop (codec_body adler32 prs k t) [] b"

subsection \<open>The wire format\<close>

text \<open>The frame of a message, and the scan of a stream, on bytes.\<close>

definition be32 :: "int \<Rightarrow> bytes" where
  "be32 n = mem_of (hostToNetwork32 (word_of_int n))"

definition pb_frame :: "adler \<Rightarrow> ('m \<Rightarrow> bytes) \<Rightarrow> pb_codec \<Rightarrow> 'm \<Rightarrow> bytes" where
  "pb_frame adler32 ser k m =
     (let payload = tag k @ ser m
      in be32 (int (length payload) + 4) @ payload @ be32 (sint (ucast (adler32 1 payload) :: 32 word)))"

definition pb_scan :: "adler \<Rightarrow> (bytes \<Rightarrow> 'm option) \<Rightarrow> pb_codec \<Rightarrow> timestamp \<Rightarrow> bytes \<Rightarrow> ('m, ErrorCode) scan_result" where
  "pb_scan adler32 prs k t s =
     (if length s < length (tag k) + 8 then More
      else let len = asInt32 s; n = nat (4 + len) in
        if len > kMaxMessageLen \<or> len < int (length (tag k)) + 4 then Bad kInvalidLength
        else if length s < n then More
        else if raw_rejects k (take n s) t then Frame [] n
        else (case pb_parse adler32 prs k (drop 4 (take n s)) len of
                Inr message \<Rightarrow> Frame [message] n
              | Inl errorCode \<Rightarrow> Bad errorCode))"

text \<open>A message can be sent when its frame is within the limit, protobuf reads back what it writes, and the
  raw callback lets the frame pass.\<close>

definition pb_sendable where
  "pb_sendable adler32 ser prs k t m \<longleftrightarrow>
     int (length (tag k)) + int (length (ser m)) + 4 \<le> kMaxMessageLen \<and> prs (ser m) = Some m
     \<and> \<not> raw_rejects k (pb_frame adler32 ser k m) t"

lemma be32_length [simp]: "length (be32 n) = 4"
  by (simp add: be32_def)

lemma asInt32_be32 [simp]: "asInt32 (be32 n @ s) = signed_take_bit 31 n" "asInt32 (be32 n) = signed_take_bit 31 n"
  by (simp_all add: asInt32_def be32_def signed_of_int)

lemma to_int32_size: "int (length (tag k)) + int n + 4 \<le> kMaxMessageLen \<Longrightarrow>
   to_int32 (int (length (tag k))) = int (length (tag k)) \<and> to_int32 (int n) = int n
   \<and> to_int32 (int (length (tag k)) + int n + 4) = int (length (tag k)) + int n + 4
   \<and> to_int32 (int (length (tag k)) + int n) = int (length (tag k)) + int n"
  by (simp add: const_defs)

lemma fill_frame:
  assumes "wf_buffer b" "content b = []" "kCheapPrepend \<le> prependableBytes b"
    and "int (length (tag k)) + int (length (ser m)) + 4 \<le> kMaxMessageLen"
  shows "\<exists>b'. fillEmptyBuffer adler32 ser k m b = Some b' \<and> wf_buffer b' \<and> content b' = pb_frame adler32 ser k m"
proof -
  note sz = to_int32_size [OF assms(4)]
  have r0: "readableBytes b = 0" using length_content [OF assms(1)] assms(2) by simp
  obtain b1 where b1: "append_buf (tag k) b = Some b1" "wf_buffer b1" "content b1 = tag k"
    using append_contract [OF assms(1), of "tag k"] assms(2) by auto
  obtain b2 where b2: "ensureWritableBytes (length (ser m) + 4) b1 = Some b2" "wf_buffer b2" "content b2 = tag k"
      "length (ser m) + 4 \<le> writableBytes b2"
    using ensureWritableBytes_contract [OF b1(2)] b1(3) by metis
  have p2: "kCheapPrepend \<le> prependableBytes b2" using room_kept [of _ _] b1(1) b2(1) assms(3) by metis
  obtain b3 where b3: "hasWritten (length (ser m)) (b2\<lparr>buf := write_at (beginWrite b2) (ser m) (buf b2)\<rparr>) = Some b3"
      "wf_buffer b3" "content b3 = tag k @ ser m" "prependableBytes b3 = prependableBytes b2"
    using write_contract [of b2 "ser m"] b2 by auto
  have n: "nat (int (length (ser m)) + kChecksumLen) = length (ser m) + 4" by (simp add: const_defs)
  have s: "serializeToBuffer ser m b1 = Some (int (length (ser m)), b3)"
    using sz b2(1) b3(1) by (simp add: serializeToBuffer_def n)
  have r3: "readableBytes b3 = length (tag k) + length (ser m)" using length_content [OF b3(2)] b3(3) by simp
  have len: "(int (length (tag k)) + int (length (ser m))) mod 2 ^ 32 = int (length (tag k)) + int (length (ser m))"
    using assms(4) by (simp add: const_defs)
  let ?c = "sint (ucast (adler32 1 (tag k @ ser m)) :: 32 word)"
  have c: "checksum adler32 (content b3) (to_int32 (int (readableBytes b3))) = ?c"
    using sz len by (simp add: checksum_def b3(3) r3 nat_add_distrib)
  obtain b4 where b4: "appendInt32 (word_of_int ?c) b3 = Some b4" "wf_buffer b4" "content b4 = tag k @ ser m @ be32 ?c"
    using append_contract [OF b3(2), of "be32 ?c"] b3(3) by (auto simp: appendInt32_def be32_def)
  have r4: "readableBytes b4 = length (tag k) + length (ser m) + 4" using length_content [OF b4(2)] b4(3) by simp
  have "kCheapPrepend \<le> prependableBytes b4"
    using room_kept(3) [of _ b3 b4] b4(1) b3(4) p2 by (simp add: appendInt32_def)
  then obtain b5 where b5: "prepend (be32 (int (length (tag k)) + int (length (ser m)) + 4)) b4 = Some b5" "wf_buffer b5"
      "content b5 = be32 (int (length (tag k)) + int (length (ser m)) + 4) @ content b4"
    using prepend_total [OF b4(2), of "be32 (int (length (tag k)) + int (length (ser m)) + 4)"] by (auto simp: kCheapPrepend_def)
  have "fillEmptyBuffer adler32 ser k m b = Some b5"
    unfolding fillEmptyBuffer_def using r0 b1(1) s c b4(1) b5(1) sz r4
    by (simp add: content_peek_all be32_def kChecksumLen_def)
  with b5 b4(3) show ?thesis by (simp add: pb_frame_def Let_def)
qed

lemma pb_parse_take:
  assumes "int (length (tag k)) + 4 \<le> int n" "n \<le> length p" "int n \<le> kMaxMessageLen"
  shows "pb_parse adler32 prs k (take n p) (int n) = pb_parse adler32 prs k p (int n)"
proof -
  have a: "asInt32 (drop (n - 4) (take n p)) = asInt32 (drop (n - 4) p)"
    using assms by (simp add: asInt32_def drop_take min_def)
  have m: "(int n - 4) mod 2 ^ 32 = int n - 4" using assms by (simp add: const_defs)
  have "checksum adler32 (take n p) (int n - 4) = checksum adler32 p (int n - 4)"
    unfolding checksum_def m using assms by (simp add: min_def nat_le_iff)
  with a have v: "validateChecksum adler32 (take n p) (int n) = validateChecksum adler32 p (int n)"
    using assms by (simp add: validateChecksum_def const_defs nat_diff_distrib)
  have "to_int32 (int (length (tag k))) = int (length (tag k))" using assms by (simp add: const_defs)
  then have "take (nat (int n - kChecksumLen - to_int32 (int (length (tag k))))) (drop (length (tag k)) (take n p))
      = take (nat (int n - kChecksumLen - to_int32 (int (length (tag k))))) (drop (length (tag k)) p)"
    using assms by (simp add: drop_take const_defs min_def)
  with v show ?thesis using assms by (simp add: pb_parse_def min_def)
qed

lemma asInt32_append: "4 \<le> length s \<Longrightarrow> asInt32 (s @ u) = asInt32 s"
  by (simp add: asInt32_def)

lemma pb_scan_inside:
  "pb_scan adler32 prs k t s = Frame ms n \<Longrightarrow> 0 < n \<and> n \<le> length s"
  by (auto simp: pb_scan_def Let_def split: if_splits sum.splits)

lemma pb_scan_more:
  assumes "pb_scan adler32 prs k t s \<noteq> More"
  shows "pb_scan adler32 prs k t (s @ u) = pb_scan adler32 prs k t s"
proof -
  have s: "length (tag k) + 8 \<le> length s" using assms by (simp add: pb_scan_def Let_def split: if_splits)
  then have a: "asInt32 (s @ u) = asInt32 s" by (intro asInt32_append) simp
  show ?thesis
  proof (cases "asInt32 s > kMaxMessageLen \<or> asInt32 s < int (length (tag k)) + 4")
    case True
    with a s show ?thesis by (simp add: pb_scan_def Let_def)
  next
    case False
    with assms s have "nat (4 + asInt32 s) \<le> length s" by (simp add: pb_scan_def Let_def split: if_splits)
    with a s show ?thesis by (simp add: pb_scan_def Let_def)
  qed
qed

lemma pb_scan_frame:
  assumes "pb_sendable adler32 ser prs k t m"
  shows "pb_scan adler32 prs k t (pb_frame adler32 ser k m @ u) = Frame [m] (length (pb_frame adler32 ser k m))"
proof -
  let ?f = "pb_frame adler32 ser k m" and ?p = "tag k @ ser m"
  let ?c = "sint (ucast (adler32 1 ?p) :: 32 word)"
  define len where "len = int (length ?p) + 4"
  note a = assms [unfolded pb_sendable_def]
  have f: "?f = be32 len @ ?p @ be32 ?c" by (simp add: pb_frame_def Let_def len_def)
  have lf: "length ?f = length ?p + 8" by (simp add: f)
  have b: "len \<le> kMaxMessageLen" "len \<ge> int (length (tag k)) + 4" using a by (simp_all add: len_def)
  then have "signed_take_bit 31 len = len" using to_int32_id [of len] by (simp add: to_int32_def const_defs)
  then have l: "asInt32 (?f @ u) = len" by (simp add: f)
  have n: "nat (4 + len) = length ?f" by (simp add: len_def f)
  have q: "drop 4 ?f = ?p @ be32 ?c" by (simp add: f)
  have "(len - 4) mod 2 ^ 32 = len - 4" using b by (simp add: const_defs len_def)
  then have "checksum adler32 (?p @ be32 ?c) (len - 4) = ?c" by (simp add: checksum_def len_def)
  moreover have "signed_take_bit 31 ?c = ?c" by (rule signed_take_bit_int_eq_self) (use sint_ge [of "ucast (adler32 1 ?p) :: 32 word"] sint_lt [of "ucast (adler32 1 ?p) :: 32 word"] in simp_all)
  ultimately have v: "validateChecksum adler32 (?p @ be32 ?c) len"
    by (simp add: validateChecksum_def Let_def const_defs len_def)
  have "to_int32 (int (length (tag k))) = int (length (tag k))" using a by (simp add: const_defs)
  then have "pb_parse adler32 prs k (?p @ be32 ?c) len = Inr m"
    using v a by (simp add: pb_parse_def parseFromBuffer_def const_defs len_def)
  then show ?thesis
    using b l n q a lf by (simp add: pb_scan_def Let_def)
qed

interpretation pb: framing "pb_scan adler32 prs k t" "pb_frame adler32 ser k" "pb_sendable adler32 ser prs k t"
  for adler32 prs k t ser
proof
  show "pb_scan adler32 prs k t s = Frame ms n \<Longrightarrow> 0 < n \<and> n \<le> length s" for s ms n by (rule pb_scan_inside)
  show "pb_scan adler32 prs k t s = Frame ms n \<Longrightarrow> pb_scan adler32 prs k t (s @ u) = Frame ms n" for s ms n u
    by (simp add: pb_scan_more)
  show "pb_scan adler32 prs k t s = Bad e \<Longrightarrow> pb_scan adler32 prs k t (s @ u) = Bad e" for s e u
    by (simp add: pb_scan_more)
  show "pb_sendable adler32 ser prs k t m \<Longrightarrow>
      pb_scan adler32 prs k t (pb_frame adler32 ser k m @ u) = Frame [m] (length (pb_frame adler32 ser k m))" for m u
    by (rule pb_scan_frame)
  show "pb_scan adler32 prs k t [] = More" by (simp add: pb_scan_def)
qed

text \<open>The loop's body looks at the buffer as the scan looks at its content.\<close>

lemma codec_body_scans:
  assumes "int (length (tag k)) < 2 ^ 31 - 8"
  shows "body_scans (codec_body adler32 prs k t) (pb_scan adler32 prs k t)"
  unfolding body_scans_def
proof (intro allI impI)
  fix b assume w: "wf_buffer b"
  let ?s = "content b" and ?body = "codec_body adler32 prs k t b"
  have mn: "kMinMessageLen k = int (length (tag k)) + 4" using assms by (simp add: kMinMessageLen_def const_defs)
  have r: "readableBytes b = length ?s" using length_content [OF w] by simp
  have c: "nat (kMinMessageLen k + kHeaderLen) = length (tag k) + 8" using mn by (simp add: const_defs nat_add_distrib)
  show "case pb_scan adler32 prs k t ?s of More \<Rightarrow> ?body = Some (False, [], b)
      | Frame ms n \<Rightarrow> \<exists>b'. ?body = Some (True, map Deliver ms, b') \<and> wf_buffer b' \<and> content b' = drop n ?s
      | Bad e \<Rightarrow> ?body = Some (False, [Failed e], b)"
  proof (cases "length ?s < length (tag k) + 8")
    case True
    then show ?thesis using r c by (simp add: pb_scan_def codec_body_def)
  next
    case False
    define len where "len = asInt32 ?s"
    have p: "peekInt32 b = Some (networkToHost32 (load_mem (take 4 ?s)))"
      using False r content_peek_take [OF w, of 4] by (simp add: peekInt32_def)
    have l: "sint (networkToHost32 (load_mem (take 4 ?s))) = len" by (simp add: len_def asInt32_def)
    show ?thesis
    proof (cases "len > kMaxMessageLen \<or> len < kMinMessageLen k")
      case True
      with False p l c mn r show ?thesis by (simp add: pb_scan_def codec_body_def Let_def len_def)
    next
      case ok: False
      define n where "n = nat (4 + len)"
      have n: "nat (kHeaderLen + len) = n" "int n = 4 + len" using ok mn by (simp_all add: n_def const_defs)
      show ?thesis
      proof (cases "length ?s < n")
        case True
        with False p l c mn ok n r show ?thesis by (simp add: pb_scan_def codec_body_def Let_def len_def n_def)
      next
        case full: False
        obtain b' where b': "retrieve n b = Some b'" "wf_buffer b'" "content b' = drop n ?s"
          using retrieve_front [OF w append_take_drop_id [symmetric], of n n] full by (metis length_take min_absorb2 not_less)
        have fr: "bytes_between (peek b) (peek b + n) b = take n ?s"
          using content_peek_take [OF w] full r by simp
        have rest: "bytes_between (peek b + nat kHeaderLen) (beginWrite b) b = drop 4 ?s"
          by (simp add: bytes_between_def content_def peek_def beginWrite_def const_defs drop_take add.commute)
        have "n - 4 = nat len" using n(2) by linarith
        then have "drop 4 (take n ?s) = take (nat len) (drop 4 ?s)" by (simp add: drop_take)
        moreover have "pb_parse adler32 prs k (take (nat len) (drop 4 ?s)) (int (nat len)) = pb_parse adler32 prs k (drop 4 ?s) (int (nat len))"
          by (rule pb_parse_take) (use ok mn full n r in auto)
        ultimately have pp: "pb_parse adler32 prs k (drop 4 (take n ?s)) len = pb_parse adler32 prs k (drop 4 ?s) len"
          using ok mn by simp
        show ?thesis
          using False p l c mn ok n r full b' fr rest pp
          by (simp add: pb_scan_def codec_body_def Let_def len_def n_def split: sum.split)
      qed
    qed
  qed
qed

subsection \<open>Streams of messages\<close>

text \<open>C21: What one codec sends another receives: if the bytes of the buffers that \<open>fillEmptyBuffer\<close> makes for some
  messages arrive in any segments, then \<open>onMessage\<close>, called after each segment, always returns, delivers exactly these messages in
  order, reports no error, and has consumed everything at the end.\<close>

theorem codec_stream_roundtrip:
  assumes "int (length (tag k)) < 2 ^ 31 - 8" "\<forall>m \<in> set ms. pb_sendable adler32 ser prs k t m"
    and "list_all2 (\<lambda>m f. \<exists>b. fillEmptyBuffer adler32 ser k m (mk_buffer kInitialSize) = Some b \<and> content b = f) ms fs"
    and "concat ds = concat fs"
  shows "\<exists>b. feed (codec_body adler32 prs k t) ds [] (mk_buffer n) = Some (map Deliver ms, b) \<and> content b = []"
proof -
  have "fs = map (pb_frame adler32 ser k) ms"
    using assms(3,2)
  proof (induction rule: list_all2_induct)
    case (Cons m ms f fs)
    then have "int (length (tag k)) + int (length (ser m)) + 4 \<le> kMaxMessageLen" by (simp add: pb_sendable_def)
    with fill_frame [of "mk_buffer kInitialSize" k ser m adler32] Cons show ?case
      by (auto simp: mk_buffer_geometry mk_buffer_room)
  qed simp
  then have "decode (pb_scan adler32 prs k t) (content (mk_buffer n) @ concat ds) = (ms, [], None)"
    using pb.decode_frames [OF assms(2)] assms(4) by (simp add: mk_buffer_geometry)
  moreover have "decode (pb_scan adler32 prs k t) (content (mk_buffer n)) = ([], content (mk_buffer n), None)"
    by (simp add: pb.decode_step pb_scan_def mk_buffer_geometry)
  ultimately show ?thesis
    using pb.feed_frames [OF body_scans_reads [OF codec_body_scans [OF assms(1), of adler32 prs t]] assms(2) wf_mk_buffer, of n ds "[]"] by auto
qed

theorem codec_stream_roundtrip_witness:
  "\<exists>b1 b2 b. fillEmptyBuffer (\<lambda>a d. a + of_nat (length d)) id \<lparr>tag = ''RPC0'', rawCb = None\<rparr> ''ab'' (mk_buffer kInitialSize) = Some b1
     \<and> fillEmptyBuffer (\<lambda>a d. a + of_nat (length d)) id \<lparr>tag = ''RPC0'', rawCb = None\<rparr> ''c'' (mk_buffer kInitialSize) = Some b2
     \<and> feed (codec_body (\<lambda>a d. a + of_nat (length d)) Some \<lparr>tag = ''RPC0'', rawCb = None\<rparr> (Timestamp 1))
          [take 3 (content b1), drop 3 (content b1) @ content b2] [] (mk_buffer 10) = Some ([Deliver ''ab'', Deliver ''c''], b)"
proof -
  let ?ad = "\<lambda>a d. a + of_nat (length d) :: 64 word" and ?k = "\<lparr>tag = ''RPC0'', rawCb = None\<rparr>"
  have ok: "\<forall>m \<in> set [''ab'', ''c'']. pb_sendable ?ad id Some ?k (Timestamp 1) m"
    by (simp add: pb_sendable_def raw_rejects_def const_defs)
  obtain b1 where b1: "fillEmptyBuffer ?ad id ?k ''ab'' (mk_buffer kInitialSize) = Some b1"
    using fill_frame [of "mk_buffer kInitialSize" ?k id "''ab''" ?ad] by (auto simp: mk_buffer_geometry mk_buffer_room const_defs)
  obtain b2 where b2: "fillEmptyBuffer ?ad id ?k ''c'' (mk_buffer kInitialSize) = Some b2"
    using fill_frame [of "mk_buffer kInitialSize" ?k id "''c''" ?ad] by (auto simp: mk_buffer_geometry mk_buffer_room const_defs)
  have "\<exists>b. feed (codec_body ?ad Some ?k (Timestamp 1)) [take 3 (content b1), drop 3 (content b1) @ content b2] [] (mk_buffer 10)
      = Some (map Deliver [''ab'', ''c''], b) \<and> content b = []"
    by (rule codec_stream_roundtrip [OF _ ok, of "[content b1, content b2]"]) (simp_all add: b1 b2)
  with b1 b2 show ?thesis by auto
qed

text \<open>On any bytes the loop returns: it stops at the first error and leaves the offending bytes in the buffer.\<close>

lemma codec_onMessage_total:
  assumes "int (length (tag k)) < 2 ^ 31 - 8" "wf_buffer b" "decode (pb_scan adler32 prs k t) (content b) = (ms, rest, e)"
  shows "\<exists>b'. codec_onMessage adler32 prs k t b = Some (events_of ms e, b') \<and> wf_buffer b' \<and> content b' = rest"
  using pb.buffer_loop_decode [OF codec_body_scans [OF assms(1)] assms(3,2) refl, of "[]"]
  by (simp add: codec_onMessage_def)

end
