(* ===== verification/Net_Rpc.thy ===== *)
theory Net_Rpc
  imports Prelude
begin

section \<open>Remote procedure calls: \<open>net/protorpc/\<close>\<close>

text \<open>
  \<open>RpcChannel\<close> over its codec. Messages and objects of protobuf are values: a request is its serialized bytes, a response
  object and a \<open>Closure\<close> are an address and an identity. What the channel does to them and to its connection
  is recorded in \<open>rpc_trace\<close>; a service is what protobuf's reflection says of it, an argument.
\<close>

datatype MessageType = REQUEST | RESPONSE | ERROR
datatype RpcErrorCode = NO_ERROR | WRONG_PROTO | NO_SERVICE | NO_METHOD | INVALID_REQUEST | INVALID_RESPONSE | TIMEOUT

type_synonym callid = "64 word"
type_synonym closure = nat

record rpc_message =
  msg_type :: MessageType
  msg_id :: callid
  msg_service :: "string option"
  msg_method :: "string option"
  msg_request :: "bytes option"
  msg_response :: "bytes option"
  msg_error :: "RpcErrorCode option"

definition RpcMessage :: "MessageType \<Rightarrow> callid \<Rightarrow> rpc_message" where
  "RpcMessage t i = \<lparr>msg_type = t, msg_id = i, msg_service = None, msg_method = None, msg_request = None,
     msg_response = None, msg_error = None\<rparr>"

text \<open>\<open>OutstandingCall\<close>; None is the null pointer.\<close>

record OutstandingCall =
  out_response :: "nat option"
  out_done :: "closure option"

record 'r service =
  find_method :: "string \<Rightarrow> nat option"
  parse_request :: "nat \<Rightarrow> bytes \<Rightarrow> 'r option"

text \<open>Effects: a message given to the codec; \<open>ParseFromString\<close> into the response of a call, the run of its closure, the
  deletion of its response and of its closure; the call of a method of a service.\<close>

datatype 'r rpc_effect =
    E_send rpc_message
  | E_parse callid bytes
  | E_done callid
  | E_delete callid
  | E_delete_done callid
  | E_call string nat 'r callid

record 'r rpc_channel =
  rpc_conn :: nat
  id_counter :: "64 word"
  outstandings :: "callid \<rightharpoonup> OutstandingCall"
  services :: "(string \<rightharpoonup> 'r service) option"
  rpc_trace :: "'r rpc_effect list"

definition mk_rpc_channel :: "nat \<Rightarrow> 'r rpc_channel" where
  "mk_rpc_channel conn = \<lparr>rpc_conn = conn, id_counter = 0, outstandings = Map.empty, services = None, rpc_trace = []\<rparr>"

definition setServices :: "(string \<rightharpoonup> 'r service) \<Rightarrow> 'r rpc_channel \<Rightarrow> 'r rpc_channel" where
  "setServices svcs c = c\<lparr>services := Some svcs\<rparr>"

definition effect :: "'r rpc_effect \<Rightarrow> 'r rpc_channel \<Rightarrow> 'r rpc_channel" where
  "effect e c = c\<lparr>rpc_trace := rpc_trace c @ [e]\<rparr>"

subsection \<open>\<open>CallMethod\<close>\<close>

text \<open>Several threads may be in \<open>CallMethod\<close>: the counter is atomic, the table is under the mutex, then the message is sent.\<close>

definition incrementAndGet :: "'r rpc_channel \<Rightarrow> callid \<times> 'r rpc_channel" where
  "incrementAndGet c = (let i = id_counter c + 1 in (i, c\<lparr>id_counter := i\<rparr>))"

definition register_call :: "callid \<Rightarrow> OutstandingCall \<Rightarrow> 'r rpc_channel \<Rightarrow> 'r rpc_channel" where
  "register_call i out c = c\<lparr>outstandings := (outstandings c)(i \<mapsto> out)\<rparr>"

definition request_message :: "string \<Rightarrow> string \<Rightarrow> bytes \<Rightarrow> callid \<Rightarrow> rpc_message" where
  "request_message svc mth req i =
     (RpcMessage REQUEST i)\<lparr>msg_service := Some svc, msg_method := Some mth, msg_request := Some req\<rparr>"

definition CallMethod :: "string \<Rightarrow> string \<Rightarrow> bytes \<Rightarrow> nat option \<Rightarrow> closure option \<Rightarrow> 'r rpc_channel \<Rightarrow> 'r rpc_channel" where
  "CallMethod svc mth req response finished c =
     (let (i, c) = incrementAndGet c;
          message = request_message svc mth req i;
          c = register_call i \<lparr>out_response = response, out_done = finished\<rparr> c
      in effect (E_send message) c)"

subsection \<open>\<open>onRpcMessage\<close>\<close>

definition handle_response :: "rpc_message \<Rightarrow> 'r rpc_channel \<Rightarrow> 'r rpc_channel option" where
  "handle_response message c =
     (let i = msg_id message in
      assert_then (msg_response message \<noteq> None \<or> msg_error message \<noteq> None)
       (let (out, c) = (case outstandings c i of
                          Some o' \<Rightarrow> (o', c\<lparr>outstandings := (outstandings c)(i := None)\<rparr>)
                        | None \<Rightarrow> (\<lparr>out_response = None, out_done = None\<rparr>, c))
        in Some (if out_response out \<noteq> None
                 then let c = (case msg_response message of Some d \<Rightarrow> effect (E_parse i d) c | None \<Rightarrow> c);
                          c = (if out_done out \<noteq> None then effect (E_done i) c else c)
                      in effect (E_delete i) c
                 else c)))"

definition handle_request :: "rpc_message \<Rightarrow> 'r rpc_channel \<Rightarrow> 'r rpc_channel" where
  "handle_request message c =
     (let name = (case msg_service message of Some s \<Rightarrow> s | None \<Rightarrow> []);
          mname = (case msg_method message of Some s \<Rightarrow> s | None \<Rightarrow> []);
          (error, c) =
            (case services c of
               Some svcs \<Rightarrow>
                 (case svcs name of
                    Some svc \<Rightarrow>
                      (case find_method svc mname of
                         Some m \<Rightarrow>
                           (case parse_request svc m (case msg_request message of Some d \<Rightarrow> d | None \<Rightarrow> []) of
                              Some r \<Rightarrow> (NO_ERROR, effect (E_call name m r (msg_id message)) c)
                            | None \<Rightarrow> (INVALID_REQUEST, c))
                       | None \<Rightarrow> (NO_METHOD, c))
                  | None \<Rightarrow> (NO_SERVICE, c))
             | None \<Rightarrow> (NO_SERVICE, c))
      in if error \<noteq> NO_ERROR
         then effect (E_send ((RpcMessage RESPONSE (msg_id message))\<lparr>msg_error := Some error\<rparr>)) c
         else c)"

definition onRpcMessage :: "nat \<Rightarrow> rpc_message \<Rightarrow> 'r rpc_channel \<Rightarrow> 'r rpc_channel option" where
  "onRpcMessage conn message c =
     assert_then (conn = rpc_conn c)
      (case msg_type message of
         RESPONSE \<Rightarrow> handle_response message c
       | REQUEST \<Rightarrow> Some (handle_request message c)
       | ERROR \<Rightarrow> Some c)"

text \<open>The closure \<open>NewCallback(this, &RpcChannel::doneCallback, response, id)\<close> given to a service.\<close>

definition doneCallback :: "bytes \<Rightarrow> callid \<Rightarrow> 'r rpc_channel \<Rightarrow> 'r rpc_channel" where
  "doneCallback response i c = effect (E_send ((RpcMessage RESPONSE i)\<lparr>msg_response := Some response\<rparr>)) c"

text \<open>The destructor walks through the table in the order of the ids; \<open>ids\<close> is that order.\<close>

definition rpc_dtor :: "callid list \<Rightarrow> 'r rpc_channel \<Rightarrow> 'r rpc_channel" where
  "rpc_dtor ids c =
     fold (\<lambda>i c. case outstandings c i of
             Some out \<Rightarrow> (let c = (if out_response out \<noteq> None then effect (E_delete i) c else c)
                          in if out_done out \<noteq> None then effect (E_delete_done i) c else c)
           | None \<Rightarrow> c) ids c"

subsection \<open>\<open>RpcServer\<close>\<close>

definition registerService :: "string \<Rightarrow> 'r service \<Rightarrow> (string \<rightharpoonup> 'r service) \<Rightarrow> (string \<rightharpoonup> 'r service)" where
  "registerService full_name svc svcs = svcs(full_name \<mapsto> svc)"

text \<open>The channel a connection gets, its context afterwards.\<close>

definition rpc_onConnection :: "(string \<rightharpoonup> 'r service) \<Rightarrow> nat \<Rightarrow> bool \<Rightarrow> 'r rpc_channel option" where
  "rpc_onConnection svcs conn up = (if up then Some (setServices svcs (mk_rpc_channel conn)) else None)"

subsection \<open>Interleavings\<close>

text \<open>
  A caller has taken an id (\<open>held\<close>), then registers the call, then sends; \<open>begun\<close> counts the calls. Between any two of
  these steps other callers may run, any message may arrive, a service may finish. The peer is free to send anything.
\<close>

record 'r rpc_system =
  channel :: "'r rpc_channel"
  begun :: nat
  held :: "callid \<rightharpoonup> OutstandingCall"
  gone :: bool

inductive rpc_reach :: "'r rpc_system \<Rightarrow> bool" where
  Start: "rpc_reach \<lparr>channel = (mk_rpc_channel conn)\<lparr>services := svcs\<rparr>, begun = 0, held = Map.empty, gone = False\<rparr>"
| Begin: "rpc_reach s \<Longrightarrow> \<not> gone s \<Longrightarrow> out_response out \<noteq> None \<Longrightarrow> incrementAndGet (channel s) = (i, c) \<Longrightarrow>
     rpc_reach (s\<lparr>channel := c, begun := begun s + 1, held := (held s)(i \<mapsto> out)\<rparr>)"
| Register: "rpc_reach s \<Longrightarrow> \<not> gone s \<Longrightarrow> held s i = Some out \<Longrightarrow>
     rpc_reach (s\<lparr>channel := register_call i out (channel s), held := (held s)(i := None)\<rparr>)"
| Send: "rpc_reach s \<Longrightarrow> \<not> gone s \<Longrightarrow>
     rpc_reach (s\<lparr>channel := effect (E_send (request_message svc mth req i)) (channel s)\<rparr>)"
| Receive: "rpc_reach s \<Longrightarrow> \<not> gone s \<Longrightarrow> onRpcMessage conn message (channel s) = Some c \<Longrightarrow>
     rpc_reach (s\<lparr>channel := c\<rparr>)"
| Finish: "rpc_reach s \<Longrightarrow> \<not> gone s \<Longrightarrow> rpc_reach (s\<lparr>channel := doneCallback d i (channel s)\<rparr>)"
| Destroy: "rpc_reach s \<Longrightarrow> \<not> gone s \<Longrightarrow> distinct ids \<Longrightarrow> set ids = dom (outstandings (channel s)) \<Longrightarrow>
     rpc_reach (s\<lparr>channel := rpc_dtor ids (channel s), gone := True\<rparr>)"

text \<open>Where the response object of call \<open>i\<close> is.\<close>

definition in_table :: "'r rpc_system \<Rightarrow> callid \<Rightarrow> bool" where
  "in_table s i \<longleftrightarrow> \<not> gone s \<and> outstandings (channel s) i \<noteq> None"

definition tally :: "'r rpc_effect \<Rightarrow> 'r rpc_channel \<Rightarrow> nat" where
  "tally e c = length (filter (\<lambda>x. x = e) (rpc_trace c))"

lemma tally_effect [simp]: "tally e (effect x c) = tally e c + (if x = e then 1 else 0)"
  by (simp add: tally_def effect_def)

lemma tally_fields [simp]:
  "tally e (c\<lparr>outstandings := t\<rparr>) = tally e c" "tally e (c\<lparr>id_counter := n\<rparr>) = tally e c"
  "tally e (c\<lparr>services := v\<rparr>) = tally e c"
  by (simp_all add: tally_def)

lemma effect_fields [simp]:
  "outstandings (effect x c) = outstandings c" "id_counter (effect x c) = id_counter c"
  by (simp_all add: effect_def)

definition nonnull :: "(callid \<rightharpoonup> OutstandingCall) \<Rightarrow> bool" where
  "nonnull t \<longleftrightarrow> (\<forall>i out. t i = Some out \<longrightarrow> out_response out \<noteq> None)"

lemma handle_response_effect:
  assumes "handle_response m c = Some c'" "nonnull (outstandings c)"
  shows "outstandings c' = (outstandings c)(msg_id m := None) \<and> id_counter c' = id_counter c
    \<and> tally (E_delete j) c' = tally (E_delete j) c + (if j = msg_id m \<and> outstandings c j \<noteq> None then 1 else 0)
    \<and> tally (E_done j) c' \<le> tally (E_done j) c + (if j = msg_id m \<and> outstandings c j \<noteq> None then 1 else 0)
    \<and> tally (E_delete_done j) c' = tally (E_delete_done j) c"
proof (cases "outstandings c (msg_id m)")
  case None
  then show ?thesis using assms by (auto simp: handle_response_def Let_def)
next
  case (Some out)
  then have "out_response out \<noteq> None" using assms(2) by (auto simp: nonnull_def)
  with Some assms(1) show ?thesis
    by (auto simp: handle_response_def Let_def split: option.splits if_splits)
qed

lemma handle_request_effect:
  "outstandings (handle_request m c) = outstandings c \<and> id_counter (handle_request m c) = id_counter c
   \<and> tally (E_delete j) (handle_request m c) = tally (E_delete j) c
   \<and> tally (E_done j) (handle_request m c) = tally (E_done j) c
   \<and> tally (E_delete_done j) (handle_request m c) = tally (E_delete_done j) c"
  by (simp add: handle_request_def Let_def split: option.split)

lemma rpc_dtor_effect:
  assumes "distinct ids" "nonnull (outstandings c)"
  shows "tally (E_delete j) (rpc_dtor ids c) = tally (E_delete j) c + (if j \<in> set ids \<and> outstandings c j \<noteq> None then 1 else 0)
    \<and> tally (E_done j) (rpc_dtor ids c) = tally (E_done j) c
    \<and> tally (E_delete_done j) (rpc_dtor ids c) \<le> tally (E_delete_done j) c + (if j \<in> set ids \<and> outstandings c j \<noteq> None then 1 else 0)
    \<and> id_counter (rpc_dtor ids c) = id_counter c"
  using assms
proof (induction ids arbitrary: c)
  case (Cons i ids)
  let ?step = "case outstandings c i of
      Some out \<Rightarrow> (let c = (if out_response out \<noteq> None then effect (E_delete i) c else c)
                   in if out_done out \<noteq> None then effect (E_delete_done i) c else c)
    | None \<Rightarrow> c"
  have "rpc_dtor (i # ids) c = rpc_dtor ids ?step" by (simp add: rpc_dtor_def)
  moreover have o: "outstandings ?step = outstandings c" by (simp add: Let_def split: option.split)
  moreover note Cons.IH [of ?step] Cons.prems
  ultimately show ?case by (cases "outstandings c i") (auto simp: Let_def nonnull_def split: if_splits)
qed (simp add: rpc_dtor_def)

lemma rpc_dtor_table: "outstandings (rpc_dtor ids c) = outstandings c"
  by (induction ids arbitrary: c) (simp_all add: rpc_dtor_def Let_def split: option.split)

definition rpc_inv :: "'r rpc_system \<Rightarrow> bool" where
  "rpc_inv s \<longleftrightarrow> id_counter (channel s) = of_nat (begun s) \<and> nonnull (outstandings (channel s)) \<and> nonnull (held s)
     \<and> (\<forall>i. (if in_table s i then 1 else 0) + (if held s i \<noteq> None then 1 else 0) + tally (E_delete i) (channel s)
            = (if 1 \<le> unat i \<and> unat i \<le> begun s then 1 else 0))
     \<and> (\<forall>i. tally (E_done i) (channel s) + tally (E_delete_done i) (channel s) \<le> tally (E_delete i) (channel s))"

lemma rpc_inv_account:
  "rpc_inv s \<Longrightarrow> (if in_table s i then 1 else 0) + (if held s i \<noteq> None then 1 else 0) + tally (E_delete i) (channel s)
     = (if 1 \<le> unat i \<and> unat i \<le> begun s then 1 else (0::nat))"
  by (simp add: rpc_inv_def)

lemma rpc_inv_closures:
  "rpc_inv s \<Longrightarrow> tally (E_done i) (channel s) + tally (E_delete_done i) (channel s) \<le> tally (E_delete i) (channel s)"
  by (simp add: rpc_inv_def)

lemma rpc_inv_begin:
  assumes "rpc_inv s" "\<not> gone s" "out_response out \<noteq> None" "incrementAndGet (channel s) = (i, c)" "begun s + 1 < 2 ^ 64"
  shows "rpc_inv (s\<lparr>channel := c, begun := begun s + 1, held := (held s)(i \<mapsto> out)\<rparr>)"
proof -
  have i: "i = of_nat (begun s + 1)" and c: "c = (channel s)\<lparr>id_counter := i\<rparr>"
    using assms(1,4) by (auto simp: incrementAndGet_def Let_def rpc_inv_def)
  have u: "unat i = begun s + 1" using assms(5) unfolding i by (simp only: unat_of_nat) simp
  have fresh: "\<not> in_table s i" "held s i = None" "tally (E_delete i) (channel s) = 0"
    using rpc_inv_account [OF assms(1), of i] u by (auto split: if_splits)
  let ?s = "s\<lparr>channel := c, begun := begun s + 1, held := (held s)(i \<mapsto> out)\<rparr>"
  have t: "in_table ?s j = in_table s j" "tally e c = tally e (channel s)" for j e by (simp_all add: in_table_def c)
  show ?thesis
    unfolding rpc_inv_def
  proof (intro conjI allI, goal_cases)
    case 1 then show ?case using i by (simp add: c)
  next
    case 2 then show ?case using assms(1) by (simp add: c rpc_inv_def)
  next
    case 3 then show ?case using assms(1,3) by (auto simp: rpc_inv_def nonnull_def)
  next
    case (4 j)
    then show ?case
    proof (cases "j = i")
      case True
      with fresh u t show ?thesis by simp
    next
      case False
      then have "unat j \<noteq> begun s + 1" using u by (metis word_unat_eq_iff)
      with False rpc_inv_account [OF assms(1), of j] t show ?thesis by simp
    qed
  next
    case (5 j) then show ?case using rpc_inv_closures [OF assms(1), of j] t by simp
  qed
qed

lemma rpc_inv_step:
  assumes "rpc_inv s" "gone s' = gone s" "begun s' = begun s" "held s' = held s"
    and "id_counter (channel s') = id_counter (channel s)" "nonnull (outstandings (channel s'))"
    and "\<And>i. (if in_table s' i then 1 else 0) + tally (E_delete i) (channel s') = (if in_table s i then 1 else (0::nat)) + tally (E_delete i) (channel s)"
    and "\<And>i. tally (E_done i) (channel s') + tally (E_delete_done i) (channel s') + tally (E_delete i) (channel s)
        \<le> tally (E_done i) (channel s) + tally (E_delete_done i) (channel s) + tally (E_delete i) (channel s')"
  shows "rpc_inv s'"
  unfolding rpc_inv_def
proof (intro conjI allI)
  fix i
  show "(if in_table s' i then 1 else 0) + (if held s' i \<noteq> None then 1 else 0) + tally (E_delete i) (channel s')
      = (if 1 \<le> unat i \<and> unat i \<le> begun s' then 1 else (0::nat))"
    using rpc_inv_account [OF assms(1), of i] assms(7) [of i] assms(3,4) by simp
  show "tally (E_done i) (channel s') + tally (E_delete_done i) (channel s') \<le> tally (E_delete i) (channel s')"
    using rpc_inv_closures [OF assms(1), of i] assms(8) [of i] by linarith
qed (use assms in \<open>simp_all add: rpc_inv_def\<close>)

lemma rpc_inv_nonnull: "rpc_inv s \<Longrightarrow> nonnull (outstandings (channel s))"
  by (simp add: rpc_inv_def)

lemma rpc_inv_quiet:
  assumes "rpc_inv s" "outstandings c = outstandings (channel s)" "id_counter c = id_counter (channel s)"
    and "\<And>i. tally (E_delete i) c = tally (E_delete i) (channel s)" "\<And>i. tally (E_done i) c = tally (E_done i) (channel s)"
    "\<And>i. tally (E_delete_done i) c = tally (E_delete_done i) (channel s)"
  shows "rpc_inv (s\<lparr>channel := c\<rparr>)"
  by (rule rpc_inv_step [OF assms(1)]) (simp_all add: assms(2-6) in_table_def rpc_inv_nonnull [OF assms(1)])

lemma rpc_reach_inv: "rpc_reach s \<Longrightarrow> begun s < 2 ^ 64 \<Longrightarrow> rpc_inv s"
proof (induction rule: rpc_reach.induct)
  case (Start conn svcs)
  show ?case by (auto simp: rpc_inv_def mk_rpc_channel_def nonnull_def in_table_def tally_def)
next
  case (Begin s out i c)
  then show ?case by (intro rpc_inv_begin) simp_all
next
  case (Register s i out)
  then have inv: "rpc_inv s" by simp
  let ?c = "register_call i out (channel s)"
  let ?s = "s\<lparr>channel := ?c, held := (held s)(i := None)\<rparr>"
  have no: "\<not> in_table s i" "tally (E_delete i) (channel s) = 0"
    using rpc_inv_account [OF inv, of i] Register.hyps(3) by (auto split: if_splits)
  have t: "tally e ?c = tally e (channel s)" for e by (simp add: register_call_def)
  show ?case
    unfolding rpc_inv_def
  proof (intro conjI allI, goal_cases)
    case (4 j)
    then show ?case
      using rpc_inv_account [OF inv, of j] no t Register.hyps(2,3)
      by (cases "j = i") (simp_all add: in_table_def register_call_def)
  next
    case (5 j) then show ?case using rpc_inv_closures [OF inv, of j] t by simp
  next
    case 1 then show ?case using inv by (simp add: rpc_inv_def register_call_def)
  next
    case 2
    have "nonnull (outstandings (channel s))" "out_response out \<noteq> None"
      using inv Register.hyps(3) by (auto simp: rpc_inv_def nonnull_def)
    then show ?case by (simp add: nonnull_def register_call_def)
  next
    case 3
    have "nonnull (held s)" using inv by (simp add: rpc_inv_def)
    then show ?case by (simp add: nonnull_def)
  qed
next
  case (Send s svc mth req i)
  then have inv: "rpc_inv s" by simp
  show ?case by (rule rpc_inv_quiet [OF inv]) simp_all
next
  case (Receive s conn message c)
  then have inv: "rpc_inv s" and nn: "nonnull (outstandings (channel s))" by (simp_all add: rpc_inv_nonnull)
  show ?case
  proof (cases "msg_type message")
    case REQUEST
    then have "c = handle_request message (channel s)" using Receive.hyps(3) by (simp add: onRpcMessage_def)
    then show ?thesis
      using rpc_inv_quiet [OF inv, of c] handle_request_effect [of message "channel s"] by simp
  next
    case RESPONSE
    then have h: "handle_response message (channel s) = Some c" using Receive.hyps(3) by (simp add: onRpcMessage_def)
    show ?thesis
    proof (rule rpc_inv_step [OF inv], goal_cases)
      case (6 i)
      then show ?case using handle_response_effect [OF h nn, of i] Receive.hyps(2) by (auto simp: in_table_def)
    next
      case (7 i)
      then show ?case using handle_response_effect [OF h nn, of i] by (auto split: if_splits)
    qed (use handle_response_effect [OF h nn] nn in \<open>simp_all add: nonnull_def\<close>)
  next
    case ERROR
    then show ?thesis using Receive.hyps(3) rpc_inv_quiet [OF inv, of c] by (simp add: onRpcMessage_def)
  qed
next
  case (Finish s d i)
  then have inv: "rpc_inv s" by simp
  show ?case by (rule rpc_inv_quiet [OF inv]) (simp_all add: doneCallback_def)
next
  case (Destroy s ids)
  then have inv: "rpc_inv s" and nn: "nonnull (outstandings (channel s))" by (simp_all add: rpc_inv_nonnull)
  note d = rpc_dtor_effect [OF Destroy.hyps(3) nn]
  have t: "(if j \<in> set ids \<and> outstandings (channel s) j \<noteq> None then 1 else 0) = (if in_table s j then 1 else (0::nat))" for j
    using Destroy.hyps(2,4) by (auto simp: in_table_def)
  show ?case
    unfolding rpc_inv_def
  proof (intro conjI allI, goal_cases)
    case (4 i)
    then show ?case using d [of i] rpc_inv_account [OF inv, of i] t [of i] by (simp add: in_table_def)
  next
    case (5 i)
    then show ?case using d [of i] rpc_inv_closures [OF inv, of i] by simp
  next
    case 1 then show ?case using d inv by (simp add: rpc_inv_def)
  next
    case 2 then show ?case using rpc_dtor_table [of ids "channel s"] nn by simp
  next
    case 3 then show ?case using inv by (simp add: rpc_inv_def)
  qed
qed

text \<open>C20: Ownership of the calls of a channel, over any interleaving of callers, of messages of any content from the peer and of
  the destructor: the response object of each call begun is at any time in exactly one place, with its caller, in the table, or
  deleted, and is deleted at most once; its closure is run or deleted at most once, and never before.\<close>

theorem rpc_ownership:
  assumes "rpc_reach s" "begun s < 2 ^ 64"
  shows "(if held s i \<noteq> None then 1 else 0) + (if in_table s i then 1 else 0) + tally (E_delete i) (channel s)
      = (if 1 \<le> unat i \<and> unat i \<le> begun s then 1 else (0::nat))
    \<and> tally (E_done i) (channel s) + tally (E_delete_done i) (channel s) \<le> tally (E_delete i) (channel s)"
  using rpc_inv_account [OF rpc_reach_inv [OF assms], of i] rpc_inv_closures [OF rpc_reach_inv [OF assms], of i] by simp

text \<open>Which call a response completes, and what a request is answered with.\<close>

lemma CallMethod_steps:
  assumes "rpc_reach s" "\<not> gone s" "held s = Map.empty"
  shows "rpc_reach (s\<lparr>channel := CallMethod svc mth req (Some r) d (channel s), begun := begun s + 1\<rparr>)"
proof -
  let ?out = "\<lparr>out_response = Some r, out_done = d\<rparr>"
  obtain i c where ic: "incrementAndGet (channel s) = (i, c)" by fastforce
  let ?s1 = "s\<lparr>channel := c, begun := begun s + 1, held := (held s)(i \<mapsto> ?out)\<rparr>"
  let ?s2 = "?s1\<lparr>channel := register_call i ?out (channel ?s1), held := (held ?s1)(i := None)\<rparr>"
  let ?s3 = "?s2\<lparr>channel := effect (E_send (request_message svc mth req i)) (channel ?s2)\<rparr>"
  have "rpc_reach ?s1" by (rule rpc_reach.Begin [OF assms(1,2) _ ic]) simp
  then have "rpc_reach ?s2" by (rule rpc_reach.Register) (use assms(2) in simp_all)
  then have "rpc_reach ?s3" by (rule rpc_reach.Send) (use assms(2) in simp)
  moreover have "?s3 = s\<lparr>channel := CallMethod svc mth req (Some r) d (channel s), begun := begun s + 1\<rparr>"
    using assms(3) ic by (cases s) (simp add: CallMethod_def Let_def fun_eq_iff)
  ultimately show ?thesis by simp
qed

theorem rpc_ownership_witness:
  "\<exists>s :: nat rpc_system. begun s = 1 \<and> \<not> in_table s 1 \<and> tally (E_delete 1) (channel s) = 1
     \<and> rpc_trace (channel s) = [E_send (request_message ''Echo'' ''echo'' ''hi'' 1), E_parse 1 ''ok'', E_done 1, E_delete 1]"
proof -
  let ?s0 = "\<lparr>channel = (mk_rpc_channel 3)\<lparr>services := None\<rparr>, begun = 0, held = Map.empty, gone = False\<rparr> :: nat rpc_system"
  let ?c1 = "CallMethod ''Echo'' ''echo'' ''hi'' (Some 7) (Some 8) (channel ?s0)"
  let ?m = "(RpcMessage RESPONSE 1)\<lparr>msg_response := Some ''ok''\<rparr>"
  define s1 where "s1 = ?s0\<lparr>channel := ?c1, begun := begun ?s0 + 1\<rparr>"
  have s1: "rpc_reach s1" unfolding s1_def by (rule CallMethod_steps [OF rpc_reach.Start]) simp_all
  obtain c2 where c2: "onRpcMessage 3 ?m (channel s1) = Some c2"
    "rpc_trace c2 = [E_send (request_message ''Echo'' ''echo'' ''hi'' 1), E_parse 1 ''ok'', E_done 1, E_delete 1]"
    "outstandings c2 1 = None"
    by (simp add: s1_def onRpcMessage_def handle_response_def CallMethod_def incrementAndGet_def register_call_def
        mk_rpc_channel_def RpcMessage_def effect_def Let_def)
  let ?s2 = "s1\<lparr>channel := c2\<rparr>"
  have r: "rpc_reach ?s2" by (rule rpc_reach.Receive [OF s1 _ c2(1)]) (simp add: s1_def)
  have b: "begun ?s2 = 1" "held ?s2 = Map.empty" "\<not> in_table ?s2 1" using c2(3) by (simp_all add: s1_def in_table_def)
  with rpc_ownership [OF r, of 1] have "tally (E_delete 1) (channel ?s2) = 1" by simp
  with b c2(2) show ?thesis by (intro exI [of _ ?s2]) simp
qed

lemma request_answered:
  "\<exists>e. rpc_trace (handle_request m c) = rpc_trace c @ [e] \<and>
     ((\<exists>svcs svc k r. services c = Some svcs \<and> svcs (case msg_service m of Some s \<Rightarrow> s | None \<Rightarrow> []) = Some svc
        \<and> find_method svc (case msg_method m of Some s \<Rightarrow> s | None \<Rightarrow> []) = Some k
        \<and> parse_request svc k (case msg_request m of Some d \<Rightarrow> d | None \<Rightarrow> []) = Some r
        \<and> e = E_call (case msg_service m of Some s \<Rightarrow> s | None \<Rightarrow> []) k r (msg_id m))
      \<or> (\<exists>x. x \<noteq> NO_ERROR \<and> e = E_send ((RpcMessage RESPONSE (msg_id m))\<lparr>msg_error := Some x\<rparr>)))"
  by (auto simp: handle_request_def Let_def effect_def split: option.split)

end
