(* ===== verification/Base_Sync.thy ===== *)
theory Base_Sync
  imports Prelude
begin

section \<open>Threads that wait for each other: \<open>base/\<close> queues, latch and thread pool\<close>

text \<open>
  Each operation holds the object's mutex from its start to its end or to a wait on a condition variable. So a step of
  the model is one such critical section: it returns what the operation did, the calls of \<open>notify\<close> and
  \<open>notifyAll\<close> it made, and the object. A waiting thread that is woken starts the section again, which is the
  code's \<open>while\<close> loop around \<open>wait\<close>; it may also be woken for no reason.
\<close>

type_synonym tid = nat

datatype condvar = notEmpty | notFull
datatype signal = Notify condvar | NotifyAll condvar

text \<open>What a section of \<open>take\<close> did; Nothing is the empty task of \<open>ThreadPool::take\<close>.\<close>

datatype 'a took = Wait | Value 'a | Nothing

type_synonym ('a, 'q) put_section = "'a \<Rightarrow> 'q \<Rightarrow> (bool \<times> signal list \<times> 'q) option"
type_synonym ('a, 'q) take_section = "'q \<Rightarrow> ('a took \<times> signal list \<times> 'q) option"

subsection \<open>\<open>BlockingQueue\<close>\<close>

record 'a blocking_queue = bq_queue :: "'a list"

definition mk_blocking_queue :: "'a blocking_queue" where "mk_blocking_queue = \<lparr>bq_queue = []\<rparr>"

definition bq_put :: "('a, 'a blocking_queue) put_section" where
  "bq_put x q = Some (True, [Notify notEmpty], q\<lparr>bq_queue := bq_queue q @ [x]\<rparr>)"

definition bq_take :: "('a, 'a blocking_queue) take_section" where
  "bq_take q =
     (if bq_queue q = [] then Some (Wait, [], q)
      else assert_then (bq_queue q \<noteq> [])
        (let front = hd (bq_queue q) in Some (Value front, [], q\<lparr>bq_queue := tl (bq_queue q)\<rparr>)))"

definition bq_size :: "'a blocking_queue \<Rightarrow> nat" where "bq_size q = length (bq_queue q)"

subsection \<open>\<open>BoundedBlockingQueue\<close>\<close>

text \<open>\<open>boost::circular_buffer\<close>: \<open>push_back\<close> into a full one overwrites its first element.\<close>

record 'a bounded_queue =
  bbq_queue :: "'a list"
  bbq_capacity :: nat

definition mk_bounded_queue :: "nat \<Rightarrow> 'a bounded_queue" where
  "mk_bounded_queue maxSize = \<lparr>bbq_queue = [], bbq_capacity = maxSize\<rparr>"

definition bbq_empty :: "'a bounded_queue \<Rightarrow> bool" where "bbq_empty q \<longleftrightarrow> bbq_queue q = []"
definition bbq_full :: "'a bounded_queue \<Rightarrow> bool" where "bbq_full q \<longleftrightarrow> length (bbq_queue q) = bbq_capacity q"
definition bbq_size :: "'a bounded_queue \<Rightarrow> nat" where "bbq_size q = length (bbq_queue q)"

definition circular_push :: "nat \<Rightarrow> 'a \<Rightarrow> 'a list \<Rightarrow> 'a list" where
  "circular_push n x xs = (if n = 0 then xs else if length xs = n then tl xs @ [x] else xs @ [x])"

definition bbq_put :: "('a, 'a bounded_queue) put_section" where
  "bbq_put x q =
     (if bbq_full q then Some (False, [], q)
      else assert_then (\<not> bbq_full q)
        (Some (True, [Notify notEmpty], q\<lparr>bbq_queue := circular_push (bbq_capacity q) x (bbq_queue q)\<rparr>)))"

definition bbq_take :: "('a, 'a bounded_queue) take_section" where
  "bbq_take q =
     (if bbq_empty q then Some (Wait, [], q)
      else assert_then (\<not> bbq_empty q)
        (let front = hd (bbq_queue q)
         in Some (Value front, [Notify notFull], q\<lparr>bbq_queue := tl (bbq_queue q)\<rparr>)))"

subsection \<open>\<open>ThreadPool\<close>\<close>

text \<open>A task is what it does, or None for an empty \<open>std::function\<close>.\<close>

type_synonym 'f task = "'f option"

record 'f thread_pool =
  tp_queue :: "'f task list"
  maxQueueSize :: nat
  tp_running :: bool
  tp_threads :: nat

definition mk_thread_pool :: "'f thread_pool" where
  "mk_thread_pool = \<lparr>tp_queue = [], maxQueueSize = 0, tp_running = False, tp_threads = 0\<rparr>"

definition setMaxQueueSize :: "nat \<Rightarrow> 'f thread_pool \<Rightarrow> 'f thread_pool" where
  "setMaxQueueSize n p = p\<lparr>maxQueueSize := n\<rparr>"

definition isFull :: "'f thread_pool \<Rightarrow> bool" where
  "isFull p \<longleftrightarrow> maxQueueSize p > 0 \<and> length (tp_queue p) \<ge> maxQueueSize p"

text \<open>\<open>start\<close> gives the names of the threads; the second component says whether the init callback runs in the caller.\<close>

definition tp_start :: "(nat \<Rightarrow> string) \<Rightarrow> string \<Rightarrow> bool \<Rightarrow> nat \<Rightarrow> 'f thread_pool \<Rightarrow> (string list \<times> bool \<times> 'f thread_pool) option" where
  "tp_start digits nm initCb numThreads p =
     assert_then (tp_threads p = 0)
      (Some (map (\<lambda>i. nm @ digits (i + 1)) [0..<numThreads], numThreads = 0 \<and> initCb,
             p\<lparr>tp_running := True, tp_threads := numThreads\<rparr>))"

text \<open>\<open>run\<close> in a pool with threads; without threads the caller runs the task.\<close>

definition tp_put :: "('f task, 'f thread_pool) put_section" where
  "tp_put task p =
     (if isFull p then Some (False, [], p)
      else assert_then (\<not> isFull p) (Some (True, [Notify notEmpty], p\<lparr>tp_queue := tp_queue p @ [task]\<rparr>)))"

datatype 'f run_result = In_caller "'f task" | In_pool "(bool \<times> signal list \<times> 'f thread_pool) option"

definition tp_run :: "'f task \<Rightarrow> 'f thread_pool \<Rightarrow> 'f run_result" where
  "tp_run task p = (if tp_threads p = 0 then In_caller task else In_pool (tp_put task p))"

definition tp_take :: "('f task, 'f thread_pool) take_section" where
  "tp_take p =
     (if tp_queue p = [] \<and> tp_running p then Some (Wait, [], p)
      else if tp_queue p \<noteq> []
      then let task = hd (tp_queue p); p = p\<lparr>tp_queue := tl (tp_queue p)\<rparr>
           in Some (Value task, if maxQueueSize p > 0 then [Notify notFull] else [], p)
      else Some (Nothing, [], p))"

definition tp_stop :: "'f thread_pool \<Rightarrow> signal list \<times> 'f thread_pool" where
  "tp_stop p = ([NotifyAll notEmpty], p\<lparr>tp_running := False\<rparr>)"

text \<open>\<open>runInThread\<close>: \<open>rs\<close> gives what each test of \<open>running_\<close> sees and what \<open>take\<close> then returns; the
  result is what the worker executes.\<close>

fun runInThread :: "(bool \<times> 'f task took) list \<Rightarrow> 'f list" where
  "runInThread [] = []"
| "runInThread ((False, r) # rs) = []"
| "runInThread ((True, Value (Some task)) # rs) = task # runInThread rs"
| "runInThread ((True, Value None) # rs) = runInThread rs"
| "runInThread ((True, Nothing) # rs) = runInThread rs"
| "runInThread ((True, Wait) # rs) = runInThread rs"

subsection \<open>\<open>CountDownLatch\<close>\<close>

record latch = latch_count :: int

definition mk_latch :: "int \<Rightarrow> latch" where "mk_latch n = \<lparr>latch_count = n\<rparr>"

text \<open>A section of \<open>wait\<close> returns whether the wait is over.\<close>

definition latch_wait :: "latch \<Rightarrow> bool" where "latch_wait l \<longleftrightarrow> \<not> latch_count l > 0"

definition countDown :: "latch \<Rightarrow> signal list \<times> latch" where
  "countDown l =
     (let l = l\<lparr>latch_count := latch_count l - 1\<rparr>
      in (if latch_count l = 0 then [NotifyAll notEmpty] else [], l))"

definition getCount :: "latch \<Rightarrow> int" where "getCount l = latch_count l"

subsection \<open>The threads around a queue\<close>

datatype 'a pc = Idle | Put 'a | PutWait 'a | Take | TakeWait

fun waits :: "condvar \<Rightarrow> 'a pc \<Rightarrow> bool" where
  "waits notEmpty p \<longleftrightarrow> p = TakeWait"
| "waits notFull p \<longleftrightarrow> (\<exists>x. p = PutWait x)"

fun awake :: "'a pc \<Rightarrow> 'a pc" where
  "awake (PutWait x) = Put x"
| "awake TakeWait = Take"
| "awake p = p"

text \<open>\<open>pthread_cond_signal\<close> wakes one of the waiting threads, if there is one.\<close>

inductive signals :: "signal list \<Rightarrow> (tid \<Rightarrow> 'a pc) \<Rightarrow> (tid \<Rightarrow> 'a pc) \<Rightarrow> bool" where
  sig_none: "signals [] p p"
| sig_one: "waits c (p w) \<Longrightarrow> signals ss (p(w := awake (p w))) p' \<Longrightarrow> signals (Notify c # ss) p p'"
| sig_lost: "\<forall>w. \<not> waits c (p w) \<Longrightarrow> signals ss p p' \<Longrightarrow> signals (Notify c # ss) p p'"
| sig_all: "signals ss (\<lambda>w. if waits c (p w) then awake (p w) else p w) p' \<Longrightarrow> signals (NotifyAll c # ss) p p'"

inductive_simps signals_simps: "signals [] p p'" "signals [Notify c] p p'" "signals [NotifyAll c] p p'"

record ('a, 'q) threads =
  shared :: 'q
  pcs :: "tid \<Rightarrow> 'a pc"
  puts :: "'a list"
  takes :: "'a list"

inductive queue_reach :: "('a, 'q) put_section \<Rightarrow> ('a, 'q) take_section \<Rightarrow> ('q \<Rightarrow> signal list \<times> 'q) \<Rightarrow> 'q \<Rightarrow> ('a, 'q) threads \<Rightarrow> bool"
  for put take stop q where
  Start: "queue_reach put take stop q \<lparr>shared = q, pcs = (\<lambda>_. Idle), puts = [], takes = []\<rparr>"
| Call_put: "queue_reach put take stop q s \<Longrightarrow> pcs s t = Idle \<Longrightarrow> queue_reach put take stop q (s\<lparr>pcs := (pcs s)(t := Put x)\<rparr>)"
| Call_take: "queue_reach put take stop q s \<Longrightarrow> pcs s t = Idle \<Longrightarrow> queue_reach put take stop q (s\<lparr>pcs := (pcs s)(t := Take)\<rparr>)"
| Put_done: "queue_reach put take stop q s \<Longrightarrow> pcs s t = Put x \<Longrightarrow> put x (shared s) = Some (True, ss, q') \<Longrightarrow>
     signals ss ((pcs s)(t := Idle)) p \<Longrightarrow> queue_reach put take stop q (s\<lparr>shared := q', pcs := p, puts := puts s @ [x]\<rparr>)"
| Put_waits: "queue_reach put take stop q s \<Longrightarrow> pcs s t = Put x \<Longrightarrow> put x (shared s) = Some (False, ss, q') \<Longrightarrow>
     queue_reach put take stop q (s\<lparr>shared := q', pcs := (pcs s)(t := PutWait x)\<rparr>)"
| Take_done: "queue_reach put take stop q s \<Longrightarrow> pcs s t = Take \<Longrightarrow> take (shared s) = Some (Value x, ss, q') \<Longrightarrow>
     signals ss ((pcs s)(t := Idle)) p \<Longrightarrow> queue_reach put take stop q (s\<lparr>shared := q', pcs := p, takes := takes s @ [x]\<rparr>)"
| Take_nothing: "queue_reach put take stop q s \<Longrightarrow> pcs s t = Take \<Longrightarrow> take (shared s) = Some (Nothing, ss, q') \<Longrightarrow>
     queue_reach put take stop q (s\<lparr>shared := q', pcs := (pcs s)(t := Idle)\<rparr>)"
| Take_waits: "queue_reach put take stop q s \<Longrightarrow> pcs s t = Take \<Longrightarrow> take (shared s) = Some (Wait, ss, q') \<Longrightarrow>
     queue_reach put take stop q (s\<lparr>shared := q', pcs := (pcs s)(t := TakeWait)\<rparr>)"
| Spurious: "queue_reach put take stop q s \<Longrightarrow> queue_reach put take stop q (s\<lparr>pcs := (pcs s)(t := awake (pcs s t))\<rparr>)"
| Stop: "queue_reach put take stop q s \<Longrightarrow> stop (shared s) = (ss, q') \<Longrightarrow> signals ss (pcs s) p \<Longrightarrow>
     queue_reach put take stop q (s\<lparr>shared := q', pcs := p\<rparr>)"

subsection \<open>What a queue promises\<close>

text \<open>The abstract queue: its elements, its bound if it has one, and whether \<open>take\<close> waits for elements.\<close>

record 'a monitor =
  items :: "'a list"
  bound :: "nat option"
  opened :: bool

definition is_full :: "'a monitor \<Rightarrow> bool" where
  "is_full m \<longleftrightarrow> (\<exists>n. bound m = Some n \<and> n \<le> length (items m))"

definition within :: "'a monitor \<Rightarrow> bool" where
  "within m \<longleftrightarrow> (\<forall>n. bound m = Some n \<longrightarrow> length (items m) \<le> n)"

text \<open>Nobody waits in vain: when a taker waits, at least as many takers are awake as there are elements; when a putter
  waits, the elements and the putters that are awake fill the queue.\<close>

definition takers :: "(tid \<Rightarrow> 'a pc) \<Rightarrow> nat" where "takers p = card {t. p t = Take}"
definition putters :: "(tid \<Rightarrow> 'a pc) \<Rightarrow> nat" where "putters p = card {t. \<exists>x. p t = Put x}"

definition few :: "(tid \<Rightarrow> 'a pc) \<Rightarrow> bool" where "few p \<longleftrightarrow> finite {t. p t \<noteq> Idle}"

definition balanced :: "'a monitor \<Rightarrow> (tid \<Rightarrow> 'a pc) \<Rightarrow> bool" where
  "balanced m p \<longleftrightarrow> few p
     \<and> ((\<exists>t. p t = TakeWait) \<longrightarrow> length (items m) \<le> takers p)
     \<and> ((\<exists>t x. p t = PutWait x) \<longrightarrow> (\<exists>n. bound m = Some n \<and> n \<le> length (items m) + putters p))"

lemma balancedD:
  assumes "balanced m p"
  shows "few p" "p t = TakeWait \<Longrightarrow> length (items m) \<le> takers p"
    "p t = PutWait x \<Longrightarrow> \<exists>n. bound m = Some n \<and> n \<le> length (items m) + putters p"
  using assms unfolding balanced_def by blast+

lemma balancedI:
  assumes "few p" "\<And>t. p t = TakeWait \<Longrightarrow> length (items m) \<le> takers p"
    "\<And>t x. p t = PutWait x \<Longrightarrow> \<exists>n. bound m = Some n \<and> n \<le> length (items m) + putters p"
  shows "balanced m p"
  using assms unfolding balanced_def by blast

lemma card_upd:
  assumes "finite {t. P (p t)}"
  shows "card {t. P ((p(x := v)) t)} + (if P (p x) then 1 else 0) = card {t. P (p t)} + (if P v then 1 else (0::nat))"
proof -
  let ?A = "{t. P (p t)} - {x}"
  have "{t. P (p t)} = (if P (p x) then insert x ?A else ?A)" "{t. P ((p(x := v)) t)} = (if P v then insert x ?A else ?A)"
    by auto
  moreover have "finite ?A" "x \<notin> ?A" using assms by auto
  ultimately show ?thesis by (smt (verit) card_insert_disjoint add.commute add_0 Suc_eq_plus1)
qed

lemma finite_upd [simp]: "few p \<Longrightarrow> few (p(x := v))"
  unfolding few_def by (rule finite_subset [of _ "insert x {t. p t \<noteq> Idle}"]) auto

lemma counts_upd:
  assumes "few p"
  shows "takers (p(x := v)) + (if p x = Take then 1 else 0) = takers p + (if v = Take then 1 else 0)"
    and "putters (p(x := v)) + (if \<exists>y. p x = Put y then 1 else 0) = putters p + (if \<exists>y. v = Put y then 1 else 0)"
proof -
  have "finite {t. p t = Take}" "finite {t. \<exists>x. p t = Put x}"
    by (rule finite_subset [OF _ assms [unfolded few_def]]; auto)+
  then show "takers (p(x := v)) + (if p x = Take then 1 else 0) = takers p + (if v = Take then 1 else 0)"
    "putters (p(x := v)) + (if \<exists>y. p x = Put y then 1 else 0) = putters p + (if \<exists>y. v = Put y then 1 else 0)"
    unfolding takers_def putters_def
    using card_upd [of "\<lambda>q. q = Take" p x v] card_upd [of "\<lambda>q. \<exists>y. q = Put y" p x v] by simp_all
qed

lemma balanced_awake: "balanced m p \<Longrightarrow> balanced m (p(t := awake (p t)))"
  using counts_upd [of p t "awake (p t)"] 
  by (cases "p t") (auto simp: balanced_def split: if_splits)

lemma balanced_call:
  "balanced m p \<Longrightarrow> p t = Idle \<Longrightarrow> balanced m (p(t := Put x))"
  "balanced m p \<Longrightarrow> p t = Idle \<Longrightarrow> balanced m (p(t := Take))"
  using counts_upd [of p t "Put x"] counts_upd [of p t Take]
  by (auto simp: balanced_def split: if_splits)

lemma woken:
  "signals [Notify notEmpty] p p' \<Longrightarrow> (\<exists>w. p w = TakeWait \<and> p' = p(w := Take)) \<or> (\<forall>w. p w \<noteq> TakeWait) \<and> p' = p"
  "signals [Notify notFull] p p' \<Longrightarrow> (\<exists>w y. p w = PutWait y \<and> p' = p(w := Put y)) \<or> (\<forall>w y. p w \<noteq> PutWait y) \<and> p' = p"
  "signals [] p p' \<Longrightarrow> p' = p"
proof -
  show "signals [Notify notEmpty] p p' \<Longrightarrow> (\<exists>w. p w = TakeWait \<and> p' = p(w := Take)) \<or> (\<forall>w. p w \<noteq> TakeWait) \<and> p' = p"
    unfolding signals_simps by fastforce
  show "signals [Notify notFull] p p' \<Longrightarrow> (\<exists>w y. p w = PutWait y \<and> p' = p(w := Put y)) \<or> (\<forall>w y. p w \<noteq> PutWait y) \<and> p' = p"
    unfolding signals_simps by fastforce
  show "signals [] p p' \<Longrightarrow> p' = p" unfolding signals_simps by simp
qed

lemma balanced_put:
  assumes "balanced m p" "p t = Put x" "signals [Notify notEmpty] (p(t := Idle)) p'"
  shows "balanced (m\<lparr>items := items m @ [x]\<rparr>) p'"
proof -
  let ?p = "p(t := Idle)"
  have fin: "few p" "few ?p" using assms(1) by (auto simp: balanced_def)
  have c: "takers ?p = takers p" "putters ?p + 1 = putters p" using counts_upd [OF fin(1), of t Idle] assms(2) by auto
  have pw: "?p u = PutWait y \<Longrightarrow> p u = PutWait y" "?p u = TakeWait \<Longrightarrow> p u = TakeWait" for u y by (auto split: if_splits)
  consider w where "?p w = TakeWait" "p' = ?p(w := Take)" | "\<forall>w. ?p w \<noteq> TakeWait" "p' = ?p"
    using woken(1) [OF assms(3)] by blast
  then show ?thesis
  proof cases
    case 1
    then have "p w = TakeWait" using pw(2) by blast
    then have len: "length (items m) \<le> takers p" using balancedD(2) [OF assms(1)] by blast
    have c': "takers p' = takers ?p + 1" "putters p' = putters ?p"
      using counts_upd [OF fin(2), of w Take] 1 by auto
    show ?thesis
    proof (rule balancedI)
      show "few p'" using fin(2) 1(2) by simp
      show "length (items (m\<lparr>items := items m @ [x]\<rparr>)) \<le> takers p'" using len c c' by simp
      fix u y assume "p' u = PutWait y"
      then have "?p u = PutWait y" using 1(2) by (simp split: if_splits)
      then have "p u = PutWait y" by (rule pw(1))
      then obtain n where "bound m = Some n" "n \<le> length (items m) + putters p" using balancedD(3) [OF assms(1)] by blast
      then show "\<exists>n. bound (m\<lparr>items := items m @ [x]\<rparr>) = Some n \<and> n \<le> length (items (m\<lparr>items := items m @ [x]\<rparr>)) + putters p'"
        using c c' by simp
    qed
  next
    case 2
    show ?thesis
    proof (rule balancedI)
      show "few p'" using fin(2) 2(2) by simp
      show "length (items (m\<lparr>items := items m @ [x]\<rparr>)) \<le> takers p'" if "p' u = TakeWait" for u using that 2 by blast
      fix u y assume "p' u = PutWait y"
      then have "p u = PutWait y" using 2(2) pw(1) by blast
      then obtain n where "bound m = Some n" "n \<le> length (items m) + putters p" using balancedD(3) [OF assms(1)] by blast
      then show "\<exists>n. bound (m\<lparr>items := items m @ [x]\<rparr>) = Some n \<and> n \<le> length (items (m\<lparr>items := items m @ [x]\<rparr>)) + putters p'"
        using c 2(2) by simp
    qed
  qed
qed

lemma balanced_take:
  assumes "balanced m p" "p t = Take" "items m = x # xs" "signals ss (p(t := Idle)) p'"
    and "ss = [Notify notFull] \<or> ss = [] \<and> bound m = None"
  shows "balanced (m\<lparr>items := xs\<rparr>) p'"
proof -
  let ?p = "p(t := Idle)"
  have fin: "few p" "few ?p" using assms(1) by (auto simp: balanced_def)
  have c: "takers ?p + 1 = takers p" "putters ?p = putters p" using counts_upd [OF fin(1), of t Idle] assms(2) by auto
  have pw: "?p u = PutWait y \<Longrightarrow> p u = PutWait y" "?p u = TakeWait \<Longrightarrow> p u = TakeWait" for u y by (auto split: if_splits)
  consider w y where "?p w = PutWait y" "p' = ?p(w := Put y)" | "(\<forall>w y. ?p w \<noteq> PutWait y) \<or> bound m = None" "p' = ?p"
  proof (cases "ss = []")
    case True
    with assms(4,5) woken(3) [of ?p p'] that(2) show thesis by simp
  next
    case False
    with assms(5) have "ss = [Notify notFull]" by blast
    with woken(2) [of ?p p'] assms(4) that show thesis by blast
  qed
  then show ?thesis
  proof cases
    case 1
    then have "p w = PutWait y" using pw(1) by blast
    then obtain n where n: "bound m = Some n" "n \<le> length (items m) + putters p" using balancedD(3) [OF assms(1)] by blast
    have c': "putters p' = putters ?p + 1" "takers p' = takers ?p"
      using counts_upd [OF fin(2), of w "Put y"] 1 by auto
    show ?thesis
    proof (rule balancedI)
      show "few p'" using fin(2) 1(2) by simp
      show "\<exists>n. bound (m\<lparr>items := xs\<rparr>) = Some n \<and> n \<le> length (items (m\<lparr>items := xs\<rparr>)) + putters p'"
        using n c c' assms(3) by simp
      fix u assume "p' u = TakeWait"
      then have "?p u = TakeWait" using 1(2) by (simp split: if_splits)
      then have "p u = TakeWait" by (rule pw(2))
      then show "length (items (m\<lparr>items := xs\<rparr>)) \<le> takers p'" using balancedD(2) [OF assms(1)] c c' assms(3) by fastforce
    qed
  next
    case 2
    show ?thesis
    proof (rule balancedI)
      show "few p'" using fin(2) 2(2) by simp
      fix u assume "p' u = TakeWait"
      then have "p u = TakeWait" using 2(2) pw(2) by blast
      then show "length (items (m\<lparr>items := xs\<rparr>)) \<le> takers p'" using balancedD(2) [OF assms(1)] c 2(2) assms(3) by fastforce
    next
      fix u y assume a: "p' u = PutWait y"
      then have "p u = PutWait y" using 2(2) pw(1) by blast
      then have "bound m \<noteq> None" using balancedD(3) [OF assms(1)] by fastforce
      with 2 a have False by blast
      then show "\<exists>n. bound (m\<lparr>items := xs\<rparr>) = Some n \<and> n \<le> length (items (m\<lparr>items := xs\<rparr>)) + putters p'" ..
    qed
  qed
qed

lemma balanced_wait:
  "balanced m p \<Longrightarrow> items m = [] \<Longrightarrow> p t = Take \<Longrightarrow> balanced m (p(t := TakeWait))"
  "balanced m p \<Longrightarrow> is_full m \<Longrightarrow> p t = Put x \<Longrightarrow> balanced m (p(t := PutWait x))"
  "balanced m p \<Longrightarrow> items m = [] \<Longrightarrow> p t = Take \<Longrightarrow> balanced m (p(t := Idle))"
proof -
  show "balanced m p \<Longrightarrow> items m = [] \<Longrightarrow> p t = Take \<Longrightarrow> balanced m (p(t := TakeWait))"
    using counts_upd [of p t TakeWait] by (auto simp: balanced_def split: if_splits)
  show "balanced m p \<Longrightarrow> is_full m \<Longrightarrow> p t = Put x \<Longrightarrow> balanced m (p(t := PutWait x))"
    using counts_upd [of p t "PutWait x"] 
    by (auto simp: balanced_def is_full_def split: if_splits)
  show "balanced m p \<Longrightarrow> items m = [] \<Longrightarrow> p t = Take \<Longrightarrow> balanced m (p(t := Idle))"
    using counts_upd [of p t Idle] by (auto simp: balanced_def split: if_splits)
qed

lemma balanced_all:
  assumes "balanced m p"
  shows "balanced m (\<lambda>w. if waits notEmpty (p w) then awake (p w) else p w)"
proof -
  let ?p = "\<lambda>w. if waits notEmpty (p w) then awake (p w) else p w"
  have "?p t \<noteq> TakeWait" "?p t = Put x \<longleftrightarrow> p t = Put x" "?p t = PutWait x \<longleftrightarrow> p t = PutWait x" "?p t \<noteq> Idle \<longleftrightarrow> p t \<noteq> Idle" for t x
    by (cases "p t"; simp)+
  then show ?thesis using balancedD [OF assms] by (auto intro!: balancedI simp: few_def putters_def)
qed

text \<open>A queue that has been stopped has no taker waiting for it.\<close>

definition released :: "'a monitor \<Rightarrow> (tid \<Rightarrow> 'a pc) \<Rightarrow> bool" where
  "released m p \<longleftrightarrow> (opened m \<or> (\<forall>t. p t \<noteq> TakeWait))"

lemma signals_wake_only: "signals ss p p' \<Longrightarrow> p' t = TakeWait \<Longrightarrow> p t = TakeWait"
proof (induction arbitrary: t rule: signals.induct)
  case (sig_one c p w ss p')
  then have "(p(w := awake (p w))) t = TakeWait" by simp
  then show ?case by (cases "p w") (auto split: if_splits)
next
  case (sig_all ss c p p')
  then have "(if waits c (p t) then awake (p t) else p t) = TakeWait" by simp
  then show ?case by (cases "p t") (auto split: if_splits)
qed simp_all

lemma released_upd: "released m p \<Longrightarrow> v \<noteq> TakeWait \<Longrightarrow> released m (p(t := v))"
  by (auto simp: released_def)

lemma released_signals: "released m p \<Longrightarrow> signals ss (p(t := Idle)) p' \<Longrightarrow> opened m' = opened m \<Longrightarrow> released m' p'"
  using signals_wake_only [of ss "p(t := Idle)" p'] unfolding released_def by (metis fun_upd_apply pc.distinct(7))

subsection \<open>The interface of a queue and its client\<close>

locale waiting_queue =
  fixes view :: "'q \<Rightarrow> 'a monitor"
    and put :: "('a, 'q) put_section" and take :: "('a, 'q) take_section" and stop :: "'q \<Rightarrow> signal list \<times> 'q"
  assumes put_full: "within (view q) \<Longrightarrow> is_full (view q) \<Longrightarrow> put x q = Some (False, [], q)"
    and put_room: "within (view q) \<Longrightarrow> \<not> is_full (view q) \<Longrightarrow>
       \<exists>q'. put x q = Some (True, [Notify notEmpty], q') \<and> view q' = (view q)\<lparr>items := items (view q) @ [x]\<rparr>"
    and take_first: "items (view q) = x # xs \<Longrightarrow>
       \<exists>ss q'. take q = Some (Value x, ss, q') \<and> view q' = (view q)\<lparr>items := xs\<rparr>
         \<and> (ss = [Notify notFull] \<or> ss = [] \<and> bound (view q) = None)"
    and take_empty: "items (view q) = [] \<Longrightarrow> take q = Some (if opened (view q) then Wait else Nothing, [], q)"
    and stop_view: "\<exists>q'. stop q = ([NotifyAll notEmpty], q') \<and> view q' = (view q)\<lparr>opened := False\<rparr>
       \<or> stop q = ([], q') \<and> view q' = view q"
begin

definition queue_inv :: "('a, 'q) threads \<Rightarrow> bool" where
  "queue_inv s \<longleftrightarrow> within (view (shared s)) \<and> puts s = takes s @ items (view (shared s))
     \<and> balanced (view (shared s)) (pcs s) \<and> released (view (shared s)) (pcs s)"

lemma queue_inv_put:
  assumes "queue_inv s" "pcs s t = Put x" "put x (shared s) = Some (True, ss, q')" "signals ss ((pcs s)(t := Idle)) p"
  shows "queue_inv (s\<lparr>shared := q', pcs := p, puts := puts s @ [x]\<rparr>)"
proof -
  have w: "within (view (shared s))" using assms(1) by (simp add: queue_inv_def)
  have nf: "\<not> is_full (view (shared s))" using put_full [OF w] assms(3) by fastforce
  have v: "ss = [Notify notEmpty]" "view q' = (view (shared s))\<lparr>items := items (view (shared s)) @ [x]\<rparr>"
    using put_room [OF w nf, of x] assms(3) by auto
  have "balanced (view q') p"
    unfolding v(2) using balanced_put [where p = "pcs s" and t = t and x = x and p' = p] assms(1,2,4) v(1) by (simp add: queue_inv_def)
  moreover have "within (view q')" using w nf unfolding v(2) by (fastforce simp: within_def is_full_def)
  moreover have "released (view q') p" using released_signals [OF _ assms(4), of "view (shared s)"] assms(1) by (simp add: queue_inv_def v(2))
  ultimately show ?thesis using assms(1) by (simp add: queue_inv_def v(2))
qed

lemma queue_inv_take:
  assumes "queue_inv s" "pcs s t = Take" "take (shared s) = Some (Value x, ss, q')" "signals ss ((pcs s)(t := Idle)) p"
  shows "queue_inv (s\<lparr>shared := q', pcs := p, takes := takes s @ [x]\<rparr>)"
proof (cases "items (view (shared s))")
  case Nil
  then show ?thesis using take_empty [OF Nil] assms(3) by (auto split: if_splits)
next
  case (Cons y ys)
  with take_first [OF Cons] assms(3) have v: "y = x" "view q' = (view (shared s))\<lparr>items := ys\<rparr>"
      "ss = [Notify notFull] \<or> ss = [] \<and> bound (view (shared s)) = None" by auto
  have "balanced (view q') p"
    unfolding v(2) using balanced_take [where p = "pcs s" and t = t and x = y and p' = p and xs = ys and ss = ss] assms(1,2,4) Cons v(3)
    by (simp add: queue_inv_def)
  moreover have "within (view q')" using assms(1) Cons unfolding v(2) by (fastforce simp: within_def queue_inv_def)
  moreover have "released (view q') p" using released_signals [OF _ assms(4), of "view (shared s)"] assms(1) by (simp add: queue_inv_def v(2))
  ultimately show ?thesis using assms(1) Cons by (simp add: queue_inv_def v)
qed

lemma queue_reach_inv:
  assumes "items (view q) = []"
  shows "queue_reach put take stop q s \<Longrightarrow> queue_inv s"
proof (induction rule: queue_reach.induct)
  case Start
  show ?case using assms by (simp add: queue_inv_def within_def balanced_def few_def released_def)
next
  case (Call_put s t x)
  then show ?case by (simp add: queue_inv_def balanced_call released_upd)
next
  case (Call_take s t)
  then show ?case by (simp add: queue_inv_def balanced_call released_upd)
next
  case (Put_done s t x ss q' p)
  then show ?case by (intro queue_inv_put)
next
  case (Put_waits s t x ss q')
  then have w: "within (view (shared s))" by (simp add: queue_inv_def)
  have f: "is_full (view (shared s))" using put_room [OF w, of x] Put_waits.hyps by auto
  with put_full [OF w] Put_waits.hyps have "q' = shared s" by simp
  with Put_waits f show ?case by (simp add: queue_inv_def balanced_wait released_upd)
next
  case (Take_done s t x ss q' p)
  then show ?case by (intro queue_inv_take)
next
  case (Take_nothing s t ss q')
  then have e: "items (view (shared s)) = []" using take_first [of "shared s"] by (cases "items (view (shared s))") auto
  with take_empty [OF e] Take_nothing.hyps have "q' = shared s" by simp
  with Take_nothing e show ?case by (simp add: queue_inv_def balanced_wait released_upd)
next
  case (Take_waits s t ss q')
  then have e: "items (view (shared s)) = []" using take_first [of "shared s"] by (cases "items (view (shared s))") auto
  with take_empty [OF e] Take_waits.hyps have "q' = shared s" "opened (view (shared s))" by (simp_all split: if_splits)
  with Take_waits e show ?case by (simp add: queue_inv_def balanced_wait released_def)
next
  case (Spurious s t)
  moreover have "awake (pcs s t) \<noteq> TakeWait" by (cases "pcs s t") simp_all
  ultimately show ?case by (simp add: queue_inv_def balanced_awake released_upd)
next
  case (Stop s ss q' p)
  consider "ss = [NotifyAll notEmpty]" "view q' = (view (shared s))\<lparr>opened := False\<rparr>" | "ss = []" "view q' = view (shared s)"
    using stop_view [of "shared s"] Stop.hyps(2) by auto
  then show ?case
  proof cases
    case 1
    then have p: "p = (\<lambda>w. if waits notEmpty (pcs s w) then awake (pcs s w) else pcs s w)"
      using Stop.hyps(3) by (simp add: signals_simps)
    have "balanced (view (shared s)) p" using balanced_all [of "view (shared s)" "pcs s"] Stop.IH p by (simp add: queue_inv_def)
    moreover have "p t \<noteq> TakeWait" for t unfolding p by (cases "pcs s t") simp_all
    ultimately show ?thesis using Stop.IH 1(2) by (simp add: queue_inv_def within_def balanced_def released_def)
  next
    case 2
    then have "p = pcs s" using Stop.hyps(3) woken(3) by blast
    with 2 Stop.IH show ?thesis by (simp add: queue_inv_def)
  qed
qed

end

definition bq_view :: "'a blocking_queue \<Rightarrow> 'a monitor" where
  "bq_view q = \<lparr>items = bq_queue q, bound = None, opened = True\<rparr>"
definition bbq_view :: "'a bounded_queue \<Rightarrow> 'a monitor" where
  "bbq_view q = \<lparr>items = bbq_queue q, bound = Some (bbq_capacity q), opened = True\<rparr>"
definition tp_view :: "'f thread_pool \<Rightarrow> 'f task monitor" where
  "tp_view p = \<lparr>items = tp_queue p, bound = (if maxQueueSize p > 0 then Some (maxQueueSize p) else None), opened = tp_running p\<rparr>"

interpretation bq: waiting_queue bq_view bq_put bq_take "\<lambda>q. ([], q)"
  by unfold_locales (auto simp: bq_view_def bq_put_def bq_take_def is_full_def)

interpretation bbq: waiting_queue bbq_view bbq_put bbq_take "\<lambda>q. ([], q)"
  by unfold_locales
    (auto simp: bbq_view_def bbq_put_def bbq_take_def is_full_def within_def bbq_full_def bbq_empty_def circular_push_def)

interpretation pool: waiting_queue tp_view tp_put tp_take tp_stop
  by unfold_locales (auto simp: tp_view_def tp_put_def tp_take_def tp_stop_def is_full_def isFull_def split: if_splits)

text \<open>C31: A thread pool in any interleaving of threads that call \<open>run\<close>, of workers that call \<open>take\<close>, of spurious
  wake-ups and of \<open>stop\<close>: the tasks accepted are those taken, in the same order, followed by those in the queue; the queue
  never exceeds its maximal size; a worker waits only if as many others are awake as there are tasks, and after \<open>stop\<close> no
  worker waits at all; a caller of \<open>run\<close> waits only if the tasks and the callers that are awake fill the queue (after
  \<open>stop\<close>, when no worker takes tasks any more, it may do so for ever: the state of \<open>pool_full\<close>).\<close>

theorem pool_tasks:
  assumes "queue_reach tp_put tp_take tp_stop p s" "tp_queue p = []"
  shows "puts s = takes s @ tp_queue (shared s)
    \<and> (0 < maxQueueSize (shared s) \<longrightarrow> length (tp_queue (shared s)) \<le> maxQueueSize (shared s))
    \<and> (pcs s t = TakeWait \<longrightarrow> length (tp_queue (shared s)) \<le> takers (pcs s))
    \<and> (\<not> tp_running (shared s) \<longrightarrow> pcs s t \<noteq> TakeWait)
    \<and> (pcs s t = PutWait x \<longrightarrow> 0 < maxQueueSize (shared s)
         \<and> maxQueueSize (shared s) \<le> length (tp_queue (shared s)) + putters (pcs s))"
proof -
  have "pool.queue_inv s" using pool.queue_reach_inv [OF _ assms(1)] assms(2) by (simp add: tp_view_def)
  then show ?thesis
    using balancedD(2,3) [of "tp_view (shared s)" "pcs s" t]
    by (auto simp: pool.queue_inv_def within_def released_def tp_view_def split: if_splits)
qed

text \<open>A pool with room for one task and two callers of \<open>run\<close>: the second waits; and when the pool is stopped, it
  waits for ever if no worker takes the first task.\<close>

lemma pool_full:
  obtains s :: "(nat task, nat thread_pool) threads" where
    "queue_reach tp_put tp_take tp_stop \<lparr>tp_queue = [], maxQueueSize = 1, tp_running = True, tp_threads = 1\<rparr> s"
    "pcs s 1 = PutWait (Some 20)" "\<forall>t. t \<noteq> 1 \<longrightarrow> pcs s t = Idle" "tp_queue (shared s) = [Some 10]" "maxQueueSize (shared s) = 1"
    "puts s = [Some 10]" "takes s = []" "\<not> tp_running (shared s)"
proof -
  let ?p = "\<lparr>tp_queue = [], maxQueueSize = 1, tp_running = True, tp_threads = 1\<rparr> :: nat thread_pool"
  let ?s0 = "\<lparr>shared = ?p, pcs = (\<lambda>_. Idle), puts = [], takes = []\<rparr>"
  let ?s1 = "?s0\<lparr>pcs := (pcs ?s0)(0 := Put (Some 10))\<rparr>"
  let ?q = "?p\<lparr>tp_queue := [Some 10]\<rparr>"
  let ?s2 = "?s1\<lparr>shared := ?q, pcs := \<lambda>_. Idle, puts := [] @ [Some 10]\<rparr>"
  let ?s3 = "?s2\<lparr>pcs := (pcs ?s2)(1 := Put (Some 20))\<rparr>"
  let ?s4 = "?s3\<lparr>shared := ?q, pcs := (pcs ?s3)(1 := PutWait (Some 20))\<rparr>"
  let ?s5 = "?s4\<lparr>shared := ?q\<lparr>tp_running := False\<rparr>, pcs := pcs ?s4\<rparr>"
  let ?R = "queue_reach tp_put tp_take tp_stop ?p"
  have "?R ?s1" by (rule queue_reach.Call_put [OF queue_reach.Start]) simp
  then have "?R (?s1\<lparr>shared := ?q, pcs := \<lambda>_. Idle, puts := puts ?s1 @ [Some 10]\<rparr>)"
    by (rule queue_reach.Put_done [where t = 0 and ss = "[Notify notEmpty]"])
      (simp_all add: tp_put_def isFull_def signals_simps fun_eq_iff)
  then have "?R ?s2" by simp
  then have "?R ?s3" by (rule queue_reach.Call_put) simp
  then have "?R ?s4" by (rule queue_reach.Put_waits [where t = 1 and x = "Some 20" and ss = "[]"]) (simp_all add: tp_put_def isFull_def)
  then have "?R ?s5"
    by (rule queue_reach.Stop [where ss = "[NotifyAll notEmpty]"]) (auto simp: tp_stop_def signals_simps fun_eq_iff)
  then show thesis by (rule that) simp_all
qed

theorem pool_tasks_witness:
  "\<exists>s :: (nat task, nat thread_pool) threads.
     queue_reach tp_put tp_take tp_stop \<lparr>tp_queue = [], maxQueueSize = 1, tp_running = True, tp_threads = 1\<rparr> s
     \<and> pcs s 1 = PutWait (Some 20) \<and> 1 \<le> length (tp_queue (shared s)) + putters (pcs s)"
proof -
  obtain s :: "(nat task, nat thread_pool) threads" where
    s: "queue_reach tp_put tp_take tp_stop \<lparr>tp_queue = [], maxQueueSize = 1, tp_running = True, tp_threads = 1\<rparr> s"
      "pcs s 1 = PutWait (Some 20)" "maxQueueSize (shared s) = 1"
    by (rule pool_full)
  with pool_tasks [OF s(1), of 1 "Some 20"] show ?thesis by auto
qed

text \<open>The queues without a stop; a bounded queue of capacity 0 is always full.\<close>

lemma blocking_queue_fifo:
  "queue_reach bq_put bq_take (\<lambda>q. ([], q)) mk_blocking_queue s \<Longrightarrow>
     puts s = takes s @ bq_queue (shared s) \<and> (pcs s t = TakeWait \<longrightarrow> length (bq_queue (shared s)) \<le> takers (pcs s))"
  using bq.queue_reach_inv [of mk_blocking_queue s] balancedD(2) [of "bq_view (shared s)" "pcs s" t]
  by (simp add: bq_view_def mk_blocking_queue_def bq.queue_inv_def)

lemma bounded_queue_fifo:
  "queue_reach bbq_put bbq_take (\<lambda>q. ([], q)) (mk_bounded_queue n) s \<Longrightarrow>
     puts s = takes s @ bbq_queue (shared s) \<and> length (bbq_queue (shared s)) \<le> bbq_capacity (shared s)
     \<and> (pcs s t = TakeWait \<longrightarrow> length (bbq_queue (shared s)) \<le> takers (pcs s))
     \<and> (pcs s t = PutWait x \<longrightarrow> bbq_capacity (shared s) \<le> length (bbq_queue (shared s)) + putters (pcs s))"
  using bbq.queue_reach_inv [of "mk_bounded_queue n" s] balancedD(2,3) [of "bbq_view (shared s)" "pcs s" t]
  by (auto simp: bbq_view_def mk_bounded_queue_def bbq.queue_inv_def within_def)

text \<open>A latch: every wait that started before the count reached zero is woken then, and later ones return at once.\<close>

lemma countDown_wakes:
  assumes "countDown l = (ss, l')" "0 < latch_count l" "signals ss p p'"
  shows "if latch_wait l' then \<forall>t. p' t \<noteq> TakeWait else p' = p"
  using assms by (auto simp: countDown_def latch_wait_def Let_def signals_simps split: if_splits elim!: awake.elims)

end
