(* ===== verification/Base_Thread.thy ===== *)
theory Base_Thread
  imports Base_Sync Decimal
begin

section \<open>Threads, mutexes and conditions: \<open>base/Thread.cc\<close>, \<open>base/Mutex.h\<close>, \<open>base/Condition.cc\<close>\<close>

text \<open>
  The thread-local variables of \<open>CurrentThread\<close>, the life of a \<open>Thread\<close> object beside the thread it starts, and the
  holder a \<open>MutexLock\<close> records next to its pthread mutex. Each step of a step relation is what one thread does between two
  points where others can see it. \<open>gettid\<close> is the kernel's answer.
\<close>

subsection \<open>\<open>CurrentThread\<close>\<close>

record thread_local =
  t_cachedTid :: int
  t_tidString :: string
  t_tidStringLength :: int
  t_threadName :: string

definition thread_local_init :: thread_local where
  "thread_local_init = \<lparr>t_cachedTid = 0, t_tidString = '''', t_tidStringLength = 6, t_threadName = ''unknown''\<rparr>"

text \<open>\<open>snprintf\<close> with \<open>"%5d "\<close>.\<close>

definition tid_text :: "int \<Rightarrow> string" where
  "tid_text n = replicate (5 - length (dec_int n)) (CHR '' '') @ dec_int n @ '' ''"

definition cacheTid :: "int \<Rightarrow> thread_local \<Rightarrow> thread_local" where
  "cacheTid gettid l =
     (if t_cachedTid l = 0
      then (let l = l\<lparr>t_cachedTid := gettid\<rparr>
            in l\<lparr>t_tidString := tid_text (t_cachedTid l), t_tidStringLength := int (length (tid_text (t_cachedTid l)))\<rparr>)
      else l)"

definition CurrentThread_tid :: "int \<Rightarrow> thread_local \<Rightarrow> int \<times> thread_local" where
  "CurrentThread_tid gettid l = (let l = (if t_cachedTid l = 0 then cacheTid gettid l else l) in (t_cachedTid l, l))"

definition isMainThread :: "int \<Rightarrow> int \<Rightarrow> thread_local \<Rightarrow> bool \<times> thread_local" where
  "isMainThread getpid gettid l = (let (t, l) = CurrentThread_tid gettid l in (t = getpid, l))"

definition afterFork :: "int \<Rightarrow> thread_local \<Rightarrow> thread_local" where
  "afterFork gettid l =
     (let l = l\<lparr>t_cachedTid := 0\<rparr>; l = l\<lparr>t_threadName := ''main''\<rparr> in snd (CurrentThread_tid gettid l))"

definition ThreadNameInitializer :: "int \<Rightarrow> thread_local \<Rightarrow> thread_local" where
  "ThreadNameInitializer gettid l = snd (CurrentThread_tid gettid (l\<lparr>t_threadName := ''main''\<rparr>))"

text \<open>Seconds and nanoseconds of \<open>nanosleep\<close>.\<close>

definition sleepUsec :: "int \<Rightarrow> int \<times> int" where
  "sleepUsec usec = (c_div usec 1000000, c_mod usec 1000000 * 1000)"

text \<open>\<open>waitForSeconds\<close>: the absolute time of the timeout; \<open>nanoseconds\<close> is the product of the argument and \<open>1e9\<close>.\<close>

definition waitForSeconds :: "int \<times> int \<Rightarrow> int \<Rightarrow> int \<times> int" where
  "waitForSeconds clock nanoseconds =
     (let (tv_sec, tv_nsec) = clock; kNanoSecondsPerSecond = 1000000000
      in (tv_sec + c_div (tv_nsec + nanoseconds) kNanoSecondsPerSecond, c_mod (tv_nsec + nanoseconds) kNanoSecondsPerSecond))"

subsection \<open>\<open>Thread\<close>\<close>

record thread =
  started :: bool
  joined :: bool
  thread_tid :: int
  thread_name :: string
  thread_latch :: latch

definition setDefaultName :: "int \<Rightarrow> thread \<Rightarrow> int \<times> thread" where
  "setDefaultName numCreated t =
     (let num = to_int32 (numCreated + 1)
      in (num, if thread_name t = '''' then t\<lparr>thread_name := ''Thread'' @ dec_int num\<rparr> else t))"

definition mk_thread :: "int \<Rightarrow> string \<Rightarrow> int \<times> thread" where
  "mk_thread numCreated n =
     setDefaultName numCreated \<lparr>started = False, joined = False, thread_tid = 0, thread_name = n, thread_latch = mk_latch 1\<rparr>"

datatype pthread_call = P_create | P_join | P_detach

text \<open>\<open>start\<close> up to the wait for the latch, \<open>created\<close> what \<open>pthread_create\<close> says; and after the wait.\<close>

definition start_create :: "bool \<Rightarrow> thread \<Rightarrow> (pthread_call list \<times> thread) option" where
  "start_create created t =
     assert_then (\<not> started t)
      (let t = t\<lparr>started := True\<rparr> in if \<not> created then None else Some ([P_create], t))"

definition start_finish :: "thread \<Rightarrow> thread option" where
  "start_finish t = assert_then (thread_tid t > 0) (Some t)"

definition thread_join :: "thread \<Rightarrow> (pthread_call list \<times> thread) option" where
  "thread_join t = assert_then (started t) (assert_then (\<not> joined t) (Some ([P_join], t\<lparr>joined := True\<rparr>)))"

definition thread_dtor :: "thread \<Rightarrow> pthread_call list" where
  "thread_dtor t = (if started t \<and> \<not> joined t then [P_detach] else [])"

text \<open>\<open>ThreadData::runInThread\<close>, in its parts: the new thread says its id, counts the latch down, takes its name, and runs
  the function. An exception ends the process.\<close>

definition run_tid :: "int \<Rightarrow> thread \<times> thread_local \<Rightarrow> thread \<times> thread_local" where
  "run_tid gettid s = (let (t, l) = s; (i, l) = CurrentThread_tid gettid l in (t\<lparr>thread_tid := i\<rparr>, l))"

definition run_count :: "thread \<Rightarrow> thread" where
  "run_count t = t\<lparr>thread_latch := snd (countDown (thread_latch t))\<rparr>"

definition run_name :: "string \<Rightarrow> thread_local \<Rightarrow> thread_local" where
  "run_name name l = l\<lparr>t_threadName := (if name = '''' then ''muduoThread'' else name)\<rparr>"

definition run_func :: "bool \<Rightarrow> thread_local \<Rightarrow> thread_local option" where
  "run_func throws l =
     (if throws then let l = l\<lparr>t_threadName := ''crashed''\<rparr> in None else Some (l\<lparr>t_threadName := ''finished''\<rparr>))"

subsection \<open>\<open>MutexLock\<close>\<close>

text \<open>The recorded holder, and the owner of the pthread mutex. Thread 0 is nobody.\<close>

record mutex =
  holder :: tid
  pmutex :: "tid option"

definition mk_mutex :: mutex where "mk_mutex = \<lparr>holder = 0, pmutex = None\<rparr>"
definition isLockedByThisThread :: "tid \<Rightarrow> mutex \<Rightarrow> bool" where "isLockedByThisThread t m \<longleftrightarrow> holder m = t"
definition unassignHolder :: "mutex \<Rightarrow> mutex" where "unassignHolder m = m\<lparr>holder := 0\<rparr>"
definition assignHolder :: "tid \<Rightarrow> mutex \<Rightarrow> mutex" where "assignHolder t m = m\<lparr>holder := t\<rparr>"
definition mutex_dtor :: "mutex \<Rightarrow> mutex option" where "mutex_dtor m = assert_then (holder m = 0) (Some m)"

text \<open>Where a thread is in \<open>lock\<close>, \<open>unlock\<close> and \<open>Condition::wait\<close>: each has a step on the pthread mutex and one on the
  holder. A waiting thread has left the holder to the guard object.\<close>

datatype mpc = Outside | Locked | Inside | Unlocking | Waiting | Asleep | Awake

inductive mutex_reach :: "mutex \<Rightarrow> (tid \<Rightarrow> mpc) \<Rightarrow> bool" where
  m_start: "mutex_reach mk_mutex (\<lambda>_. Outside)"
| m_lock: "mutex_reach m p \<Longrightarrow> 0 < t \<Longrightarrow> p t = Outside \<Longrightarrow> pmutex m = None \<Longrightarrow> mutex_reach (m\<lparr>pmutex := Some t\<rparr>) (p(t := Locked))"
| m_assign: "mutex_reach m p \<Longrightarrow> p t = Locked \<Longrightarrow> mutex_reach (assignHolder t m) (p(t := Inside))"
| m_unassign: "mutex_reach m p \<Longrightarrow> p t = Inside \<Longrightarrow> mutex_reach (unassignHolder m) (p(t := Unlocking))"
| m_unlock: "mutex_reach m p \<Longrightarrow> p t = Unlocking \<Longrightarrow> mutex_reach (m\<lparr>pmutex := None\<rparr>) (p(t := Outside))"
| m_wait: "mutex_reach m p \<Longrightarrow> p t = Inside \<Longrightarrow> mutex_reach (unassignHolder m) (p(t := Waiting))"
| m_sleep: "mutex_reach m p \<Longrightarrow> p t = Waiting \<Longrightarrow> mutex_reach (m\<lparr>pmutex := None\<rparr>) (p(t := Asleep))"
| m_wake: "mutex_reach m p \<Longrightarrow> p t = Asleep \<Longrightarrow> pmutex m = None \<Longrightarrow> mutex_reach (m\<lparr>pmutex := Some t\<rparr>) (p(t := Awake))"
| m_guard_end: "mutex_reach m p \<Longrightarrow> p t = Awake \<Longrightarrow> mutex_reach (assignHolder t m) (p(t := Inside))"

fun owning :: "mpc \<Rightarrow> bool" where
  "owning Outside \<longleftrightarrow> False" | "owning Asleep \<longleftrightarrow> False" | "owning _ \<longleftrightarrow> True"

definition mutex_inv :: "mutex \<Rightarrow> (tid \<Rightarrow> mpc) \<Rightarrow> bool" where
  "mutex_inv m p \<longleftrightarrow>
     (case pmutex m of
        None \<Rightarrow> (\<forall>u. \<not> owning (p u)) \<and> holder m = 0
      | Some t \<Rightarrow> 0 < t \<and> owning (p t) \<and> (\<forall>u. u \<noteq> t \<longrightarrow> \<not> owning (p u)) \<and> holder m = (if p t = Inside then t else 0)) \<and>
     p 0 = Outside"

lemma mutex_invD:
  assumes "mutex_inv m p"
  shows "owning (p t) \<Longrightarrow> pmutex m = Some t \<and> 0 < t \<and> (\<forall>u. u \<noteq> t \<longrightarrow> \<not> owning (p u)) \<and> holder m = (if p t = Inside then t else 0)"
    "pmutex m = None \<Longrightarrow> (\<forall>u. \<not> owning (p u)) \<and> holder m = 0" "p 0 = Outside"
proof -
  show "pmutex m = Some t \<and> 0 < t \<and> (\<forall>u. u \<noteq> t \<longrightarrow> \<not> owning (p u)) \<and> holder m = (if p t = Inside then t else 0)" if o: "owning (p t)"
  proof (cases "pmutex m")
    case None
    then show ?thesis using assms o by (simp add: mutex_inv_def)
  next
    case (Some t')
    then have "t = t'" using assms o unfolding mutex_inv_def by fastforce
    then show ?thesis using assms Some by (simp add: mutex_inv_def)
  qed
qed (use assms in \<open>simp_all add: mutex_inv_def\<close>)

lemma mutex_reach_inv: "mutex_reach m p \<Longrightarrow> mutex_inv m p"
proof (induction rule: mutex_reach.induct)
  case m_start
  then show ?case by (simp add: mutex_inv_def mk_mutex_def)
next
  case (m_lock m p t)
  then show ?case using mutex_invD(2,3) [OF m_lock.IH] by (simp add: mutex_inv_def)
next
  case (m_assign m p t)
  then show ?case using mutex_invD(1) [OF m_assign.IH, of t] mutex_invD(3) [OF m_assign.IH] by (auto simp: mutex_inv_def assignHolder_def)
next
  case (m_unassign m p t)
  then show ?case using mutex_invD(1) [OF m_unassign.IH, of t] mutex_invD(3) [OF m_unassign.IH] by (auto simp: mutex_inv_def unassignHolder_def)
next
  case (m_unlock m p t)
  then show ?case using mutex_invD(1) [OF m_unlock.IH, of t] mutex_invD(3) [OF m_unlock.IH] by (auto simp: mutex_inv_def)
next
  case (m_wait m p t)
  then show ?case using mutex_invD(1) [OF m_wait.IH, of t] mutex_invD(3) [OF m_wait.IH] by (auto simp: mutex_inv_def unassignHolder_def)
next
  case (m_sleep m p t)
  then show ?case using mutex_invD(1) [OF m_sleep.IH, of t] mutex_invD(3) [OF m_sleep.IH] by (auto simp: mutex_inv_def)
next
  case (m_wake m p t)
  then have "t \<noteq> 0" using mutex_invD(3) [OF m_wake.IH] by (intro notI) simp
  then show ?case using mutex_invD(2,3) [OF m_wake.IH] m_wake.hyps by (simp add: mutex_inv_def)
next
  case (m_guard_end m p t)
  then show ?case using mutex_invD(1) [OF m_guard_end.IH, of t] mutex_invD(3) [OF m_guard_end.IH] by (auto simp: mutex_inv_def assignHolder_def)
qed

text \<open>A thread that finds itself the holder of a mutex owns the pthread mutex, at every moment and without a lock, and
  no other thread finds the same; while a thread is inside the critical section \<open>assertLocked\<close> does not fail for it, and the
  destructor's assertion holds when no thread is inside.\<close>

theorem mutex_holder:
  assumes "mutex_reach m p" "0 < t"
  shows "(isLockedByThisThread t m \<longleftrightarrow> p t = Inside) \<and> (isLockedByThisThread t m \<longrightarrow> pmutex m = Some t) \<and>
    (p t = Inside \<longrightarrow> (\<forall>u. u \<noteq> t \<longrightarrow> p u \<in> {Outside, Asleep})) \<and> ((\<forall>u. p u \<noteq> Inside) \<longrightarrow> mutex_dtor m = Some m)"
proof -
  note i = mutex_reach_inv [OF assms(1)]
  have out: "\<not> owning q \<longleftrightarrow> q \<in> {Outside, Asleep}" for q by (cases q) simp_all
  have h: "holder m = t \<longleftrightarrow> p t = Inside"
  proof (cases "owning (p t)")
    case True
    then show ?thesis using mutex_invD(1) [OF i, of t] assms(2) by simp
  next
    case False
    then have "holder m \<noteq> t" using i assms(2) by (cases "pmutex m") (auto simp: mutex_inv_def split: if_splits)
    then show ?thesis using False by auto
  qed
  have "mutex_dtor m = Some m" if "\<forall>u. p u \<noteq> Inside"
    using i that by (cases "pmutex m") (auto simp: mutex_inv_def mutex_dtor_def)
  moreover have "pmutex m = Some t \<and> (\<forall>u. u \<noteq> t \<longrightarrow> p u \<in> {Outside, Asleep})" if "p t = Inside"
    using mutex_invD(1) [OF i, of t] that out by simp
  ultimately show ?thesis using h by (simp add: isLockedByThisThread_def)
qed

lemma mutex_holder_reach: "mutex_reach (assignHolder 7 (mk_mutex\<lparr>pmutex := Some 7\<rparr>)) ((\<lambda>_. Outside)(7 := Locked, 7 := Inside))"
  using m_assign [OF m_lock [OF m_start, of 7], of 7] by (simp add: mk_mutex_def)

theorem mutex_holder_witness:
  "isLockedByThisThread 7 (assignHolder 7 (mk_mutex\<lparr>pmutex := Some 7\<rparr>)) \<and>
   \<not> isLockedByThisThread 8 (assignHolder 7 (mk_mutex\<lparr>pmutex := Some 7\<rparr>))"
  using mutex_holder [OF mutex_holder_reach, of 7] mutex_holder [OF mutex_holder_reach, of 8] by simp

subsection \<open>Starting a thread\<close>

datatype parent_pc = P_before | P_waiting | P_started
datatype child_pc = C_none | C_new | C_known | C_counted | C_running | C_finished

record thread_run =
  obj :: thread
  locals :: thread_local
  parent :: parent_pc
  child :: child_pc

inductive start_reach :: "int \<Rightarrow> thread \<Rightarrow> thread_run \<Rightarrow> bool" for gettid t0 where
  s_begin: "start_reach gettid t0 \<lparr>obj = t0, locals = thread_local_init, parent = P_before, child = C_none\<rparr>"
| s_create: "start_reach gettid t0 s \<Longrightarrow> parent s = P_before \<Longrightarrow> start_create True (obj s) = Some (cs, t) \<Longrightarrow>
    start_reach gettid t0 (s\<lparr>obj := t, parent := P_waiting, child := C_new\<rparr>)"
| s_tid: "start_reach gettid t0 s \<Longrightarrow> child s = C_new \<Longrightarrow> run_tid gettid (obj s, locals s) = (t, l) \<Longrightarrow>
    start_reach gettid t0 (s\<lparr>obj := t, locals := l, child := C_known\<rparr>)"
| s_count: "start_reach gettid t0 s \<Longrightarrow> child s = C_known \<Longrightarrow>
    start_reach gettid t0 (s\<lparr>obj := run_count (obj s), child := C_counted\<rparr>)"
| s_name: "start_reach gettid t0 s \<Longrightarrow> child s = C_counted \<Longrightarrow>
    start_reach gettid t0 (s\<lparr>locals := run_name (thread_name (obj s)) (locals s), child := C_running\<rparr>)"
| s_func: "start_reach gettid t0 s \<Longrightarrow> child s = C_running \<Longrightarrow> run_func False (locals s) = Some l \<Longrightarrow>
    start_reach gettid t0 (s\<lparr>locals := l, child := C_finished\<rparr>)"
| s_started: "start_reach gettid t0 s \<Longrightarrow> parent s = P_waiting \<Longrightarrow> latch_wait (thread_latch (obj s)) \<Longrightarrow>
    start_finish (obj s) = Some t \<Longrightarrow> start_reach gettid t0 (s\<lparr>obj := t, parent := P_started\<rparr>)"

definition fresh_thread :: "thread \<Rightarrow> bool" where
  "fresh_thread t \<longleftrightarrow> \<not> started t \<and> \<not> joined t \<and> thread_latch t = mk_latch 1"

definition running_name :: "string \<Rightarrow> string" where
  "running_name n = (if n = '''' then ''muduoThread'' else n)"

lemma start_inv:
  assumes "start_reach gettid t0 s" "fresh_thread t0" "0 < gettid"
  shows "getCount (thread_latch (obj s)) = (if child s \<in> {C_none, C_new, C_known} then 1 else 0) \<and>
    (child s \<in> {C_none, C_new} \<longrightarrow> t_cachedTid (locals s) = 0) \<and>
    (child s \<notin> {C_none, C_new} \<longrightarrow> thread_tid (obj s) = gettid \<and> t_cachedTid (locals s) = gettid) \<and>
    (child s = C_none \<longleftrightarrow> parent s = P_before) \<and> (started (obj s) \<longleftrightarrow> parent s \<noteq> P_before) \<and>
    (parent s = P_started \<longrightarrow> child s \<notin> {C_none, C_new, C_known}) \<and> thread_name (obj s) = thread_name t0 \<and>
    (child s = C_running \<longrightarrow> t_threadName (locals s) = running_name (thread_name t0))"
  using assms(1)
proof (induction rule: start_reach.induct)
  case s_begin
  then show ?case using assms(2) by (simp add: fresh_thread_def getCount_def mk_latch_def thread_local_init_def)
next
  case (s_create s cs t)
  then show ?case by (auto simp: start_create_def Let_def)
next
  case (s_tid s t l)
  then show ?case using assms(3) by (auto simp: run_tid_def CurrentThread_tid_def cacheTid_def Let_def)
next
  case (s_count s)
  then show ?case by (auto simp: run_count_def countDown_def getCount_def Let_def)
next
  case (s_name s)
  then show ?case by (auto simp: run_name_def running_name_def)
next
  case (s_func s l)
  then show ?case by (auto simp: run_func_def)
next
  case (s_started s t)
  then show ?case by (auto simp: start_finish_def latch_wait_def getCount_def split: if_splits)
qed

text \<open>Starting a thread: in every interleaving of the caller and the new thread, the assertion of \<open>start\<close> holds when
  the latch lets the caller go on, \<open>tid_\<close> is the id of the new thread from then on, the function runs under the name of the object,
  and while the caller waits the new thread is still to count the latch down.\<close>

theorem thread_start:
  assumes "start_reach gettid t0 s" "fresh_thread t0" "0 < gettid"
  shows "(parent s = P_waiting \<and> latch_wait (thread_latch (obj s)) \<longrightarrow> start_finish (obj s) = Some (obj s)) \<and>
    (parent s = P_waiting \<and> \<not> latch_wait (thread_latch (obj s)) \<longrightarrow> child s \<in> {C_new, C_known}) \<and>
    (parent s = P_started \<longrightarrow> thread_tid (obj s) = gettid) \<and>
    (child s = C_running \<longrightarrow> t_threadName (locals s) = running_name (thread_name t0))"
  using start_inv [OF assms] assms(3)
  by (cases "child s") (auto simp: start_finish_def latch_wait_def getCount_def)

lemma thread_start_reach:
  "start_reach 7 (snd (mk_thread 0 ''worker''))
     \<lparr>obj = (snd (mk_thread 0 ''worker''))\<lparr>started := True\<rparr>, locals = thread_local_init, parent = P_waiting, child = C_new\<rparr>"
  using s_create [OF s_begin [of 7 "snd (mk_thread 0 ''worker'')"]]
  by (simp add: start_create_def mk_thread_def setDefaultName_def Let_def)

theorem thread_start_witness:
  "\<exists>s. start_reach 7 (snd (mk_thread 0 ''worker'')) s \<and> parent s = P_waiting \<and> child s \<in> {C_new, C_known}"
proof (intro exI conjI)
  let ?t = "snd (mk_thread 0 ''worker'')"
  let ?s = "\<lparr>obj = ?t\<lparr>started := True\<rparr>, locals = thread_local_init, parent = P_waiting, child = C_new\<rparr>"
  have f: "fresh_thread ?t" by (simp add: fresh_thread_def mk_thread_def setDefaultName_def Let_def)
  show "start_reach 7 ?t ?s" by (rule thread_start_reach)
  show "parent ?s = P_waiting" by simp
  have "parent ?s = P_waiting \<and> \<not> latch_wait (thread_latch (obj ?s))"
    by (simp add: latch_wait_def mk_latch_def mk_thread_def setDefaultName_def Let_def)
  then show "child ?s \<in> {C_new, C_known}"
    by (rule mp [OF conjunct1 [OF conjunct2 [OF thread_start [OF thread_start_reach f zero_less_numeral]]]])
qed

subsection \<open>The life of a thread object\<close>

datatype thread_call = Start | Join

fun thread_calls :: "thread_call list \<Rightarrow> thread \<Rightarrow> (pthread_call list \<times> thread) option" where
  "thread_calls [] t = Some ([], t)"
| "thread_calls (Start # cs) t = do { (e, t) \<leftarrow> start_create True t; (es, t) \<leftarrow> thread_calls cs t; Some (e @ es, t) }"
| "thread_calls (Join # cs) t = do { (e, t) \<leftarrow> thread_join t; (es, t) \<leftarrow> thread_calls cs t; Some (e @ es, t) }"

text \<open>A thread that was created is joined or detached exactly once, and only then.\<close>

definition ends :: "pthread_call list \<Rightarrow> nat" where
  "ends es = length (filter (\<lambda>e. e \<noteq> P_create) es)"

lemma thread_calls_life:
  "thread_calls cs t = Some (es, t') \<Longrightarrow> (joined t \<longrightarrow> started t) \<Longrightarrow>
     ends (es @ thread_dtor t') + (if joined t then 1 else 0) = length (filter (\<lambda>e. e = P_create) es) + (if started t then 1 else 0)"
proof (induction cs t arbitrary: es rule: thread_calls.induct)
  case (1 t)
  then show ?case by (auto simp: thread_dtor_def ends_def)
next
  case (2 cs t)
  then show ?case by (auto simp: start_create_def ends_def Let_def)
next
  case (3 cs t)
  then show ?case by (auto simp: thread_join_def ends_def)
qed

subsection \<open>Times\<close>

text \<open>The absolute time of a wait is normalised and the given time after now.\<close>

lemma waitForSeconds_time:
  assumes "0 \<le> nsec" "0 \<le> ns" "waitForSeconds (sec, nsec) ns = (s, n)"
  shows "0 \<le> n" "n < 1000000000" "s * 1000000000 + n = sec * 1000000000 + nsec + ns"
proof -
  have "s = sec + (nsec + ns) div 1000000000" "n = (nsec + ns) mod 1000000000"
    using assms by (simp_all add: waitForSeconds_def Let_def)
  then show "0 \<le> n" "n < 1000000000" "s * 1000000000 + n = sec * 1000000000 + nsec + ns"
    using div_mult_mod_eq [of "nsec + ns" 1000000000] by (simp_all add: algebra_simps)
qed

text \<open>A negative wait that reaches before the current second gives nanoseconds the kernel rejects.\<close>

lemma waitForSeconds_negative: "waitForSeconds (10, 0) (-1) = (10, -1)"
  by (simp add: waitForSeconds_def c_div_def c_mod_def Let_def)

text \<open>After a fork the cached id is the one of the new process.\<close>

lemma afterFork_tid: "gettid \<noteq> 0 \<Longrightarrow> fst (CurrentThread_tid other (afterFork gettid l)) = gettid"
  by (simp add: afterFork_def CurrentThread_tid_def cacheTid_def Let_def)

end
