(* ===== verification/Ex_Sudoku.thy ===== *)
theory Ex_Sudoku
  imports Prelude "HOL-Library.Char_ord"
begin

section \<open>The sudoku solver: \<open>examples/sudoku/sudoku.cpp\<close>\<close>

text \<open>
  Knuth's dancing links. A node is its index in the array \<open>nodes_\<close>, and each field of the nodes is a function from
  nodes; assigning to a field of a node updates that function. A loop over a circular list is \<open>walk\<close>; the
  result \<open>None\<close> is a failed assertion or a loop that never ends.
\<close>

record solver =
  nleft :: "nat \<Rightarrow> nat"
  nright :: "nat \<Rightarrow> nat"
  nup :: "nat \<Rightarrow> nat"
  ndown :: "nat \<Rightarrow> nat"
  ncol :: "nat \<Rightarrow> nat"
  nname :: "nat \<Rightarrow> int"
  nsize :: "nat \<Rightarrow> int"
  root :: nat
  inout :: "int list"
  columns :: "nat \<Rightarrow> nat option"
  stack :: "nat list"
  cur_node :: nat

definition kCells :: nat where [const_defs]: "kCells = 81"
definition kMaxNodes :: nat where [const_defs]: "kMaxNodes = 1 + 81 * 4 + 9 * 9 * 9 * 4"
definition kRow :: nat where [const_defs]: "kRow = 100"
definition kCol :: nat where [const_defs]: "kCol = 200"
definition kBox :: nat where [const_defs]: "kBox = 300"
definition kNoSolution :: string where "kNoSolution = ''NoSolution''"

subsection \<open>Building the matrix\<close>

definition put_left :: "nat \<Rightarrow> nat \<Rightarrow> solver \<Rightarrow> solver" where
  "put_left old nnew s =
     (let s = s\<lparr>nleft := (nleft s)(nnew := nleft s old)\<rparr>;
          s = s\<lparr>nright := (nright s)(nnew := old)\<rparr>;
          s = s\<lparr>nright := (nright s)(nleft s old := nnew)\<rparr>
      in s\<lparr>nleft := (nleft s)(old := nnew)\<rparr>)"

definition put_up :: "nat \<Rightarrow> nat \<Rightarrow> solver \<Rightarrow> solver" where
  "put_up old nnew s =
     (let s = s\<lparr>nup := (nup s)(nnew := nup s old)\<rparr>;
          s = s\<lparr>ndown := (ndown s)(nnew := old)\<rparr>;
          s = s\<lparr>ndown := (ndown s)(nup s old := nnew)\<rparr>;
          s = s\<lparr>nup := (nup s)(old := nnew)\<rparr>;
          s = s\<lparr>nsize := (nsize s)(old := nsize s old + 1)\<rparr>
      in s\<lparr>ncol := (ncol s)(nnew := old)\<rparr>)"

text \<open>The fields of a fresh node, all links to itself.\<close>

definition fresh_node :: "nat \<Rightarrow> nat \<Rightarrow> nat \<Rightarrow> solver \<Rightarrow> solver" where
  "fresh_node x c n s =
     s\<lparr>nleft := (nleft s)(x := x), nright := (nright s)(x := x), nup := (nup s)(x := x), ndown := (ndown s)(x := x),
       ncol := (ncol s)(x := c), nname := (nname s)(x := int n), nsize := (nsize s)(x := 0)\<rparr>"

definition new_column :: "nat \<Rightarrow> solver \<Rightarrow> (nat \<times> solver) option" where
  "new_column n s =
     assert_then (cur_node s < kMaxNodes)
      (let c = cur_node s; s = s\<lparr>cur_node := cur_node s + 1\<rparr> in Some (c, fresh_node c c n s))"

definition append_column :: "nat \<Rightarrow> solver \<Rightarrow> solver option" where
  "append_column n s =
     assert_then (columns s n = None)
      (do { (c, s) \<leftarrow> new_column n s;
            let s = put_left (root s) c s;
            Some (s\<lparr>columns := (columns s)(n \<mapsto> c)\<rparr>) })"

definition new_row :: "nat \<Rightarrow> solver \<Rightarrow> (nat \<times> solver) option" where
  "new_row n s =
     (case columns s n of
        None \<Rightarrow> None
      | Some c \<Rightarrow>
          assert_then (cur_node s < kMaxNodes)
           (let r = cur_node s; s = s\<lparr>cur_node := cur_node s + 1\<rparr>;
                s = fresh_node r c n s
            in Some (r, put_up (ncol s r) r s)))"

definition get_row_col :: "nat \<Rightarrow> nat \<Rightarrow> nat" where "get_row_col row val = kRow + row * 10 + val"
definition get_col_col :: "nat \<Rightarrow> nat \<Rightarrow> nat" where "get_col_col col val = kCol + col * 10 + val"
definition get_box_col :: "nat \<Rightarrow> nat \<Rightarrow> nat" where "get_box_col box val = kBox + box * 10 + val"

definition row_of :: "nat \<Rightarrow> nat" where "row_of i = i div 9"
definition col_of :: "nat \<Rightarrow> nat" where "col_of i = i mod 9"
definition box_of :: "nat \<Rightarrow> nat" where "box_of i = row_of i div 3 * 3 + col_of i div 3"

text \<open>The tables \<open>rows\<close>, \<open>cols\<close> and \<open>boxes\<close> of the constructor: the values the given cells use.\<close>

type_synonym used = "nat \<Rightarrow> nat \<Rightarrow> bool"

definition mark :: "nat \<Rightarrow> nat \<Rightarrow> used \<Rightarrow> used" where "mark r v u = u(r := (u r)(v := True))"

definition mark_used :: "int list \<Rightarrow> used \<times> used \<times> used" where
  "mark_used board =
     fold (\<lambda>i (rows, cols, boxes). let v = nat (board ! i) in (mark (row_of i) v rows, mark (col_of i) v cols, mark (box_of i) v boxes))
       [0..<kCells] (\<lambda>_ _. False, \<lambda>_ _. False, \<lambda>_ _. False)"

fun for_each :: "('x \<Rightarrow> 's \<Rightarrow> 's option) \<Rightarrow> 'x list \<Rightarrow> 's \<Rightarrow> 's option" where
  "for_each f [] s = Some s"
| "for_each f (x # xs) s = do { s \<leftarrow> f x s; for_each f xs s }"

definition append_cell :: "nat \<Rightarrow> solver \<Rightarrow> solver option" where
  "append_cell i s = (if inout s ! i = 0 then append_column i s else Some s)"

definition append_value :: "used \<times> used \<times> used \<Rightarrow> nat \<times> nat \<Rightarrow> solver \<Rightarrow> solver option" where
  "append_value u iv s =
     (let (rows, cols, boxes) = u; (i, v) = iv in
      do { s \<leftarrow> (if \<not> rows i v then append_column (get_row_col i v) s else Some s);
           s \<leftarrow> (if \<not> cols i v then append_column (get_col_col i v) s else Some s);
           if \<not> boxes i v then append_column (get_box_col i v) s else Some s })"

definition add_row :: "used \<times> used \<times> used \<Rightarrow> nat \<times> nat \<Rightarrow> solver \<Rightarrow> solver option" where
  "add_row u iv s =
     (let (rows, cols, boxes) = u; (i, v) = iv; row = row_of i; col = col_of i; box = box_of i in
      if inout s ! i = 0 \<and> \<not> (rows row v \<or> cols col v \<or> boxes box v)
      then do { (n0, s) \<leftarrow> new_row i s;
                (nr, s) \<leftarrow> new_row (get_row_col row v) s;
                (nc, s) \<leftarrow> new_row (get_col_col col v) s;
                (nb, s) \<leftarrow> new_row (get_box_col box v) s;
                Some (put_left n0 nb (put_left n0 nc (put_left n0 nr s))) }
      else Some s)"

definition empty_solver :: "int list \<Rightarrow> solver" where
  "empty_solver board = \<lparr>nleft = id, nright = id, nup = id, ndown = id, ncol = id, nname = (\<lambda>_. 0), nsize = (\<lambda>_. 0),
     root = 0, inout = board, columns = (\<lambda>_. None), stack = [], cur_node = 0\<rparr>"

definition SudokuSolver :: "int list \<Rightarrow> solver option" where
  "SudokuSolver board =
     do { (r, s) \<leftarrow> new_column 0 (empty_solver board);
          let s = s\<lparr>root := r, nleft := (nleft s)(r := r), nright := (nright s)(r := r), columns := (\<lambda>_. None)\<rparr>;
          let u = mark_used board;
          s \<leftarrow> for_each append_cell [0..<kCells] s;
          s \<leftarrow> for_each (append_value u) (List.product [0..<9] [1..<10]) s;
          for_each (add_row u) (List.product [0..<kCells] [1..<10]) s }"

subsection \<open>Covering columns\<close>

partial_function (option) walk :: "(solver \<Rightarrow> nat \<Rightarrow> nat) \<Rightarrow> nat \<Rightarrow> (nat \<Rightarrow> solver \<Rightarrow> solver option) \<Rightarrow> nat \<Rightarrow> solver \<Rightarrow> solver option" where
  "walk step stop body x s =
     (if x = stop then Some s else do { s \<leftarrow> body x s; walk step stop body (step s x) s })"

definition hide_column :: "nat \<Rightarrow> solver \<Rightarrow> solver" where
  "hide_column c s =
     (let s = s\<lparr>nleft := (nleft s)(nright s c := nleft s c)\<rparr>
      in s\<lparr>nright := (nright s)(nleft s c := nright s c)\<rparr>)"

definition show_column :: "nat \<Rightarrow> solver \<Rightarrow> solver" where
  "show_column c s =
     (let s = s\<lparr>nleft := (nleft s)(nright s c := c)\<rparr>
      in s\<lparr>nright := (nright s)(nleft s c := c)\<rparr>)"

definition hide_node :: "nat \<Rightarrow> solver \<Rightarrow> solver" where
  "hide_node j s =
     (let s = s\<lparr>nup := (nup s)(ndown s j := nup s j)\<rparr>;
          s = s\<lparr>ndown := (ndown s)(nup s j := ndown s j)\<rparr>
      in s\<lparr>nsize := (nsize s)(ncol s j := nsize s (ncol s j) - 1)\<rparr>)"

definition show_node :: "nat \<Rightarrow> solver \<Rightarrow> solver" where
  "show_node j s =
     (let s = s\<lparr>nsize := (nsize s)(ncol s j := nsize s (ncol s j) + 1)\<rparr>;
          s = s\<lparr>nup := (nup s)(ndown s j := j)\<rparr>
      in s\<lparr>ndown := (ndown s)(nup s j := j)\<rparr>)"

definition cover :: "nat \<Rightarrow> solver \<Rightarrow> solver option" where
  "cover c s =
     (let s = hide_column c s
      in walk ndown c (\<lambda>row s. walk nright row (\<lambda>j s. Some (hide_node j s)) (nright s row) s) (ndown s c) s)"

definition uncover :: "nat \<Rightarrow> solver \<Rightarrow> solver option" where
  "uncover c s =
     do { s \<leftarrow> walk nup c (\<lambda>row s. walk nleft row (\<lambda>j s. Some (show_node j s)) (nleft s row) s) (nup s c) s;
          Some (show_column c s) }"

partial_function (option) min_loop :: "solver \<Rightarrow> nat \<Rightarrow> nat \<Rightarrow> int \<Rightarrow> nat option" where
  "min_loop s cc c min_size =
     (if cc = root s then Some c
      else if min_size > nsize s cc
      then if nsize s cc \<le> 1 then Some cc else min_loop s (nright s cc) cc (nsize s cc)
      else min_loop s (nright s cc) c min_size)"

definition get_min_column :: "solver \<Rightarrow> nat option" where
  "get_min_column s =
     (let c = nright s (root s); min_size = nsize s c
      in if min_size > 1 then min_loop s (nright s c) c min_size else Some c)"

subsection \<open>Searching\<close>

text \<open>The cell and the value of a row of the matrix, from the names of its nodes.\<close>

partial_function (option) read_row :: "solver \<Rightarrow> nat \<Rightarrow> int \<Rightarrow> int \<Rightarrow> (int \<times> int) option" where
  "read_row s n cell val =
     (if cell = -1 \<or> val = -1
      then if nname s n < 100 then read_row s (nright s n) (nname s n) val
           else read_row s (nright s n) cell (nname s n mod 10)
      else Some (cell, val))"

definition write_out :: "solver \<Rightarrow> solver option" where
  "write_out s =
     for_each (\<lambda>n s. do { (cell, val) \<leftarrow> read_row s n (-1) (-1); Some (s\<lparr>inout := (inout s)[nat cell := val]\<rparr>) }) (stack s) s"

text \<open>\<open>solve\<close> and its loop over the rows of the chosen column: \<open>None\<close> is the entry of \<open>solve\<close>,
  \<open>Some (col, row)\<close> the head of the loop.\<close>

partial_function (option) search :: "(nat \<times> nat) option \<Rightarrow> solver \<Rightarrow> (bool \<times> solver) option" where
  "search at s =
     (case at of
        None \<Rightarrow>
          if nleft s (root s) = root s then do { s \<leftarrow> write_out s; Some (True, s) }
          else do { col \<leftarrow> get_min_column s; s \<leftarrow> cover col s; search (Some (col, ndown s col)) s }
      | Some (col, row) \<Rightarrow>
          if row = col then do { s \<leftarrow> uncover col s; Some (False, s) }
          else do {
            s \<leftarrow> walk nright row (\<lambda>j s. cover (ncol s j) s) (nright s row) (s\<lparr>stack := stack s @ [row]\<rparr>);
            (found, s) \<leftarrow> search None s;
            if found then Some (True, s)
            else do {
              s \<leftarrow> (let s = s\<lparr>stack := butlast (stack s)\<rparr>
                     in walk nleft row (\<lambda>j s. uncover (ncol s j) s) (nleft s row) s);
              search (Some (col, ndown s row)) s } })"

definition solve :: "solver \<Rightarrow> (bool \<times> solver) option" where
  "solve s = search None s"

text \<open>A \<open>char\<close> is signed.\<close>

definition char_int :: "char \<Rightarrow> int" where
  "char_int c = (let n = of_char c in if n < 128 then n else n - 256)"

definition solveSudoku :: "string \<Rightarrow> string option" where
  "solveSudoku puzzle =
     assert_then (length puzzle = kCells)
      (let board = map (\<lambda>c. char_int c - 48) puzzle;
           valid = list_all (\<lambda>b. 0 \<le> b \<and> b \<le> 9) board
       in if valid
          then do { s \<leftarrow> SudokuSolver board;
                    (found, s) \<leftarrow> solve s;
                    Some (if found then map (\<lambda>b. char_of (nat (b + 48))) (inout s) else kNoSolution) }
          else Some kNoSolution)"

end
