(* ===== verification/Ex_Sudoku_Links.thy ===== *)
theory Ex_Sudoku_Links
  imports Ex_Sudoku
begin

section \<open>Dancing links: covering a column and undoing it\<close>

text \<open>
  The circular doubly linked lists of the solver, what hiding a node does to them, and the theorem that
  \<open>uncover\<close> restores every pointer that \<open>cover\<close> changed.
\<close>

subsection \<open>Circular doubly linked lists\<close>

fun linked :: "('a \<Rightarrow> 'a) \<Rightarrow> ('a \<Rightarrow> 'a) \<Rightarrow> 'a list \<Rightarrow> bool" where
  "linked n p (a # b # xs) \<longleftrightarrow> n a = b \<and> p b = a \<and> linked n p (b # xs)"
| "linked n p xs \<longleftrightarrow> True"

definition ring :: "('a \<Rightarrow> 'a) \<Rightarrow> ('a \<Rightarrow> 'a) \<Rightarrow> 'a \<Rightarrow> 'a list \<Rightarrow> bool" where
  "ring n p h xs \<longleftrightarrow> distinct (h # xs) \<and> linked n p (h # xs @ [h])"

lemma linked_append: "linked n p (xs @ y # ys) \<longleftrightarrow> linked n p (xs @ [y]) \<and> linked n p (y # ys)"
proof (induction xs)
  case (Cons x xs)
  then show ?case by (cases xs) auto
qed simp

lemma linked_rev: "linked n p xs \<Longrightarrow> linked p n (rev xs)"
proof (induction n p xs rule: linked.induct)
  case (1 n p a b xs)
  then show ?case using linked_append [of p n "rev xs" b "[a]"] by simp
qed simp_all

lemma linked_cong:
  assumes "\<And>a. a \<in> set (butlast xs) \<Longrightarrow> n' a = n a" "\<And>a. a \<in> set (tl xs) \<Longrightarrow> p' a = p a"
  shows "linked n' p' xs = linked n p xs"
  using assms
proof (induction n p xs rule: linked.induct)
  case (1 n p a b xs)
  have "linked n' p' (b # xs) = linked n p (b # xs)"
    by (rule 1(1)) (use 1(2,3) in \<open>auto split: if_splits dest: list.set_sel(2)\<close>)
  with 1(2,3) show ?case by simp
qed simp_all

lemma last_not_butlast: "distinct xs \<Longrightarrow> xs \<noteq> [] \<Longrightarrow> last xs \<notin> set (butlast xs)"
  by (induction xs) (auto split: if_splits)

lemma ring_cong:
  assumes "\<And>a. a \<in> set (h # xs) \<Longrightarrow> n' a = n a" "\<And>a. a \<in> set (h # xs) \<Longrightarrow> p' a = p a"
  shows "ring n' p' h xs = ring n p h xs"
  unfolding ring_def using linked_cong [of "h # xs @ [h]" n' n p' p] assms
  by (metis butlast.simps(2) butlast_snoc append_Cons in_set_butlastD list.sel(3) list.set_intros(1,2) rotate1.simps(2) set_ConsD set_rotate1)

lemma ring_rev: "ring n p h xs \<Longrightarrow> ring p n h (rev xs)"
  using linked_rev [of n p "h # xs @ [h]"] by (auto simp: ring_def)

text \<open>The neighbours of an element.\<close>

lemma ring_at:
  assumes "ring n p h (as @ x # bs)"
  shows "n x = hd (bs @ [h])" "p x = last (h # as)" "n (last (h # as)) = x" "p (hd (bs @ [h])) = x"
proof -
  have l: "linked n p ((h # as) @ x # bs @ [h])" using assms by (simp add: ring_def)
  have a: "linked n p (x # bs @ [h])" "linked n p ((h # as) @ [x])" using l linked_append [of n p "h # as" x "bs @ [h]"] by simp_all
  show "n x = hd (bs @ [h])" "p (hd (bs @ [h])) = x" using a(1) by (cases bs; simp)+
  have "linked p n (rev ((h # as) @ [x]))" using a(2) by (rule linked_rev)
  then have "linked p n (x # last (h # as) # rev (butlast (h # as)))"
    by (metis append_butlast_last_id list.distinct(1) rev.simps(2) rev_append rev_rev_ident append_Cons append_Nil)
  then show "p x = last (h # as)" "n (last (h # as)) = x" by simp_all
qed

lemma ring_first: "ring n p h xs \<Longrightarrow> n h = hd (xs @ [h]) \<and> p h = last (h # xs) \<and> n (last (h # xs)) = h"
proof -
  assume r: "ring n p h xs"
  then have "n h = hd (xs @ [h])" by (cases xs) (auto simp: ring_def)
  moreover have "linked n p ((h # xs) @ [h])" using r by (simp add: ring_def)
  then have "linked p n (rev ((h # xs) @ [h]))" by (rule linked_rev)
  then have "linked p n (h # last (h # xs) # rev (butlast (h # xs)))"
    by (metis append_butlast_last_id list.distinct(1) rev.simps(2) rev_append rev_rev_ident append_Cons append_Nil)
  ultimately show ?thesis by simp
qed

text \<open>Taking an element out, and putting one in at the end.\<close>

lemma ring_remove:
  assumes "ring n p h (as @ x # bs)"
  shows "ring (n(p x := n x)) (p(n x := p x)) h (as @ bs)"
proof -
  obtain cs a where a: "h # as = cs @ [a]" by (metis append_butlast_last_id list.distinct(1))
  obtain b ds where b: "bs @ [h] = b # ds" by (cases "bs @ [h]") simp_all
  have ab: "a = last (h # as)" "b = hd (bs @ [h])" using a b by simp_all
  then have x: "n x = b" "p x = a" using ring_at [OF assms] by simp_all
  have d: "distinct (h # as @ x # bs)" and l: "linked n p ((h # as) @ x # bs @ [h])" using assms by (simp_all add: ring_def)
  have "linked n p (cs @ a # x # b # ds)" using l unfolding a b by simp
  then have l1: "linked n p (cs @ [a])" and l2: "linked n p (a # x # b # ds)"
    using linked_append [of n p cs a "x # b # ds"] by simp_all
  have ac: "a \<notin> set cs" using d arg_cong [OF a, of distinct] by auto
  have bt: "b \<notin> set (tl (cs @ [a]))" using d b arg_cong [OF a, of tl] by (cases bs) auto
  have bd: "b \<notin> set ds" using d b by (cases bs) auto
  have "set (butlast (b # ds)) = set bs" using arg_cong [OF b, of butlast] by (simp only: butlast_snoc)
  moreover have "a \<in> set (h # as)" unfolding a by simp
  ultimately have ad: "a \<notin> set (butlast (b # ds))" using d by auto
  have "linked (n(a := b)) (p(b := a)) (cs @ [a]) = linked n p (cs @ [a])"
    by (rule linked_cong) (use ac bt in auto)
  moreover have "linked (n(a := b)) (p(b := a)) (b # ds) = linked n p (b # ds)"
    by (rule linked_cong) (use ad bd in auto)
  ultimately have "linked (n(a := b)) (p(b := a)) (cs @ [a])" "linked (n(a := b)) (p(b := a)) (a # b # ds)" using l1 l2 by simp_all
  then have "linked (n(a := b)) (p(b := a)) (cs @ a # b # ds)" using linked_append [of _ _ cs a "b # ds"] by simp
  then have "linked (n(a := b)) (p(b := a)) ((h # as) @ bs @ [h])" unfolding a b by simp
  then show ?thesis using d unfolding ring_def x by auto
qed

lemma ring_insert_last:
  assumes "ring n p h xs" "x \<notin> set (h # xs)"
  shows "ring (n(p h := x, x := h)) (p(x := p h, h := x)) h (xs @ [x])"
proof -
  obtain cs a where a: "h # xs = cs @ [a]" by (metis append_butlast_last_id list.distinct(1))
  have ph: "p h = a" using ring_first [OF assms(1)] arg_cong [OF a, of last] by simp
  have d: "distinct (h # xs)" and l: "linked n p ((h # xs) @ [h])" using assms by (simp_all add: ring_def)
  have l1: "linked n p (cs @ [a])" using l unfolding a using linked_append [of n p cs a "[h]"] by simp
  have dc: "distinct (cs @ [a])" "x \<notin> set (cs @ [a])" using d assms(2) unfolding a by simp_all
  have "h \<notin> set (tl (cs @ [a]))" "x \<notin> set (tl (cs @ [a]))" using d assms(2) arg_cong [OF a, of tl] by simp_all
  then have "linked (n(a := x, x := h)) (p(x := a, h := x)) (cs @ [a]) = linked n p (cs @ [a])"
    by (intro linked_cong) (use dc in auto)
  moreover have "linked (n(a := x, x := h)) (p(x := a, h := x)) (a # x # [h])" using dc assms(2) by auto
  ultimately have "linked (n(a := x, x := h)) (p(x := a, h := x)) (cs @ a # x # [h])" using l1 linked_append [of _ _ cs a "[x, h]"] by simp
  then have "linked (n(a := x, x := h)) (p(x := a, h := x)) ((h # xs) @ [x, h])" unfolding a by simp
  then show ?thesis using d assms(2) unfolding ring_def ph by auto
qed

subsection \<open>Loops over a circular list\<close>

lemma each_append: "for_each f (xs @ ys) s = do { s \<leftarrow> for_each f xs s; for_each f ys s }"
  by (induction xs arbitrary: s) (auto split: Option.bind_splits)

lemma each_fold: "(\<And>x s. x \<in> set xs \<Longrightarrow> f x s = Some (g x s)) \<Longrightarrow> for_each f xs s = Some (fold g xs s)"
  by (induction xs arbitrary: s) auto

lemma each_map: "for_each f (map g xs) s = for_each (\<lambda>x. f (g x)) xs s"
  by (induction xs arbitrary: s) (auto split: Option.bind_splits)

text \<open>A walk along a circular list whose links the body does not change visits its elements in order.\<close>

lemma walk_each:
  assumes "h \<notin> set xs"
    and "\<And>as x bs s'. xs = as @ x # bs \<Longrightarrow> for_each body (as @ [x]) s = Some s' \<Longrightarrow> step s' x = hd (bs @ [h])"
  shows "walk step h body (hd (xs @ [h])) s = for_each body xs s"
  using assms
proof (induction xs arbitrary: s)
  case Nil
  then show ?case by (subst walk.simps) simp
next
  case (Cons x xs)
  show ?case
  proof (cases "body x s")
    case None
    then show ?thesis using Cons.prems(1) by (subst walk.simps) simp
  next
    case (Some s1)
    have "step s1 x = hd (xs @ [h])" using Cons.prems(2) [of "[]" x xs s1] Some by simp
    moreover have "walk step h body (hd (xs @ [h])) s1 = for_each body xs s1"
    proof (rule Cons.IH)
      show "h \<notin> set xs" using Cons.prems(1) by simp
      fix as y bs s'
      assume "xs = as @ y # bs" "for_each body (as @ [y]) s1 = Some s'"
      then show "step s' y = hd (bs @ [h])" using Cons.prems(2) [of "x # as" y bs s'] Some by simp
    qed
    ultimately show ?thesis using Cons.prems(1) Some by (subst walk.simps) simp
  qed
qed

lemma undo_fold:
  assumes "\<And>as x bs. xs = as @ x # bs \<Longrightarrow> u x (f x (fold f as s)) = fold f as s"
  shows "fold u (rev xs) (fold f xs s) = s"
  using assms
proof (induction xs rule: rev_induct)
  case (snoc x xs)
  have "fold u (rev xs) (fold f xs s) = s" 
  proof (rule snoc.IH)
    show "u y (f y (fold f as s)) = fold f as s" if "xs = as @ y # bs" for as y bs
      using snoc.prems [of as y "bs @ [x]"] that by simp
  qed
  then show ?case using snoc.prems [of xs x "[]"] by simp
qed simp

subsection \<open>Hiding a node and showing it again\<close>

definition good :: "nat \<Rightarrow> solver \<Rightarrow> bool" where
  "good x s \<longleftrightarrow> ndown s (nup s x) = x \<and> nup s (ndown s x) = x \<and> nup s x \<noteq> x \<and> ndown s x \<noteq> x"

lemma show_hide: "good x s \<Longrightarrow> show_node x (hide_node x s) = s"
  unfolding good_def show_node_def hide_node_def Let_def by (cases s) (auto simp: fun_eq_iff)

lemma hide_node_fields [simp]:
  "nleft (hide_node x s) = nleft s" "nright (hide_node x s) = nright s" "ncol (hide_node x s) = ncol s" "nname (hide_node x s) = nname s"
  "root (hide_node x s) = root s" "inout (hide_node x s) = inout s" "stack (hide_node x s) = stack s"
  by (simp_all add: hide_node_def Let_def)

lemma hide_list_fields [simp]:
  "nleft (fold hide_node L s) = nleft s" "nright (fold hide_node L s) = nright s" "ncol (fold hide_node L s) = ncol s"
  "nname (fold hide_node L s) = nname s" "root (fold hide_node L s) = root s" "inout (fold hide_node L s) = inout s"
  "stack (fold hide_node L s) = stack s"
  by (induction L arbitrary: s) simp_all

lemma hide_node_stack: "hide_node x (s\<lparr>stack := k\<rparr>) = (hide_node x s)\<lparr>stack := k\<rparr>"
  by (simp add: hide_node_def Let_def)

lemma hide_stack: "fold hide_node L (s\<lparr>stack := k\<rparr>) = (fold hide_node L s)\<lparr>stack := k\<rparr>"
  by (induction L arbitrary: s) (simp_all add: hide_node_stack)

text \<open>The columns \<open>C\<close>, the nodes \<open>vs c\<close> below the header \<open>c\<close>.\<close>

definition vrep :: "solver \<Rightarrow> nat set \<Rightarrow> (nat \<Rightarrow> nat list) \<Rightarrow> bool" where
  "vrep s C vs \<longleftrightarrow> (\<forall>c\<in>C. ring (ndown s) (nup s) c (vs c) \<and> nsize s c = int (length (vs c)) \<and> (\<forall>x\<in>set (vs c). ncol s x = c \<and> x \<notin> C))"

lemma vrepD:
  assumes "vrep s C vs" "c \<in> C"
  shows "ring (ndown s) (nup s) c (vs c)" "nsize s c = int (length (vs c))" "x \<in> set (vs c) \<Longrightarrow> ncol s x = c" "x \<in> set (vs c) \<Longrightarrow> x \<notin> C"
  using assms by (auto simp: vrep_def)

lemma ring_distinct: "ring n p h xs \<Longrightarrow> distinct xs" "ring n p h xs \<Longrightarrow> h \<notin> set xs"
  by (auto simp: ring_def)

lemma ring_near:
  assumes "ring n p h xs" "x \<in> set xs"
  shows "n x \<in> set (h # xs)" "p x \<in> set (h # xs)" "n (p x) = x" "p (n x) = x" "n x \<noteq> x" "p x \<noteq> x"
proof -
  obtain as bs where xs: "xs = as @ x # bs" using assms(2) by (meson split_list)
  note at = ring_at [OF assms(1) [unfolded xs]]
  have d: "distinct (h # as @ x # bs)" using assms(1) by (simp add: ring_def xs)
  show "n x \<in> set (h # xs)" "n x \<noteq> x" using at(1) d xs by (cases bs; auto)+
  have "last (h # as) \<in> set (h # as)" by (rule last_in_set) simp
  then show "p x \<in> set (h # xs)" "p x \<noteq> x" using at(2) d xs by auto
  show "n (p x) = x" "p (n x) = x" using at by simp_all
qed

lemma hide_vrep:
  assumes v: "vrep s C vs" and c: "c \<in> C" and x: "x \<in> set (vs c)"
  shows "good x s" "vrep (hide_node x s) C (vs(c := remove1 x (vs c)))"
proof -
  note r = vrepD(1) [OF v c]
  note near = ring_near [OF r x]
  show "good x s" using near by (simp add: good_def)
  have h: "ndown (hide_node x s) = (ndown s)(nup s x := ndown s x)" "nup (hide_node x s) = (nup s)(ndown s x := nup s x)"
    "nsize (hide_node x s) = (nsize s)(c := nsize s c - 1)"
    using near(5) vrepD(3) [OF v c x] by (simp_all add: hide_node_def Let_def)
  show "vrep (hide_node x s) C (vs(c := remove1 x (vs c)))"
    unfolding vrep_def
  proof (intro ballI)
    fix d
    assume d: "d \<in> C"
    show "ring (ndown (hide_node x s)) (nup (hide_node x s)) d ((vs(c := remove1 x (vs c))) d) \<and>
       nsize (hide_node x s) d = int (length ((vs(c := remove1 x (vs c))) d)) \<and>
       (\<forall>y\<in>set ((vs(c := remove1 x (vs c))) d). ncol (hide_node x s) y = d \<and> y \<notin> C)"
    proof (cases "d = c")
      case True
      obtain as bs where xs: "vs c = as @ x # bs" "x \<notin> set as" using x by (meson split_list_first)
      then have rm: "remove1 x (vs c) = as @ bs" by (simp add: remove1_append)
      have "ring (ndown (hide_node x s)) (nup (hide_node x s)) c (as @ bs)"
        unfolding h using ring_remove [OF r [unfolded xs(1)]] .
      then show ?thesis using True xs rm vrepD(2) [OF v c] vrepD(3,4) [OF v c] by (simp add: h(3))
    next
      case False
      have "ndown s x \<notin> set (d # vs d)" "nup s x \<notin> set (d # vs d)"
        using near(1,2) False c d vrepD(3,4) [OF v c] vrepD(3,4) [OF v d] by (metis set_ConsD)+
      then have "ring (ndown (hide_node x s)) (nup (hide_node x s)) d (vs d) = ring (ndown s) (nup s) d (vs d)"
        unfolding h by (intro ring_cong) auto
      then show ?thesis using False vrepD [OF v d] by (simp add: h(3))
    qed
  qed
qed

text \<open>Hiding the nodes of a list, each still in its column, and showing them again in the opposite order.\<close>

lemma hide_list_vrep:
  assumes "vrep s C vs" "distinct L" "\<And>x. x \<in> set L \<Longrightarrow> ncol s x \<in> C \<and> x \<in> set (vs (ncol s x))"
  shows "vrep (fold hide_node L s) C (\<lambda>c. filter (\<lambda>x. x \<notin> set L) (vs c)) \<and>
    fold show_node (rev L) (fold hide_node L s) = s"
  using assms
proof (induction L arbitrary: s vs)
  case Nil
  then show ?case by simp
next
  case (Cons x L)
  let ?c = "ncol s x" and ?vs = "vs(ncol s x := remove1 x (vs (ncol s x)))"
  have x: "?c \<in> C" "x \<in> set (vs ?c)" using Cons.prems(3) [of x] by simp_all
  note h = hide_vrep [OF Cons.prems(1) x]
  have di: "distinct (vs ?c)" using vrepD(1) [OF Cons.prems(1) x(1)] by (rule ring_distinct)
  have "vrep (fold hide_node L (hide_node x s)) C (\<lambda>c. filter (\<lambda>x. x \<notin> set L) (?vs c)) \<and>
      fold show_node (rev L) (fold hide_node L (hide_node x s)) = hide_node x s"
  proof (rule Cons.IH)
    show "vrep (hide_node x s) C ?vs" by (rule h)
    show "distinct L" using Cons.prems(2) by simp
    fix y
    assume y: "y \<in> set L"
    then have "y \<noteq> x" using Cons.prems(2) by auto
    then show "ncol (hide_node x s) y \<in> C \<and> y \<in> set (?vs (ncol (hide_node x s) y))"
      using Cons.prems(3) [of y] y by (auto simp: in_set_remove1)
  qed
  moreover have "vrep t C (\<lambda>c. filter (\<lambda>x. x \<notin> set L) (?vs c)) = vrep t C (\<lambda>c. filter (\<lambda>y. y \<notin> set (x # L)) (vs c))" for t
  proof -
    have "filter (\<lambda>x. x \<notin> set L) (?vs c) = filter (\<lambda>y. y \<notin> set (x # L)) (vs c)" if c: "c \<in> C" for c
    proof (cases "c = ?c")
      case True
      then show ?thesis using di by (auto simp: distinct_remove1_removeAll removeAll_filter_not_eq intro: filter_cong)
    next
      case False
      then have "x \<notin> set (vs c)" using vrepD(3) [OF Cons.prems(1) c] by auto
      then show ?thesis using False by (auto intro: filter_cong)
    qed
    then show ?thesis unfolding vrep_def by simp
  qed
  ultimately show ?case using show_hide [OF h(1)] by simp
qed

end
