(* ===== verification/Ex_Sudoku_Cover.thy ===== *)
theory Ex_Sudoku_Cover
  imports Ex_Sudoku_Links
begin

section \<open>Covering columns of the matrix\<close>

text \<open>
  The matrix a solver represents: the ring of the active headers \<open>cs\<close>, below each header \<open>c\<close> the nodes \<open>vs c\<close>, and the rows,
  each node \<open>x\<close> of \<open>N\<close> followed by its siblings \<open>sib x\<close>. Covering columns gives the matrix without the rows that meet
  them, and uncovering them in the opposite order gives the same solver back.
\<close>

definition rows_ok :: "solver \<Rightarrow> nat set \<Rightarrow> (nat \<Rightarrow> nat list) \<Rightarrow> bool" where
  "rows_ok s N sib \<longleftrightarrow>
     (\<forall>x\<in>N. ring (nright s) (nleft s) x (sib x) \<and> set (sib x) \<subseteq> N \<and> (\<forall>j\<in>set (sib x). set (j # sib j) = set (x # sib x)) \<and>
       distinct (map (ncol s) (x # sib x)))"

definition rcols :: "(nat \<Rightarrow> nat) \<Rightarrow> (nat \<Rightarrow> nat list) \<Rightarrow> nat \<Rightarrow> nat set" where
  "rcols col sib x = col ` set (x # sib x)"

definition closed_rows :: "solver \<Rightarrow> nat set \<Rightarrow> (nat \<Rightarrow> nat list) \<Rightarrow> nat list \<Rightarrow> (nat \<Rightarrow> nat list) \<Rightarrow> bool" where
  "closed_rows s N sib cs vs \<longleftrightarrow>
     (\<forall>c\<in>set cs. set (vs c) \<subseteq> N \<and> (\<forall>x\<in>set (vs c). \<forall>j\<in>set (sib x). ncol s j \<in> set cs \<and> j \<in> set (vs (ncol s j))))"

definition rep :: "solver \<Rightarrow> nat set \<Rightarrow> (nat \<Rightarrow> nat list) \<Rightarrow> nat list \<Rightarrow> (nat \<Rightarrow> nat list) \<Rightarrow> bool" where
  "rep s N sib cs vs \<longleftrightarrow>
     ring (nright s) (nleft s) (root s) cs \<and> vrep s (set cs) vs \<and> rows_ok s N sib \<and> N \<inter> set (root s # cs) = {} \<and> closed_rows s N sib cs vs"

lemma rowsD:
  assumes "rows_ok s N sib" "x \<in> N"
  shows "ring (nright s) (nleft s) x (sib x)" "j \<in> set (sib x) \<Longrightarrow> j \<in> N" "j \<in> set (sib x) \<Longrightarrow> set (j # sib j) = set (x # sib x)"
    "distinct (map (ncol s) (x # sib x))"
  using assms by (auto simp: rows_ok_def)

lemma repD:
  assumes "rep s N sib cs vs"
  shows "ring (nright s) (nleft s) (root s) cs" "vrep s (set cs) vs" "rows_ok s N sib" "x \<in> N \<Longrightarrow> x \<notin> set (root s # cs)"
    "c \<in> set cs \<Longrightarrow> x \<in> set (vs c) \<Longrightarrow> x \<in> N"
    "c \<in> set cs \<Longrightarrow> x \<in> set (vs c) \<Longrightarrow> j \<in> set (sib x) \<Longrightarrow> ncol s j \<in> set cs \<and> j \<in> set (vs (ncol s j))"
  using assms unfolding rep_def closed_rows_def by (blast+)

lemma rep_stack: "rep (s\<lparr>stack := k\<rparr>) N sib cs vs = rep s N sib cs vs"
  by (simp add: rep_def vrep_def rows_ok_def closed_rows_def)

lemma hide_column_fields [simp]:
  "ndown (hide_column c s) = ndown s" "nup (hide_column c s) = nup s" "nsize (hide_column c s) = nsize s" "ncol (hide_column c s) = ncol s"
  "nname (hide_column c s) = nname s" "root (hide_column c s) = root s" "inout (hide_column c s) = inout s" "stack (hide_column c s) = stack s"
  by (simp_all add: hide_column_def Let_def)

definition covered :: "nat list \<Rightarrow> nat \<Rightarrow> solver \<Rightarrow> solver" where
  "covered L c s = fold hide_node L (hide_column c s)"

lemma covered_fields [simp]:
  "ncol (covered L c s) = ncol s" "nname (covered L c s) = nname s" "root (covered L c s) = root s" "inout (covered L c s) = inout s"
  "stack (covered L c s) = stack s" "nright (covered L c s) = nright (hide_column c s)" "nleft (covered L c s) = nleft (hide_column c s)"
  by (simp_all add: covered_def)

lemma covered_stack: "covered L c (s\<lparr>stack := k\<rparr>) = (covered L c s)\<lparr>stack := k\<rparr>"
proof -
  have "hide_column c (s\<lparr>stack := k\<rparr>) = (hide_column c s)\<lparr>stack := k\<rparr>" by (simp add: hide_column_def Let_def)
  then show ?thesis by (simp add: covered_def hide_stack)
qed

lemma show_node_fields [simp]: "nleft (show_node x s) = nleft s" "nright (show_node x s) = nright s"
  by (simp_all add: show_node_def Let_def)

lemma show_list_fields [simp]: "nleft (fold show_node L s) = nleft s" "nright (fold show_node L s) = nright s"
  by (induction L arbitrary: s) simp_all

subsection \<open>One column\<close>

lemma each_fold_inv:
  assumes "\<And>x t. x \<in> set xs \<Longrightarrow> P t \<Longrightarrow> f x t = Some (g x t) \<and> P (g x t)" "P s"
  shows "for_each f xs s = Some (fold g xs s)"
  using assms by (induction xs arbitrary: s) auto

lemma fold_concat: "fold (\<lambda>x. fold f (g x)) xs s = fold f (concat (map g xs)) s"
  by (induction xs arbitrary: s) auto

lemma walk_row:
  assumes "ring step bk x ys" "nxt t = step" "\<And>j t. nxt (g j t) = nxt t"
  shows "walk nxt x (\<lambda>j t. Some (g j t)) (nxt t x) t = Some (fold g ys t)"
proof -
  have f: "for_each (\<lambda>j t. Some (g j t)) zs t = Some (fold g zs t)" for zs by (rule each_fold) simp
  have n: "nxt (fold g zs t) = step" for zs using assms(2,3) by (induction zs rule: rev_induct) simp_all
  have "walk nxt x (\<lambda>j t. Some (g j t)) (hd (ys @ [x])) t = for_each (\<lambda>j t. Some (g j t)) ys t"
  proof (rule walk_each)
    show "x \<notin> set ys" using assms(1) by (rule ring_distinct)
    fix as y bs t'
    assume "ys = as @ y # bs" "for_each (\<lambda>j t. Some (g j t)) (as @ [y]) t = Some t'"
    then show "nxt t' y = hd (bs @ [x])" using ring_at(1) [of step bk x as y bs] assms(1) f [of "as @ [y]"] n [of "as @ [y]"] by simp
  qed
  then show ?thesis using f ring_first [OF assms(1)] assms(2) by simp
qed

text \<open>The nodes of the rows of a column but those in the column.\<close>

definition hidden :: "(nat \<Rightarrow> nat list) \<Rightarrow> nat list \<Rightarrow> nat list" where
  "hidden sib rows = concat (map sib rows)"

lemma rows_disjoint:
  assumes "rep s N sib cs vs" "c \<in> set cs" "x \<in> set (vs c)" "y \<in> set (vs c)" "j \<in> set (sib x)" "j \<in> set (sib y)"
  shows "x = y"
proof (rule ccontr)
  assume n: "x \<noteq> y"
  note rows = repD(3) [OF assms(1)]
  have N: "x \<in> N" "y \<in> N" using repD(5) [OF assms(1,2)] assms(3,4) by blast+
  have "set (x # sib x) = set (y # sib y)" using rowsD(3) [OF rows N(1) assms(5)] rowsD(3) [OF rows N(2) assms(6)] by simp
  then have "y \<in> set (sib x)" using n by auto
  moreover have "ncol s x = c" "ncol s y = c" using vrepD(3) [OF repD(2) [OF assms(1)] assms(2)] assms(3,4) by blast+
  moreover have "ncol s x \<notin> ncol s ` set (sib x)" using rowsD(4) [OF rows N(1)] by simp
  ultimately show False by (metis image_eqI)
qed

lemma hidden_ok:
  assumes r: "rep s N sib cs vs" and c: "c \<in> set cs"
  shows "distinct (hidden sib (vs c))" "x \<in> set (hidden sib (vs c)) \<Longrightarrow> ncol s x \<in> set cs \<and> x \<in> set (vs (ncol s x)) \<and> ncol s x \<noteq> c"
    "d \<in> set cs \<Longrightarrow> d \<noteq> c \<Longrightarrow> x \<in> set (vs d) \<Longrightarrow> x \<in> set (hidden sib (vs c)) \<longleftrightarrow> c \<in> rcols (ncol s) sib x"
proof -
  note rows = repD(3) [OF r]
  have N: "x \<in> N" "ncol s x = d" if "d \<in> set cs" "x \<in> set (vs d)" for d x
    using repD(5) [OF r that] vrepD(3) [OF repD(2) [OF r] that] by blast+
  have dv: "distinct (vs c)" using ring_distinct(1) [OF vrepD(1) [OF repD(2) [OF r] c]] .
  have "distinct (hidden sib xs)" if "set xs \<subseteq> set (vs c)" "distinct xs" for xs
    using that
  proof (induction xs)
    case (Cons x xs)
    have "x \<in> N" using Cons.prems N(1) [OF c] by auto
    then have "distinct (sib x)" using ring_distinct(1) [OF rowsD(1) [OF rows]] by blast
    moreover have "set (sib x) \<inter> set (sib y) = {}" if "y \<in> set xs" for y
      using rows_disjoint [OF r c, of x y] Cons.prems that by auto
    ultimately show ?case using Cons by (auto simp: hidden_def)
  qed (simp add: hidden_def)
  then show "distinct (hidden sib (vs c))" using dv by blast
  show "ncol s x \<in> set cs \<and> x \<in> set (vs (ncol s x)) \<and> ncol s x \<noteq> c" if x: "x \<in> set (hidden sib (vs c))" for x
  proof -
    obtain y where y: "y \<in> set (vs c)" "x \<in> set (sib y)" using x by (auto simp: hidden_def)
    have "ncol s y \<notin> ncol s ` set (sib y)" using rowsD(4) [OF rows N(1) [OF c y(1)]] by simp
    then have "ncol s x \<noteq> ncol s y" using y(2) by (metis image_eqI)
    then show ?thesis using repD(6) [OF r c y] N(2) [OF c y(1)] by simp
  qed
  show "x \<in> set (hidden sib (vs c)) \<longleftrightarrow> c \<in> rcols (ncol s) sib x" if x: "d \<in> set cs" "d \<noteq> c" "x \<in> set (vs d)"
  proof
    assume "x \<in> set (hidden sib (vs c))"
    then obtain y where y: "y \<in> set (vs c)" "x \<in> set (sib y)" by (auto simp: hidden_def)
    have "y \<in> set (x # sib x)" using rowsD(3) [OF rows N(1) [OF c y(1)] y(2)] by simp
    then show "c \<in> rcols (ncol s) sib x" using N(2) [OF c y(1)] unfolding rcols_def by blast
  next
    assume "c \<in> rcols (ncol s) sib x"
    then obtain y where y: "y \<in> set (x # sib x)" "ncol s y = c" unfolding rcols_def by blast
    have "y \<noteq> x" using y(2) N(2) [OF x(1,3)] x(2) by blast
    then have y': "y \<in> set (sib x)" using y(1) by simp
    then have "y \<in> set (vs c)" using repD(6) [OF r x(1,3) y'] y(2) by simp
    moreover have "x \<in> set (sib y)" using rowsD(3) [OF rows N(1) [OF x(1,3)] y'] \<open>y \<noteq> x\<close> by auto
    ultimately show "x \<in> set (hidden sib (vs c))" by (auto simp: hidden_def)
  qed
qed

lemma show_hide_column:
  assumes "nright s c \<noteq> c" "nleft s c \<noteq> c" "nright s (nleft s c) = c" "nleft s (nright s c) = c"
  shows "show_column c (hide_column c s) = s"
  using assms unfolding show_column_def hide_column_def Let_def by (cases s) (auto simp: fun_eq_iff)

lemma hide_column_links:
  assumes "nright s c \<noteq> c"
  shows "nright (hide_column c s) = (nright s)(nleft s c := nright s c)" "nleft (hide_column c s) = (nleft s)(nright s c := nleft s c)"
  using assms by (simp_all add: hide_column_def Let_def)

lemma hidden_append: "hidden sib (xs @ ys) = hidden sib xs @ hidden sib ys"
  by (simp add: hidden_def)

lemma hidden_rev: "concat (map (\<lambda>x. rev (sib x)) (rev xs)) = rev (hidden sib xs)"
  by (induction xs) (simp_all add: hidden_def)

text \<open>The rings while the rows of a prefix of the column are hidden.\<close>

lemma cover_states:
  assumes r: "rep s N sib cs vs" and c: "c \<in> set cs" and xs: "vs c = xs @ ys"
  defines "st \<equiv> \<lambda>zs. fold hide_node (hidden sib zs) (hide_column c s)"
  shows "vrep (st xs) (set cs) (\<lambda>d. filter (\<lambda>x. x \<notin> set (hidden sib xs)) (vs d))"
    "fold show_node (rev (hidden sib ys)) (st (xs @ ys)) = st xs"
    "ring (ndown (st xs)) (nup (st xs)) c (vs c)"
proof -
  let ?h = "hide_column c s"
  note h = hidden_ok [OF r c, unfolded xs hidden_append]
  have v: "vrep ?h (set cs) vs" using repD(2) [OF r] by (simp add: vrep_def)
  have part: "distinct (hidden sib xs)" "distinct (hidden sib ys)" "set (hidden sib xs) \<inter> set (hidden sib ys) = {}" using h(1) by auto
  show v1: "vrep (st xs) (set cs) (\<lambda>d. filter (\<lambda>x. x \<notin> set (hidden sib xs)) (vs d))"
    unfolding st_def using hide_list_vrep [OF v part(1)] h(2) by simp
  have "fold show_node (rev (hidden sib ys)) (fold hide_node (hidden sib ys) (st xs)) = st xs"
  proof (rule conjunct2 [OF hide_list_vrep [OF v1 part(2)]])
    fix x
    assume "x \<in> set (hidden sib ys)"
    then show "ncol (st xs) x \<in> set cs \<and> x \<in> set (filter (\<lambda>x. x \<notin> set (hidden sib xs)) (vs (ncol (st xs) x)))"
      using h(2) [of x] part(3) by (auto simp: st_def)
  qed
  then show "fold show_node (rev (hidden sib ys)) (st (xs @ ys)) = st xs" by (simp add: st_def hidden_append)
  have "ncol s x = c" if "x \<in> set (vs c)" for x using vrepD(3) [OF repD(2) [OF r] c that] .
  then have "filter (\<lambda>x. x \<notin> set (hidden sib xs)) (vs c) = vs c" using h(2) by (force intro: filter_True)
  then show "ring (ndown (st xs)) (nup (st xs)) c (vs c)" using vrepD(1) [OF v1 c] by simp
qed

lemma header_links:
  assumes r: "rep s N sib cs vs" and c: "c \<in> set cs"
  shows "nright s c \<noteq> c" "nleft s c \<noteq> c" "nright s (nleft s c) = c" "nleft s (nright s c) = c"
    "x \<in> N \<Longrightarrow> ring (nright (hide_column c s)) (nleft (hide_column c s)) x (sib x)"
proof -
  note near = ring_near [OF repD(1) [OF r] c]
  show n: "nright s c \<noteq> c" "nleft s c \<noteq> c" "nright s (nleft s c) = c" "nleft s (nright s c) = c" using near by auto
  assume x: "x \<in> N"
  note row = rowsD(1,2) [OF repD(3) [OF r] x]
  have "nleft s c \<notin> set (x # sib x)" "nright s c \<notin> set (x # sib x)" using near(1,2) row(2) x repD(4) [OF r] by (metis set_ConsD)+
  then have "ring (nright (hide_column c s)) (nleft (hide_column c s)) x (sib x) = ring (nright s) (nleft s) x (sib x)"
    unfolding hide_column_links [OF n(1)] by (intro ring_cong) auto
  then show "ring (nright (hide_column c s)) (nleft (hide_column c s)) x (sib x)" using row(1) by simp
qed

lemma cover_covered:
  assumes r: "rep s N sib cs vs" and c: "c \<in> set cs"
  shows "cover c s = Some (covered (hidden sib (vs c)) c s)"
proof -
  let ?h = "hide_column c s"
  let ?body = "\<lambda>row s. walk nright row (\<lambda>j s. Some (hide_node j s)) (nright s row) s"
  define st where "st zs = fold hide_node (hidden sib zs) ?h" for zs
  have b: "?body x t = Some (fold hide_node (sib x) t)" if "x \<in> set (vs c)" "nright t = nright ?h" for x t
    by (rule walk_row [OF header_links(5) [OF r c repD(5) [OF r c that(1)]]]) (use that in auto)
  have f: "for_each ?body xs ?h = Some (st xs)" if xs: "set xs \<subseteq> set (vs c)" for xs
  proof -
    have "for_each ?body xs ?h = Some (fold (\<lambda>x. fold hide_node (sib x)) xs ?h)"
      by (rule each_fold_inv [where P = "\<lambda>t. nright t = nright ?h"]) (use b xs in auto)
    then show ?thesis by (simp add: st_def hidden_def fold_concat)
  qed
  have ring: "ring (ndown ?h) (nup ?h) c (vs c)" using vrepD(1) [OF repD(2) [OF r] c] by simp
  have "walk ndown c ?body (hd (vs c @ [c])) ?h = for_each ?body (vs c) ?h"
  proof (rule walk_each)
    show "c \<notin> set (vs c)" using ring by (rule ring_distinct)
    fix as x bs s'
    assume xs: "vs c = as @ x # bs" and e: "for_each ?body (as @ [x]) ?h = Some s'"
    have "for_each ?body (as @ [x]) ?h = Some (st (as @ [x]))" by (rule f) (use xs in auto)
    then have "s' = st (as @ [x])" using e by simp
    then have "ring (ndown s') (nup s') c (as @ x # bs)" using cover_states(3) [OF r c, of "as @ [x]" bs] xs by (simp add: st_def)
    then show "ndown s' x = hd (bs @ [c])" by (rule ring_at)
  qed
  then have "walk ndown c ?body (ndown ?h c) ?h = Some (st (vs c))" using ring_first [OF ring] f by simp
  then show ?thesis by (simp add: cover_def Let_def covered_def st_def)
qed

lemma uncover_covered:
  assumes r: "rep s N sib cs vs" and c: "c \<in> set cs"
  shows "uncover c (covered (hidden sib (vs c)) c s) = Some s"
proof -
  let ?h = "hide_column c s"
  let ?body = "\<lambda>row s. walk nleft row (\<lambda>j s. Some (show_node j s)) (nleft s row) s"
  define st where "st zs = fold hide_node (hidden sib zs) ?h" for zs
  define g where "g = st (vs c)"
  have b: "?body x t = Some (fold show_node (rev (sib x)) t)" if "x \<in> set (vs c)" "nleft t = nleft ?h" for x t
    by (rule walk_row [OF ring_rev [OF header_links(5) [OF r c repD(5) [OF r c that(1)]]]]) (use that in auto)
  have f: "for_each ?body (rev ys) g = Some (st xs)" if xs: "vs c = xs @ ys" for xs ys
  proof -
    have "for_each ?body (rev ys) g = Some (fold (\<lambda>x. fold show_node (rev (sib x))) (rev ys) g)"
      by (rule each_fold_inv [where P = "\<lambda>t. nleft t = nleft ?h"]) (use b xs in \<open>auto simp: g_def st_def\<close>)
    also have "fold (\<lambda>x. fold show_node (rev (sib x))) (rev ys) g = fold show_node (rev (hidden sib ys)) (st (xs @ ys))"
      by (simp only: fold_concat hidden_rev g_def xs)
    finally show ?thesis using cover_states(2) [OF r c xs] by (simp add: st_def)
  qed
  have ring: "ring (nup (st xs)) (ndown (st xs)) c (rev (vs c))" if "vs c = xs @ ys" for xs ys
    using ring_rev [OF cover_states(3) [OF r c that]] by (simp add: st_def)
  have ringg: "ring (nup g) (ndown g) c (rev (vs c))" using ring [of "vs c" "[]"] by (simp add: g_def)
  have "walk nup c ?body (hd (rev (vs c) @ [c])) g = for_each ?body (rev (vs c)) g"
  proof (rule walk_each)
    show "c \<notin> set (rev (vs c))" using ringg by (rule ring_distinct)
    fix as x bs s'
    assume xs: "rev (vs c) = as @ x # bs" and e: "for_each ?body (as @ [x]) g = Some s'"
    have ys: "vs c = rev bs @ (x # rev as)" using arg_cong [OF xs, of rev] by simp
    have "s' = st (rev bs)" using f [OF ys] e by simp
    then show "nup s' x = hd (bs @ [c])" using ring_at(1) [OF ring [OF ys, unfolded xs]] by simp
  qed
  then have "walk nup c ?body (nup g c) g = Some (st [])" using ring_first [OF ringg] f [of "[]" "vs c"] by simp
  moreover have "st [] = ?h" by (simp add: st_def hidden_def)
  moreover have "show_column c ?h = s" using header_links [OF r c] by (intro show_hide_column) auto
  moreover have "covered (hidden sib (vs c)) c s = g" by (simp add: covered_def g_def st_def)
  ultimately show ?thesis by (simp add: uncover_def)
qed

text \<open>Covering a column, whatever is on the stack, gives the matrix without the rows that meet it, and uncovering it
  gives the old solver.\<close>

definition unchanged :: "solver \<Rightarrow> solver \<Rightarrow> bool" where
  "unchanged g s \<longleftrightarrow> ncol g = ncol s \<and> nname g = nname s \<and> root g = root s \<and> inout g = inout s \<and> stack g = stack s"

definition without :: "solver \<Rightarrow> (nat \<Rightarrow> nat list) \<Rightarrow> nat set \<Rightarrow> (nat \<Rightarrow> nat list) \<Rightarrow> nat \<Rightarrow> nat list" where
  "without s sib D vs d = filter (\<lambda>x. rcols (ncol s) sib x \<inter> D = {}) (vs d)"

lemma rcols_sib:
  assumes "rows_ok s N sib" "x \<in> N" "j \<in> set (sib x)"
  shows "rcols (ncol s) sib j = rcols (ncol s) sib x"
  using rowsD(3) [OF assms] by (simp only: rcols_def)

lemma cover_rep:
  assumes r: "rep s N sib cs vs" and c: "c \<in> set cs"
  obtains g where "\<And>k. cover c (s\<lparr>stack := k\<rparr>) = Some (g\<lparr>stack := k\<rparr>)" "\<And>k. uncover c (g\<lparr>stack := k\<rparr>) = Some (s\<lparr>stack := k\<rparr>)"
    "rep g N sib (remove1 c cs) (without s sib {c} vs)" "unchanged g s" "ring (ndown g) (nup g) c (vs c)"
proof
  define L where "L = hidden sib (vs c)"
  define g where "g = covered L c s"
  show "cover c (s\<lparr>stack := k\<rparr>) = Some (g\<lparr>stack := k\<rparr>)" "uncover c (g\<lparr>stack := k\<rparr>) = Some (s\<lparr>stack := k\<rparr>)" for k
    using cover_covered [of "s\<lparr>stack := k\<rparr>"] uncover_covered [of "s\<lparr>stack := k\<rparr>"] r c
    by (simp_all add: rep_stack covered_stack g_def L_def)
  show "unchanged g s" by (simp add: unchanged_def g_def)
  have vc: "vs c = vs c @ []" by simp
  note st = cover_states [OF r c vc, folded L_def, folded covered_def, folded g_def]
  show "ring (ndown g) (nup g) c (vs c)" by (rule st)
  have mem: "c \<notin> set (remove1 c cs)" "set (remove1 c cs) \<subseteq> set cs" "d \<in> set cs \<Longrightarrow> d \<noteq> c \<Longrightarrow> d \<in> set (remove1 c cs)" for d
    using ring_distinct(1) [OF repD(1) [OF r]] by auto
  have w: "without s sib {c} vs d = filter (\<lambda>x. x \<notin> set L) (vs d)" if "d \<in> set (remove1 c cs)" for d
    unfolding without_def by (rule filter_cong) (use hidden_ok(3) [OF r c, of d] mem that in \<open>auto simp: L_def\<close>)
  note n = header_links [OF r c]
  note rows = repD(3) [OF r]
  show "rep g N sib (remove1 c cs) (without s sib {c} vs)"
    unfolding rep_def
  proof (intro conjI)
    obtain as bs where cs: "cs = as @ c # bs" "c \<notin> set as" using c by (meson split_list_first)
    have "ring (nright g) (nleft g) (root s) (as @ bs)"
      using ring_remove [OF repD(1) [OF r, unfolded cs(1)]] by (simp add: g_def hide_column_links [OF n(1)])
    then show "ring (nright g) (nleft g) (root g) (remove1 c cs)" using cs by (simp add: remove1_append g_def)
    show "vrep g (set (remove1 c cs)) (without s sib {c} vs)"
      unfolding vrep_def using vrepD [OF st(1)] w mem(2) by (metis subsetD)
    show "rows_ok g N sib" using rows n(5) unfolding rows_ok_def by (simp add: g_def)
    show "N \<inter> set (root g # remove1 c cs) = {}" using repD(4) [OF r] mem(2) by (auto simp: g_def)
    show "closed_rows g N sib (remove1 c cs) (without s sib {c} vs)"
      unfolding closed_rows_def
    proof (intro ballI conjI subsetI)
      fix d x
      assume d: "d \<in> set (remove1 c cs)" and x: "x \<in> set (without s sib {c} vs d)"
      then have d': "d \<in> set cs" and x': "x \<in> set (vs d)" "c \<notin> rcols (ncol s) sib x" using mem(2) by (auto simp: without_def)
      show xN: "x \<in> N" using repD(5) [OF r d' x'(1)] .
      fix j
      assume j: "j \<in> set (sib x)"
      have "ncol s j \<noteq> c" using x'(2) j by (auto simp: rcols_def)
      then show "ncol g j \<in> set (remove1 c cs)" "j \<in> set (without s sib {c} vs (ncol g j))"
        using repD(6) [OF r d' x'(1) j] rcols_sib [OF rows xN j] x'(2) mem(3) by (simp_all add: g_def without_def)
    qed
  qed
qed

subsection \<open>The columns of a row\<close>

lemma unchangedD:
  assumes "unchanged g s"
  shows "ncol g = ncol s" "nname g = nname s" "root g = root s" "inout g = inout s" "stack g = stack s"
  using assms by (simp_all add: unchanged_def)

definition undoes :: "(solver \<Rightarrow> solver option) \<Rightarrow> (solver \<Rightarrow> solver option) \<Rightarrow> solver \<Rightarrow> solver \<Rightarrow> bool" where
  "undoes f u s g \<longleftrightarrow> (\<forall>k. f (s\<lparr>stack := k\<rparr>) = Some (g\<lparr>stack := k\<rparr>) \<and> u (g\<lparr>stack := k\<rparr>) = Some (s\<lparr>stack := k\<rparr>))"

lemma undoesD:
  assumes "undoes f u s g"
  shows "f (s\<lparr>stack := k\<rparr>) = Some (g\<lparr>stack := k\<rparr>)" "u (g\<lparr>stack := k\<rparr>) = Some (s\<lparr>stack := k\<rparr>)"
  using assms by (simp_all add: undoes_def)

lemma undoes_here:
  assumes "undoes f u s g" "unchanged g s"
  shows "f s = Some g" "u g = Some s"
  using undoesD [OF assms(1), of "stack s"] unchangedD(5) [OF assms(2)] by (metis solver.surjective solver.update_convs(11))+

lemma covers_rep:
  assumes "rep s N sib cs vs" "distinct ds" "set ds \<subseteq> set cs"
  shows "\<exists>g. undoes (for_each cover ds) (for_each uncover (rev ds)) s g \<and>
    rep g N sib (filter (\<lambda>c. c \<notin> set ds) cs) (without s sib (set ds) vs) \<and> unchanged g s"
  using assms
proof (induction ds arbitrary: s cs vs)
  case Nil
  have "without s sib {} vs = vs" by (rule ext) (simp add: without_def)
  then show ?case using Nil by (intro exI [of _ s]) (simp add: undoes_def unchanged_def)
next
  case (Cons c ds)
  have c: "c \<in> set cs" using Cons.prems by simp
  obtain g where g: "\<And>k. cover c (s\<lparr>stack := k\<rparr>) = Some (g\<lparr>stack := k\<rparr>)" "\<And>k. uncover c (g\<lparr>stack := k\<rparr>) = Some (s\<lparr>stack := k\<rparr>)"
    "rep g N sib (remove1 c cs) (without s sib {c} vs)" "unchanged g s"
    using cover_rep [OF Cons.prems(1) c] by metis
  have di: "distinct cs" using repD(1) [OF Cons.prems(1)] by (rule ring_distinct)
  have "set ds \<subseteq> set (remove1 c cs)" using Cons.prems(2,3) di by auto
  then obtain g' where g': "undoes (for_each cover ds) (for_each uncover (rev ds)) g g'"
    "rep g' N sib (filter (\<lambda>c. c \<notin> set ds) (remove1 c cs)) (without g sib (set ds) (without s sib {c} vs))" "unchanged g' g"
    using Cons.IH [OF g(3)] Cons.prems(2) by auto
  have "without g sib (set ds) (without s sib {c} vs) = without s sib (set (c # ds)) vs"
    by (rule ext) (auto simp: without_def unchangedD(1) [OF g(4)] intro: filter_cong)
  moreover have "filter (\<lambda>c. c \<notin> set ds) (remove1 c cs) = filter (\<lambda>x. x \<notin> set (c # ds)) cs"
    using di by (auto simp: distinct_remove1_removeAll removeAll_filter_not_eq intro: filter_cong)
  moreover have "undoes (for_each cover (c # ds)) (for_each uncover (rev (c # ds))) s g'"
    using g(1,2) undoesD [OF g'(1)] by (simp add: undoes_def each_append)
  moreover have "unchanged g' s" using g(4) g'(3) by (simp add: unchanged_def)
  ultimately show ?case using g'(2) by metis
qed

lemma each_step:
  assumes "\<And>as x bs t. xs = as @ x # bs \<Longrightarrow> for_each f as s = Some t \<Longrightarrow> f' x t = f x t"
  shows "for_each f' xs s = for_each f xs s"
  using assms
proof (induction xs arbitrary: s)
  case (Cons x xs)
  have "f' x s = f x s" using Cons.prems [of "[]" x xs s] by simp
  moreover have "for_each f' xs t = for_each f xs t" if "f x s = Some t" for t
    by (rule Cons.IH) (use Cons.prems that in \<open>metis append_Cons for_each.simps(2) bind.simps(2)\<close>)
  ultimately show ?case by (cases "f x s") simp_all
qed simp

lemma prefix_covers:
  assumes "rep s N sib cs vs" "distinct (map (ncol s) (as @ bs))" "set (map (ncol s) (as @ bs)) \<subseteq> set cs"
  obtains g where "for_each cover (map (ncol s) as) s = Some g" "rows_ok g N sib" "ncol g = ncol s"
    "for_each uncover (rev (map (ncol s) as)) g = Some s"
    "\<And>e. for_each cover (map (ncol s) (as @ bs)) s = Some e \<Longrightarrow> for_each uncover (rev (map (ncol s) bs)) e = Some g"
proof -
  obtain g where g: "undoes (for_each cover (map (ncol s) as)) (for_each uncover (rev (map (ncol s) as))) s g"
      "rep g N sib (filter (\<lambda>c. c \<notin> set (map (ncol s) as)) cs) (without s sib (set (map (ncol s) as)) vs)" "unchanged g s"
    using covers_rep [OF assms(1), of "map (ncol s) as"] assms(2,3) by auto
  have ss: "set (map (ncol s) bs) \<subseteq> set (filter (\<lambda>c. c \<notin> set (map (ncol s) as)) cs)" using assms(2,3) by auto
  obtain e where e: "undoes (for_each cover (map (ncol s) bs)) (for_each uncover (rev (map (ncol s) bs))) g e" "unchanged e g"
    using covers_rep [OF g(2), of "map (ncol s) bs"] assms(2) ss by auto
  show ?thesis
  proof
    show c: "for_each cover (map (ncol s) as) s = Some g" "for_each uncover (rev (map (ncol s) as)) g = Some s"
      using undoes_here [OF g(1,3)] by simp_all
    show "rows_ok g N sib" "ncol g = ncol s" using repD(3) [OF g(2)] unchangedD(1) [OF g(3)] by simp_all
    fix e'
    assume "for_each cover (map (ncol s) (as @ bs)) s = Some e'"
    then have "e' = e" using c(1) undoes_here [OF e] by (simp add: each_append)
    then show "for_each uncover (rev (map (ncol s) bs)) e' = Some g" using undoes_here [OF e] by simp
  qed
qed

lemma row_distinct:
  assumes "rep s N sib cs vs" "x \<in> N"
  shows "distinct (map (ncol s) (sib x))" "distinct (sib x)" "x \<notin> set (sib x)"
  using rowsD(4) [OF repD(3) [OF assms(1)] assms(2)] ring_distinct [OF rowsD(1) [OF repD(3) [OF assms(1)] assms(2)]] by auto

lemma walk_cover:
  assumes r: "rep s N sib cs vs" and x: "x \<in> N" and cols: "set (map (ncol s) (sib x)) \<subseteq> set cs"
  shows "walk nright x (\<lambda>j s. cover (ncol s j) s) (nright s x) s = for_each cover (map (ncol s) (sib x)) s"
proof -
  let ?f = "\<lambda>j t. cover (ncol t j) t"
  have pre: "\<exists>g. for_each cover (map (ncol s) as) s = Some g \<and> rows_ok g N sib \<and> ncol g = ncol s" if "sib x = as @ bs" for as bs
    using prefix_covers [OF r, of as bs] row_distinct(1) [OF r x] cols that by metis
  have f: "for_each ?f as s = for_each cover (map (ncol s) as) s" if as: "sib x = as @ bs" for as bs
    unfolding each_map
  proof (rule each_step)
    fix as1 y bs1 t
    assume "as = as1 @ y # bs1" "for_each (\<lambda>x. cover (ncol s x)) as1 s = Some t"
    then have "ncol t = ncol s" using pre [of as1 "y # bs1 @ bs"] as by (auto simp: each_map)
    then show "?f y t = cover (ncol s y) t" by simp
  qed
  have "walk nright x ?f (hd (sib x @ [x])) s = for_each ?f (sib x) s"
  proof (rule walk_each)
    show "x \<notin> set (sib x)" using row_distinct(3) [OF r x] .
    fix as y bs s'
    assume xs: "sib x = as @ y # bs" and e: "for_each ?f (as @ [y]) s = Some s'"
    have "rows_ok s' N sib" using pre [of "as @ [y]" bs] f [of "as @ [y]" bs] xs e by auto
    then have "ring (nright s') (nleft s') x (as @ y # bs)" using rowsD(1) [of s' N sib x] x unfolding xs by blast
    then show "nright s' y = hd (bs @ [x])" by (rule ring_at)
  qed
  then show ?thesis using f [of "sib x" "[]"] ring_first [OF rowsD(1) [OF repD(3) [OF r] x]] by simp
qed

lemma walk_uncover:
  assumes r: "rep s N sib cs vs" and x: "x \<in> N" and cols: "set (map (ncol s) (sib x)) \<subseteq> set cs"
    and e: "for_each cover (map (ncol s) (sib x)) s = Some e"
  shows "walk nleft x (\<lambda>j s. uncover (ncol s j) s) (nleft e x) e = Some s"
proof -
  let ?f = "\<lambda>j t. uncover (ncol t j) t"
  have pre: "\<exists>g. for_each uncover (map (ncol s) as) e = Some g \<and> rows_ok g N sib \<and> ncol g = ncol s" if as: "rev (sib x) = as @ bs" for as bs
  proof -
    have s: "sib x = rev bs @ rev as" using arg_cong [OF as, of rev] by simp
    have "distinct (map (ncol s) (rev bs @ rev as))" "set (map (ncol s) (rev bs @ rev as)) \<subseteq> set cs"
      using row_distinct(1) [OF r x] cols s by simp_all
    from prefix_covers [OF r this] obtain g where "rows_ok g N sib" "ncol g = ncol s"
      "\<And>e. for_each cover (map (ncol s) (rev bs @ rev as)) s = Some e \<Longrightarrow> for_each uncover (rev (map (ncol s) (rev as))) e = Some g"
      by metis
    then show ?thesis using e unfolding s by (intro exI [of _ g]) (simp add: rev_map)
  qed
  have f: "for_each ?f as e = for_each uncover (map (ncol s) as) e" if as: "rev (sib x) = as @ bs" for as bs
    unfolding each_map
  proof (rule each_step)
    fix as1 y bs1 t
    assume "as = as1 @ y # bs1" "for_each (\<lambda>x. uncover (ncol s x)) as1 e = Some t"
    then have "ncol t = ncol s" using pre [of as1 "y # bs1 @ bs"] as by (auto simp: each_map)
    then show "?f y t = uncover (ncol s y) t" by simp
  qed
  obtain e1 where "for_each uncover (map (ncol s) []) e = Some e1" "rows_ok e1 N sib" using pre [of "[]" "rev (sib x)"] by auto
  then have rows: "rows_ok e N sib" by simp
  have "walk nleft x ?f (hd (rev (sib x) @ [x])) e = for_each ?f (rev (sib x)) e"
  proof (rule walk_each)
    show "x \<notin> set (rev (sib x))" using row_distinct(3) [OF r x] by simp
    fix as y bs s'
    assume xs: "rev (sib x) = as @ y # bs" and e: "for_each ?f (as @ [y]) e = Some s'"
    have "rows_ok s' N sib" using pre [of "as @ [y]" bs] f [of "as @ [y]" bs] xs e by auto
    then have "ring (nleft s') (nright s') x (as @ y # bs)" using ring_rev [OF rowsD(1) [of s' N sib x]] x unfolding xs by blast
    then show "nleft s' y = hd (bs @ [x])" by (rule ring_at)
  qed
  moreover have "nleft e x = hd (rev (sib x) @ [x])" using ring_first [OF ring_rev [OF rowsD(1) [OF rows x]]] by simp
  moreover have "for_each ?f (rev (sib x)) e = Some s"
  proof -
    have "distinct (map (ncol s) ([] @ sib x))" "set (map (ncol s) ([] @ sib x)) \<subseteq> set cs" using row_distinct(1) [OF r x] cols by simp_all
    from prefix_covers [OF r this] have "for_each uncover (rev (map (ncol s) (sib x))) e = Some s" using e by auto
    then show ?thesis using f [of "rev (sib x)" "[]"] by (simp add: rev_map)
  qed
  ultimately show ?thesis by simp
qed

text \<open>The columns of the other nodes of a row, covered and uncovered as the loop of \<open>solve\<close> does.\<close>

lemma row_covers:
  assumes r: "rep s N sib cs vs" and x: "x \<in> N" and cols: "ncol s ` set (sib x) \<subseteq> set cs"
  obtains g where
    "undoes (\<lambda>s. walk nright x (\<lambda>j s. cover (ncol s j) s) (nright s x) s) (\<lambda>s. walk nleft x (\<lambda>j s. uncover (ncol s j) s) (nleft s x) s) s g"
    "rep g N sib (filter (\<lambda>c. c \<notin> ncol s ` set (sib x)) cs) (without s sib (ncol s ` set (sib x)) vs)" "unchanged g s"
proof -
  have c: "set (map (ncol s) (sib x)) \<subseteq> set cs" using cols by auto
  obtain g where g: "undoes (for_each cover (map (ncol s) (sib x))) (for_each uncover (rev (map (ncol s) (sib x)))) s g"
      "rep g N sib (filter (\<lambda>c. c \<notin> set (map (ncol s) (sib x))) cs) (without s sib (set (map (ncol s) (sib x))) vs)" "unchanged g s"
    using covers_rep [OF r row_distinct(1) [OF r x] c] by auto
  show ?thesis
  proof
    show "undoes (\<lambda>s. walk nright x (\<lambda>j s. cover (ncol s j) s) (nright s x) s) (\<lambda>s. walk nleft x (\<lambda>j s. uncover (ncol s j) s) (nleft s x) s) s g"
      unfolding undoes_def
    proof
      fix k
      let ?s = "s\<lparr>stack := k\<rparr>"
      have rk: "rep ?s N sib cs vs" using r by (simp add: rep_stack)
      have ck: "set (map (ncol ?s) (sib x)) \<subseteq> set cs" using c by simp
      have e: "for_each cover (map (ncol ?s) (sib x)) ?s = Some (g\<lparr>stack := k\<rparr>)" using undoesD(1) [OF g(1), of k] by simp
      show "walk nright x (\<lambda>j s. cover (ncol s j) s) (nright ?s x) ?s = Some (g\<lparr>stack := k\<rparr>) \<and>
          walk nleft x (\<lambda>j s. uncover (ncol s j) s) (nleft (g\<lparr>stack := k\<rparr>) x) (g\<lparr>stack := k\<rparr>) = Some ?s"
        using walk_cover [OF rk x ck] walk_uncover [OF rk x ck e] e by metis
    qed
  qed (use g in simp_all)
qed

end
