(* ===== verification/Ex_Sudoku_Search.thy ===== *)
theory Ex_Sudoku_Search
  imports Ex_Sudoku_Cover
begin

section \<open>The search finds an exact cover when there is one\<close>

text \<open>
  An exact cover of the active columns is a set of nodes, closed under the siblings of a row, with one node in each column.
  \<open>solve\<close> returns \<open>true\<close> with the rows of one on its stack and written to the board, or \<open>false\<close> with the solver as
  it was, when there is none.
\<close>

definition exact_cover :: "(nat \<Rightarrow> nat) \<Rightarrow> (nat \<Rightarrow> nat list) \<Rightarrow> nat list \<Rightarrow> (nat \<Rightarrow> nat list) \<Rightarrow> nat set \<Rightarrow> bool" where
  "exact_cover col sib cs vs Y \<longleftrightarrow>
     Y \<subseteq> (\<Union>c\<in>set cs. set (vs c)) \<and> (\<forall>x\<in>Y. set (sib x) \<subseteq> Y) \<and> (\<forall>c\<in>set cs. \<exists>!y. y \<in> Y \<and> col y = c)"

definition row_set :: "(nat \<Rightarrow> nat list) \<Rightarrow> nat \<Rightarrow> nat set" where
  "row_set sib x = set (x # sib x)"

lemma row_set_same: "rows_ok s N sib \<Longrightarrow> x \<in> N \<Longrightarrow> j \<in> row_set sib x \<Longrightarrow> row_set sib j = row_set sib x"
  using rowsD(3) [of s N sib x j] by (cases "j = x") (simp_all add: row_set_def)

lemma row_set_inj:
  assumes "rows_ok s N sib" "x \<in> N" "j \<in> row_set sib x" "k \<in> row_set sib x" "ncol s j = ncol s k"
  shows "j = k"
proof -
  have "inj_on (ncol s) (set (x # sib x))" using rowsD(4) [OF assms(1,2)] by (simp only: distinct_map)
  then show ?thesis using assms(3-5) unfolding row_set_def by (meson inj_onD)
qed

lemma rcols_row: "rcols col sib x = col ` row_set sib x"
  by (simp only: rcols_def row_set_def)

lemma row_active:
  assumes "rep s N sib cs vs" "c \<in> set cs" "x \<in> set (vs c)" "j \<in> row_set sib x"
  shows "ncol s j \<in> set cs" "j \<in> set (vs (ncol s j))" "j \<in> N"
  using assms repD(5,6) [OF assms(1-3)] vrepD(3) [OF repD(2) [OF assms(1)] assms(2,3)] rowsD(2) [OF repD(3) [OF assms(1)]]
  by (auto simp: row_set_def)

lemma cover_nodes:
  assumes "rep s N sib cs vs" "exact_cover (ncol s) sib cs vs Y" "y \<in> Y"
  shows "ncol s y \<in> set cs" "y \<in> set (vs (ncol s y))" "row_set sib y \<subseteq> Y" "y \<in> N"
proof -
  obtain c where c: "c \<in> set cs" "y \<in> set (vs c)" using assms(2,3) by (auto simp: exact_cover_def)
  then have "ncol s y = c" using vrepD(3) [OF repD(2) [OF assms(1)]] by blast
  then show "ncol s y \<in> set cs" "y \<in> set (vs (ncol s y))" using c by simp_all
  show "row_set sib y \<subseteq> Y" using assms(2,3) by (auto simp: exact_cover_def row_set_def)
  show "y \<in> N" using repD(5) [OF assms(1) c] .
qed

lemma cover_unique: "exact_cover col sib cs vs Y \<Longrightarrow> y \<in> Y \<Longrightarrow> z \<in> Y \<Longrightarrow> col y = col z \<Longrightarrow> col z \<in> set cs \<Longrightarrow> y = z"
  unfolding exact_cover_def by blast

lemma cover_has: "exact_cover col sib cs vs Y \<Longrightarrow> c \<in> set cs \<Longrightarrow> \<exists>y\<in>Y. col y = c"
  unfolding exact_cover_def by blast

text \<open>A row with an exact cover of what is left without the columns of the row.\<close>

lemma exact_cover_add:
  assumes r: "rep s N sib cs vs" and c: "c \<in> set cs" "x \<in> set (vs c)"
    and y: "exact_cover (ncol s) sib (filter (\<lambda>d. d \<notin> rcols (ncol s) sib x) cs) (without s sib (rcols (ncol s) sib x) vs) Y"
  shows "exact_cover (ncol s) sib cs vs (row_set sib x \<union> Y)"
proof -
  note rows = repD(3) [OF r]
  have xN: "x \<in> N" using repD(5) [OF r c] .
  have Y: "ncol s j \<in> set cs \<and> j \<in> set (vs (ncol s j)) \<and> ncol s j \<notin> rcols (ncol s) sib x" if j: "j \<in> Y" for j
  proof -
    obtain d where "d \<in> set cs" "d \<notin> rcols (ncol s) sib x" "j \<in> set (vs d)" using y j by (auto simp: exact_cover_def without_def)
    then show ?thesis using vrepD(3) [OF repD(2) [OF r]] by metis
  qed
  show ?thesis
    unfolding exact_cover_def
  proof (intro conjI ballI)
    show "row_set sib x \<union> Y \<subseteq> (\<Union>c\<in>set cs. set (vs c))" using row_active [OF r c] Y by blast
    show "set (sib j) \<subseteq> row_set sib x \<union> Y" if "j \<in> row_set sib x \<union> Y" for j
      using that row_set_same [OF rows xN, of j] y by (auto simp: exact_cover_def row_set_def)
    fix d
    assume d: "d \<in> set cs"
    show "\<exists>!j. j \<in> row_set sib x \<union> Y \<and> ncol s j = d"
    proof (cases "d \<in> rcols (ncol s) sib x")
      case True
      then obtain j where "j \<in> row_set sib x" "ncol s j = d" by (auto simp: rcols_row)
      then show ?thesis using row_set_inj [OF rows xN] Y True by (metis UnE UnI1)
    next
      case False
      then have "\<exists>!j. j \<in> Y \<and> ncol s j = d" using y d by (simp add: exact_cover_def)
      moreover have "\<not> (j \<in> row_set sib x \<and> ncol s j = d)" for j using False by (auto simp: rcols_row)
      ultimately show ?thesis by blast
    qed
  qed
qed

lemma exact_cover_del:
  assumes r: "rep s N sib cs vs" and y: "exact_cover (ncol s) sib cs vs Y" "x \<in> Y"
  shows "exact_cover (ncol s) sib (filter (\<lambda>d. d \<notin> rcols (ncol s) sib x) cs) (without s sib (rcols (ncol s) sib x) vs) (Y - row_set sib x)"
proof -
  note rows = repD(3) [OF r]
  note n = cover_nodes [OF r y(1)]
  have apart: "rcols (ncol s) sib j \<inter> rcols (ncol s) sib x = {}" if j: "j \<in> Y" "j \<notin> row_set sib x" for j
  proof (rule ccontr)
    assume "\<not> ?thesis"
    then obtain a b where ab: "a \<in> row_set sib j" "b \<in> row_set sib x" "ncol s a = ncol s b" by (auto simp: rcols_row)
    have "a \<in> Y" "b \<in> Y" using n(3) j(1) y(2) ab by blast+
    then have "a = b" using cover_unique [OF y(1)] n(1) ab(3) by blast
    then have "row_set sib j = row_set sib x" using row_set_same [OF rows n(4)] j(1) y(2) ab(1,2) by metis
    then show False using j(2) by (auto simp: row_set_def)
  qed
  show ?thesis
    unfolding exact_cover_def
  proof (intro conjI ballI subsetI)
    fix j
    assume "j \<in> Y - row_set sib x"
    then have j: "j \<in> Y" "j \<notin> row_set sib x" by auto
    have "ncol s j \<notin> rcols (ncol s) sib x" using apart [OF j] by (auto simp: rcols_def)
    then show "j \<in> (\<Union>c\<in>set (filter (\<lambda>d. d \<notin> rcols (ncol s) sib x) cs). set (without s sib (rcols (ncol s) sib x) vs c))"
      using n(1,2) [OF j(1)] apart [OF j] by (auto simp: without_def)
    fix k
    assume k: "k \<in> set (sib j)"
    then have kj: "k \<in> row_set sib j" by (simp add: row_set_def)
    have "k \<notin> row_set sib x"
    proof
      assume "k \<in> row_set sib x"
      then have "row_set sib j = row_set sib x" using row_set_same [OF rows n(4)] j(1) y(2) kj by metis
      then show False using j(2) by (auto simp: row_set_def)
    qed
    then show "k \<in> Y - row_set sib x" using n(3) [OF j(1)] kj by blast
  next
    fix d
    assume "d \<in> set (filter (\<lambda>d. d \<notin> rcols (ncol s) sib x) cs)"
    then have "\<exists>!j. j \<in> Y \<and> ncol s j = d" "d \<notin> rcols (ncol s) sib x" using y(1) by (auto simp: exact_cover_def)
    moreover have "\<not> (j \<in> row_set sib x \<and> ncol s j = d)" for j using calculation(2) by (auto simp: rcols_row)
    ultimately show "\<exists>!j. j \<in> Y - row_set sib x \<and> ncol s j = d" by blast
  qed
qed

subsection \<open>The smallest column\<close>

lemma min_loop_column:
  assumes "ring (nright s) l (root s) cs" "cs = as @ bs" "c \<in> set as" "\<And>e. e \<in> set as \<Longrightarrow> nsize s c \<le> nsize s e"
  shows "\<exists>d\<in>set cs. min_loop s (hd (bs @ [root s])) c (nsize s c) = Some d \<and> (nsize s d \<le> 1 \<or> (\<forall>e\<in>set cs. nsize s d \<le> nsize s e))"
  using assms(2-4)
proof (induction bs arbitrary: as c)
  case Nil
  then show ?case by (subst min_loop.simps) auto
next
  case (Cons b bs)
  have b: "b \<noteq> root s" using Cons.prems(1) ring_distinct(2) [OF assms(1)] by auto
  have nx: "nright s b = hd (bs @ [root s])" using ring_at(1) [of "nright s" l "root s" as b bs] assms(1) Cons.prems(1) by simp
  have cs: "cs = (as @ [b]) @ bs" using Cons.prems(1) by simp
  show ?case
  proof (cases "nsize s c > nsize s b")
    case less: True
    then have "\<exists>d\<in>set cs. min_loop s (hd (bs @ [root s])) b (nsize s b) = Some d \<and> (nsize s d \<le> 1 \<or> (\<forall>e\<in>set cs. nsize s d \<le> nsize s e))"
      using Cons.prems(3) by (intro Cons.IH [OF cs]) force+
    then show ?thesis using b less nx Cons.prems(1) by (subst min_loop.simps) auto
  next
    case False
    then have "\<exists>d\<in>set cs. min_loop s (hd (bs @ [root s])) c (nsize s c) = Some d \<and> (nsize s d \<le> 1 \<or> (\<forall>e\<in>set cs. nsize s d \<le> nsize s e))"
      using Cons.prems(2,3) by (intro Cons.IH [OF cs]) force+
    then show ?thesis using b False nx by (subst min_loop.simps) simp
  qed
qed

lemma get_min_column_smallest:
  assumes "ring (nright s) l (root s) cs" "cs \<noteq> []"
  shows "\<exists>c\<in>set cs. get_min_column s = Some c \<and> (nsize s c \<le> 1 \<or> (\<forall>d\<in>set cs. nsize s c \<le> nsize s d))"
proof -
  obtain c ds where cs: "cs = [c] @ ds" using assms(2) by (cases cs) auto
  have "nright s (root s) = c" "nright s c = hd (ds @ [root s])"
    using ring_first [OF assms(1)] ring_at(1) [of "nright s" l "root s" "[]" c ds] assms(1) cs by simp_all
  then show ?thesis using min_loop_column [OF assms(1) cs, of c] cs by (auto simp: get_min_column_def Let_def)
qed

subsection \<open>Writing the rows of the stack to the board\<close>

fun read_list :: "(nat \<Rightarrow> int) \<Rightarrow> nat list \<Rightarrow> int \<Rightarrow> int \<Rightarrow> (int \<times> int) option" where
  "read_list nm xs cell val =
     (if cell = -1 \<or> val = -1
      then (case xs of
              [] \<Rightarrow> None
            | x # xs \<Rightarrow> if nm x < 100 then read_list nm xs (nm x) val else read_list nm xs cell (nm x mod 10))
      else Some (cell, val))"

declare read_list.simps [simp del]

lemma read_row_list:
  assumes "linked (nright s) l (xs @ [z])" "read_list (nname s) xs cell val = Some r"
  shows "read_row s (hd (xs @ [z])) cell val = Some r"
  using assms
proof (induction xs arbitrary: cell val)
  case Nil
  then show ?case by (subst read_row.simps) (simp add: read_list.simps split: if_splits)
next
  case (Cons x xs)
  have l: "nright s x = hd (xs @ [z])" "linked (nright s) l (xs @ [z])" using Cons.prems(1) by (cases xs; simp)+
  show ?case using Cons.prems(2) Cons.IH [OF l(2)] l(1)
    by (subst read_row.simps) (auto simp: read_list.simps [of _ "x # xs"] split: if_splits)
qed

definition written :: "(nat \<Rightarrow> int) \<Rightarrow> (nat \<Rightarrow> nat list) \<Rightarrow> nat list \<Rightarrow> int list \<Rightarrow> int list" where
  "written nm sib xs b =
     fold (\<lambda>x b. case read_list nm (x # sib x) (-1) (-1) of Some (cell, val) \<Rightarrow> b[nat cell := val] | None \<Rightarrow> b) xs b"

definition names_ok :: "(nat \<Rightarrow> int) \<Rightarrow> nat set \<Rightarrow> (nat \<Rightarrow> nat list) \<Rightarrow> bool" where
  "names_ok nm N sib \<longleftrightarrow> (\<forall>x\<in>N. read_list nm (x # sib x) (-1) (-1) \<noteq> None)"

lemma write_out_written:
  assumes "rows_ok s N sib" "names_ok (nname s) N sib" "set (stack s) \<subseteq> N"
  shows "\<exists>s'. write_out s = Some s' \<and> inout s' = written (nname s) sib (stack s) (inout s)"
proof -
  have "\<exists>s'. for_each (\<lambda>n s. do { (cell, val) \<leftarrow> read_row s n (-1) (-1); Some (s\<lparr>inout := (inout s)[nat cell := val]\<rparr>) }) xs t = Some s' \<and>
      inout s' = written (nname s) sib xs (inout t)" if "set xs \<subseteq> N" "rows_ok t N sib" "nname t = nname s" for xs t
    using that
  proof (induction xs arbitrary: t)
    case Nil
    then show ?case by (simp add: written_def)
  next
    case (Cons x xs)
    have x: "x \<in> N" using Cons.prems(1) by simp
    obtain cell val where cv: "read_list (nname s) (x # sib x) (-1) (-1) = Some (cell, val)"
      using assms(2) x by (auto simp: names_ok_def)
    have "linked (nright t) (nleft t) ((x # sib x) @ [x])" using rowsD(1) [OF Cons.prems(2) x] by (simp add: ring_def)
    then have rr: "read_row t x (-1) (-1) = Some (cell, val)" using read_row_list [of t "nleft t" "x # sib x" x "-1" "-1"] cv Cons.prems(3) by simp
    let ?t = "t\<lparr>inout := (inout t)[nat cell := val]\<rparr>"
    have "rows_ok ?t N sib" using Cons.prems(2) by (simp add: rows_ok_def)
    from Cons.IH [OF _ this] show ?case using Cons.prems(1,3) rr cv by (simp add: written_def)
  qed
  from this [of "stack s" s] show ?thesis using assms(1,3) by (simp add: write_out_def)
qed

subsection \<open>The search\<close>

definition search_ok :: "solver \<Rightarrow> nat set \<Rightarrow> (nat \<Rightarrow> nat list) \<Rightarrow> nat list \<Rightarrow> (nat \<Rightarrow> nat list) \<Rightarrow> solver \<Rightarrow> (bool \<times> solver) option \<Rightarrow> bool" where
  "search_ok s N sib cs vs b r \<longleftrightarrow>
     (\<exists>s' xs. r = Some (True, s') \<and> set xs \<subseteq> N \<and> exact_cover (ncol s) sib cs vs (\<Union>x\<in>set xs. row_set sib x) \<and>
        inout s' = written (nname s) sib (stack s @ xs) (inout s)) \<or>
     r = Some (False, b) \<and> (\<nexists>Y. exact_cover (ncol s) sib cs vs Y)"

lemma search_okE:
  assumes "search_ok s N sib cs vs b r"
  obtains (found) s' xs where "r = Some (True, s')" "set xs \<subseteq> N" "exact_cover (ncol s) sib cs vs (\<Union>x\<in>set xs. row_set sib x)"
      "inout s' = written (nname s) sib (stack s @ xs) (inout s)"
    | (none) "r = Some (False, b)" "\<nexists>Y. exact_cover (ncol s) sib cs vs Y"
  using assms unfolding search_ok_def by blast

lemma remaining:
  assumes r: "rep s N sib cs vs" and c: "c \<in> set cs" and x: "x \<in> set (vs c)" and g: "unchanged g s"
  shows "ncol g ` set (sib x) \<subseteq> set (remove1 c cs)"
    "filter (\<lambda>d. d \<notin> ncol g ` set (sib x)) (remove1 c cs) = filter (\<lambda>d. d \<notin> rcols (ncol s) sib x) cs"
    "without g sib (ncol g ` set (sib x)) (without s sib {c} vs) = without s sib (rcols (ncol s) sib x) vs"
proof -
  have col: "ncol g = ncol s" using unchangedD(1) [OF g] .
  have xc: "ncol s x = c" using vrepD(3) [OF repD(2) [OF r] c x] .
  have "c \<notin> ncol s ` set (sib x)" using rowsD(4) [OF repD(3) [OF r] repD(5) [OF r c x]] xc by simp
  moreover have "set (remove1 c cs) = set cs - {c}" using ring_distinct(1) [OF repD(1) [OF r]] by simp
  ultimately show "ncol g ` set (sib x) \<subseteq> set (remove1 c cs)" using repD(6) [OF r c x] col by auto
  have rc: "rcols (ncol s) sib x = insert c (ncol s ` set (sib x))" using xc by (simp add: rcols_def)
  have "distinct cs" using repD(1) [OF r] by (rule ring_distinct)
  then show "filter (\<lambda>d. d \<notin> ncol g ` set (sib x)) (remove1 c cs) = filter (\<lambda>d. d \<notin> rcols (ncol s) sib x) cs"
    unfolding rc col by (auto simp: distinct_remove1_removeAll removeAll_filter_not_eq intro: filter_cong)
  show "without g sib (ncol g ` set (sib x)) (without s sib {c} vs) = without s sib (rcols (ncol s) sib x) vs"
    unfolding rc by (rule ext) (auto simp: without_def col intro: filter_cong)
qed

lemma solver_stack_same: "s\<lparr>stack := stack s\<rparr> = s"
  by (cases s) simp

lemma search_loop:
  assumes r: "rep s N sib cs vs" and c: "c \<in> set cs" and vc: "vs c = as @ bs" and k: "set (stack s) \<subseteq> N" and nm: "names_ok (nname s) N sib"
    and rec: "\<And>h cs' vs'. rep h N sib cs' vs' \<Longrightarrow> length cs' < length cs \<Longrightarrow> set (stack h) \<subseteq> N \<Longrightarrow> names_ok (nname h) N sib \<Longrightarrow>
        search_ok h N sib cs' vs' h (search None h)"
    and g: "undoes (cover c) (uncover c) s g" "rep g N sib (remove1 c cs) (without s sib {c} vs)" "unchanged g s" "ring (ndown g) (nup g) c (vs c)"
    and none: "\<And>x Y. x \<in> set as \<Longrightarrow> exact_cover (ncol s) sib cs vs Y \<Longrightarrow> x \<notin> Y"
  shows "search_ok s N sib cs vs s (search (Some (c, hd (bs @ [c]))) g)"
  using vc none
proof (induction bs arbitrary: as)
  case Nil
  have "\<not> exact_cover (ncol s) sib cs vs Y" for Y
  proof
    assume Y: "exact_cover (ncol s) sib cs vs Y"
    then obtain y where y: "y \<in> Y" "ncol s y = c" using cover_has [OF Y c] by blast
    then have "y \<in> set as" using cover_nodes(2) [OF r Y y(1)] Nil.prems(1) by simp
    then show False using Nil.prems(2) Y y(1) by blast
  qed
  moreover have "uncover c g = Some s" using undoes_here [OF g(1,3)] by simp
  ultimately show ?case by (subst search.simps) (simp add: search_ok_def)
next
  case (Cons x bs)
  have xv: "x \<in> set (vs c)" using Cons.prems(1) by simp
  have xN: "x \<in> N" using repD(5) [OF r c xv] .
  have xc: "x \<noteq> c" using vrepD(4) [OF repD(2) [OF r] c xv] c by blast
  have nx: "ndown g x = hd (bs @ [c])" using ring_at(1) [of "ndown g" "nup g" c as x bs] g(4) Cons.prems(1) by simp
  note rem = remaining [OF r c xv g(3)]
  let ?cs = "filter (\<lambda>d. d \<notin> rcols (ncol s) sib x) cs" and ?vs = "without s sib (rcols (ncol s) sib x) vs"
  obtain h where h: "undoes (\<lambda>s. walk nright x (\<lambda>j s. cover (ncol s j) s) (nright s x) s)
        (\<lambda>s. walk nleft x (\<lambda>j s. uncover (ncol s j) s) (nleft s x) s) g h"
      "rep h N sib ?cs ?vs" "unchanged h g"
    by (rule row_covers [OF g(2) xN rem(1), unfolded rem(2,3)])
  let ?k = "stack s @ [x]"
  have col: "ncol g = ncol s" "ncol h = ncol s" "nname h = nname s" "inout h = inout s" "stack g = stack s"
    using unchangedD [OF g(3)] unchangedD [OF h(3)] by simp_all
  have fwd: "walk nright x (\<lambda>j s. cover (ncol s j) s) (nright g x) (g\<lparr>stack := stack g @ [x]\<rparr>) = Some (h\<lparr>stack := ?k\<rparr>)"
    using undoesD(1) [OF h(1), of ?k] by (simp add: col)
  have bwd: "walk nleft x (\<lambda>j s. uncover (ncol s j) s) (nleft h x) (h\<lparr>stack := stack s\<rparr>) = Some g"
    using undoesD(2) [OF h(1), of "stack s"] solver_stack_same [of g] by (simp add: col)
  have "c \<in> rcols (ncol s) sib x" using vrepD(3) [OF repD(2) [OF r] c xv] by (simp add: rcols_def)
  then have less: "length ?cs < length cs" using c by (intro length_filter_less) auto
  have "search_ok (h\<lparr>stack := ?k\<rparr>) N sib ?cs ?vs (h\<lparr>stack := ?k\<rparr>) (search None (h\<lparr>stack := ?k\<rparr>))"
    by (rule rec [OF _ less]) (use h(2) k xN nm in \<open>simp_all add: rep_stack col\<close>)
  then show ?case
  proof (cases rule: search_okE)
    case (found s' xs)
    have "search (Some (c, x)) g = Some (True, s')" by (subst search.simps) (simp add: xc fwd found(1))
    moreover have "exact_cover (ncol s) sib cs vs (\<Union>x\<in>set (x # xs). row_set sib x)"
      using exact_cover_add [OF r c xv] found(3) by (simp add: col)
    moreover have "inout s' = written (nname s) sib (stack s @ x # xs) (inout s)" using found(4) by (simp add: col)
    moreover have "set (x # xs) \<subseteq> N" using xN found(2) by simp
    ultimately show ?thesis unfolding search_ok_def by (simp only: append_Cons list.sel) blast
  next
    case none
    have "search (Some (c, x)) g = search (Some (c, hd (bs @ [c]))) g"
      by (subst search.simps) (simp add: xc fwd none(1) bwd nx Let_def)
    moreover have "search_ok s N sib cs vs s (search (Some (c, hd (bs @ [c]))) g)"
    proof (rule Cons.IH)
      show "vs c = (as @ [x]) @ bs" using Cons.prems(1) by simp
      fix y Y
      assume y: "y \<in> set (as @ [x])" and Y: "exact_cover (ncol s) sib cs vs Y"
      show "y \<notin> Y"
      proof (cases "y = x")
        case True
        then show ?thesis using exact_cover_del [OF r Y, of x] none(2) by (auto simp: col)
      next
        case False
        then show ?thesis using Cons.prems(2) [OF _ Y] y by simp
      qed
    qed
    ultimately show ?thesis by simp
  qed
qed

lemma search_result:
  assumes "rep s N sib cs vs" "set (stack s) \<subseteq> N" "names_ok (nname s) N sib"
  shows "search_ok s N sib cs vs s (search None s)"
  using assms
proof (induction "length cs" arbitrary: s cs vs rule: less_induct)
  case less
  note ring = repD(1) [OF less.prems(1)]
  show ?case
  proof (cases "cs = []")
    case True
    then have e: "nleft s (root s) = root s" using ring_first [OF ring] by simp
    obtain s' where s': "write_out s = Some s'" "inout s' = written (nname s) sib (stack s) (inout s)"
      using write_out_written [OF repD(3) [OF less.prems(1)] less.prems(3,2)] by blast
    have "search None s = Some (True, s')" by (subst search.simps) (simp add: e s'(1))
    moreover have "exact_cover (ncol s) sib cs vs (\<Union>x\<in>set []. row_set sib x)" using True by (simp add: exact_cover_def)
    ultimately show ?thesis using s'(2) unfolding search_ok_def by (metis append_Nil2 empty_subsetI list.set(1))
  next
    case False
    then have e: "nleft s (root s) \<noteq> root s" using ring_first [OF ring] ring_distinct(2) [OF ring] by (metis last.simps last_in_set)
    obtain c where c: "c \<in> set cs" "get_min_column s = Some c" using get_min_column_smallest [OF ring False] by blast
    obtain g where g: "\<And>k. cover c (s\<lparr>stack := k\<rparr>) = Some (g\<lparr>stack := k\<rparr>)" "\<And>k. uncover c (g\<lparr>stack := k\<rparr>) = Some (s\<lparr>stack := k\<rparr>)"
      "rep g N sib (remove1 c cs) (without s sib {c} vs)" "unchanged g s" "ring (ndown g) (nup g) c (vs c)"
      using cover_rep [OF less.prems(1) c(1)] by metis
    have u: "undoes (cover c) (uncover c) s g" using g(1,2) by (simp add: undoes_def)
    have "search None s = search (Some (c, hd (vs c @ [c]))) g"
      using undoes_here(1) [OF u g(4)] ring_first [OF g(5)] by (subst search.simps) (simp add: e c(2))
    moreover have "search_ok s N sib cs vs s (search (Some (c, hd (vs c @ [c]))) g)"
      by (rule search_loop [OF less.prems(1) c(1) _ less.prems(2,3) _ u g(3-5), of "[]"]) (use less.hyps in auto)
    ultimately show ?thesis by simp
  qed
qed

end
