(* ===== verification/Ex_Sudoku_Build.thy ===== *)
theory Ex_Sudoku_Build
  imports Ex_Sudoku_Search
begin

section \<open>The matrix the constructor builds\<close>

text \<open>
  The constructor makes a header for every empty cell and for every value that a row, a column or a box still needs, and a row
  of four nodes for every value an empty cell can take.
\<close>

subsection \<open>Inserting into the lists\<close>

lemma put_left_fields [simp]:
  "nup (put_left h x s) = nup s" "ndown (put_left h x s) = ndown s" "ncol (put_left h x s) = ncol s" "nname (put_left h x s) = nname s"
  "nsize (put_left h x s) = nsize s" "root (put_left h x s) = root s" "inout (put_left h x s) = inout s" "columns (put_left h x s) = columns s"
  "stack (put_left h x s) = stack s" "cur_node (put_left h x s) = cur_node s"
  by (simp_all add: put_left_def Let_def)

lemma put_left_ring:
  assumes "ring (nright s) (nleft s) h xs" "x \<notin> set (h # xs)"
  shows "ring (nright (put_left h x s)) (nleft (put_left h x s)) h (xs @ [x])"
proof -
  have "nleft s h \<noteq> x" using ring_first [OF assms(1)] assms(2) by (metis last_in_set list.distinct(1))
  then have "nright (put_left h x s) = (nright s)(nleft s h := x, x := h)" "nleft (put_left h x s) = (nleft s)(x := nleft s h, h := x)"
    using assms(2) by (simp_all add: put_left_def Let_def fun_upd_twist)
  then show ?thesis using ring_insert_last [OF assms] by simp
qed

lemma put_left_other:
  assumes "ring (nright s) (nleft s) h xs" "ring (nright s) (nleft s) g ys" "set (g # ys) \<inter> set (h # x # xs) = {}"
  shows "ring (nright (put_left h x s)) (nleft (put_left h x s)) g ys"
proof -
  have "last (h # xs) \<in> set (h # xs)" by (rule last_in_set) simp
  then have m: "nleft s h \<in> set (h # x # xs)" using ring_first [OF assms(1)] by auto
  have "ring (nright (put_left h x s)) (nleft (put_left h x s)) g ys = ring (nright s) (nleft s) g ys"
  proof (rule ring_cong)
    fix a
    assume "a \<in> set (g # ys)"
    then have "a \<noteq> x" "a \<noteq> h" "a \<noteq> nleft s h" using assms(3) m by auto
    then show "nright (put_left h x s) a = nright s a" "nleft (put_left h x s) a = nleft s a"
      by (simp_all add: put_left_def Let_def)
  qed
  then show ?thesis using assms(2) by simp
qed

lemma fresh_node_fields [simp]:
  "nright (fresh_node x c n s) = (nright s)(x := x)" "nleft (fresh_node x c n s) = (nleft s)(x := x)"
  "ndown (fresh_node x c n s) = (ndown s)(x := x)" "nup (fresh_node x c n s) = (nup s)(x := x)"
  "ncol (fresh_node x c n s) = (ncol s)(x := c)" "nname (fresh_node x c n s) = (nname s)(x := int n)"
  "nsize (fresh_node x c n s) = (nsize s)(x := 0)" "root (fresh_node x c n s) = root s" "inout (fresh_node x c n s) = inout s"
  "columns (fresh_node x c n s) = columns s" "stack (fresh_node x c n s) = stack s" "cur_node (fresh_node x c n s) = cur_node s"
  by (simp_all add: fresh_node_def)

lemma ring_fresh: "ring n p h xs \<Longrightarrow> x \<notin> set (h # xs) \<Longrightarrow> ring (n(x := y)) (p(x := z)) h xs"
  using ring_cong [of h xs "n(x := y)" n "p(x := z)" p] by (metis fun_upd_other)

subsection \<open>The headers\<close>

text \<open>The headers \<open>1\<close>, \<open>2\<close>, \<open>\<dots>\<close> of the columns with the names \<open>ns\<close>.\<close>

definition heads :: "solver \<Rightarrow> nat list \<Rightarrow> bool" where
  "heads s ns \<longleftrightarrow>
     root s = 0 \<and> distinct ns \<and> ring (nright s) (nleft s) 0 [1..<length ns + 1] \<and> length ns < cur_node s \<and>
     (\<forall>c\<in>{1..length ns}. nname s c = int (ns ! (c - 1)) \<and> columns s (ns ! (c - 1)) = Some c) \<and> (\<forall>k. k \<notin> set ns \<longrightarrow> columns s k = None)"

lemma headsD:
  assumes "heads s ns"
  shows "root s = 0" "distinct ns" "ring (nright s) (nleft s) 0 [1..<length ns + 1]" "length ns < cur_node s"
    "1 \<le> c \<Longrightarrow> c \<le> length ns \<Longrightarrow> nname s c = int (ns ! (c - 1)) \<and> columns s (ns ! (c - 1)) = Some c"
    "k \<notin> set ns \<Longrightarrow> columns s k = None"
  using assms by (auto simp: heads_def)

definition bare :: "solver \<Rightarrow> nat list \<Rightarrow> int list \<Rightarrow> bool" where
  "bare s ns board \<longleftrightarrow> heads s ns \<and> cur_node s = length ns + 1 \<and> vrep s {1..length ns} (\<lambda>_. []) \<and> stack s = [] \<and> inout s = board"

lemma append_column_bare:
  assumes b: "bare s ns board" and k: "k \<notin> set ns" and room: "length ns + 1 < kMaxNodes"
  shows "\<exists>s'. append_column k s = Some s' \<and> bare s' (ns @ [k]) board"
proof -
  have h: "heads s ns" and cn: "cur_node s = length ns + 1" and v: "vrep s {1..length ns} (\<lambda>_. [])" using b by (simp_all add: bare_def)
  let ?c = "length ns + 1"
  let ?t = "fresh_node ?c ?c k (s\<lparr>cur_node := ?c + 1\<rparr>)"
  define s' where "s' = (put_left 0 ?c ?t)\<lparr>columns := (columns s)(k \<mapsto> ?c)\<rparr>"
  have e: "append_column k s = Some s'"
    using headsD(1,6) [OF h] k room by (simp add: append_column_def new_column_def assert_then_def cn Let_def s'_def)
  have "ring (nright ?t) (nleft ?t) 0 [1..<?c]" using ring_fresh [OF headsD(3) [OF h], of ?c ?c ?c] by simp
  then have r: "ring (nright s') (nleft s') 0 [1..<?c + 1]" using put_left_ring [of ?t 0 "[1..<?c]" ?c] by (simp add: s'_def)
  have "heads s' (ns @ [k])"
    unfolding heads_def
  proof (intro conjI ballI allI impI)
    show "root s' = 0" "distinct (ns @ [k])" using headsD(1,2) [OF h] k by (simp_all add: s'_def)
    show "ring (nright s') (nleft s') 0 [1..<length (ns @ [k]) + 1]" using r by simp
    show "length (ns @ [k]) < cur_node s'" by (simp add: s'_def)
    fix c
    assume c: "c \<in> {1..length (ns @ [k])}"
    have "nname s' c = int ((ns @ [k]) ! (c - 1)) \<and> columns s' ((ns @ [k]) ! (c - 1)) = Some c"
    proof (cases "c = ?c")
      case True
      then show ?thesis by (simp add: s'_def)
    next
      case False
      then have c': "1 \<le> c" "c \<le> length ns" using c by auto
      then have "ns ! (c - 1) \<noteq> k" using k by (metis Suc_le_eq Suc_pred' less_eq_Suc_le nth_mem One_nat_def)
      then show ?thesis using headsD(5) [OF h c'] c' False by (simp add: s'_def nth_append)
    qed
    then show "nname s' c = int ((ns @ [k]) ! (c - 1))" "columns s' ((ns @ [k]) ! (c - 1)) = Some c" by simp_all
  next
    fix j
    assume "j \<notin> set (ns @ [k])"
    then show "columns s' j = None" using headsD(6) [OF h] by (simp add: s'_def)
  qed
  moreover have "vrep s' {1..length (ns @ [k])} (\<lambda>_. [])"
    unfolding vrep_def
  proof
    fix c
    assume c: "c \<in> {1..length (ns @ [k])}"
    show "ring (ndown s') (nup s') c [] \<and> nsize s' c = int (length []) \<and> (\<forall>x\<in>set []. ncol s' x = c \<and> x \<notin> {1..length (ns @ [k])})"
    proof (cases "c = ?c")
      case True
      then show ?thesis by (simp add: s'_def ring_def)
    next
      case False
      then have "c \<in> {1..length ns}" using c by auto
      then show ?thesis using vrepD(1,2) [OF v] False by (simp add: s'_def ring_def)
    qed
  qed
  ultimately show ?thesis using e b by (simp add: bare_def s'_def)
qed

subsection \<open>The rows\<close>

definition rowed :: "solver \<Rightarrow> nat list \<Rightarrow> int list \<Rightarrow> bool" where
  "rowed s ns board \<longleftrightarrow>
     heads s ns \<and> vrep s {1..length ns} (\<lambda>c. filter (\<lambda>x. ncol s x = c) [length ns + 1..<cur_node s]) \<and> stack s = [] \<and> inout s = board \<and>
     (\<forall>x\<in>{length ns + 1..<cur_node s}. ncol s x \<in> {1..length ns} \<and> nname s x = nname s (ncol s x))"

lemma rowedD:
  assumes "rowed s ns board"
  shows "heads s ns" "vrep s {1..length ns} (\<lambda>c. filter (\<lambda>x. ncol s x = c) [length ns + 1..<cur_node s])" "stack s = []" "inout s = board"
    "length ns < x \<Longrightarrow> x < cur_node s \<Longrightarrow> 1 \<le> ncol s x \<and> ncol s x \<le> length ns \<and> nname s x = nname s (ncol s x)"
  using assms by (auto simp: rowed_def)

lemma bare_rowed: "bare s ns board \<Longrightarrow> rowed s ns board"
  by (simp add: bare_def rowed_def)

lemma put_up_fields [simp]:
  "nleft (put_up h x s) = nleft s" "nright (put_up h x s) = nright s" "nname (put_up h x s) = nname s" "ncol (put_up h x s) = (ncol s)(x := h)"
  "root (put_up h x s) = root s" "inout (put_up h x s) = inout s" "columns (put_up h x s) = columns s" "stack (put_up h x s) = stack s"
  "cur_node (put_up h x s) = cur_node s" "nsize (put_up h x s) = (nsize s)(h := nsize s h + 1)"
  by (simp_all add: put_up_def Let_def)

lemma put_up_links:
  assumes "nup s h \<noteq> x" "h \<noteq> x"
  shows "ndown (put_up h x s) = (ndown s)(nup s h := x, x := h)" "nup (put_up h x s) = (nup s)(x := nup s h, h := x)"
  using assms by (simp_all add: put_up_def Let_def fun_upd_twist)

lemma put_up_vrep:
  assumes v: "vrep s C vs" and c: "c \<in> C" and x: "x \<notin> C" "\<And>d. d \<in> C \<Longrightarrow> x \<notin> set (vs d)"
  shows "vrep (put_up c x s) C (vs(c := vs c @ [x]))"
  unfolding vrep_def
proof
  fix d
  assume d: "d \<in> C"
  let ?s = "put_up c x s"
  note r = vrepD(1) [OF v]
  have near: "nup s c \<in> set (c # vs c)" using ring_first [OF r [OF c]] by (metis last_in_set list.distinct(1))
  have xc: "x \<noteq> c" using c x(1) by blast
  have nx: "nup s c \<noteq> x" using near xc x(2) [OF c] by auto
  note l = put_up_links [OF nx xc [symmetric]]
  show "ring (ndown ?s) (nup ?s) d ((vs(c := vs c @ [x])) d) \<and> nsize ?s d = int (length ((vs(c := vs c @ [x])) d)) \<and>
      (\<forall>y\<in>set ((vs(c := vs c @ [x])) d). ncol ?s y = d \<and> y \<notin> C)"
  proof (cases "d = c")
    case True
    have "ring (ndown ?s) (nup ?s) c (vs c @ [x])"
      unfolding l using ring_insert_last [OF r [OF c]] xc x(2) [OF c] by simp
    then show ?thesis using True vrepD(2-4) [OF v c] x by simp
  next
    case False
    have "x \<notin> set (d # vs d)" "c \<notin> set (d # vs d)" using d c x False vrepD(4) [OF v d] by auto
    moreover have "nup s c \<notin> set (d # vs d)" using near False d c vrepD(3,4) [OF v d] vrepD(3,4) [OF v c] by auto
    ultimately have "ring (ndown ?s) (nup ?s) d (vs d) = ring (ndown s) (nup s) d (vs d)" unfolding l by (intro ring_cong) auto
    then show ?thesis using False vrepD [OF v d] x(2) [OF d] by auto
  qed
qed

lemma vrep_cong:
  assumes "\<And>c. c \<in> C \<Longrightarrow> vs c = ws c"
  shows "vrep s C vs = vrep s C ws"
  using assms by (simp add: vrep_def)

lemma new_row_rowed:
  assumes rw: "rowed s ns board" and k: "k \<in> set ns" and room: "cur_node s < kMaxNodes"
  shows "\<exists>s'. new_row k s = Some (cur_node s, s') \<and> rowed s' ns board \<and> cur_node s' = cur_node s + 1 \<and>
    nright s' = (nright s)(cur_node s := cur_node s) \<and> nleft s' = (nleft s)(cur_node s := cur_node s) \<and> nname s' = (nname s)(cur_node s := int k)"
proof -
  define r where "r = cur_node s"
  note h = rowedD(1) [OF rw]
  obtain i where i: "i < length ns" "ns ! i = k" using k by (meson in_set_conv_nth)
  define c where "c = i + 1"
  have c: "1 \<le> c" "c \<le> length ns" "columns s k = Some c" "nname s c = int k" using headsD(5) [OF h, of c] i by (simp_all add: c_def)
  define t where "t = fresh_node r c k (s\<lparr>cur_node := r + 1\<rparr>)"
  define s' where "s' = put_up c r t"
  have e: "new_row k s = Some (r, s')" using c room by (simp add: new_row_def assert_then_def Let_def r_def t_def s'_def)
  have rl: "length ns < r" using headsD(4) [OF h] by (simp add: r_def)
  note v = rowedD(2) [OF rw, folded r_def]
  let ?vs = "\<lambda>c. filter (\<lambda>x. ncol s x = c) [length ns + 1..<r]"
  have vt: "vrep t {1..length ns} ?vs"
    unfolding vrep_def
  proof
    fix d
    assume d: "d \<in> {1..length ns}"
    have "ring (ndown t) (nup t) d (?vs d)" using ring_fresh [OF vrepD(1) [OF v d], of r r r] d rl by (simp add: t_def)
    moreover have "nsize t d = nsize s d" using d rl by (simp add: t_def)
    then have "nsize t d = int (length (?vs d))" using vrepD(2) [OF v d] by simp
    moreover have "ncol t x = d \<and> x \<notin> {1..length ns}" if "x \<in> set (?vs d)" for x using that by (simp add: t_def)
    ultimately show "ring (ndown t) (nup t) d (?vs d) \<and> nsize t d = int (length (?vs d)) \<and> (\<forall>x\<in>set (?vs d). ncol t x = d \<and> x \<notin> {1..length ns})"
      by blast
  qed
  have "vrep s' {1..length ns} (?vs(c := ?vs c @ [r]))"
    unfolding s'_def by (rule put_up_vrep [OF vt]) (use c rl in auto)
  moreover have "vrep s' {1..length ns} (?vs(c := ?vs c @ [r])) = vrep s' {1..length ns} (\<lambda>d. filter (\<lambda>x. ncol s' x = d) [length ns + 1..<cur_node s'])"
  proof (rule vrep_cong)
    fix d
    have "filter (\<lambda>x. ncol s' x = d) [length ns + 1..<r] = ?vs d" by (rule filter_cong) (auto simp: s'_def t_def)
    then show "(?vs(c := ?vs c @ [r])) d = filter (\<lambda>x. ncol s' x = d) [length ns + 1..<cur_node s']"
      using rl by (auto simp: s'_def t_def)
  qed
  ultimately have v': "vrep s' {1..length ns} (\<lambda>d. filter (\<lambda>x. ncol s' x = d) [length ns + 1..<cur_node s'])" by simp
  have "ring (nright s') (nleft s') 0 [1..<length ns + 1]"
    using ring_fresh [OF headsD(3) [OF h], of r r r] rl by (simp add: s'_def t_def)
  then have h': "heads s' ns" using headsD [OF h] rl unfolding heads_def by (auto simp: s'_def t_def)
  have "ncol s' x \<in> {1..length ns} \<and> nname s' x = nname s' (ncol s' x)" if x: "x \<in> {length ns + 1..<cur_node s'}" for x
  proof (cases "x = r")
    case True
    then show ?thesis using c rl by (simp add: s'_def t_def)
  next
    case False
    then have "length ns < x" "x < cur_node s" using x by (auto simp: s'_def t_def r_def)
    then have "1 \<le> ncol s x" "ncol s x \<le> length ns" "nname s x = nname s (ncol s x)" using rowedD(5) [OF rw] by auto
    then show ?thesis using False rl by (auto simp: s'_def t_def)
  qed
  then have "rowed s' ns board" using v' h' rowedD(3,4) [OF rw] by (simp add: rowed_def s'_def t_def)
  then show ?thesis using e by (simp add: r_def s'_def t_def)
qed

text \<open>The four names of the row for the value \<open>v\<close> in the cell \<open>i\<close>.\<close>

definition names :: "nat \<times> nat \<Rightarrow> nat list" where
  "names iv = (let (i, v) = iv in [i, get_row_col (row_of i) v, get_col_col (col_of i) v, get_box_col (box_of i) v])"

definition quads :: "solver \<Rightarrow> nat list \<Rightarrow> (nat \<times> nat) list \<Rightarrow> bool" where
  "quads s ns ks \<longleftrightarrow>
     cur_node s = length ns + 1 + 4 * length ks \<and>
     (\<forall>j<length ks. let q = length ns + 1 + 4 * j in
        ring (nright s) (nleft s) q [q + 1, q + 2, q + 3] \<and> (\<forall>t<4. nname s (q + t) = int (names (ks ! j) ! t)))"

lemma quadsD:
  assumes "quads s ns ks"
  shows "cur_node s = length ns + 1 + 4 * length ks"
    "j < length ks \<Longrightarrow> q = length ns + 1 + 4 * j \<Longrightarrow> ring (nright s) (nleft s) q [q + 1, q + 2, q + 3]"
    "j < length ks \<Longrightarrow> q = length ns + 1 + 4 * j \<Longrightarrow> t < 4 \<Longrightarrow> nname s (q + t) = int (names (ks ! j) ! t)"
  using assms by (simp_all add: quads_def Let_def)

text \<open>Joining a new node to a row leaves the headers and the columns alone.\<close>

lemma put_left_rowed:
  assumes "rowed s ns board" "ring (nright s) (nleft s) h xs" "\<forall>a\<in>set (h # x # xs). length ns < a"
  shows "rowed (put_left h x s) ns board"
proof -
  note hd = rowedD(1) [OF assms(1)]
  have "ring (nright (put_left h x s)) (nleft (put_left h x s)) 0 [1..<length ns + 1]"
    by (rule put_left_other [OF assms(2) headsD(3) [OF hd]]) (use assms(3) in auto)
  then have "heads (put_left h x s) ns" using hd by (simp add: heads_def)
  moreover have "vrep (put_left h x s) C vs = vrep s C vs" for C vs by (simp add: vrep_def)
  ultimately show ?thesis using assms(1) by (simp add: rowed_def)
qed

lemma add_row_quads:
  assumes rw: "rowed s ns board" and q: "quads s ns ks" and k: "set (names iv) \<subseteq> set ns" and room: "cur_node s + 4 \<le> kMaxNodes"
    and u: "u = (rows, cols, boxes)" "iv = (i, v)" "board ! i = 0" "\<not> rows (row_of i) v" "\<not> cols (col_of i) v" "\<not> boxes (box_of i) v"
  shows "\<exists>s'. add_row u iv s = Some s' \<and> rowed s' ns board \<and> quads s' ns (ks @ [iv])"
proof -
  define n where "n = cur_node s"
  define nm where "nm = nname s"
  obtain k0 k1 k2 k3 where nk: "names iv = [k0, k1, k2, k3]" "k0 = i" "k1 = get_row_col (row_of i) v" "k2 = get_col_col (col_of i) v"
      "k3 = get_box_col (box_of i) v" by (simp add: names_def u(2))
  have kn: "k0 \<in> set ns" "k1 \<in> set ns" "k2 \<in> set ns" "k3 \<in> set ns" using k nk(1) by simp_all
  have ln: "length ns < n" using headsD(4) [OF rowedD(1) [OF rw]] by (simp add: n_def)
  obtain s1 where s1: "new_row k0 s = Some (n, s1)" "rowed s1 ns board" "cur_node s1 = n + 1" "nright s1 = (nright s)(n := n)"
      "nleft s1 = (nleft s)(n := n)" "nname s1 = nm(n := int k0)"
    using new_row_rowed [OF rw kn(1)] room by (auto simp: n_def nm_def)
  obtain s2 where s2: "new_row k1 s1 = Some (n + 1, s2)" "rowed s2 ns board" "cur_node s2 = n + 2" "nright s2 = (nright s1)(n + 1 := n + 1)"
      "nleft s2 = (nleft s1)(n + 1 := n + 1)" "nname s2 = (nname s1)(n + 1 := int k1)"
    using new_row_rowed [OF s1(2) kn(2)] room s1(3) by (auto simp: n_def)
  obtain s3 where s3: "new_row k2 s2 = Some (n + 2, s3)" "rowed s3 ns board" "cur_node s3 = n + 3" "nright s3 = (nright s2)(n + 2 := n + 2)"
      "nleft s3 = (nleft s2)(n + 2 := n + 2)" "nname s3 = (nname s2)(n + 2 := int k2)"
    using new_row_rowed [OF s2(2) kn(3)] room s2(3) by (auto simp: n_def)
  obtain s4 where s4: "new_row k3 s3 = Some (n + 3, s4)" "rowed s4 ns board" "cur_node s4 = n + 4" "nright s4 = (nright s3)(n + 3 := n + 3)"
      "nleft s4 = (nleft s3)(n + 3 := n + 3)" "nname s4 = (nname s3)(n + 3 := int k3)"
    using new_row_rowed [OF s3(2) kn(4)] room s3(3) by (auto simp: n_def)
  let ?t1 = "put_left n (n + 1) s4"
  let ?t2 = "put_left n (n + 2) ?t1"
  let ?t3 = "put_left n (n + 3) ?t2"
  have e: "add_row u iv s = Some ?t3"
    using u(3-6) s1(1) s2(1) s3(1) s4(1) nk(2-5) rowedD(4) [OF rw] by (simp add: add_row_def u(1,2) Let_def)
  have r0: "ring (nright s4) (nleft s4) n []" using s1(4,5) s2(4,5) s3(4,5) s4(4,5) by (simp add: ring_def)
  have r1: "ring (nright ?t1) (nleft ?t1) n [n + 1]" using put_left_ring [OF r0, of "n + 1"] by simp
  have r2: "ring (nright ?t2) (nleft ?t2) n [n + 1, n + 2]" using put_left_ring [OF r1, of "n + 2"] by simp
  have r3: "ring (nright ?t3) (nleft ?t3) n [n + 1, n + 2, n + 3]" using put_left_ring [OF r2, of "n + 3"] by simp
  have w1: "rowed ?t1 ns board" by (rule put_left_rowed [OF s4(2) r0]) (use ln in auto)
  have w2: "rowed ?t2 ns board" by (rule put_left_rowed [OF w1 r1]) (use ln in auto)
  have w3: "rowed ?t3 ns board" by (rule put_left_rowed [OF w2 r2]) (use ln in auto)
  have nms: "nname ?t3 = (((nm(n := int k0))(n + 1 := int k1))(n + 2 := int k2))(n + 3 := int k3)"
    using s1(6) s2(6) s3(6) s4(6) by simp
  have n: "n = length ns + 1 + 4 * length ks" using quadsD(1) [OF q] by (simp add: n_def)
  have old: "ring (nright ?t3) (nleft ?t3) g ys" if g: "ring (nright s) (nleft s) g ys" "\<forall>a\<in>set (g # ys). a < n" for g ys
  proof -
    have "ring (nright s4) (nleft s4) g ys = ring (nright s) (nleft s) g ys"
      unfolding s1(4,5) s2(4,5) s3(4,5) s4(4,5) by (rule ring_cong) (use g(2) in auto)
    then have g4: "ring (nright s4) (nleft s4) g ys" using g(1) by simp
    have g1: "ring (nright ?t1) (nleft ?t1) g ys" by (rule put_left_other [OF r0 g4]) (use g(2) in auto)
    have g2: "ring (nright ?t2) (nleft ?t2) g ys" by (rule put_left_other [OF r1 g1]) (use g(2) in auto)
    show ?thesis by (rule put_left_other [OF r2 g2]) (use g(2) in auto)
  qed
  have "quads ?t3 ns (ks @ [iv])"
    unfolding quads_def Let_def
  proof (intro conjI allI impI)
    show "cur_node ?t3 = length ns + 1 + 4 * length (ks @ [iv])" using s4(3) n by simp
    fix j
    let ?q = "length ns + 1 + 4 * j"
    assume j: "j < length (ks @ [iv])"
    show "ring (nright ?t3) (nleft ?t3) ?q [?q + 1, ?q + 2, ?q + 3]"
    proof (cases "j < length ks")
      case True
      then show ?thesis using n by (intro old quadsD(2) [OF q]) auto
    next
      case False
      then have "?q = n" using j n by simp
      then show ?thesis using r3 by simp
    qed
    fix t :: nat
    assume t: "t < 4"
    show "nname ?t3 (?q + t) = int (names ((ks @ [iv]) ! j) ! t)"
    proof (cases "j < length ks")
      case True
      then have "?q + t < n" using t n by simp
      then have "nname ?t3 (?q + t) = nm (?q + t)" unfolding nms by simp
      then show ?thesis using quadsD(3) [OF q True refl t] True by (simp add: nm_def nth_append)
    next
      case False
      then have j: "j = length ks" "?q = n" using j n by simp_all
      have "t = 0 \<or> t = 1 \<or> t = 2 \<or> t = 3" using t by auto
      then show ?thesis unfolding j(2) nms by (elim disjE) (simp_all add: j(1) nk(1) nth_append)
    qed
  qed
  then show ?thesis using e w3 by blast
qed

subsection \<open>The constructor\<close>

lemma append_if_bare:
  assumes "bare s ns board" "need \<Longrightarrow> k \<notin> set ns" "length ns + 1 < kMaxNodes"
  obtains s' where "(if need then append_column k s else Some s) = Some s'" "bare s' (ns @ (if need then [k] else [])) board"
  using append_column_bare [OF assms(1)] assms by (cases need) auto

lemma append_cells_bare:
  assumes "bare s ns board" "distinct (ns @ xs)" "length ns + length xs < kMaxNodes"
  shows "\<exists>s'. for_each append_cell xs s = Some s' \<and> bare s' (ns @ filter (\<lambda>i. board ! i = 0) xs) board"
  using assms
proof (induction xs arbitrary: s ns)
  case (Cons i xs)
  have "inout s = board" using Cons.prems(1) by (simp add: bare_def)
  moreover obtain s' where s': "(if board ! i = 0 then append_column i s else Some s) = Some s'"
      "bare s' (ns @ (if board ! i = 0 then [i] else [])) board"
    using append_if_bare [OF Cons.prems(1), of "board ! i = 0" i] Cons.prems(2,3) by auto
  ultimately have "append_cell i s = Some s'" by (simp add: append_cell_def)
  then show ?case using Cons.IH [OF s'(2)] Cons.prems(2,3) by (cases "board ! i = 0") simp_all
qed simp

definition value_cols :: "nat \<times> nat \<Rightarrow> nat list" where
  "value_cols iv = (let (i, v) = iv in [get_row_col i v, get_col_col i v, get_box_col i v])"

definition value_names :: "used \<times> used \<times> used \<Rightarrow> nat \<times> nat \<Rightarrow> nat list" where
  "value_names u iv =
     (let (rows, cols, boxes) = u; (i, v) = iv in
      (if \<not> rows i v then [get_row_col i v] else []) @ (if \<not> cols i v then [get_col_col i v] else []) @
      (if \<not> boxes i v then [get_box_col i v] else []))"

lemma value_names_cols: "set (value_names u iv) \<subseteq> set (value_cols iv)" "length (value_names u iv) \<le> 3"
  by (auto simp: value_names_def value_cols_def split: prod.splits)

lemma append_value_bare:
  assumes b: "bare s ns board" and d: "distinct (ns @ value_cols iv)" and room: "length ns + 3 < kMaxNodes"
  shows "\<exists>s'. append_value u iv s = Some s' \<and> bare s' (ns @ value_names u iv) board"
proof -
  obtain rows cols boxes where u: "u = (rows, cols, boxes)" by (metis prod_cases3)
  obtain i v where iv: "iv = (i, v)" by (cases iv)
  let ?k1 = "get_row_col i v" and ?k2 = "get_col_col i v" and ?k3 = "get_box_col i v"
  have k: "?k1 \<notin> set ns" "?k2 \<notin> set ns" "?k3 \<notin> set ns" "?k1 \<noteq> ?k2" "?k1 \<noteq> ?k3" "?k2 \<noteq> ?k3"
    using d by (auto simp: value_cols_def iv)
  obtain s1 where s1: "(if \<not> rows i v then append_column ?k1 s else Some s) = Some s1"
      "bare s1 (ns @ (if \<not> rows i v then [?k1] else [])) board"
    by (rule append_if_bare [OF b, of "\<not> rows i v" ?k1]) (use k room in auto)
  obtain s2 where s2: "(if \<not> cols i v then append_column ?k2 s1 else Some s1) = Some s2"
      "bare s2 ((ns @ (if \<not> rows i v then [?k1] else [])) @ (if \<not> cols i v then [?k2] else [])) board"
    by (rule append_if_bare [OF s1(2), of "\<not> cols i v" ?k2]) (use k room in auto)
  obtain s3 where s3: "(if \<not> boxes i v then append_column ?k3 s2 else Some s2) = Some s3"
      "bare s3 (((ns @ (if \<not> rows i v then [?k1] else [])) @ (if \<not> cols i v then [?k2] else [])) @ (if \<not> boxes i v then [?k3] else [])) board"
    by (rule append_if_bare [OF s2(2), of "\<not> boxes i v" ?k3]) (use k room in auto)
  have "append_value u iv s = Some s3" using s1(1) s2(1) s3(1) by (simp only: append_value_def u iv Let_def split bind.bind_lunit)
  then show ?thesis using s3(2) by (simp add: value_names_def u iv)
qed

lemma append_values_bare:
  assumes "bare s ns board" "distinct (ns @ concat (map value_cols ps))" "length ns + 3 * length ps < kMaxNodes"
  shows "\<exists>s'. for_each (append_value u) ps s = Some s' \<and> bare s' (ns @ concat (map (value_names u) ps)) board"
  using assms
proof (induction ps arbitrary: s ns)
  case (Cons iv ps)
  obtain s' where s': "append_value u iv s = Some s'" "bare s' (ns @ value_names u iv) board"
    using append_value_bare [OF Cons.prems(1), of iv u] Cons.prems(2,3) by auto
  have "distinct (ns @ value_names u iv)" using s'(2) by (simp add: bare_def heads_def)
  then have "distinct ((ns @ value_names u iv) @ concat (map value_cols ps))"
    using Cons.prems(2) value_names_cols(1) [of u iv] by auto
  then show ?case using Cons.IH [OF s'(2)] Cons.prems(3) value_names_cols(2) [of u iv] s'(1) by simp
qed simp

definition fits :: "used \<times> used \<times> used \<Rightarrow> int list \<Rightarrow> nat \<times> nat \<Rightarrow> bool" where
  "fits u board iv =
     (let (rows, cols, boxes) = u; (i, v) = iv
      in board ! i = 0 \<and> \<not> (rows (row_of i) v \<or> cols (col_of i) v \<or> boxes (box_of i) v))"

lemma add_rows_quads:
  assumes "rowed s ns board" "quads s ns ks" "\<And>iv. iv \<in> set ps \<Longrightarrow> fits u board iv \<Longrightarrow> set (names iv) \<subseteq> set ns"
    "cur_node s + 4 * length ps \<le> kMaxNodes"
  shows "\<exists>s'. for_each (add_row u) ps s = Some s' \<and> rowed s' ns board \<and> quads s' ns (ks @ filter (fits u board) ps)"
  using assms
proof (induction ps arbitrary: s ks)
  case (Cons iv ps)
  obtain rows cols boxes where u: "u = (rows, cols, boxes)" by (metis prod_cases3)
  obtain i v where iv: "iv = (i, v)" by (cases iv)
  show ?case
  proof (cases "fits u board iv")
    case True
    then have f: "board ! i = 0" "\<not> rows (row_of i) v" "\<not> cols (col_of i) v" "\<not> boxes (box_of i) v" by (simp_all add: fits_def u iv)
    obtain s' where s': "add_row u iv s = Some s'" "rowed s' ns board" "quads s' ns (ks @ [iv])"
      using add_row_quads [OF Cons.prems(1,2) _ _ u iv f] Cons.prems(3,4) True by auto
    have "cur_node s' + 4 * length ps \<le> kMaxNodes"
      using quadsD(1) [OF s'(3)] quadsD(1) [OF Cons.prems(2)] Cons.prems(4) by simp
    then show ?thesis using Cons.IH [OF s'(2,3)] Cons.prems(3) s'(1) True by simp
  next
    case False
    have "inout s = board" using Cons.prems(1) by (simp add: rowed_def)
    then have "add_row u iv s = Some s" using False by (auto simp: add_row_def fits_def u iv Let_def)
    then show ?thesis using Cons.IH [OF Cons.prems(1,2)] Cons.prems(3,4) False by simp
  qed
qed simp

end
