(* ===== verification/Ex_Sudoku_Solve.thy ===== *)
theory Ex_Sudoku_Solve
  imports Ex_Sudoku_Build
begin

section \<open>The solver solves the puzzle\<close>

text \<open>
  The matrix the constructor builds from the board, the completions of the puzzle and the exact covers of the matrix, and the
  theorem of \<open>solveSudoku\<close>.
\<close>

subsection \<open>The matrix of a board\<close>

lemma mark_used_fold:
  "fold (\<lambda>i (rows, cols, boxes). let v = nat (board ! i) in (mark (row_of i) v rows, mark (col_of i) v cols, mark (box_of i) v boxes)) xs
     (\<lambda>_ _. False, \<lambda>_ _. False, \<lambda>_ _. False) =
   ((\<lambda>r v. \<exists>i\<in>set xs. row_of i = r \<and> nat (board ! i) = v), (\<lambda>r v. \<exists>i\<in>set xs. col_of i = r \<and> nat (board ! i) = v),
    (\<lambda>r v. \<exists>i\<in>set xs. box_of i = r \<and> nat (board ! i) = v))"
proof (induction xs rule: rev_induct)
  case (snoc x xs)
  then show ?case by (auto simp: mark_def fun_eq_iff Let_def)
qed simp

definition used_by :: "(nat \<Rightarrow> nat) \<Rightarrow> int list \<Rightarrow> used" where
  "used_by unit board r v \<longleftrightarrow> (\<exists>i\<in>{0..<kCells}. unit i = r \<and> nat (board ! i) = v)"

lemma mark_used_eq: "mark_used board = (used_by row_of board, used_by col_of board, used_by box_of board)"
  unfolding mark_used_def mark_used_fold by (simp add: used_by_def fun_eq_iff)

definition pairs :: "(nat \<times> nat) list" where "pairs = List.product [0..<9] [1..<10]"

definition board_names :: "int list \<Rightarrow> nat list" where
  "board_names board = filter (\<lambda>i. board ! i = 0) [0..<kCells] @ concat (map (value_names (mark_used board)) pairs)"

definition cands :: "int list \<Rightarrow> (nat \<times> nat) list" where
  "cands board = filter (fits (mark_used board) board) (List.product [0..<kCells] [1..<10])"

lemma distinct_concat_map:
  assumes "distinct ps" "\<And>p. p \<in> set ps \<Longrightarrow> distinct (f p)"
    and "\<And>p q. p \<in> set ps \<Longrightarrow> q \<in> set ps \<Longrightarrow> p \<noteq> q \<Longrightarrow> set (f p) \<inter> set (f q) = {}"
  shows "distinct (concat (map f ps))"
  using assms
proof (induction ps)
  case (Cons p ps)
  have "distinct (concat (map f ps))" by (rule Cons.IH) (use Cons.prems in auto)
  moreover have "set (f p) \<inter> set (f q) = {}" if "q \<in> set ps" for q using Cons.prems that by auto
  ultimately show ?case using Cons.prems(2) by fastforce
qed simp

lemmas name_defs = get_row_col_def get_col_col_def get_box_col_def kRow_def kCol_def kBox_def

lemma value_cols_distinct: "distinct ([0..<kCells] @ concat (map value_cols pairs))"
proof -
  have v: "distinct (value_cols p)" if "p \<in> set pairs" for p
    using that by (auto simp: value_cols_def pairs_def name_defs)
  have d: "set (value_cols p) \<inter> set (value_cols q) = {}" if p: "p \<in> set pairs" and q: "q \<in> set pairs" and n: "p \<noteq> q" for p q
  proof -
    obtain i v j w where e: "p = (i, v)" "q = (j, w)" by (metis surj_pair)
    have r: "i < 9" "1 \<le> v" "v < 10" "j < 9" "1 \<le> w" "w < 10" using p q by (auto simp: e pairs_def)
    have "i * 10 + v \<noteq> j * 10 + w" using n r by (auto simp: e) presburger
    then show ?thesis using r by (auto simp: e value_cols_def name_defs)
  qed
  have "distinct pairs" by (simp add: pairs_def distinct_product)
  then have "distinct (concat (map value_cols pairs))" using v d by (rule distinct_concat_map)
  moreover have "k \<notin> set (concat (map value_cols pairs))" if "k < kCells" for k
    using that by (auto simp: value_cols_def name_defs kCells_def)
  ultimately show ?thesis by auto
qed

lemma unit_less:
  assumes "i < kCells"
  shows "row_of i < 9" "col_of i < 9" "box_of i < 9"
proof -
  show "row_of i < 9" "col_of i < 9" using assms by (auto simp: row_of_def col_of_def kCells_def)
  then have "row_of i div 3 < 3" "col_of i div 3 < 3" by auto
  then show "box_of i < 9" unfolding box_of_def by linarith
qed

lemma in_value_names:
  assumes "r < 9" "1 \<le> v" "v < 10"
  shows "\<not> used_by row_of board r v \<Longrightarrow> get_row_col r v \<in> set (board_names board)"
    "\<not> used_by col_of board r v \<Longrightarrow> get_col_col r v \<in> set (board_names board)"
    "\<not> used_by box_of board r v \<Longrightarrow> get_box_col r v \<in> set (board_names board)"
proof -
  have "(r, v) \<in> set pairs" using assms by (simp add: pairs_def)
  then have "set (value_names (mark_used board) (r, v)) \<subseteq> set (board_names board)" unfolding board_names_def by auto
  then show "\<not> used_by row_of board r v \<Longrightarrow> get_row_col r v \<in> set (board_names board)"
    "\<not> used_by col_of board r v \<Longrightarrow> get_col_col r v \<in> set (board_names board)"
    "\<not> used_by box_of board r v \<Longrightarrow> get_box_col r v \<in> set (board_names board)"
    by (auto simp: value_names_def mark_used_eq)
qed

lemma candsD:
  assumes "(i, v) \<in> set (cands board)"
  shows "i < kCells" "1 \<le> v" "v < 10" "board ! i = 0" "\<not> used_by row_of board (row_of i) v" "\<not> used_by col_of board (col_of i) v"
    "\<not> used_by box_of board (box_of i) v"
  using assms by (auto simp: cands_def fits_def mark_used_eq)

lemma cands_names: "iv \<in> set (cands board) \<Longrightarrow> set (names iv) \<subseteq> set (board_names board)"
proof -
  assume iv: "iv \<in> set (cands board)"
  obtain i v where e: "iv = (i, v)" by (cases iv)
  note c = candsD [OF iv [unfolded e]]
  have "i \<in> set (board_names board)" using c(1,4) by (simp add: board_names_def)
  then show ?thesis using in_value_names [OF _ c(2,3)] unit_less [OF c(1)] c(5-7) by (simp add: names_def e)
qed

lemma board_names_length: "length (board_names board) \<le> 324"
proof -
  have "length (concat (map (value_names u) ps)) \<le> 3 * length ps" for u ps
  proof (induction ps)
    case (Cons p ps)
    then show ?case using value_names_cols(2) [of u p] by simp
  qed simp
  from this [of "mark_used board" pairs] have "length (concat (map (value_names (mark_used board)) pairs)) \<le> 243" by (simp add: pairs_def)
  moreover have "length (filter (\<lambda>i. board ! i = 0) [0..<kCells]) \<le> 81" using length_filter_le [of _ "[0..<kCells]"] by (simp add: kCells_def)
  ultimately show ?thesis by (simp add: board_names_def)
qed

lemma SudokuSolver_built:
  "\<exists>s. SudokuSolver board = Some s \<and> rowed s (board_names board) board \<and> quads s (board_names board) (cands board)"
proof -
  let ?e = "empty_solver board"
  let ?f = "fresh_node 0 0 0 (?e\<lparr>cur_node := 1\<rparr>)"
  define s0 where "s0 = ?f\<lparr>root := 0, nleft := (nleft ?f)(0 := 0), nright := (nright ?f)(0 := 0), columns := (\<lambda>_. None)\<rparr>"
  have n: "new_column 0 ?e = Some (0, ?f)" by (simp add: new_column_def assert_then_def empty_solver_def kMaxNodes_def)
  have "bare s0 [] board"
    by (simp add: bare_def heads_def ring_def vrep_def s0_def empty_solver_def)
  then obtain s1 where s1: "for_each append_cell [0..<kCells] s0 = Some s1" "bare s1 (filter (\<lambda>i. board ! i = 0) [0..<kCells]) board"
    using append_cells_bare [of s0 "[]" board "[0..<kCells]"] by (auto simp: kCells_def kMaxNodes_def)
  have d: "distinct (filter (\<lambda>i. board ! i = 0) [0..<kCells] @ concat (map value_cols pairs))" using value_cols_distinct by auto
  have l: "length (filter (\<lambda>i. board ! i = 0) [0..<kCells]) + 3 * length pairs < kMaxNodes"
    using length_filter_le [of "\<lambda>i. board ! i = 0" "[0..<kCells]"] by (simp add: pairs_def kCells_def kMaxNodes_def)
  obtain s2 where s2: "for_each (append_value (mark_used board)) pairs s1 = Some s2" "bare s2 (board_names board) board"
    using append_values_bare [OF s1(2) d l] unfolding board_names_def by blast
  note rw = bare_rowed [OF s2(2)]
  have cn: "cur_node s2 = length (board_names board) + 1" using s2(2) by (simp add: bare_def)
  have q: "quads s2 (board_names board) []" by (simp add: quads_def cn)
  have room: "cur_node s2 + 4 * length (List.product [0..<kCells] [1..<10]) \<le> kMaxNodes"
    using board_names_length [of board] by (simp add: cn kCells_def kMaxNodes_def)
  have nms: "set (names iv) \<subseteq> set (board_names board)"
    if "iv \<in> set (List.product [0..<kCells] [1..<10])" "fits (mark_used board) board iv" for iv
    using that by (intro cands_names) (simp add: cands_def)
  have "\<exists>s3. for_each (add_row (mark_used board)) (List.product [0..<kCells] [1..<10]) s2 = Some s3 \<and> rowed s3 (board_names board) board \<and>
      quads s3 (board_names board) ([] @ filter (fits (mark_used board) board) (List.product [0..<kCells] [1..<10]))"
    using nms by (intro add_rows_quads [OF rw q _ room])
  then obtain s3 where s3: "for_each (add_row (mark_used board)) (List.product [0..<kCells] [1..<10]) s2 = Some s3"
      "rowed s3 (board_names board) board" "quads s3 (board_names board) (cands board)"
    unfolding cands_def by auto
  have "SudokuSolver board = Some s3"
    using s1(1) [unfolded s0_def] s2(1) s3(1) by (simp add: SudokuSolver_def n Let_def pairs_def)
  then show ?thesis using s3(2,3) by blast
qed

subsection \<open>The rows of the matrix\<close>

text \<open>The node \<open>t\<close> of the row \<open>j\<close>, and the siblings of a node when the first row starts at \<open>b\<close>.\<close>

definition sibs :: "nat \<Rightarrow> nat \<Rightarrow> nat list" where
  "sibs b x = (let q = b + (x - b) div 4 * 4; t = (x - b) mod 4 in map (\<lambda>i. q + (t + i) mod 4) [1, 2, 3])"

lemma sibs_at:
  assumes "t < 4"
  shows "sibs b (b + 4 * j + t) = map (\<lambda>i. b + 4 * j + (t + i) mod 4) [1, 2, 3]"
  using assms by (simp add: sibs_def Let_def)

lemma sibs_quad:
  assumes "q = b + 4 * j"
  shows "sibs b q = [q + 1, q + 2, q + 3]" "sibs b (q + 1) = [q + 2, q + 3, q]" "sibs b (q + 2) = [q + 3, q, q + 1]" "sibs b (q + 3) = [q, q + 1, q + 2]"
  using sibs_at [of 0 b j] sibs_at [of 1 b j] sibs_at [of 2 b j] sibs_at [of 3 b j] assms by simp_all

lemma quad_cases:
  fixes x b n :: nat
  assumes "b \<le> x" "x < b + 4 * n"
  obtains j where "j < n" "x = b + 4 * j" | j where "j < n" "x = b + 4 * j + 1" | j where "j < n" "x = b + 4 * j + 2"
    | j where "j < n" "x = b + 4 * j + 3"
proof -
  define j where "j = (x - b) div 4"
  have "x = b + 4 * j + (x - b) mod 4" "j < n" using assms by (auto simp: j_def)
  moreover have "(x - b) mod 4 = 0 \<or> (x - b) mod 4 = 1 \<or> (x - b) mod 4 = 2 \<or> (x - b) mod 4 = 3" by auto
  ultimately show thesis using that by (metis add.right_neutral)
qed

lemma ring_rotate: "ring n p a [b, c, d] \<Longrightarrow> ring n p b [c, d, a]"
  by (auto simp: ring_def)

lemma names_at:
  assumes "iv = (i, v)"
  shows "names iv ! 0 = i" "names iv ! 1 = get_row_col (row_of i) v" "names iv ! 2 = get_col_col (col_of i) v" "names iv ! 3 = get_box_col (box_of i) v"
  by (simp_all add: names_def assms)

lemma names_distinct: "(i, v) \<in> set (cands board) \<Longrightarrow> distinct (names (i, v))"
  using candsD(1-3) [of i v board] unit_less [of i] by (auto simp: names_def name_defs kCells_def)

text \<open>What the kernel needs of a solver with the names \<open>ns\<close> of the columns and the rows \<open>ks\<close>.\<close>

definition matrix :: "solver \<Rightarrow> int list \<Rightarrow> bool" where
  "matrix s board \<longleftrightarrow> rowed s (board_names board) board \<and> quads s (board_names board) (cands board)"

definition base :: "int list \<Rightarrow> nat" where "base board = length (board_names board) + 1"
definition nodes :: "int list \<Rightarrow> nat set" where "nodes board = {base board..<base board + 4 * length (cands board)}"

lemma matrix_names:
  assumes m: "matrix s board" and j: "j < length (cands board)" and q: "q = base board + 4 * j" and iv: "cands board ! j = (i, v)"
  shows "nname s q = int i" "nname s (q + 1) = int (get_row_col (row_of i) v)" "nname s (q + 2) = int (get_col_col (col_of i) v)"
    "nname s (q + 3) = int (get_box_col (box_of i) v)"
proof -
  have k: "quads s (board_names board) (cands board)" using m by (simp add: matrix_def)
  note n = quadsD(3) [OF k j q [unfolded base_def]]
  show "nname s q = int i" "nname s (q + 1) = int (get_row_col (row_of i) v)" "nname s (q + 2) = int (get_col_col (col_of i) v)"
    "nname s (q + 3) = int (get_box_col (box_of i) v)"
    using n [of 0] n [of 1] n [of 2] n [of 3] names_at [OF iv] by simp_all
qed

lemma matrix_ring:
  assumes m: "matrix s board" and j: "j < length (cands board)" and q: "q = base board + 4 * j"
  shows "ring (nright s) (nleft s) q [q + 1, q + 2, q + 3]" "ring (nright s) (nleft s) (q + 1) [q + 2, q + 3, q]"
    "ring (nright s) (nleft s) (q + 2) [q + 3, q, q + 1]" "ring (nright s) (nleft s) (q + 3) [q, q + 1, q + 2]"
proof -
  have k: "quads s (board_names board) (cands board)" using m by (simp add: matrix_def)
  show r: "ring (nright s) (nleft s) q [q + 1, q + 2, q + 3]" using quadsD(2) [OF k j q [unfolded base_def]] .
  show r1: "ring (nright s) (nleft s) (q + 1) [q + 2, q + 3, q]" using ring_rotate [OF r] .
  show r2: "ring (nright s) (nleft s) (q + 2) [q + 3, q, q + 1]" using ring_rotate [OF r1] .
  show "ring (nright s) (nleft s) (q + 3) [q, q + 1, q + 2]" using ring_rotate [OF r2] .
qed

lemma matrix_col:
  assumes m: "matrix s board" and x: "x \<in> nodes board"
  shows "1 \<le> ncol s x" "ncol s x < base board" "nname s (ncol s x) = nname s x"
proof -
  have rw: "rowed s (board_names board) board" and k: "quads s (board_names board) (cands board)" using m by (simp_all add: matrix_def)
  have "length (board_names board) < x" "x < cur_node s" using x quadsD(1) [OF k] by (auto simp: nodes_def base_def)
  from rowedD(5) [OF rw this] show "1 \<le> ncol s x" "ncol s x < base board" "nname s (ncol s x) = nname s x" by (simp_all add: base_def)
qed

lemma names4_distinct:
  assumes m: "matrix s board" and j: "j < length (cands board)" and q: "q = base board + 4 * j"
  shows "distinct (map (ncol s) [q, q + 1, q + 2, q + 3])"
proof -
  obtain i v where iv: "cands board ! j = (i, v)" by (metis surj_pair)
  note n = matrix_names [OF m j q iv]
  have "(i, v) \<in> set (cands board)" using j iv by (metis nth_mem)
  then have "distinct (map int (names (i, v)))" using names_distinct by (auto simp: distinct_map)
  moreover have "map (nname s) [q, q + 1, q + 2, q + 3] = map int (names (i, v))" by (simp only: list.map n names_def Let_def prod.case)
  ultimately have "distinct (map (nname s) [q, q + 1, q + 2, q + 3])" by simp
  moreover have "nname s (ncol s (q + t)) = nname s (q + t)" if "t < 4" for t
    using matrix_col(3) [OF m, of "q + t"] j q that by (auto simp: nodes_def)
  from this [of 0] this [of 1] this [of 2] this [of 3]
  have "map (nname s) (map (ncol s) [q, q + 1, q + 2, q + 3]) = map (nname s) [q, q + 1, q + 2, q + 3]" by simp
  ultimately show ?thesis by (metis distinct_map)
qed

lemma matrix_rows: "matrix s board \<Longrightarrow> rows_ok s (nodes board) (sibs (base board))"
  unfolding rows_ok_def
proof
  fix x
  assume m: "matrix s board" and x: "x \<in> nodes board"
  have b: "base board \<le> x" "x < base board + 4 * length (cands board)" using x by (auto simp: nodes_def)
  show "ring (nright s) (nleft s) x (sibs (base board) x) \<and> set (sibs (base board) x) \<subseteq> nodes board \<and>
      (\<forall>j\<in>set (sibs (base board) x). set (j # sibs (base board) j) = set (x # sibs (base board) x)) \<and>
      distinct (map (ncol s) (x # sibs (base board) x))"
  proof (cases rule: quad_cases [OF b])
    case (1 j)
    show ?thesis using matrix_ring [OF m 1] sibs_quad [OF 1(2)] names4_distinct [OF m 1] 1 by (auto simp: nodes_def)
  next
    case (2 j)
    define q where "q = base board + 4 * j"
    show ?thesis using matrix_ring [OF m 2(1) q_def] sibs_quad [OF q_def] names4_distinct [OF m 2(1) q_def] 2 by (auto simp: nodes_def q_def)
  next
    case (3 j)
    define q where "q = base board + 4 * j"
    show ?thesis using matrix_ring [OF m 3(1) q_def] sibs_quad [OF q_def] names4_distinct [OF m 3(1) q_def] 3 by (auto simp: nodes_def q_def)
  next
    case (4 j)
    define q where "q = base board + 4 * j"
    show ?thesis using matrix_ring [OF m 4(1) q_def] sibs_quad [OF q_def] names4_distinct [OF m 4(1) q_def] 4 by (auto simp: nodes_def q_def)
  qed
qed

definition below :: "solver \<Rightarrow> int list \<Rightarrow> nat \<Rightarrow> nat list" where
  "below s board c = filter (\<lambda>x. ncol s x = c) [base board..<base board + 4 * length (cands board)]"

lemma matrix_rep:
  assumes m: "matrix s board"
  shows "rep s (nodes board) (sibs (base board)) [1..<base board] (below s board)"
proof -
  have rw: "rowed s (board_names board) board" and k: "quads s (board_names board) (cands board)" using m by (simp_all add: matrix_def)
  note h = headsD [OF rowedD(1) [OF rw]]
  have s: "{1..length (board_names board)} = set [1..<base board]" by (auto simp: base_def)
  have "vrep s (set [1..<base board]) (below s board)"
    using rowedD(2) [OF rw] unfolding s quadsD(1) [OF k] below_def by (simp add: base_def)
  moreover have "closed_rows s (nodes board) (sibs (base board)) [1..<base board] (below s board)"
    unfolding closed_rows_def
  proof (intro ballI conjI subsetI)
    fix c x
    assume "x \<in> set (below s board c)"
    then show x: "x \<in> nodes board" by (simp add: below_def nodes_def)
    fix j
    assume "j \<in> set (sibs (base board) x)"
    then have "j \<in> nodes board" using rowsD(2) [OF matrix_rows [OF m] x] by blast
    then show "ncol s j \<in> set [1..<base board]" "j \<in> set (below s board (ncol s j))"
      using matrix_col [OF m, of j] by (simp_all add: below_def nodes_def)
  qed
  moreover have "ring (nright s) (nleft s) (root s) [1..<base board]" using h(1,3) by (simp add: base_def)
  moreover have "nodes board \<inter> set (root s # [1..<base board]) = {}" using h(1) by (auto simp: nodes_def base_def)
  ultimately show ?thesis using matrix_rows [OF m] by (simp add: rep_def)
qed

end
