(* ===== verification/Ex_Sudoku_Grid.thy ===== *)
theory Ex_Sudoku_Grid
  imports Ex_Sudoku_Solve
begin

section \<open>Exact covers are completions of the puzzle\<close>

text \<open>
  The completions of a board, and the sets of candidates that name every header exactly once: a completion gives such a set, and
  writing such a set to the board gives a completion. A unit is a row, a column or a box.
\<close>

definition same_unit :: "nat \<Rightarrow> nat \<Rightarrow> bool" where
  "same_unit i j \<longleftrightarrow> row_of i = row_of j \<or> col_of i = col_of j \<or> box_of i = box_of j"

text \<open>A completion keeps the given digits, and no digit is twice in a unit.\<close>

definition completes :: "int list \<Rightarrow> int list \<Rightarrow> bool" where
  "completes board b \<longleftrightarrow>
     length b = kCells \<and> (\<forall>i\<in>{0..<kCells}. 1 \<le> b ! i \<and> b ! i \<le> 9 \<and> (board ! i = 0 \<or> b ! i = board ! i)) \<and>
     (\<forall>i\<in>{0..<kCells}. \<forall>j\<in>{0..<kCells}. i = j \<or> \<not> same_unit i j \<or> b ! i \<noteq> b ! j)"

definition valid_board :: "int list \<Rightarrow> bool" where
  "valid_board board \<longleftrightarrow> length board = kCells \<and> list_all (\<lambda>b. 0 \<le> b \<and> b \<le> 9) board"

definition cand_cover :: "int list \<Rightarrow> (nat \<times> nat) set \<Rightarrow> bool" where
  "cand_cover board A \<longleftrightarrow> A \<subseteq> set (cands board) \<and> (\<forall>k\<in>set (board_names board). \<exists>!a. a \<in> A \<and> k \<in> set (names a))"

definition units :: "((nat \<Rightarrow> nat) \<times> (nat \<Rightarrow> nat \<Rightarrow> nat)) set" where
  "units = {(row_of, get_row_col), (col_of, get_col_col), (box_of, get_box_col)}"

lemma units_cases:
  assumes "(u, g) \<in> units"
  obtains "u = row_of" "g = get_row_col" | "u = col_of" "g = get_col_col" | "u = box_of" "g = get_box_col"
  using assms by (auto simp: units_def)

lemma same_unit_units: "same_unit i j \<longleftrightarrow> (\<exists>(u, g)\<in>units. u i = u j)"
  by (auto simp: same_unit_def units_def)

lemma unit_bound: "(u, g) \<in> units \<Longrightarrow> i < kCells \<Longrightarrow> u i < 9"
  using unit_less by (auto elim: units_cases)

lemma unit_name: "(u, g) \<in> units \<Longrightarrow> r < 9 \<Longrightarrow> 1 \<le> v \<Longrightarrow> v < 10 \<Longrightarrow> \<not> used_by u board r v \<Longrightarrow> g r v \<in> set (board_names board)"
  using in_value_names [of r v board] by (auto elim: units_cases)

lemma unit_free: "(u, g) \<in> units \<Longrightarrow> (i, v) \<in> set (cands board) \<Longrightarrow> \<not> used_by u board (u i) v"
  using candsD [of i v board] by (auto elim: units_cases)

lemma eq_tens:
  assumes "r * 10 + v = q * 10 + w" "(v::nat) < 10" "w < 10"
  shows "r = q \<and> v = w"
  using assms by presburger

lemma unit_in_names:
  assumes ug: "(u, g) \<in> units" and i: "i < kCells" and v: "v < 10" and r: "r < 9" and w: "w < 10"
  shows "g r w \<in> set (names (i, v)) \<longleftrightarrow> u i = r \<and> v = w"
proof -
  have b: "row_of i < 9" "col_of i < 9" "box_of i < 9" "i < 81" using unit_less [OF i] i by (simp_all add: kCells_def)
  have e: "a * 10 + v = r * 10 + w \<longleftrightarrow> a = r \<and> v = w" for a using eq_tens [of a v r w] v w by auto
  from ug show ?thesis
  proof (cases rule: units_cases)
    case 1
    have "g r w \<in> set (names (i, v)) \<longleftrightarrow> row_of i * 10 + v = r * 10 + w" using b v r w by (auto simp: names_def name_defs 1)
    then show ?thesis by (simp only: e 1)
  next
    case 2
    have "g r w \<in> set (names (i, v)) \<longleftrightarrow> col_of i * 10 + v = r * 10 + w" using b v r w by (auto simp: names_def name_defs 2)
    then show ?thesis by (simp only: e 2)
  next
    case 3
    have "g r w \<in> set (names (i, v)) \<longleftrightarrow> box_of i * 10 + v = r * 10 + w" using b v r w by (auto simp: names_def name_defs 3)
    then show ?thesis by (simp only: e 3)
  qed
qed

lemma cell_in_names: "j < kCells \<Longrightarrow> j \<in> set (names (i, v)) \<longleftrightarrow> j = i"
  by (auto simp: names_def name_defs kCells_def)

lemma board_names_cases:
  assumes "k \<in> set (board_names board)"
  obtains (cell) "k < kCells" "board ! k = 0"
    | (unit) u g r v where "(u, g) \<in> units" "k = g r v" "r < 9" "1 \<le> v" "v < 10" "\<not> used_by u board r v"
proof -
  consider "k < kCells" "board ! k = 0" | r v where "(r, v) \<in> set pairs" "k \<in> set (value_names (mark_used board) (r, v))"
    using assms by (auto simp: board_names_def)
  then show thesis
  proof cases
    case 1
    then show thesis by (rule cell)
  next
    case (2 r v)
    have rv: "r < 9" "1 \<le> v" "v < 10" using 2(1) by (auto simp: pairs_def)
    consider "k = get_row_col r v" "\<not> used_by row_of board r v" | "k = get_col_col r v" "\<not> used_by col_of board r v"
      | "k = get_box_col r v" "\<not> used_by box_of board r v"
      using 2(2) by (auto simp: value_names_def mark_used_eq split: if_splits)
    then show thesis by cases (use rv unit in \<open>auto simp: units_def\<close>)
  qed
qed

subsection \<open>The nine cells of a unit\<close>

lemma unit_sizes:
  "list_all (\<lambda>r. length (filter (\<lambda>i. row_of i = r) [0..<kCells]) = 9) [0..<9]"
  "list_all (\<lambda>r. length (filter (\<lambda>i. col_of i = r) [0..<kCells]) = 9) [0..<9]"
  "list_all (\<lambda>r. length (filter (\<lambda>i. box_of i = r) [0..<kCells]) = 9) [0..<9]"
  by (simp_all add: kCells_def row_of_def col_of_def box_of_def upt_rec)

lemma unit_card:
  assumes "(u, g) \<in> units" "r < 9"
  shows "card {i \<in> {0..<kCells}. u i = r} = 9"
proof -
  have "r \<in> set [0..<9]" using assms(2) by simp
  note size = unit_sizes [unfolded list_all_iff, THEN bspec, OF this]
  have "length (filter (\<lambda>i. u i = r) [0..<kCells]) = 9"
    using assms(1) by (cases rule: units_cases) (simp_all only: size)
  moreover have "distinct (filter (\<lambda>i. u i = r) [0..<kCells])" by simp
  ultimately show ?thesis using distinct_card [of "filter (\<lambda>i. u i = r) [0..<kCells]"] by simp
qed

lemma unit_digits:
  fixes f :: "nat \<Rightarrow> int"
  assumes "(u, g) \<in> units" "r < 9" "\<And>i. i < kCells \<Longrightarrow> u i = r \<Longrightarrow> 1 \<le> f i \<and> f i \<le> 9"
  shows "inj_on f {i \<in> {0..<kCells}. u i = r} \<longleftrightarrow> f ` {i \<in> {0..<kCells}. u i = r} = {1..9}"
proof -
  let ?U = "{i \<in> {0..<kCells}. u i = r}"
  have U: "finite ?U" "card ?U = 9" using unit_card [OF assms(1,2)] by simp_all
  have sub: "f ` ?U \<subseteq> {1..9}" using assms(3) by auto
  show ?thesis
  proof
    assume "inj_on f ?U"
    then have "card (f ` ?U) = card {1..9::int}" using U by (simp add: card_image)
    then show "f ` ?U = {1..9}" using sub by (intro card_subset_eq) auto
  next
    assume "f ` ?U = {1..9}"
    then have "card (f ` ?U) = card ?U" using U by simp
    then show "inj_on f ?U" using U(1) by (rule eq_card_imp_inj_on [rotated])
  qed
qed

lemma valid_boardD:
  assumes "valid_board board" "i < kCells"
  shows "0 \<le> board ! i" "board ! i \<le> 9"
  using assms by (simp_all add: valid_board_def list_all_length)

subsection \<open>From a cover to a completion\<close>

lemma cover_completes:
  assumes vb: "valid_board board" and A: "cand_cover board A" and len: "length b = kCells"
    and new: "\<And>i v. (i, v) \<in> A \<Longrightarrow> b ! i = int v" and old: "\<And>i. i < kCells \<Longrightarrow> board ! i \<noteq> 0 \<Longrightarrow> b ! i = board ! i"
  shows "completes board b"
proof -
  have sub: "A \<subseteq> set (cands board)" using A by (simp add: cand_cover_def)
  have has: "\<exists>i v. (i, v) \<in> A \<and> k \<in> set (names (i, v))" if "k \<in> set (board_names board)" for k
    using A that unfolding cand_cover_def by fast
  have digit: "1 \<le> b ! i \<and> b ! i \<le> 9" if i: "i < kCells" for i
  proof (cases "board ! i = 0")
    case True
    then have "i \<in> set (board_names board)" using i by (simp add: board_names_def)
    then obtain j v where a: "(j, v) \<in> A" "i \<in> set (names (j, v))" using has by blast
    then have "j = i" using cell_in_names [OF i] by simp
    moreover have "1 \<le> v" "v < 10" using candsD(2,3) [of j v board] sub a(1) by blast+
    ultimately show ?thesis using new [OF a(1)] by simp
  next
    case False
    then show ?thesis using old [OF i] valid_boardD [OF vb i] by simp
  qed
  have onto: "(!) b ` {i \<in> {0..<kCells}. u i = r} = {1..9}" if ug: "(u, g) \<in> units" and r: "r < 9" for u g r
  proof
    show "(!) b ` {i \<in> {0..<kCells}. u i = r} \<subseteq> {1..9}" using digit by auto
    show "{1..9} \<subseteq> (!) b ` {i \<in> {0..<kCells}. u i = r}"
    proof
      fix d :: int
      assume "d \<in> {1..9}"
      then obtain v where v: "d = int v" "1 \<le> v" "v < 10" by (auto intro: that [of "nat d"])
      show "d \<in> (!) b ` {i \<in> {0..<kCells}. u i = r}"
      proof (cases "used_by u board r v")
        case True
        then obtain i where i: "i < kCells" "u i = r" "nat (board ! i) = v" by (auto simp: used_by_def)
        then have "board ! i = int v" "board ! i \<noteq> 0" using valid_boardD(1) [OF vb i(1)] v(2) by auto
        then show ?thesis using i old [OF i(1)] v(1) by (intro image_eqI [of _ _ i]) auto
      next
        case False
        then obtain i w where a: "(i, w) \<in> A" "g r v \<in> set (names (i, w))" using has [OF unit_name [OF ug r v(2,3)]] by blast
        have c: "i < kCells" "w < 10" using candsD(1,3) [of i w board] sub a(1) by blast+
        then have "u i = r \<and> w = v" using unit_in_names [OF ug c r v(3)] a(2) by simp
        then show ?thesis using new [OF a(1)] c(1) v(1) by (intro image_eqI [of _ _ i]) auto
      qed
    qed
  qed
  have "b ! i \<noteq> b ! j" if ij: "i < kCells" "j < kCells" "i \<noteq> j" "same_unit i j" for i j
  proof
    assume e: "b ! i = b ! j"
    obtain u g where ug: "(u, g) \<in> units" "u i = u j" using ij(4) by (auto simp: same_unit_units)
    have r: "u i < 9" using unit_bound [OF ug(1) ij(1)] .
    have "inj_on ((!) b) {k \<in> {0..<kCells}. u k = u i}" using unit_digits [OF ug(1) r] digit onto [OF ug(1) r] by blast
    then have "i = j" by (rule inj_onD) (use e ij ug(2) in auto)
    then show False using ij(3) by simp
  qed
  then have "\<forall>i\<in>{0..<kCells}. \<forall>j\<in>{0..<kCells}. i = j \<or> \<not> same_unit i j \<or> b ! i \<noteq> b ! j" by force
  moreover have "\<forall>i\<in>{0..<kCells}. 1 \<le> b ! i \<and> b ! i \<le> 9 \<and> (board ! i = 0 \<or> b ! i = board ! i)" using digit old by force
  ultimately show ?thesis using len by (simp add: completes_def)
qed

subsection \<open>From a completion to a cover\<close>

definition chosen :: "int list \<Rightarrow> int list \<Rightarrow> (nat \<times> nat) set" where
  "chosen board b = (\<lambda>i. (i, nat (b ! i))) ` {i \<in> {0..<kCells}. board ! i = 0}"

lemma completesD:
  assumes "completes board b"
  shows "length b = kCells" "i < kCells \<Longrightarrow> 1 \<le> b ! i \<and> b ! i \<le> 9" "i < kCells \<Longrightarrow> board ! i \<noteq> 0 \<Longrightarrow> b ! i = board ! i"
    "i < kCells \<Longrightarrow> j < kCells \<Longrightarrow> same_unit i j \<Longrightarrow> b ! i = b ! j \<Longrightarrow> i = j"
  using assms unfolding completes_def by (simp, force, force, metis atLeastLessThan_iff le0)

lemma completes_cover:
  assumes vb: "valid_board board" and b: "completes board b"
  shows "cand_cover board (chosen board b)"
proof -
  note c = completesD [OF b]
  have free: "\<not> used_by u board (u i) (nat (b ! i))" if ug: "(u, g) \<in> units" and i: "i < kCells" "board ! i = 0" for u g i
  proof
    assume "used_by u board (u i) (nat (b ! i))"
    then obtain j where j: "j < kCells" "u j = u i" "nat (board ! j) = nat (b ! i)" by (auto simp: used_by_def)
    then have "board ! j = b ! i" "board ! j \<noteq> 0" using c(2) [OF i(1)] by auto
    then have "b ! j = b ! i" using c(3) [OF j(1)] by simp
    moreover have "same_unit j i" using ug j(2) by (auto simp: same_unit_units)
    ultimately have "j = i" using c(4) j(1) i(1) by blast
    then show False using i(2) \<open>board ! j \<noteq> 0\<close> by simp
  qed
  have same: "same_unit i j" if "(u, g) \<in> units" "u i = u j" for u g i j using that by (auto simp: same_unit_units)
  have digit: "nat (b ! i) < 10" "1 \<le> nat (b ! i)" if "i < kCells" for i using c(2) [OF that] by auto
  have mem: "(i, nat (b ! i)) \<in> set (cands board)" if i: "i < kCells" "board ! i = 0" for i
    using free [of row_of get_row_col i] free [of col_of get_col_col i] free [of box_of get_box_col i] i digit [OF i(1)]
    by (simp add: cands_def fits_def mark_used_eq units_def)
  show ?thesis
    unfolding cand_cover_def
  proof (intro conjI ballI)
    show "chosen board b \<subseteq> set (cands board)" using mem by (auto simp: chosen_def)
    fix k
    assume "k \<in> set (board_names board)"
    then show "\<exists>!a. a \<in> chosen board b \<and> k \<in> set (names a)"
    proof (cases rule: board_names_cases)
      case cell
      show ?thesis
      proof (rule ex1I [of _ "(k, nat (b ! k))"])
        show "(k, nat (b ! k)) \<in> chosen board b \<and> k \<in> set (names (k, nat (b ! k)))" using cell cell_in_names by (simp add: chosen_def)
        fix a
        assume "a \<in> chosen board b \<and> k \<in> set (names a)"
        then show "a = (k, nat (b ! k))" using cell_in_names [OF cell(1)] by (auto simp: chosen_def)
      qed
    next
      case (unit u g r v)
      have "(!) b ` {i \<in> {0..<kCells}. u i = r} = {1..9}"
      proof (rule iffD1 [OF unit_digits [OF unit(1,3)]])
        show "inj_on ((!) b) {i \<in> {0..<kCells}. u i = r}"
          by (rule inj_onI) (use c(4) same [OF unit(1)] in auto)
      qed (use c(2) in auto)
      moreover have "int v \<in> {1..9}" using unit(4,5) by simp
      ultimately have "int v \<in> (!) b ` {i \<in> {0..<kCells}. u i = r}" by simp
      then obtain i where i: "i < kCells" "u i = r" "b ! i = int v" by auto
      have "board ! i = 0"
      proof (rule ccontr)
        assume "board ! i \<noteq> 0"
        then have "nat (board ! i) = v" using c(3) [OF i(1)] i(3) by simp
        then show False using unit(6) i(1,2) by (auto simp: used_by_def)
      qed
      then have ch: "(i, v) \<in> chosen board b" using i by (auto simp: chosen_def)
      show ?thesis
      proof (rule ex1I [of _ "(i, v)"])
        show "(i, v) \<in> chosen board b \<and> k \<in> set (names (i, v))"
          using ch unit_in_names [OF unit(1) i(1) unit(5,3,5)] unit(2) i(2) by simp
        fix a
        assume a: "a \<in> chosen board b \<and> k \<in> set (names a)"
        then obtain j where j: "a = (j, nat (b ! j))" "j < kCells" by (auto simp: chosen_def)
        then have "u j = r" "nat (b ! j) = v" using unit_in_names [OF unit(1) j(2) digit(1) [OF j(2)] unit(3,5)] a unit(2) by simp_all
        then have "b ! j = b ! i" "same_unit j i" using i c(2) [OF j(2)] same [OF unit(1), of j i] by auto
        then have "j = i" using c(4) [OF j(2) i(1)] by blast
        then show "a = (i, v)" using j(1) \<open>nat (b ! j) = v\<close> by simp
      qed
    qed
  qed
qed

end
