(* ===== verification/Ex_Sudoku_Correct.thy ===== *)
theory Ex_Sudoku_Correct
  imports Ex_Sudoku_Grid
begin

section \<open>The solver returns a completion exactly when there is one\<close>

definition cand_of :: "int list \<Rightarrow> nat \<Rightarrow> nat \<times> nat" where
  "cand_of board x = cands board ! ((x - base board) div 4)"

definition sib_of :: "int list \<Rightarrow> nat \<Rightarrow> nat list" where
  "sib_of board = sibs (base board)"

text \<open>The four nodes of a row.\<close>

lemma node_row:
  assumes "x \<in> nodes board"
  obtains j q where "j < length (cands board)" "q = base board + 4 * j" "x \<in> {q, q + 1, q + 2, q + 3}" "cand_of board x = cands board ! j"
    "row_set (sib_of board) x = {q, q + 1, q + 2, q + 3}"
proof -
  have b: "base board \<le> x" "x < base board + 4 * length (cands board)" using assms by (auto simp: nodes_def)
  define j where "j = (x - base board) div 4"
  define q where "q = base board + 4 * j"
  have j: "j < length (cands board)" using b by (auto simp: j_def)
  have x: "x = q \<or> x = q + 1 \<or> x = q + 2 \<or> x = q + 3" using b unfolding q_def j_def by presburger
  then have "row_set (sib_of board) x = {q, q + 1, q + 2, q + 3}"
    using sibs_quad [OF q_def] by (auto simp: row_set_def sib_of_def)
  then show thesis using that [OF j q_def] x by (simp add: cand_of_def j_def)
qed

lemma node_in_row:
  assumes "j < length (cands board)" "q = base board + 4 * j" "y \<in> {q, q + 1, q + 2, q + 3}"
  shows "y \<in> nodes board" "cand_of board y = cands board ! j"
proof -
  show "y \<in> nodes board" using assms by (auto simp: nodes_def)
  have "(y - base board) div 4 = j" using assms(2,3) by auto
  then show "cand_of board y = cands board ! j" by (simp add: cand_of_def)
qed

lemma cand_of_mem: "x \<in> nodes board \<Longrightarrow> cand_of board x \<in> set (cands board)"
  by (elim node_row) simp

lemma cand_of_row:
  assumes "x \<in> nodes board" "y \<in> row_set (sib_of board) x"
  shows "y \<in> nodes board" "cand_of board y = cand_of board x"
proof -
  obtain j q where j: "j < length (cands board)" "q = base board + 4 * j" "x \<in> {q, q + 1, q + 2, q + 3}" "cand_of board x = cands board ! j"
    "row_set (sib_of board) x = {q, q + 1, q + 2, q + 3}" by (rule node_row [OF assms(1)])
  have "y \<in> {q, q + 1, q + 2, q + 3}" using assms(2) j(5) by simp
  from node_in_row [OF j(1,2) this] show "y \<in> nodes board" "cand_of board y = cand_of board x" using j(4) by simp_all
qed

lemma cand_of_onto: "a \<in> set (cands board) \<Longrightarrow> \<exists>x\<in>nodes board. cand_of board x = a"
proof -
  assume "a \<in> set (cands board)"
  then obtain j where "j < length (cands board)" "cands board ! j = a" by (auto simp: in_set_conv_nth)
  then show ?thesis using node_in_row [of j board _ "base board + 4 * j"] by auto
qed

lemma node_names:
  assumes m: "matrix s board" and x: "x \<in> nodes board"
  shows "\<exists>k\<in>set (names (cand_of board x)). nname s x = int k"
    "k \<in> set (names (cand_of board x)) \<Longrightarrow> \<exists>y\<in>row_set (sib_of board) x. nname s y = int k"
proof -
  obtain j q where j: "j < length (cands board)" "q = base board + 4 * j" "x \<in> {q, q + 1, q + 2, q + 3}" "cand_of board x = cands board ! j"
    "row_set (sib_of board) x = {q, q + 1, q + 2, q + 3}" by (rule node_row [OF x])
  obtain i v where iv: "cands board ! j = (i, v)" by (metis surj_pair)
  note n = matrix_names [OF m j(1,2) iv]
  show "\<exists>k\<in>set (names (cand_of board x)). nname s x = int k"
    using j(3) n unfolding j(4) iv by (elim insertE) (simp_all add: names_def)
  show "\<exists>y\<in>row_set (sib_of board) x. nname s y = int k" if k: "k \<in> set (names (cand_of board x))"
  proof -
    have "k = i \<or> k = get_row_col (row_of i) v \<or> k = get_col_col (col_of i) v \<or> k = get_box_col (box_of i) v"
      using k unfolding j(4) iv by (simp add: names_def)
    then have "nname s q = int k \<or> nname s (q + 1) = int k \<or> nname s (q + 2) = int k \<or> nname s (q + 3) = int k" unfolding n by auto
    then show ?thesis unfolding j(5) by blast
  qed
qed

lemma read_four:
  assumes "nm a = i" "0 \<le> i" "i < 100" "100 \<le> nm b" "100 \<le> nm c" "100 \<le> nm d" "nm b mod 10 = v" "nm c mod 10 = v" "nm d mod 10 = v" "v \<noteq> -1"
  shows "read_list nm [a, b, c, d] (-1) (-1) = Some (i, v)" "read_list nm [b, c, d, a] (-1) (-1) = Some (i, v)"
    "read_list nm [c, d, a, b] (-1) (-1) = Some (i, v)" "read_list nm [d, a, b, c] (-1) (-1) = Some (i, v)"
  using assms by (simp_all add: read_list.simps)

lemma node_read:
  assumes m: "matrix s board" and x: "x \<in> nodes board"
  shows "read_list (nname s) (x # sib_of board x) (-1) (-1) = Some (int (fst (cand_of board x)), int (snd (cand_of board x)))"
proof -
  obtain j q where j: "j < length (cands board)" "q = base board + 4 * j" "x \<in> {q, q + 1, q + 2, q + 3}" "cand_of board x = cands board ! j"
    "row_set (sib_of board) x = {q, q + 1, q + 2, q + 3}" by (rule node_row [OF x])
  obtain i v where iv: "cands board ! j = (i, v)" by (metis surj_pair)
  note n = matrix_names [OF m j(1,2) iv]
  have c: "i < 81" "1 \<le> v" "v < 10" using candsD(1-3) [of i v board] nth_mem [OF j(1)] by (simp_all add: iv kCells_def)
  have ten: "int (100 * h + a * 10 + v) mod 10 = int v" for a h
  proof -
    have "100 * h + a * 10 + v = v + (10 * h + a) * 10" by simp
    then have "(100 * h + a * 10 + v) mod 10 = v" using c(3) by (simp only: mod_mult_self1 mod_less)
    then have "int ((100 * h + a * 10 + v) mod 10) = int v" by (rule arg_cong)
    then show ?thesis by (simp only: of_nat_mod of_nat_numeral)
  qed
  have t: "int (get_row_col a v) mod 10 = int v" "int (get_col_col a v) mod 10 = int v" "int (get_box_col a v) mod 10 = int v"
    "100 \<le> int (get_row_col a v)" "100 \<le> int (get_col_col a v)" "100 \<le> int (get_box_col a v)" for a
    using ten [of 1 a] ten [of 2 a] ten [of 3 a] by (simp_all add: name_defs)
  have "0 \<le> int i" "int i < 100" "int v \<noteq> -1" using c by simp_all
  from read_four [of "nname s", OF n(1) this(1,2) t(4) [of "row_of i", folded n(2)] t(5) [of "col_of i", folded n(3)]
      t(6) [of "box_of i", folded n(4)] t(1) [of "row_of i", folded n(2)] t(2) [of "col_of i", folded n(3)] t(3) [of "box_of i", folded n(4)] this(3)]
  have "read_list (nname s) (x # sib_of board x) (-1) (-1) = Some (int i, int v)"
    using j(3) sibs_quad [OF j(2), folded sib_of_def] by (elim insertE) simp_all
  then show ?thesis by (simp add: j(4) iv)
qed

lemma header_names:
  assumes m: "matrix s board"
  shows "c \<in> set [1..<base board] \<Longrightarrow> \<exists>k\<in>set (board_names board). nname s c = int k"
    "k \<in> set (board_names board) \<Longrightarrow> \<exists>c\<in>set [1..<base board]. nname s c = int k"
    "c \<in> set [1..<base board] \<Longrightarrow> d \<in> set [1..<base board] \<Longrightarrow> nname s c = nname s d \<Longrightarrow> c = d"
proof -
  have h: "heads s (board_names board)" using m by (simp add: matrix_def rowed_def)
  have nm: "nname s c = int (board_names board ! (c - 1))" "c - 1 < length (board_names board)" if "c \<in> set [1..<base board]" for c
    using headsD(5) [OF h, of c] that by (auto simp: base_def)
  show "\<exists>k\<in>set (board_names board). nname s c = int k" if "c \<in> set [1..<base board]" using nm [OF that] by (metis nth_mem)
  show "\<exists>c\<in>set [1..<base board]. nname s c = int k" if k: "k \<in> set (board_names board)"
  proof -
    obtain i where "i < length (board_names board)" "board_names board ! i = k" using k by (auto simp: in_set_conv_nth)
    moreover from this have "i + 1 \<in> set [1..<base board]" by (auto simp: base_def)
    ultimately show ?thesis using nm(1) [of "i + 1"] by (intro bexI [of _ "i + 1"]) auto
  qed
  show "c = d" if cd: "c \<in> set [1..<base board]" "d \<in> set [1..<base board]" "nname s c = nname s d"
  proof -
    have "c - 1 = d - 1" using cd(3) nm [OF cd(1)] nm [OF cd(2)] headsD(2) [OF h] by (simp add: nth_eq_iff_index_eq)
    then show ?thesis using cd(1,2) by auto
  qed
qed

lemma node_header: "matrix s board \<Longrightarrow> x \<in> nodes board \<Longrightarrow> ncol s x \<in> set [1..<base board]"
  using matrix_col [of s board x] by auto

lemma node_unique:
  assumes m: "matrix s board" and x: "x \<in> nodes board" and y: "y \<in> nodes board"
    and c: "cand_of board x = cand_of board y" and col: "ncol s x = ncol s y"
  shows "x = y"
proof -
  obtain j q where j: "j < length (cands board)" "q = base board + 4 * j" "x \<in> {q, q + 1, q + 2, q + 3}" "cand_of board x = cands board ! j"
    "row_set (sib_of board) x = {q, q + 1, q + 2, q + 3}" by (rule node_row [OF x])
  obtain j' q' where j': "j' < length (cands board)" "q' = base board + 4 * j'" "y \<in> {q', q' + 1, q' + 2, q' + 3}" "cand_of board y = cands board ! j'"
    "row_set (sib_of board) y = {q', q' + 1, q' + 2, q' + 3}" by (rule node_row [OF y])
  have "distinct (cands board)" by (simp add: cands_def distinct_product)
  then have "j = j'" using c j(1,4) j'(1,4) by (simp add: nth_eq_iff_index_eq)
  then have "y \<in> row_set (sib_of board) x" "x \<in> row_set (sib_of board) x" using j j' by simp_all
  then show ?thesis using row_set_inj [OF matrix_rows [OF m] x _ _ col] by (simp add: sib_of_def)
qed

subsection \<open>Exact covers of the matrix\<close>

lemma node_header_name:
  assumes m: "matrix s board" and x: "x \<in> nodes board" and k: "nname s x = int k" and d: "d \<in> set [1..<base board]" "nname s d = int k"
  shows "ncol s x = d"
  using header_names(3) [OF m node_header [OF m x] d(1)] matrix_col(3) [OF m x] k d(2) by simp

lemma exact_cover_cands:
  assumes m: "matrix s board" and Y: "exact_cover (ncol s) (sib_of board) [1..<base board] (below s board) Y"
  shows "cand_cover board (cand_of board ` Y)"
proof -
  have r: "rep s (nodes board) (sib_of board) [1..<base board] (below s board)" using matrix_rep [OF m] by (simp add: sib_of_def)
  note Yn = cover_nodes [OF r Y]
  show ?thesis
    unfolding cand_cover_def
  proof (intro conjI ballI)
    show "cand_of board ` Y \<subseteq> set (cands board)" using cand_of_mem Yn(4) by blast
    fix k
    assume "k \<in> set (board_names board)"
    then obtain c where c: "c \<in> set [1..<base board]" "nname s c = int k" using header_names(2) [OF m] by blast
    have one: "\<exists>y\<in>Y. cand_of board y = cand_of board x \<and> ncol s y = c" if x: "x \<in> Y" "k \<in> set (names (cand_of board x))" for x
    proof -
      obtain y where y: "y \<in> row_set (sib_of board) x" "nname s y = int k" using node_names(2) [OF m Yn(4) [OF x(1)] x(2)] by blast
      have "y \<in> Y" using Yn(3) [OF x(1)] y(1) by blast
      then show ?thesis using cand_of_row(2) [OF Yn(4) [OF x(1)] y(1)] node_header_name [OF m Yn(4) y(2) c] by blast
    qed
    obtain y where y: "y \<in> Y" "ncol s y = c" using cover_has [OF Y c(1)] by blast
    have "nname s y = int k" using matrix_col(3) [OF m Yn(4) [OF y(1)]] y(2) c(2) by simp
    then have k: "k \<in> set (names (cand_of board y))" using node_names(1) [OF m Yn(4) [OF y(1)]] by auto
    show "\<exists>!a. a \<in> cand_of board ` Y \<and> k \<in> set (names a)"
    proof (rule ex1I [of _ "cand_of board y"])
      show "cand_of board y \<in> cand_of board ` Y \<and> k \<in> set (names (cand_of board y))" using y(1) k by blast
      fix a
      assume "a \<in> cand_of board ` Y \<and> k \<in> set (names a)"
      then obtain x where x: "x \<in> Y" "a = cand_of board x" "k \<in> set (names (cand_of board x))" by auto
      obtain z where z: "z \<in> Y" "cand_of board z = cand_of board x" "ncol s z = c" using one [OF x(1,3)] by blast
      have "z = y" using cover_unique [OF Y z(1) y(1)] z(3) y(2) c(1) by simp
      then show "a = cand_of board y" using z(2) x(2) by simp
    qed
  qed
qed

lemma cands_exact_cover:
  assumes m: "matrix s board" and A: "cand_cover board A"
  shows "exact_cover (ncol s) (sib_of board) [1..<base board] (below s board) {x \<in> nodes board. cand_of board x \<in> A}"
  unfolding exact_cover_def
proof (intro conjI ballI)
  let ?Y = "{x \<in> nodes board. cand_of board x \<in> A}"
  show "?Y \<subseteq> (\<Union>c\<in>set [1..<base board]. set (below s board c))"
  proof
    fix x
    assume "x \<in> ?Y"
    then have "ncol s x \<in> set [1..<base board]" "x \<in> set (below s board (ncol s x))" using node_header [OF m, of x] by (auto simp: below_def nodes_def)
    then show "x \<in> (\<Union>c\<in>set [1..<base board]. set (below s board c))" by blast
  qed
  show "set (sib_of board x) \<subseteq> ?Y" if x: "x \<in> ?Y" for x
  proof
    fix y
    assume "y \<in> set (sib_of board x)"
    then have "y \<in> row_set (sib_of board) x" by (simp add: row_set_def)
    moreover have "x \<in> nodes board" "cand_of board x \<in> A" using x by simp_all
    ultimately show "y \<in> ?Y" using cand_of_row [of x board y] by simp
  qed
  fix c
  assume c: "c \<in> set [1..<base board]"
  obtain k where k: "k \<in> set (board_names board)" "nname s c = int k" using header_names(1) [OF m c] by blast
  then obtain a where a: "a \<in> A" "k \<in> set (names a)" and unique: "\<And>a'. a' \<in> A \<Longrightarrow> k \<in> set (names a') \<Longrightarrow> a' = a"
    using A unfolding cand_cover_def by metis
  have "a \<in> set (cands board)" using A a(1) by (auto simp: cand_cover_def)
  then obtain x where x: "x \<in> nodes board" "cand_of board x = a" using cand_of_onto by blast
  obtain y where y: "y \<in> row_set (sib_of board) x" "nname s y = int k" using node_names(2) [OF m x(1)] a(2) x(2) by blast
  note yn = cand_of_row [OF x(1) y(1)]
  show "\<exists>!y. y \<in> ?Y \<and> ncol s y = c"
  proof (rule ex1I [of _ y])
    show "y \<in> ?Y \<and> ncol s y = c" using yn x(2) a(1) node_header_name [OF m yn(1) y(2) c k(2)] by simp
    fix z
    assume z: "z \<in> ?Y \<and> ncol s z = c"
    then have zn: "z \<in> nodes board" "cand_of board z \<in> A" by simp_all
    have "nname s z = int k" using matrix_col(3) [OF m zn(1)] z k(2) by simp
    then have "k \<in> set (names (cand_of board z))" using node_names(1) [OF m zn(1)] by auto
    then have "cand_of board z = a" using unique [OF zn(2)] by simp
    then show "z = y" using node_unique [OF m zn(1) yn(1)] z x(2) yn(2) node_header_name [OF m yn(1) y(2) c k(2)] by simp
  qed
qed

subsection \<open>The result\<close>

lemma updates_at:
  assumes "\<And>i v w. (i, v) \<in> set ps \<Longrightarrow> (i, w) \<in> set ps \<Longrightarrow> v = w" "\<And>i v. (i, v) \<in> set ps \<Longrightarrow> i < length b"
  shows "length (fold (\<lambda>(i, v) b. b[i := int v]) ps b) = length b \<and>
    (\<forall>(i, v)\<in>set ps. fold (\<lambda>(i, v) b. b[i := int v]) ps b ! i = int v) \<and>
    (\<forall>i. i \<notin> fst ` set ps \<longrightarrow> fold (\<lambda>(i, v) b. b[i := int v]) ps b ! i = b ! i)"
  using assms
proof (induction ps rule: rev_induct)
  case (snoc p ps)
  obtain j w where p: "p = (j, w)" by (cases p)
  define r where "r = fold (\<lambda>(i, v) b. b[i := int v]) ps b"
  have ih: "length r = length b" "\<And>i v. (i, v) \<in> set ps \<Longrightarrow> r ! i = int v" "\<And>i. i \<notin> fst ` set ps \<Longrightarrow> r ! i = b ! i"
    using snoc.IH snoc.prems unfolding r_def by fastforce+
  have j: "j < length r" using snoc.prems(2) [of j w] ih(1) by (simp add: p)
  have "r[j := int w] ! i = int v" if "(i, v) \<in> set (ps @ [p])" for i v
    using that ih(2) j snoc.prems(1) [of i v w] by (cases "i = j") (auto simp: p)
  moreover have "r[j := int w] ! i = b ! i" if "i \<notin> fst ` set (ps @ [p])" for i using that ih(3) by (simp add: p)
  ultimately show ?case using ih(1) by (auto simp: p r_def [symmetric])
qed simp

lemma written_fold:
  assumes m: "matrix s board" and "set xs \<subseteq> nodes board"
  shows "written (nname s) (sib_of board) xs b = fold (\<lambda>(i, v) b. b[i := int v]) (map (cand_of board) xs) b"
  using assms(2)
proof (induction xs arbitrary: b)
  case (Cons x xs)
  then show ?case using node_read [OF m, of x] by (simp add: written_def split: prod.splits)
qed (simp add: written_def)

text \<open>The solver of a board finds a completion of it exactly when there is one.\<close>

lemma solve_board:
  assumes vb: "valid_board board" and m: "matrix s board"
  shows "(\<exists>s'. solve s = Some (True, s') \<and> completes board (inout s')) \<or> (\<exists>s'. solve s = Some (False, s')) \<and> (\<nexists>b. completes board b)"
proof -
  have r: "rep s (nodes board) (sib_of board) [1..<base board] (below s board)" using matrix_rep [OF m] by (simp add: sib_of_def)
  have st: "stack s = []" "inout s = board" using m by (simp_all add: matrix_def rowed_def)
  have nm: "names_ok (nname s) (nodes board) (sib_of board)" unfolding names_ok_def using node_read [OF m] by simp
  have "search_ok s (nodes board) (sib_of board) [1..<base board] (below s board) s (search None s)"
    using search_result [OF r _ nm] st(1) by simp
  then show ?thesis
  proof (cases rule: search_okE)
    case (found s' xs)
    define Y where "Y = (\<Union>x\<in>set xs. row_set (sib_of board) x)"
    have cc: "cand_cover board (cand_of board ` Y)" using exact_cover_cands [OF m] found(3) by (simp add: Y_def)
    have eq: "cand_of board ` Y = set (map (cand_of board) xs)"
    proof
      show "cand_of board ` Y \<subseteq> set (map (cand_of board) xs)" using cand_of_row(2) found(2) by (fastforce simp: Y_def)
      show "set (map (cand_of board) xs) \<subseteq> cand_of board ` Y" by (auto simp: Y_def row_set_def)
    qed
    have sub: "set (map (cand_of board) xs) \<subseteq> set (cands board)" using cc eq by (simp add: cand_cover_def)
    have len: "length board = kCells" using vb by (simp add: valid_board_def)
    have fn: "v = w" if vw: "(i, v) \<in> set (map (cand_of board) xs)" "(i, w) \<in> set (map (cand_of board) xs)" for i v w
    proof -
      have i: "i < kCells" "board ! i = 0" using candsD(1,4) vw(1) sub by blast+
      then have "i \<in> set (board_names board)" by (simp add: board_names_def)
      then have "\<exists>!a. a \<in> set (map (cand_of board) xs) \<and> i \<in> set (names a)" using cc unfolding eq cand_cover_def by blast
      moreover have "i \<in> set (names (i, v))" "i \<in> set (names (i, w))" by (simp_all add: names_def)
      ultimately have "(i, v) = (i, w)" using vw by blast
      then show ?thesis by simp
    qed
    have w: "inout s' = fold (\<lambda>(i, v) b. b[i := int v]) (map (cand_of board) xs) board"
      using found(4) written_fold [OF m found(2)] st by simp
    have up: "length (inout s') = length board \<and> (\<forall>(i, v)\<in>set (map (cand_of board) xs). inout s' ! i = int v) \<and>
        (\<forall>i. i \<notin> fst ` set (map (cand_of board) xs) \<longrightarrow> inout s' ! i = board ! i)"
      unfolding w by (rule updates_at) (use fn candsD(1) sub in \<open>unfold len, blast+\<close>)
    have "completes board (inout s')"
    proof (rule cover_completes [OF vb cc [unfolded eq]])
      show "length (inout s') = kCells" using up len by simp
      show "inout s' ! i = int v" if "(i, v) \<in> set (map (cand_of board) xs)" for i v using up that by blast
      fix i
      assume "i < kCells" "board ! i \<noteq> 0"
      have "i \<notin> fst ` set (map (cand_of board) xs)"
      proof
        assume "i \<in> fst ` set (map (cand_of board) xs)"
        then obtain v where "(i, v) \<in> set (map (cand_of board) xs)" by (auto simp del: set_map)
        then have "board ! i = 0" using candsD(4) sub by blast
        then show False using \<open>board ! i \<noteq> 0\<close> by simp
      qed
      then show "inout s' ! i = board ! i" using up by blast
    qed
    then show ?thesis using found(1) by (auto simp: solve_def)
  next
    case none
    have "\<not> completes board b" for b
      using none(2) cands_exact_cover [OF m completes_cover [OF vb]] by blast
    then show ?thesis using none(1) by (auto simp: solve_def)
  qed
qed

definition digits :: "string \<Rightarrow> int list" where
  "digits p = map (\<lambda>c. char_int c - 48) p"

lemma char_digit: "1 \<le> b \<Longrightarrow> b \<le> 9 \<Longrightarrow> char_int (char_of (nat (b + 48))) - 48 = b"
proof -
  assume b: "1 \<le> b" "b \<le> 9"
  have "(of_char (char_of (nat (b + 48)) :: char) :: int) = int (of_char (char_of (nat (b + 48)) :: char))" by (simp only: of_nat_of_char)
  also have "\<dots> = b + 48" using b by simp
  finally show ?thesis using b by (simp add: char_int_def Let_def)
qed

subsection \<open>A puzzle\<close>

lemma completes_units:
  assumes "length b = kCells" "list_all2 (\<lambda>x y. 1 \<le> y \<and> y \<le> 9 \<and> (x = 0 \<or> y = x)) board b"
    and "list_all (\<lambda>r. distinct (map ((!) b) (filter (\<lambda>i. row_of i = r) [0..<kCells]))) [0..<9]"
    and "list_all (\<lambda>r. distinct (map ((!) b) (filter (\<lambda>i. col_of i = r) [0..<kCells]))) [0..<9]"
    and "list_all (\<lambda>r. distinct (map ((!) b) (filter (\<lambda>i. box_of i = r) [0..<kCells]))) [0..<9]"
  shows "completes board b"
proof -
  have d: "i = j" if ug: "(u, g) \<in> units" and ij: "i < kCells" "j < kCells" "u i = u j" "b ! i = b ! j" for u g i j
  proof -
    have "u i \<in> set [0..<9]" using unit_bound [OF ug ij(1)] by simp
    note a = assms(3-5) [unfolded list_all_iff, THEN bspec, OF this]
    have "distinct (map ((!) b) (filter (\<lambda>k. u k = u i) [0..<kCells]))"
      using ug by (cases rule: units_cases) (use a in \<open>simp_all only:\<close>)
    then show ?thesis using ij by (auto simp: distinct_map inj_on_def)
  qed
  have g: "1 \<le> b ! i \<and> b ! i \<le> 9 \<and> (board ! i = 0 \<or> b ! i = board ! i)" if "i < kCells" for i
    using list_all2_nthD2 [OF assms(2)] assms(1) that by simp
  have n: "i = j \<or> \<not> same_unit i j \<or> b ! i \<noteq> b ! j" if ij: "i < kCells" "j < kCells" for i j
  proof (cases "same_unit i j")
    case True
    then obtain u g where "(u, g) \<in> units" "u i = u j" by (auto simp: same_unit_units)
    then show ?thesis using d ij by blast
  qed simp
  show ?thesis unfolding completes_def using assms(1) g n by simp
qed

definition example_puzzle :: string where
  "example_puzzle = ''530070000600195000098000060800060003400803001700020006060000280000419005000080079''"
definition example_grid :: "int list" where
  "example_grid =
     [5,3,4,6,7,8,9,1,2, 6,7,2,1,9,5,3,4,8, 1,9,8,3,4,2,5,6,7, 8,5,9,7,6,1,4,2,3, 4,2,6,8,5,3,7,9,1, 7,1,3,9,2,4,8,5,6,
      9,6,1,5,3,7,2,8,4, 2,8,7,4,1,9,6,3,5, 3,4,5,2,8,6,1,7,9]"

lemma example_digits: "digits example_puzzle =
     [5,3,0,0,7,0,0,0,0, 6,0,0,1,9,5,0,0,0, 0,9,8,0,0,0,0,6,0, 8,0,0,0,6,0,0,0,3, 4,0,0,8,0,3,0,0,1, 7,0,0,0,2,0,0,0,6,
      0,6,0,0,0,0,2,8,0, 0,0,0,4,1,9,0,0,5, 0,0,0,0,8,0,0,7,9]"
  by (simp add: digits_def example_puzzle_def char_int_def)

lemma example_rows:
  "list_all (\<lambda>r. distinct (map ((!) example_grid) (filter (\<lambda>i. row_of i = r) [0..<kCells]))) [0..<9]"
  by (simp add: kCells_def row_of_def col_of_def box_of_def upt_rec example_grid_def)

lemma example_cols:
    "list_all (\<lambda>r. distinct (map ((!) example_grid) (filter (\<lambda>i. col_of i = r) [0..<kCells]))) [0..<9]"
  by (simp add: kCells_def row_of_def col_of_def box_of_def upt_rec example_grid_def)

lemma example_boxes:
    "list_all (\<lambda>r. distinct (map ((!) example_grid) (filter (\<lambda>i. box_of i = r) [0..<kCells]))) [0..<9]"
  by (simp add: kCells_def row_of_def col_of_def box_of_def upt_rec example_grid_def)

lemma example_completes: "completes (digits example_puzzle) example_grid"
  by (rule completes_units [OF _ _ example_rows example_cols example_boxes])
    (simp_all add: example_digits example_grid_def kCells_def)

subsection \<open>The theorem\<close>

lemma solveSudoku_core:
  assumes "length p = kCells"
  shows "\<exists>r. solveSudoku p = Some r \<and>
    (if valid_board (digits p) \<and> (\<exists>b. completes (digits p) b) then completes (digits p) (digits r) else r = kNoSolution)"
proof -
  have v: "valid_board (digits p) \<longleftrightarrow> list_all (\<lambda>b. 0 \<le> b \<and> b \<le> 9) (map (\<lambda>c. char_int c - 48) p)"
    using assms by (simp add: valid_board_def digits_def)
  show ?thesis
  proof (cases "valid_board (digits p)")
    case False
    then show ?thesis using assms v by (simp add: solveSudoku_def assert_then_def)
  next
    case True
    obtain s where s: "SudokuSolver (digits p) = Some s" "matrix s (digits p)" using SudokuSolver_built by (auto simp: matrix_def)
    from solve_board [OF True s(2)] show ?thesis
    proof (elim disjE exE conjE)
      fix s'
      assume s': "solve s = Some (True, s')" "completes (digits p) (inout s')"
      have "solveSudoku p = Some (map (\<lambda>b. char_of (nat (b + 48))) (inout s'))"
        using assms True [unfolded v] s(1) s'(1) by (simp add: solveSudoku_def assert_then_def digits_def)
      moreover have "digits (map (\<lambda>b. char_of (nat (b + 48))) (inout s')) = inout s'"
        unfolding digits_def map_map
      proof (rule map_idI)
        fix b
        assume "b \<in> set (inout s')"
        then obtain i where "i < kCells" "b = inout s' ! i" using completesD(1) [OF s'(2)] by (auto simp: in_set_conv_nth)
        then have "1 \<le> b" "b \<le> 9" using completesD(2) [OF s'(2)] by auto
        then show "((\<lambda>c. char_int c - 48) \<circ> (\<lambda>b. char_of (nat (b + 48)))) b = b" using char_digit by simp
      qed
      ultimately show ?thesis using s'(2) True by auto
    next
      fix s'
      assume "solve s = Some (False, s')" "\<nexists>b. completes (digits p) b"
      then show ?thesis using assms True [unfolded v] s(1) by (simp add: solveSudoku_def assert_then_def digits_def)
    qed
  qed
qed

text \<open>C22: For a puzzle of 81 characters \<open>solveSudoku\<close> returns; it returns a grid that keeps the given digits and has no digit
  twice in a row, a column or a box when the puzzle is made of digits and such a grid exists, and \<open>NoSolution\<close> otherwise.\<close>

theorem solveSudoku_correct:
  assumes "length p = kCells"
  shows "\<exists>r. solveSudoku p = Some r \<and>
    (if valid_board (digits p) \<and> (\<exists>b. completes (digits p) b) then completes (digits p) (digits r) else r = kNoSolution)"
  using assms by (rule solveSudoku_core)

theorem solveSudoku_correct_witness:
  "\<exists>r. solveSudoku example_puzzle = Some r \<and> completes (digits example_puzzle) (digits r)"
proof -
  have "length example_puzzle = kCells" by (simp add: example_puzzle_def kCells_def)
  moreover have "valid_board (digits example_puzzle)" by (simp add: example_digits valid_board_def kCells_def)
  ultimately show ?thesis using solveSudoku_correct [of example_puzzle] example_completes by metis
qed

end
