(* ===== verification/Ex_TimingWheel.thy ===== *)
theory Ex_TimingWheel
  imports Prelude
begin

section \<open>The timing wheel: \<open>examples/timingwheel/\<close>\<close>

text \<open>
  The wheel closes idle connections. Each connection has one entry, referred to from the slots of the wheel; the destructor of an
  entry shuts its connection down. An entry is written as its connection, a slot as the set of the entries it
  refers to, so an entry lives while some slot has it. The timer runs once a second.
\<close>

type_synonym conn = nat

subsection \<open>\<open>CircularIndex\<close>\<close>

record circular =
  ci_index :: "64 word"
  ci_max :: "64 word"

definition ci_add :: "64 word \<Rightarrow> circular \<Rightarrow> circular" where
  "ci_add value c = c\<lparr>ci_index := (ci_index c + value) mod ci_max c\<rparr>"

definition ci_sub :: "64 word \<Rightarrow> circular \<Rightarrow> circular" where
  "ci_sub value c = c\<lparr>ci_index := ((ci_index c - value) mod ci_max c + ci_max c) mod ci_max c\<rparr>"

definition ci_inc :: "circular \<Rightarrow> circular" where "ci_inc c = ci_add 1 c"
definition ci_dec :: "circular \<Rightarrow> circular" where "ci_dec c = ci_sub 1 c"
definition ci_get :: "circular \<Rightarrow> 64 word" where "ci_get c = ci_index c"
definition ci_getInc :: "circular \<Rightarrow> 64 word" where "ci_getInc c = (ci_index c + 1) mod ci_max c"
definition ci_getDec :: "circular \<Rightarrow> 64 word" where "ci_getDec c = ((ci_index c - 1) mod ci_max c + ci_max c) mod ci_max c"

subsection \<open>\<open>TimingWheel\<close>\<close>

text \<open>Beside the fields, the connections that exist and are up, and those the wheel has shut down.\<close>

record wheel =
  wheelMap :: "64 word \<Rightarrow> conn set"
  wheel_tail :: circular
  up :: "conn set"
  shut :: "conn set"

definition TimingWheel :: "64 word \<Rightarrow> wheel" where
  "TimingWheel maxIdleTimeSecond =
     \<lparr>wheelMap = (\<lambda>_. {}), wheel_tail = \<lparr>ci_index = maxIdleTimeSecond - 1, ci_max = maxIdleTimeSecond\<rparr>, up = {}, shut = {}\<rparr>"

definition alive :: "conn \<Rightarrow> wheel \<Rightarrow> bool" where
  "alive c w \<longleftrightarrow> (\<exists>i. c \<in> wheelMap w i)"

definition slot_insert :: "conn \<Rightarrow> wheel \<Rightarrow> wheel" where
  "slot_insert c w = w\<lparr>wheelMap := (wheelMap w)(ci_get (wheel_tail w) := insert c (wheelMap w (ci_get (wheel_tail w))))\<rparr>"

definition wheel_add :: "conn \<Rightarrow> wheel \<Rightarrow> wheel" where
  "wheel_add c w = (if c \<notin> up w then w else slot_insert c w)"

text \<open>\<open>update\<close> gets the slot of the last update and returns the new one; the weak pointer in the context of the connection gives
  the entry while it lives.\<close>

definition wheel_update :: "conn \<Rightarrow> 64 word \<Rightarrow> wheel \<Rightarrow> 64 word \<times> wheel" where
  "wheel_update c lastUpdate w =
     (if c \<notin> up w then (0, w)
      else let res = ci_get (wheel_tail w) in
        if lastUpdate = res then (res, w)
        else (res, if alive c w then slot_insert c w else w))"

text \<open>Erasing a slot runs the destructor of every entry no other slot refers to, in the order of a hash set. The destructor
  shuts down the connection when that still exists.\<close>

definition entry_dtor :: "conn set \<Rightarrow> wheel \<Rightarrow> wheel" where
  "entry_dtor gone w = w\<lparr>shut := shut w \<union> gone \<inter> up w\<rparr>"

definition onTimer :: "wheel \<Rightarrow> wheel" where
  "onTimer w =
     (let i = ci_getDec (wheel_tail w);
          gone = {c \<in> wheelMap w i. \<forall>j. j \<noteq> i \<longrightarrow> c \<notin> wheelMap w j};
          w = entry_dtor gone (w\<lparr>wheelMap := (wheelMap w)(i := {})\<rparr>)
      in w\<lparr>wheel_tail := ci_dec (wheel_tail w)\<rparr>)"

text \<open>\<open>DiscardServer\<close>: the callbacks of the server keep one \<open>lastUpdate_\<close> for all its connections.\<close>

record discard_server =
  timeWheel :: wheel
  lastUpdate :: "64 word"

definition discard_onConnection :: "bool \<Rightarrow> conn \<Rightarrow> discard_server \<Rightarrow> discard_server" where
  "discard_onConnection connected c s = (if connected then s\<lparr>timeWheel := wheel_add c (timeWheel s)\<rparr> else s)"

definition discard_onMessage :: "conn \<Rightarrow> discard_server \<Rightarrow> discard_server" where
  "discard_onMessage c s = (let (l, w) = wheel_update c (lastUpdate s) (timeWheel s) in s\<lparr>lastUpdate := l, timeWheel := w\<rparr>)"

subsection \<open>The index\<close>

text \<open>The subtraction wraps around at \<open>2 ^ 64\<close>: the index steps down by one, and from \<open>0\<close> to the last slot, when the
  number of slots is a power of two.\<close>

lemma ci_getDec_pow2:
  assumes "unat (ci_max c) = 2 ^ k" "ci_index c < ci_max c"
  shows "unat (ci_getDec c) = (unat (ci_index c) + 2 ^ k - 1) mod 2 ^ k"
proof -
  have k: "k < 64"
  proof (rule ccontr)
    assume "\<not> k < 64"
    then have "(2::nat) ^ 64 \<le> 2 ^ k" by (intro power_increasing) auto
    then show False using unsigned_less [where ?'a = nat, of "ci_max c"] assms(1) by simp
  qed
  have d: "(2::nat) ^ k dvd 2 ^ 64" using k by (intro le_imp_power_dvd) simp
  let ?i = "unat (ci_index c)"
  have i: "?i < 2 ^ k" using assms by (simp add: word_less_nat_alt)
  have "unat ((ci_index c - 1) mod ci_max c) = unat (ci_index c - 1) mod 2 ^ k" by (simp add: unat_mod assms(1))
  also have "\<dots> = (?i + 2 ^ k - 1) mod 2 ^ k"
  proof (cases "?i = 0")
    case True
    then have "ci_index c = 0" by (simp add: unat_eq_0)
    then have m: "unat (ci_index c - 1) = 2 ^ 64 - 1" by (simp add: unsigned_minus_1_eq_mask mask_eq_exp_minus_1)
    obtain q where q: "(2::nat) ^ 64 = 2 ^ k * q" using d by (elim dvdE)
    then obtain q' where "q = Suc q'" by (cases q) auto
    then have e: "(2::nat) ^ 64 = q' * 2 ^ k + 2 ^ k" using q by (simp add: mult.commute)
    have "unat (ci_index c - 1) = (q' * 2 ^ k + 2 ^ k) - 1" using m unfolding e .
    then have "unat (ci_index c - 1) = (2 ^ k - 1) + q' * 2 ^ k" by simp
    then have "unat (ci_index c - 1) mod 2 ^ k = (2 ^ k - 1) mod 2 ^ k" by (simp only: mod_mult_self1)
    then show ?thesis using True by simp
  next
    case False
    then have "1 \<le> ci_index c" by (simp add: word_le_nat_alt)
    then have a1: "unat (ci_index c - 1) = ?i - 1" using unat_sub [of 1 "ci_index c"] by simp
    have "?i + 2 ^ k - 1 = (?i - 1) + 2 ^ k" using False by simp
    then have a2: "(?i + 2 ^ k - 1) mod 2 ^ k = (?i - 1) mod 2 ^ k" by (simp only: mod_add_self2)
    show ?thesis unfolding a1 a2 by (rule refl)
  qed
  finally have a: "unat ((ci_index c - 1) mod ci_max c) = (?i + 2 ^ k - 1) mod 2 ^ k" .
  let ?a = "(ci_index c - 1) mod ci_max c"
  have al: "unat ?a < 2 ^ k" unfolding a by simp
  have "(2::nat) ^ k \<le> 2 ^ 63" using k by (intro power_increasing) auto
  then have "unat ?a + unat (ci_max c) < 2 ^ 64" using al assms(1) by simp
  then have "unat (?a + ci_max c) = unat ?a + 2 ^ k" using assms(1) by (simp add: unat_word_ariths)
  then have "unat (ci_getDec c) = unat ?a" using al by (simp add: ci_getDec_def unat_mod assms(1))
  then show ?thesis using a by simp
qed

text \<open>With ten slots the index would go from \<open>0\<close> to \<open>5\<close>.\<close>

lemma ci_getDec_ten: "ci_getDec \<lparr>ci_index = 0, ci_max = 10\<rparr> = 5"
  by (simp add: ci_getDec_def)

subsection \<open>Idle connections\<close>

text \<open>Any sequence of connections coming up and going away, updates with any \<open>lastUpdate\<close>, and ticks; with the time \<open>T\<close>
  and the time each entry was last put into the wheel.\<close>

inductive wheel_reach :: "64 word \<Rightarrow> wheel \<Rightarrow> nat \<Rightarrow> (conn \<Rightarrow> nat option) \<Rightarrow> bool" for n where
  w_start: "wheel_reach n (TimingWheel n) 0 (\<lambda>_. None)"
| w_up: "wheel_reach n w T f \<Longrightarrow> f c = None \<Longrightarrow> wheel_reach n (wheel_add c (w\<lparr>up := insert c (up w)\<rparr>)) T (f(c \<mapsto> T))"
| w_down: "wheel_reach n w T f \<Longrightarrow> wheel_reach n (w\<lparr>up := up w - {c}\<rparr>) T f"
| w_update: "wheel_reach n w T f \<Longrightarrow> wheel_update c l w = (l', w') \<Longrightarrow>
    wheel_reach n w' T (if c \<in> up w \<and> l \<noteq> ci_get (wheel_tail w) \<and> alive c w then f(c \<mapsto> T) else f)"
| w_tick: "wheel_reach n w T f \<Longrightarrow> wheel_reach n (onTimer w) (T + 1) f"

definition slot :: "nat \<Rightarrow> nat \<Rightarrow> nat" where
  "slot n t = n - 1 - t mod n"

lemma slot_less: "0 < n \<Longrightarrow> slot n t < n"
  by (simp add: slot_def)

lemma slot_eq: "0 < n \<Longrightarrow> slot n s = slot n t \<longleftrightarrow> s mod n = t mod n"
  using mod_less_divisor [of n s] mod_less_divisor [of n t] by (auto simp: slot_def simp del: mod_less_divisor)

lemma slot_Suc: "0 < n \<Longrightarrow> (slot n t + n - 1) mod n = slot n (t + 1)"
proof -
  assume n: "0 < n"
  have b: "t mod n < n" using n by simp
  show ?thesis
  proof (cases "Suc (t mod n) = n")
    case True
    then have "slot n t = 0" "(t + 1) mod n = 0" using n by (simp_all add: slot_def mod_Suc)
    then show ?thesis using n by (simp add: slot_def)
  next
    case False
    then have "(t + 1) mod n = Suc (t mod n)" by (simp add: mod_Suc)
    then have "slot n t = Suc (slot n (t + 1))" "slot n (t + 1) < n" using b False by (simp_all add: slot_def)
    then show ?thesis by simp
  qed
qed

lemma slot_near: "s \<le> t \<Longrightarrow> t < s + n \<Longrightarrow> slot n s = slot n t \<Longrightarrow> s = t"
proof -
  assume a: "s \<le> t" "t < s + n" "slot n s = slot n t"
  then have "n dvd t - s" using slot_eq [of n s t] mod_eq_dvd_iff_nat [OF a(1), of n] by simp
  moreover have "t - s < n" using a by simp
  ultimately show "s = t" using a(1) by (metis dvd_imp_le not_less zero_less_diff le_neq_implies_less)
qed

definition wheel_inv :: "64 word \<Rightarrow> wheel \<Rightarrow> nat \<Rightarrow> (conn \<Rightarrow> nat option) \<Rightarrow> bool" where
  "wheel_inv n w T f \<longleftrightarrow>
     ci_max (wheel_tail w) = n \<and> unat (ci_index (wheel_tail w)) = slot (unat n) T \<and>
     (\<forall>c i. c \<in> wheelMap w i \<longrightarrow>
        (\<exists>s t. f c = Some t \<and> s \<le> t \<and> t \<le> T \<and> T < s + unat n \<and> unat i = slot (unat n) s)) \<and>
     (\<forall>c t i. f c = Some t \<longrightarrow> t \<le> T \<and> (T < t + unat n \<and> unat i = slot (unat n) t \<longrightarrow> c \<in> wheelMap w i))"

lemma wheel_invD:
  assumes "wheel_inv n w T f"
  shows "ci_max (wheel_tail w) = n" "unat (ci_index (wheel_tail w)) = slot (unat n) T"
    "c \<in> wheelMap w i \<Longrightarrow> \<exists>s t. f c = Some t \<and> s \<le> t \<and> t \<le> T \<and> T < s + unat n \<and> unat i = slot (unat n) s"
    "f c = Some t \<Longrightarrow> t \<le> T" "f c = Some t \<Longrightarrow> T < t + unat n \<Longrightarrow> unat i = slot (unat n) t \<Longrightarrow> c \<in> wheelMap w i"
  using assms unfolding wheel_inv_def by blast+

lemma wheel_invI:
  assumes "ci_max (wheel_tail w) = n" "unat (ci_index (wheel_tail w)) = slot (unat n) T"
    "\<And>c i. c \<in> wheelMap w i \<Longrightarrow> \<exists>s t. f c = Some t \<and> s \<le> t \<and> t \<le> T \<and> T < s + unat n \<and> unat i = slot (unat n) s"
    "\<And>c t. f c = Some t \<Longrightarrow> t \<le> T" "\<And>c t i. f c = Some t \<Longrightarrow> T < t + unat n \<Longrightarrow> unat i = slot (unat n) t \<Longrightarrow> c \<in> wheelMap w i"
  shows "wheel_inv n w T f"
  using assms unfolding wheel_inv_def by blast

lemma insert_inv:
  assumes i: "wheel_inv n w T f" and n: "0 < unat n" and u: "wheelMap w' = wheelMap w" "wheel_tail w' = wheel_tail w"
  shows "wheel_inv n (slot_insert c w') T (f(c \<mapsto> T))"
proof (rule wheel_invI)
  note d = wheel_invD [OF i]
  have s: "wheelMap (slot_insert c w') j = (if j = ci_index (wheel_tail w) then insert c (wheelMap w j) else wheelMap w j)" for j
    by (simp add: slot_insert_def ci_get_def u)
  show "ci_max (wheel_tail (slot_insert c w')) = n" "unat (ci_index (wheel_tail (slot_insert c w'))) = slot (unat n) T"
    using d(1,2) by (simp_all add: slot_insert_def u)
  fix e
  show "\<exists>s t. (f(c \<mapsto> T)) e = Some t \<and> s \<le> t \<and> t \<le> T \<and> T < s + unat n \<and> unat j = slot (unat n) s"
    if j: "e \<in> wheelMap (slot_insert c w') j" for j
  proof (cases "e \<in> wheelMap w j")
    case True
    from d(3) [OF this] obtain a t where a: "f e = Some t" "a \<le> t" "t \<le> T" "T < a + unat n" "unat j = slot (unat n) a" by blast
    then show ?thesis by (intro exI [of _ a] exI [of _ "if e = c then T else t"]) auto
  next
    case False
    then have "e = c" "j = ci_index (wheel_tail w)" using j by (auto simp: s split: if_splits)
    then show ?thesis using d(2) n by (intro exI [of _ T]) simp
  qed
  show "t \<le> T" if "(f(c \<mapsto> T)) e = Some t" for t using that d(4) [of e t] by (auto split: if_splits)
  show "e \<in> wheelMap (slot_insert c w') j" if t: "(f(c \<mapsto> T)) e = Some t" "T < t + unat n" "unat j = slot (unat n) t" for t j
  proof (cases "e = c")
    case True
    then have "unat j = unat (ci_index (wheel_tail w))" using t d(2) by simp
    then have "j = ci_index (wheel_tail w)" by (simp add: word_unat_eq_iff)
    then show ?thesis using True by (simp add: s)
  next
    case False
    then show ?thesis using t d(5) [of e t j] by (auto simp: s)
  qed
qed

lemma tick_index:
  assumes i: "wheel_inv n w T f" and k: "unat n = 2 ^ k"
  shows "unat (ci_getDec (wheel_tail w)) = slot (unat n) (T + 1)" "ci_index (ci_dec (wheel_tail w)) = ci_getDec (wheel_tail w)"
proof -
  note d = wheel_invD [OF i]
  have "ci_index (wheel_tail w) < ci_max (wheel_tail w)" using slot_less [of "unat n" T] k d(1,2) by (simp add: word_less_nat_alt)
  then have "unat (ci_getDec (wheel_tail w)) = (slot (unat n) T + unat n - 1) mod unat n"
    using ci_getDec_pow2 [of "wheel_tail w" k] k d(1,2) by simp
  then show "unat (ci_getDec (wheel_tail w)) = slot (unat n) (T + 1)" using slot_Suc [of "unat n" T] k by simp
  show "ci_index (ci_dec (wheel_tail w)) = ci_getDec (wheel_tail w)" by (simp add: ci_dec_def ci_sub_def ci_getDec_def)
qed

lemma tick_inv:
  assumes i: "wheel_inv n w T f" and k: "unat n = 2 ^ k"
  shows "wheel_inv n (onTimer w) (T + 1) f"
proof (rule wheel_invI)
  note d = wheel_invD [OF i] and x = tick_index [OF i k]
  let ?i = "ci_getDec (wheel_tail w)" and ?w = "onTimer w"
  have m: "wheelMap ?w = (wheelMap w)(?i := {})" "wheel_tail ?w = ci_dec (wheel_tail w)" by (simp_all add: onTimer_def entry_dtor_def Let_def)
  show "ci_max (wheel_tail ?w) = n" using d(1) by (simp add: m ci_dec_def ci_sub_def)
  show "unat (ci_index (wheel_tail ?w)) = slot (unat n) (T + 1)" using x by (simp add: m)
  fix c
  show "\<exists>s t. f c = Some t \<and> s \<le> t \<and> t \<le> T + 1 \<and> T + 1 < s + unat n \<and> unat j = slot (unat n) s" if "c \<in> wheelMap ?w j" for j
  proof -
    have j: "j \<noteq> ?i" "c \<in> wheelMap w j" using that by (auto simp: m split: if_splits)
    from d(3) [OF j(2)] obtain s t where s: "f c = Some t" "s \<le> t" "t \<le> T" "T < s + unat n" "unat j = slot (unat n) s" by blast
    have "T + 1 \<noteq> s + unat n"
    proof
      assume "T + 1 = s + unat n"
      then have "(T + 1) mod unat n = s mod unat n" by simp
      then have "slot (unat n) s = slot (unat n) (T + 1)" by (simp only: slot_def)
      then have "unat j = unat ?i" using s(5) x(1) by simp
      then show False using j(1) by (simp add: word_unat_eq_iff)
    qed
    then show ?thesis using s by (intro exI [of _ s] exI [of _ t]) simp
  qed
  show "t \<le> T + 1" if "f c = Some t" for t using d(4) [OF that] by simp
  show "c \<in> wheelMap ?w j" if t: "f c = Some t" "T + 1 < t + unat n" "unat j = slot (unat n) t" for t j
  proof -
    have "j \<noteq> ?i"
    proof
      assume "j = ?i"
      then have "slot (unat n) t = slot (unat n) (T + 1)" using t(3) x(1) by simp
      then have "t = T + 1" using slot_near [of t "T + 1" "unat n"] t(2) d(4) [OF t(1)] by simp
      then show False using d(4) [OF t(1)] by simp
    qed
    then show ?thesis using d(5) [OF t(1) _ t(3)] t(2) by (simp add: m)
  qed
qed

lemma wheel_reach_inv:
  assumes "wheel_reach n w T f" "unat n = 2 ^ k"
  shows "wheel_inv n w T f"
  using assms(1)
proof (induction rule: wheel_reach.induct)
  case w_start
  have "unat (n - 1) = unat n - 1" using assms(2) by (subst unat_sub) (auto simp: word_le_nat_alt)
  then show ?case by (intro wheel_invI) (simp_all add: TimingWheel_def slot_def)
next
  case (w_up w T f c)
  then show ?case using insert_inv [OF w_up.IH, of "w\<lparr>up := insert c (up w)\<rparr>" c] assms(2) by (simp add: wheel_add_def fun_upd_def)
next
  case (w_down w T f c)
  then show ?case using wheel_invD [OF w_down.IH] by (intro wheel_invI) simp_all
next
  case (w_update w T f c l l' w')
  then show ?case using insert_inv [OF w_update.IH, of w c] assms(2) by (auto simp: wheel_update_def Let_def split: if_splits)
next
  case (w_tick w T f)
  then show ?case using tick_inv [OF w_tick.IH assms(2)] by simp
qed

lemma wheel_idle_core:
  assumes "wheel_reach n w T f" "unat n = 2 ^ k"
  shows "(alive c w \<longleftrightarrow> (\<exists>t. f c = Some t \<and> T < t + unat n)) \<and>
    shut (onTimer w) = shut w \<union> {c \<in> up w. \<exists>t. f c = Some t \<and> T + 1 = t + unat n}"
proof -
  note i = wheel_reach_inv [OF assms(1,2)]
  have alive: "alive c v \<longleftrightarrow> (\<exists>t. f c = Some t \<and> S < t + unat n)" if v: "wheel_inv n v S f" for c v S
  proof
    assume "alive c v"
    then obtain j where "c \<in> wheelMap v j" by (auto simp: alive_def)
    from wheel_invD(3) [OF v this] show "\<exists>t. f c = Some t \<and> S < t + unat n" by force
  next
    assume "\<exists>t. f c = Some t \<and> S < t + unat n"
    then obtain t where t: "f c = Some t" "S < t + unat n" by blast
    have b: "slot (unat n) t < unat n" using assms(2) by (intro slot_less) simp
    then have "slot (unat n) t < 2 ^ 64" using unsigned_less [where ?'a = nat, of n] by simp
    then have "unat (of_nat (slot (unat n) t) :: 64 word) = slot (unat n) t" by (simp add: unat_of_nat)
    from wheel_invD(5) [OF v t this] show "alive c v" by (auto simp: alive_def)
  qed
  let ?i = "ci_getDec (wheel_tail w)"
  let ?gone = "{c \<in> wheelMap w ?i. \<forall>j. j \<noteq> ?i \<longrightarrow> c \<notin> wheelMap w j}"
  have "c \<in> ?gone \<longleftrightarrow> alive c w \<and> \<not> alive c (onTimer w)" for c
    by (simp add: alive_def onTimer_def entry_dtor_def Let_def) metis
  moreover have "\<not> alive c (onTimer w) \<and> alive c w \<longleftrightarrow> (\<exists>t. f c = Some t \<and> T + 1 = t + unat n)" for c
    using alive [OF i, of c] alive [OF tick_inv [OF i assms(2)], of c] wheel_invD(4) [OF i, of c] by auto
  ultimately have g: "?gone \<inter> up w = {c \<in> up w. \<exists>t. f c = Some t \<and> T + 1 = t + unat n}" by blast
  have "shut (onTimer w) = shut w \<union> ?gone \<inter> up w" by (simp add: onTimer_def entry_dtor_def Let_def)
  then show ?thesis using alive [OF i, of c] g by blast
qed

text \<open>C32: A wheel whose number of slots is a power of two (with ten the index would go wrong: lemma \<open>ci_getDec_ten\<close>): an entry lives exactly while it was put into the wheel less than that many seconds ago, and
  each tick shuts down exactly the connections that are up and whose entry reaches this age, over every sequence of
  connections, updates and ticks.\<close>

theorem wheel_idle:
  assumes "wheel_reach n w T f" "unat n = 2 ^ k"
  shows "(alive c w \<longleftrightarrow> (\<exists>t. f c = Some t \<and> T < t + unat n)) \<and>
    shut (onTimer w) = shut w \<union> {c \<in> up w. \<exists>t. f c = Some t \<and> T + 1 = t + unat n}"
  by (rule wheel_idle_core [OF assms])

text \<open>One connection, eight slots: it is shut down by the eighth tick.\<close>

lemma wheel_eight:
  "wheel_reach 8 ((onTimer ^^ 7) (wheel_add 1 (TimingWheel 8\<lparr>up := {1}\<rparr>))) 7 ((\<lambda>_. None)(1 \<mapsto> 0))"
proof -
  have a: "wheel_reach 8 (wheel_add 1 (TimingWheel 8\<lparr>up := {1}\<rparr>)) 0 ((\<lambda>_. None)(1 \<mapsto> 0))"
    using w_up [OF w_start, of 8 1] by (simp add: TimingWheel_def)
  have "wheel_reach 8 ((onTimer ^^ m) (wheel_add 1 (TimingWheel 8\<lparr>up := {1}\<rparr>))) m ((\<lambda>_. None)(1 \<mapsto> 0))" for m
  proof (induction m)
    case 0
    show ?case unfolding funpow_0 by (rule a)
  next
    case (Suc m)
    from w_tick [OF this] show ?case unfolding funpow.simps o_apply by (simp only: Suc_eq_plus1)
  qed
  then show ?thesis .
qed

theorem wheel_idle_witness:
  "shut (onTimer ((onTimer ^^ 7) (wheel_add 1 (TimingWheel 8\<lparr>up := {1}\<rparr>)))) =
     shut ((onTimer ^^ 7) (wheel_add 1 (TimingWheel 8\<lparr>up := {1}\<rparr>))) \<union> {c \<in> up ((onTimer ^^ 7) (wheel_add 1 (TimingWheel 8\<lparr>up := {1}\<rparr>))). c = 1}"
  using wheel_idle [OF wheel_eight, of 3 1] by (auto split: if_splits)

subsection \<open>The server\<close>

text \<open>The server keeps one \<open>lastUpdate_\<close> for all its connections: of two connections that both send every second only the first to
  send is kept up, and the other is shut down.\<close>

definition second :: "discard_server \<Rightarrow> discard_server" where
  "second s = (let s = s\<lparr>timeWheel := onTimer (timeWheel s)\<rparr> in discard_onMessage 2 (discard_onMessage 1 s))"

definition two_clients :: discard_server where
  "two_clients = discard_onConnection True 2 (discard_onConnection True 1 \<lparr>timeWheel = TimingWheel 8\<lparr>up := {1, 2}\<rparr>, lastUpdate = 0\<rparr>)"

lemma update_again: "c \<in> up w \<Longrightarrow> wheel_update c (ci_get (wheel_tail w)) w = (ci_get (wheel_tail w), w)"
  by (simp add: wheel_update_def)

lemma update_fields:
  assumes "wheel_update c l w = (l', w')" "c \<in> up w"
  shows "up w' = up w" "shut w' = shut w" "l' = ci_get (wheel_tail w')"
  using assms by (auto simp: wheel_update_def slot_insert_def ci_get_def Let_def split: if_splits)

lemma second_reach:
  "\<exists>f. wheel_reach 8 (timeWheel ((second ^^ m) two_clients)) m f \<and> f 2 = Some 0 \<and> up (timeWheel ((second ^^ m) two_clients)) = {1, 2}"
proof (induction m)
  case 0
  have "wheel_reach 8 (wheel_add 2 (wheel_add 1 (TimingWheel 8\<lparr>up := {1}\<rparr>)\<lparr>up := {1, 2}\<rparr>)) 0 ((\<lambda>_. None)(1 \<mapsto> 0, 2 \<mapsto> 0))"
    using w_up [OF w_up [OF w_start, of 8 1], of 2] by (simp add: TimingWheel_def wheel_add_def slot_insert_def insert_commute)
  moreover have "timeWheel two_clients = wheel_add 2 (wheel_add 1 (TimingWheel 8\<lparr>up := {1}\<rparr>)\<lparr>up := {1, 2}\<rparr>)"
    by (simp add: two_clients_def discard_onConnection_def wheel_add_def slot_insert_def TimingWheel_def)
  ultimately show ?case by (intro exI) (auto simp: wheel_add_def slot_insert_def)
next
  case (Suc m)
  let ?s = "(second ^^ m) two_clients"
  obtain f where f: "wheel_reach 8 (timeWheel ?s) m f" "f 2 = Some 0" "up (timeWheel ?s) = {1, 2}" using Suc by blast
  define w where "w = onTimer (timeWheel ?s)"
  have w: "wheel_reach 8 w (m + 1) f" "up w = {1, 2}" using w_tick [OF f(1)] f(3) by (simp_all add: w_def onTimer_def entry_dtor_def Let_def)
  obtain l1 w1 where u: "wheel_update 1 (lastUpdate ?s) w = (l1, w1)" by (cases "wheel_update 1 (lastUpdate ?s) w")
  note g = update_fields [OF u, unfolded w(2), simplified]
  have "wheel_update 2 l1 w1 = (l1, w1)" using update_again [of 2 w1] g by simp
  then have "timeWheel (second ?s) = w1" using u by (simp add: second_def discard_onMessage_def Let_def w_def)
  moreover obtain f' where "wheel_reach 8 w1 (m + 1) f'" "f' 2 = Some 0" using w_update [OF w(1) u] f(2) by (auto split: if_splits)
  ultimately show ?case using g(1) by (intro exI [of _ f']) simp
qed

lemma shared_update: "2 \<in> shut (timeWheel ((second ^^ 8) two_clients))"
proof -
  let ?s = "(second ^^ 7) two_clients"
  obtain f where f: "wheel_reach 8 (timeWheel ?s) 7 f" "f 2 = Some 0" "up (timeWheel ?s) = {1, 2}" using second_reach by blast
  have "2 \<in> shut (onTimer (timeWheel ?s))" using wheel_idle_core [OF f(1), of 3] f(2,3) by simp
  moreover have "up (onTimer (timeWheel ?s)) = {1, 2}" using f(3) by (simp add: onTimer_def entry_dtor_def Let_def)
  ultimately have "2 \<in> shut (timeWheel (second ?s))"
    using update_fields(1,2) by (fastforce simp: second_def discard_onMessage_def Let_def split: prod.splits)
  moreover have "(second ^^ 8) two_clients = second ?s" by (simp add: numeral_eq_Suc)
  ultimately show ?thesis by simp
qed

end
