(* ===== verification/Net_InetAddress.thy ===== *)
theory Net_InetAddress
  imports Net_Endian Net_Connect Decimal
begin

section \<open>Addresses and socket calls: \<open>net/InetAddress.cc\<close>, \<open>net/SocketsOps.cc\<close>, \<open>net/Socket.cc\<close>\<close>

text \<open>
  An \<open>InetAddress\<close> is the union of a \<open>sockaddr_in\<close> and a \<open>sockaddr_in6\<close>: its 28 bytes, from which the
  fields are read at their offsets. The IPv4 texts of \<open>inet_ntop\<close> and \<open>inet_pton\<close> are written out; the
  IPv6 ones are arguments, and so are the results of the system calls.
\<close>

subsection \<open>The union\<close>

type_synonym sock_addr = bytes

definition AF_INET :: "16 word" where [const_defs]: "AF_INET = 2"
definition AF_INET6 :: "16 word" where [const_defs]: "AF_INET6 = 10"
definition kInaddrAny :: "32 word" where [const_defs]: "kInaddrAny = 0"
definition kInaddrLoopback :: "32 word" where [const_defs]: "kInaddrLoopback = 0x7f000001"
definition in6addr_any :: bytes where "in6addr_any = replicate 16 (char_of (0::nat))"
definition in6addr_loopback :: bytes where "in6addr_loopback = replicate 15 (char_of (0::nat)) @ [char_of (1::nat)]"

definition sin_family :: "sock_addr \<Rightarrow> 16 word" where "sin_family a = load_mem (take 2 a)"
definition sin_port :: "sock_addr \<Rightarrow> 16 word" where "sin_port a = load_mem (take 2 (drop 2 a))"
definition sin_addr :: "sock_addr \<Rightarrow> bytes" where "sin_addr a = take 4 (drop 4 a)"
definition sin6_addr :: "sock_addr \<Rightarrow> bytes" where "sin6_addr a = take 16 (drop 8 a)"

definition bzero :: "nat \<Rightarrow> sock_addr \<Rightarrow> sock_addr" where
  "bzero n a = write_at 0 (replicate n (char_of (0::nat))) a"

definition set_sin :: "16 word \<Rightarrow> 16 word \<Rightarrow> sock_addr \<Rightarrow> sock_addr" where
  "set_sin family port a = write_at 2 (mem_of port) (write_at 0 (mem_of family) a)"

subsection \<open>Texts of addresses\<close>

definition octet :: "char \<Rightarrow> string" where "octet c = dec_nat (of_char c)"

definition ntop4 :: "bytes \<Rightarrow> string" where
  "ntop4 ip = octet (ip ! 0) @ ''.'' @ octet (ip ! 1) @ ''.'' @ octet (ip ! 2) @ ''.'' @ octet (ip ! 3)"

definition octet_ok :: "string \<Rightarrow> bool" where
  "octet_ok s \<longleftrightarrow> s \<noteq> [] \<and> list_all is_digit s \<and> undec s < 256 \<and> (length s = 1 \<or> s ! 0 \<noteq> CHR ''0'')"

definition pton4 :: "string \<Rightarrow> bytes option" where
  "pton4 s = (let ps = split_on (CHR ''.'') s in
     if length ps = 4 \<and> list_all octet_ok ps then Some (map (\<lambda>p. char_of (undec p)) ps) else None)"

subsection \<open>\<open>SocketsOps.cc\<close>\<close>

text \<open>\<open>LOG_SYSFATAL\<close> ends the process.\<close>

definition createNonblockingOrDie :: "int \<Rightarrow> int option" where
  "createNonblockingOrDie sockfd = (if sockfd < 0 then None else Some sockfd)"

definition bindOrDie :: "int \<Rightarrow> unit option" where "bindOrDie ret = (if ret < 0 then None else Some ())"
definition listenOrDie :: "int \<Rightarrow> unit option" where "listenOrDie ret = (if ret < 0 then None else Some ())"

text \<open>\<open>toIp\<close> and \<open>toIpPort\<close> get the size of the caller's array and the C string in it.\<close>

definition INET_ADDRSTRLEN :: nat where [const_defs]: "INET_ADDRSTRLEN = 16"
definition INET6_ADDRSTRLEN :: nat where [const_defs]: "INET6_ADDRSTRLEN = 46"

definition sockets_toIp :: "(bytes \<Rightarrow> string) \<Rightarrow> nat \<Rightarrow> sock_addr \<Rightarrow> string \<Rightarrow> string option" where
  "sockets_toIp ntop6 sz addr b =
     (if sin_family addr = AF_INET then assert_then (INET_ADDRSTRLEN \<le> sz) (Some (ntop4 (sin_addr addr)))
      else if sin_family addr = AF_INET6 then assert_then (INET6_ADDRSTRLEN \<le> sz) (Some (ntop6 (sin6_addr addr)))
      else Some b)"

definition sockets_toIpPort :: "(bytes \<Rightarrow> string) \<Rightarrow> nat \<Rightarrow> sock_addr \<Rightarrow> string \<Rightarrow> string option" where
  "sockets_toIpPort ntop6 sz addr b =
     do { b \<leftarrow> sockets_toIp ntop6 sz addr b;
          let used = length b; let port = networkToHost16 (sin_port addr);
          assert_then (used < sz) (Some (b @ take (sz - used - 1) (CHR '':'' # dec_nat (unat port)))) }"

definition fromIpPort :: "string \<Rightarrow> 16 word \<Rightarrow> sock_addr \<Rightarrow> sock_addr" where
  "fromIpPort ip port addr =
     (let addr = set_sin AF_INET (hostToNetwork16 port) addr
      in case pton4 ip of Some d \<Rightarrow> write_at 4 d addr | None \<Rightarrow> addr)"

definition fromIpPort6 :: "(string \<Rightarrow> bytes option) \<Rightarrow> string \<Rightarrow> 16 word \<Rightarrow> sock_addr \<Rightarrow> sock_addr" where
  "fromIpPort6 pton6 ip port addr =
     (let addr = set_sin AF_INET6 (hostToNetwork16 port) addr
      in case pton6 ip of Some d \<Rightarrow> write_at 8 d addr | None \<Rightarrow> addr)"

text \<open>\<open>getsockopt\<close>: \<open>errno\<close>, or the option.\<close>

definition getSocketError :: "int + int \<Rightarrow> int" where
  "getSocketError r = (case r of Inl errno \<Rightarrow> errno | Inr optval \<Rightarrow> optval)"

text \<open>\<open>getsockname\<close> and \<open>getpeername\<close>: the bytes the kernel writes, at most the size of the structure.\<close>

definition getLocalAddr :: "bytes option \<Rightarrow> sock_addr" where
  "getLocalAddr r = (let localaddr = replicate 28 (char_of (0::nat)) in case r of Some d \<Rightarrow> write_at 0 d localaddr | None \<Rightarrow> localaddr)"

definition getPeerAddr :: "bytes option \<Rightarrow> sock_addr" where
  "getPeerAddr r = (let peeraddr = replicate 28 (char_of (0::nat)) in case r of Some d \<Rightarrow> write_at 0 d peeraddr | None \<Rightarrow> peeraddr)"

definition isSelfConnect :: "bytes option \<Rightarrow> bytes option \<Rightarrow> bool" where
  "isSelfConnect sockname peername =
     (let localaddr = getLocalAddr sockname; peeraddr = getPeerAddr peername in
      if sin_family localaddr = AF_INET
      then sin_port localaddr = sin_port peeraddr \<and> sin_addr localaddr = sin_addr peeraddr
      else if sin_family localaddr = AF_INET6
      then sin_port localaddr = sin_port peeraddr \<and> sin6_addr localaddr = sin6_addr peeraddr
      else False)"

subsection \<open>\<open>InetAddress.cc\<close>\<close>

text \<open>A constructor starts from uninitialised memory \<open>g\<close>; its \<open>bzero\<close> clears the member it then fills.\<close>

definition InetAddress_port :: "16 word \<Rightarrow> bool \<Rightarrow> bool \<Rightarrow> sock_addr \<Rightarrow> sock_addr" where
  "InetAddress_port port loopbackOnly ipv6 g =
     (if ipv6
      then write_at 8 (if loopbackOnly then in6addr_loopback else in6addr_any) (set_sin AF_INET6 (hostToNetwork16 port) (bzero 28 g))
      else write_at 4 (mem_of (hostToNetwork32 (if loopbackOnly then kInaddrLoopback else kInaddrAny)))
             (set_sin AF_INET (hostToNetwork16 port) (bzero 16 g)))"

definition InetAddress_ip :: "(string \<Rightarrow> bytes option) \<Rightarrow> string \<Rightarrow> 16 word \<Rightarrow> bool \<Rightarrow> sock_addr \<Rightarrow> sock_addr" where
  "InetAddress_ip pton6 ip port ipv6 g =
     (if ipv6 then fromIpPort6 pton6 ip port (bzero 28 g) else fromIpPort ip port (bzero 16 g))"

definition inet_toIpPort :: "(bytes \<Rightarrow> string) \<Rightarrow> sock_addr \<Rightarrow> string option" where
  "inet_toIpPort ntop6 a = sockets_toIpPort ntop6 64 a []"

definition inet_toIp :: "(bytes \<Rightarrow> string) \<Rightarrow> sock_addr \<Rightarrow> string option" where
  "inet_toIp ntop6 a = sockets_toIp ntop6 64 a []"

definition ipNetEndian :: "sock_addr \<Rightarrow> 32 word option" where
  "ipNetEndian a = assert_then (sin_family a = AF_INET) (Some (load_mem (sin_addr a)))"

definition toPort :: "sock_addr \<Rightarrow> 16 word" where
  "toPort a = networkToHost16 (sin_port a)"

text \<open>\<open>gethostbyname_r\<close>: its return value, and the entry it found: whether that is an IPv4 address, and its bytes.\<close>

definition resolve :: "int \<Rightarrow> (bool \<times> bytes) option \<Rightarrow> sock_addr \<Rightarrow> (bool \<times> sock_addr) option" where
  "resolve ret he out =
     (case he of
        Some (inet, d) \<Rightarrow>
          if ret = 0 then assert_then (inet \<and> length d = 4) (Some (True, write_at 4 d out)) else Some (False, out)
      | None \<Rightarrow> Some (False, out))"

text \<open>\<open>Socket::accept\<close>: the result of \<open>accept4\<close> and the address it wrote.\<close>

definition Socket_accept :: "int + fd \<Rightarrow> bytes \<Rightarrow> sock_addr \<Rightarrow> ((int + fd) \<times> sock_addr) option" where
  "Socket_accept r d peeraddr =
     do { connfd \<leftarrow> sockets_accept r;
          Some (case connfd of
             Inr fd \<Rightarrow> (connfd, write_at 0 d (bzero 28 (replicate 28 (char_of (0::nat)))))
           | Inl e \<Rightarrow> (connfd, peeraddr)) }"

subsection \<open>The fields of an address\<close>

lemmas field_defs = sin_family_def sin_port_def sin_addr_def sin6_addr_def

lemma set_sin_append:
  assumes "length a = 28"
  shows "set_sin f p a = mem_of f @ mem_of p @ drop 4 a"
  using assms by (simp add: set_sin_def write_at_def)

lemma bzero_length [simp]: "n \<le> length a \<Longrightarrow> length (bzero n a) = length a"
  by (simp add: bzero_def)

lemma load_mem16 [simp]: "load_mem (mem_of x) = (x :: 16 word)"
  by (rule load_mem_of) simp

lemma port_back [simp]: "networkToHost16 (hostToNetwork16 p) = p"
  by (simp add: endian_defs bswap_bswap)

lemma address_fields:
  assumes "length a = 28" "length d = n"
  shows "n = 4 \<Longrightarrow> sin_addr (write_at 4 d (set_sin f p a)) = d"
    "n = 16 \<Longrightarrow> sin6_addr (write_at 8 d (set_sin f p a)) = d"
    "i = 4 \<or> i = 8 \<Longrightarrow> sin_family (write_at i d (set_sin f p a)) = f"
    "i = 4 \<or> i = 8 \<Longrightarrow> sin_port (write_at i d (set_sin f p a)) = p"
  using assms by (auto simp: field_defs set_sin_append write_at_def)

subsection \<open>Texts are read back\<close>

lemma of_char_less [simp]: "(of_char c :: nat) < 256"
  by (cases c) (simp add: of_char_def)

lemma octet_split: "CHR ''.'' \<notin> set (octet c)"
proof
  assume "CHR ''.'' \<in> set (octet c)"
  then have "is_digit (CHR ''.'')" using dec_nat_digits by (auto simp: octet_def)
  then show False by (simp add: is_digit_def)
qed

lemma dec_nat_head: "0 < n \<Longrightarrow> dec_nat n ! 0 \<noteq> CHR ''0''"
proof (induction n rule: dec_nat.induct)
  case (1 n)
  show ?case
  proof (cases "n < 10")
    case True
    have "(of_char (digit_char n) :: nat) \<noteq> of_char (CHR ''0'')" using True 1(2) by simp
    then have "digit_char n \<noteq> CHR ''0''" by metis
    then show ?thesis using True by (simp add: dec_nat.simps [of n])
  next
    case False
    then show ?thesis using 1 by (simp add: dec_nat.simps [of n] nth_append)
  qed
qed

lemma octet_read: "octet_ok (octet c)" "char_of (undec (octet c)) = c" "length (octet c) \<le> 3" "octet c \<noteq> []"
proof -
  let ?n = "of_char c :: nat"
  show "char_of (undec (octet c)) = c" "octet c \<noteq> []" by (simp_all add: octet_def)
  show "length (octet c) \<le> 3" unfolding octet_def using of_char_less [of c] by (intro length_dec_nat) (simp_all add: less_trans [OF of_char_less])
  have h: "length (dec_nat ?n) = 1 \<or> dec_nat ?n ! 0 \<noteq> CHR ''0''"
    using dec_nat_head [of ?n] by (cases "?n = 0") (simp_all add: dec_nat.simps)
  show "octet_ok (octet c)" using h dec_nat_digits [of ?n] by (simp add: octet_ok_def octet_def list_all_iff)
qed

lemma ntop4_length: "length (ntop4 ip) \<le> 15"
  using octet_read(3) [of "ip ! 0"] octet_read(3) [of "ip ! 1"] octet_read(3) [of "ip ! 2"] octet_read(3) [of "ip ! 3"]
  by (simp add: ntop4_def)

lemma pton4_ntop4: "length ip = 4 \<Longrightarrow> pton4 (ntop4 ip) = Some ip"
proof -
  assume "length ip = 4"
  then obtain a b c d where ip: "ip = [a, b, c, d]" by (auto simp: length_Suc_conv eval_nat_numeral)
  have "split_on (CHR ''.'') (ntop4 ip) = [octet a, octet b, octet c, octet d]"
    using split_on_append [OF octet_split] split_on_none [OF octet_split] by (simp add: ntop4_def ip)
  then show ?thesis by (simp add: pton4_def octet_read ip)
qed

lemma dec_nat16: "length (dec_nat (unat (p :: 16 word))) \<le> 5"
  using unsigned_less [where ?'a = nat, of p] by (intro length_dec_nat) simp_all

text \<open>The array of 64 bytes holds every text: nothing is cut off.\<close>

lemma toIpPort_fits:
  assumes "sockets_toIp ntop6 64 a [] = Some s" "length s < 46"
  shows "inet_toIpPort ntop6 a = Some (s @ CHR '':'' # dec_nat (unat (toPort a)))"
  using assms dec_nat16 [of "toPort a"] by (simp add: inet_toIpPort_def sockets_toIpPort_def Let_def toPort_def)

lemma inet_address_core:
  assumes g: "length g = 28" and ip: "length ip = (if ipv6 then 16 else 4)"
    and ntop6: "\<And>b. length b = 16 \<Longrightarrow> pton6 (ntop6 b) = Some b \<and> length (ntop6 b) < INET6_ADDRSTRLEN"
  defines "tx \<equiv> if ipv6 then ntop6 ip else ntop4 ip"
  shows "inet_toIp ntop6 (InetAddress_ip pton6 tx port ipv6 g) = Some tx"
    "inet_toIpPort ntop6 (InetAddress_ip pton6 tx port ipv6 g) = Some (tx @ CHR '':'' # dec_nat (unat port))"
    "toPort (InetAddress_ip pton6 tx port ipv6 g) = port"
    "ipNetEndian (InetAddress_ip pton6 tx port ipv6 g) = (if ipv6 then None else Some (load_mem ip))"
proof -
  let ?a = "InetAddress_ip pton6 tx port ipv6 g"
  have a: "sin_family ?a = (if ipv6 then AF_INET6 else AF_INET)" "sin_port ?a = hostToNetwork16 port"
    "ipv6 \<Longrightarrow> sin6_addr ?a = ip" "\<not> ipv6 \<Longrightarrow> sin_addr ?a = ip"
    using g ip ntop6 [of ip] pton4_ntop4 [of ip]
    by (simp_all add: InetAddress_ip_def tx_def fromIpPort_def fromIpPort6_def address_fields split: if_splits)
  show i: "inet_toIp ntop6 ?a = Some tx"
    using a by (auto simp: inet_toIp_def sockets_toIp_def tx_def const_defs)
  have l: "length tx < 46" using ntop6 [of ip] ip ntop4_length [of ip] by (auto simp: tx_def const_defs)
  show p: "toPort ?a = port" using a by (simp add: toPort_def)
  show "inet_toIpPort ntop6 ?a = Some (tx @ CHR '':'' # dec_nat (unat port))"
    using toIpPort_fits [of ntop6 ?a tx] i l p by (simp add: inet_toIp_def)
  show "ipNetEndian ?a = (if ipv6 then None else Some (load_mem ip))"
    using a by (auto simp: ipNetEndian_def const_defs)
qed

text \<open>C33: An address made from the text of an IPv4 or IPv6 address and a port prints as this text, a colon and the port in
  decimal, gives the port and the address back, and no tx is cut off by the arrays of the code. \<open>ipNetEndian\<close> of an
  IPv6 address is a failed assertion.\<close>

theorem inet_address_text:
  assumes "length g = 28" "length ip = (if ipv6 then 16 else 4)"
    and "\<And>b. length b = 16 \<Longrightarrow> pton6 (ntop6 b) = Some b \<and> length (ntop6 b) < INET6_ADDRSTRLEN"
  shows "let tx = if ipv6 then ntop6 ip else ntop4 ip; a = InetAddress_ip pton6 tx port ipv6 g in
    inet_toIp ntop6 a = Some tx \<and> inet_toIpPort ntop6 a = Some (tx @ CHR '':'' # dec_nat (unat port)) \<and>
    toPort a = port \<and> ipNetEndian a = (if ipv6 then None else Some (load_mem ip))"
  unfolding Let_def using inet_address_core [OF assms] by blast

theorem inet_address_text_witness:
  "inet_toIpPort id (InetAddress_ip Some ''10.0.0.200'' 8080 False (replicate 28 CHR ''x'')) = Some ''10.0.0.200:8080''"
proof -
  have t: "ntop4 [char_of (10::nat), char_of (0::nat), char_of (0::nat), char_of (200::nat)] = ''10.0.0.200''"
    by (simp add: ntop4_def octet_def dec_nat.simps digit_char_def char_of_def bit_0)
  have p: "dec_nat 8080 = ''8080''" by (simp add: dec_nat.simps digit_char_def char_of_def bit_0)
  show ?thesis
    using inet_address_text [of "replicate 28 CHR ''x''" "[char_of (10::nat), char_of (0::nat), char_of (0::nat), char_of (200::nat)]" False Some id 8080]
    by (simp add: t p const_defs Let_def)
qed

subsection \<open>Listening and connected addresses\<close>

text \<open>The address a server listens on: any address, or the loopback one.\<close>

lemma InetAddress_port_fields:
  assumes "length g = 28"
  shows "toPort (InetAddress_port port l ipv6 g) = port"
    "sin_family (InetAddress_port port l ipv6 g) = (if ipv6 then AF_INET6 else AF_INET)"
    "inet_toIp ntop6 (InetAddress_port port l False g) = Some (if l then ''127.0.0.1'' else ''0.0.0.0'')"
proof -
  have z: "length in6addr_any = 16" "length in6addr_loopback = 16" by (simp_all add: in6addr_any_def in6addr_loopback_def)
  show "toPort (InetAddress_port port l ipv6 g) = port" "sin_family (InetAddress_port port l ipv6 g) = (if ipv6 then AF_INET6 else AF_INET)"
    using assms z by (simp_all add: InetAddress_port_def toPort_def address_fields)
  have m: "mem_of (hostToNetwork32 x) = rev (mem_of x)" for x by (simp add: hostToNetwork32_def mem_of_bswap)
  have "(4::nat) = Suc (Suc (Suc (Suc 0)))" by simp
  then have four: "le_digits 4 v = [v mod 256, v div 256 mod 256, v div 256 div 256 mod 256, v div 256 div 256 div 256 mod 256]" for v
    by (simp only: le_digits.simps)
  have "ntop4 (rev (mem_of kInaddrLoopback)) = ''127.0.0.1''" "ntop4 (rev (mem_of kInaddrAny)) = ''0.0.0.0''"
    by (simp_all add: ntop4_def octet_def mem_of_def const_defs four dec_nat.simps digit_char_def char_of_def bit_0)
  then show "inet_toIp ntop6 (InetAddress_port port l False g) = Some (if l then ''127.0.0.1'' else ''0.0.0.0'')"
    using assms by (simp add: InetAddress_port_def inet_toIp_def sockets_toIp_def address_fields m const_defs)
qed

text \<open>A connection to itself has the same address at both ends; two ends with different ports are never taken for one.\<close>

lemma isSelfConnect_iff:
  assumes "length a = 28" "length b = 28" "sin_family a \<in> {AF_INET, AF_INET6}"
  shows "isSelfConnect (Some a) (Some b) \<longleftrightarrow>
    sin_port a = sin_port b \<and> (if sin_family a = AF_INET then sin_addr a = sin_addr b else sin6_addr a = sin6_addr b)"
proof -
  have "getLocalAddr (Some a) = a" "getPeerAddr (Some b) = b"
    using assms(1,2) by (simp_all add: getLocalAddr_def getPeerAddr_def write_at_def)
  then show ?thesis using assms(3) by (auto simp: isSelfConnect_def const_defs)
qed

end
