(* ===== verification/Base_ProcessInfo.thy ===== *)
theory Base_ProcessInfo
  imports Net_Buffer Base_Time Decimal
begin

section \<open>The process: \<open>base/ProcessInfo.cc\<close>\<close>

text \<open>
  What the code reads out of \<open>/proc\<close>: the texts of the files are arguments. A \<open>std::string\<close> ends with a NUL after its last character,
  so a pointer into one is the rest of the string. The times are kept in clock ticks; their quotients, doubles, are only printed.
\<close>

definition str_find :: "string \<Rightarrow> string \<Rightarrow> nat option" where
  "str_find pat s = (let i = std_search pat s in if i < length s then Some i else None)"

definition str_rfind :: "char \<Rightarrow> string \<Rightarrow> nat option" where
  "str_rfind c s = (case memchr c (rev s) of Some i \<Rightarrow> Some (length s - 1 - i) | None \<Rightarrow> None)"

definition procname :: "string \<Rightarrow> string_piece" where
  "procname stat =
     (case (memchr (CHR ''('') stat, str_rfind (CHR '')'') stat) of
        (Some lp, Some rp) \<Rightarrow>
          if lp < rp then sp_set (drop (lp + 1) stat) (to_int32 (int (rp - lp - 1))) StringPiece_null else StringPiece_null
      | _ \<Rightarrow> StringPiece_null)"

definition numThreads :: "string \<Rightarrow> int" where
  "numThreads status = (case str_find ''Threads:'' status of Some pos \<Rightarrow> atoi (drop (pos + 8) status) | None \<Rightarrow> 0)"

text \<open>\<open>scandir\<close> calls the filter for every entry of the directory; the filters keep nothing.\<close>

definition fdDirFilter :: "string \<Rightarrow> int \<Rightarrow> int" where
  "fdDirFilter d_name t_numOpenedFiles = (case d_name of c # _ \<Rightarrow> if is_digit c then t_numOpenedFiles + 1 else t_numOpenedFiles | [] \<Rightarrow> t_numOpenedFiles)"

definition taskDirFilter :: "string \<Rightarrow> int list \<Rightarrow> int list" where
  "taskDirFilter d_name t_pids = (case d_name of c # _ \<Rightarrow> if is_digit c then t_pids @ [atoi d_name] else t_pids | [] \<Rightarrow> t_pids)"

definition openedFiles :: "string list \<Rightarrow> int" where
  "openedFiles dir = fold fdDirFilter dir 0"

definition proc_threads :: "string list \<Rightarrow> int list" where
  "proc_threads dir = sort (fold taskDirFilter dir [])"

text \<open>\<open>getrlimit\<close>: the soft limit, or an error; \<open>readlink\<close>; \<open>gethostname\<close>, whose array the code terminates itself.\<close>

definition maxOpenFiles :: "int option \<Rightarrow> string list \<Rightarrow> int" where
  "maxOpenFiles rlim_cur dir = (case rlim_cur of None \<Rightarrow> openedFiles dir | Some n \<Rightarrow> to_int32 n)"

definition exePath :: "bytes option \<Rightarrow> string" where
  "exePath r = (case r of Some d \<Rightarrow> if length d > 0 then d else [] | None \<Rightarrow> [])"

definition hostname :: "bytes option \<Rightarrow> string" where
  "hostname r = (case r of Some b \<Rightarrow> takeWhile (\<lambda>c. c \<noteq> CHR 0x00) (b[255 := CHR 0x00]) | None \<Rightarrow> ''unknownhost'')"

definition username :: "string option \<Rightarrow> string" where
  "username pw = (case pw of Some name \<Rightarrow> name | None \<Rightarrow> ''unknownuser'')"

section \<open>Reading \<open>/proc\<close>: \<open>net/inspect/ProcessInspector.cc\<close>\<close>

definition two_digits :: "int \<Rightarrow> string" where
  "two_digits n = (if 0 \<le> n \<and> n < 10 then CHR ''0'' # dec_int n else dec_int n)"

definition pad_zeros :: "nat \<Rightarrow> int \<Rightarrow> string" where
  "pad_zeros k n = replicate (k - length (dec_int n)) (CHR ''0'') @ dec_int n"

definition uptime :: "timestamp \<Rightarrow> timestamp \<Rightarrow> bool \<Rightarrow> string" where
  "uptime now start showMicroseconds =
     (let age = microSecondsSinceEpoch now - microSecondsSinceEpoch start;
          seconds = to_int32 (c_div age kMicroSecondsPerSecond);
          days = c_div seconds 86400; hours = c_div (c_mod seconds 86400) 3600; minutes = c_div (c_mod seconds 3600) 60;
          hms = dec_int days @ '' days '' @ two_digits hours @ '':'' @ two_digits minutes @ '':'' @ two_digits (c_mod seconds 60)
      in take 255 (if showMicroseconds then hms @ ''.'' @ pad_zeros 6 (to_int32 (c_mod age kMicroSecondsPerSecond)) else hms))"

definition getLong :: "string \<Rightarrow> string \<Rightarrow> int" where
  "getLong procStatus key = (case str_find key procStatus of Some pos \<Rightarrow> atoi (drop (pos + length key) procStatus) | None \<Rightarrow> 0)"

text \<open>None: the loop runs past the end of the string.\<close>

definition getProcessName :: "string \<Rightarrow> string option" where
  "getProcessName procStatus =
     (case str_find ''Name:'' procStatus of
        Some pos \<Rightarrow>
          (let s = dropWhile (\<lambda>c. c = CHR 0x09) (drop (pos + 5) procStatus)
           in case memchr (CHR 0x0A) s of Some n \<Rightarrow> Some (take n s) | None \<Rightarrow> None)
      | None \<Rightarrow> Some [])"

definition next_piece :: "string_piece \<Rightarrow> string_piece" where
  "next_piece data =
     (case memchr (CHR '' '') (as_string data) of Some i \<Rightarrow> remove_prefix (i + 1) data | None \<Rightarrow> StringPiece_cstr [])"

definition getCpuTime :: "string_piece \<Rightarrow> int \<times> int" where
  "getCpuTime data =
     (let data = (next_piece ^^ 10) data; utime = atoi (sp_ptr data);
          data = next_piece data; stime = atoi (sp_ptr data)
      in (utime, stime))"

text \<open>The body of the loop of \<open>threads\<close> for the text of one \<open>stat\<close> file. None: the assertion fails, or the code reads
  through a null pointer or past the end of the text.\<close>

record thread_row =
  row_name :: string
  row_state :: char
  row_cpu :: "int \<times> int"

definition thread_stat :: "string \<Rightarrow> thread_row option" where
  "thread_stat stat =
     (let name = procname stat in
      case drop (nat (sp_length name)) (sp_ptr name) of
        [] \<Rightarrow> None
      | c # after \<Rightarrow>
          assert_then (c = CHR '')'')
           (if length after < 3 then None
            else let data = remove_prefix (length stat - length after + 3) (StringPiece_string stat)
                 in Some \<lparr>row_name = takeWhile (\<lambda>c. c \<noteq> CHR 0x00) (as_string name), row_state = after ! 1, row_cpu = getCpuTime data\<rparr>))"

subsection \<open>The text of a \<open>stat\<close> file\<close>

text \<open>As the kernel writes it: the id, the name in parentheses, which may hold any characters, the state, then numbers.\<close>

definition stat_text :: "int \<Rightarrow> string \<Rightarrow> char \<Rightarrow> int list \<Rightarrow> string" where
  "stat_text tid name st fs = dec_int tid @ '' ('' @ name @ '') '' @ st # concat (map (\<lambda>f. CHR '' '' # dec_int f) fs)"

definition whole :: "string_piece \<Rightarrow> bool" where
  "whole p \<longleftrightarrow> sp_length p = int (length (sp_ptr p))"

definition fields_text :: "int list \<Rightarrow> string" where
  "fields_text fs = (case fs of [] \<Rightarrow> [] | f # fs \<Rightarrow> dec_int f @ concat (map (\<lambda>f. CHR '' '' # dec_int f) fs))"

lemma dec_int_chars: "c \<in> set (dec_int n) \<Longrightarrow> is_digit c \<or> c = CHR ''-''"
  using dec_nat_digits by (auto simp: dec_int_def split: if_splits)

lemma dec_int_not [simp]: "CHR '' '' \<notin> set (dec_int n)" "CHR ''('' \<notin> set (dec_int n)" "CHR '')'' \<notin> set (dec_int n)"
  using dec_int_chars [of _ n] by (force simp: is_digit_def)+

lemma memchr_append: "c \<notin> set p \<Longrightarrow> memchr c (p @ c # s) = Some (length p)"
proof -
  assume "c \<notin> set p"
  then have "find_index (\<lambda>x. x = c) (p @ c # s) = length p" by (intro find_index_append_hit) auto
  then show ?thesis by (simp add: memchr_def)
qed

lemma str_rfind_append: "c \<notin> set s \<Longrightarrow> str_rfind c (p @ c # s) = Some (length p)"
proof -
  assume "c \<notin> set s"
  then have "memchr c (rev (p @ c # s)) = Some (length s)" using memchr_append [of c "rev s" "rev p"] by simp
  then show ?thesis by (simp add: str_rfind_def)
qed

lemma next_field:
  assumes "whole p" "sp_ptr p = dec_int f @ CHR '' '' # s"
  shows "whole (next_piece p) \<and> sp_ptr (next_piece p) = s"
  using assms memchr_append [of "CHR '' ''" "dec_int f" s] by (simp add: next_piece_def whole_def as_string_def remove_prefix_def)

lemma next_fields:
  "whole p \<Longrightarrow> sp_ptr p = fields_text fs \<Longrightarrow> k < length fs \<Longrightarrow>
     whole ((next_piece ^^ k) p) \<and> sp_ptr ((next_piece ^^ k) p) = fields_text (drop k fs)"
proof (induction k)
  case (Suc k)
  then obtain f g gs where d: "drop k fs = f # g # gs" by (metis Cons_nth_drop_Suc Suc_lessD)
  moreover have "drop (Suc k) fs = g # gs" using d by (metis drop_Suc tl_drop list.sel(3))
  ultimately show ?case using Suc next_field [of "(next_piece ^^ k) p" f "fields_text (g # gs)"] by (simp add: fields_text_def)
qed simp

lemma atoi_ends: "s = [] \<or> \<not> is_digit (s ! 0) \<Longrightarrow> atoi (dec_int n @ s) = n"
proof -
  assume s: "s = [] \<or> \<not> is_digit (s ! 0)"
  have t: "takeWhile is_digit (dec_nat m @ s) = dec_nat m" for m
    using dec_nat_digits [of m] s by (cases s) (auto simp: takeWhile_append2)
  show ?thesis
  proof (cases "n < 0")
    case True
    then show ?thesis using t by (simp add: dec_int_def atoi_def is_space_def)
  next
    case False
    obtain c u where cu: "dec_nat (nat n) = c # u" by (cases "dec_nat (nat n)") auto
    then have "is_digit c" using dec_nat_digits [of "nat n"] by simp
    then have c: "\<not> is_space c" "c \<noteq> CHR ''-''" "c \<noteq> CHR ''+''" using digit_not_space by auto
    then have "atoi (dec_int n @ s) = int (undec (takeWhile is_digit (dec_nat (nat n) @ s)))"
      using False by (simp add: dec_int_def atoi_def cu)
    then show ?thesis using t False by simp
  qed
qed

lemma atoi_fields: "fs \<noteq> [] \<Longrightarrow> atoi (fields_text fs) = hd fs"
proof (cases fs)
  case (Cons f gs)
  then show ?thesis using atoi_ends [of "concat (map (\<lambda>f. CHR '' '' # dec_int f) gs)" f]
    by (cases gs) (simp_all add: fields_text_def is_digit_def)
qed simp

lemma getCpuTime_fields:
  assumes "whole p" "sp_ptr p = fields_text fs" "12 \<le> length fs"
  shows "getCpuTime p = (fs ! 10, fs ! 11)"
proof -
  note a = next_fields [OF assms(1,2)]
  have "atoi (sp_ptr ((next_piece ^^ 10) p)) = fs ! 10" "atoi (sp_ptr ((next_piece ^^ 11) p)) = fs ! 11"
    using a [of 10] a [of 11] assms(3) by (simp_all add: atoi_fields hd_drop_conv_nth)
  moreover have "next_piece ((next_piece ^^ 10) p) = (next_piece ^^ 11) p" by (simp add: numeral_eq_Suc)
  ultimately show ?thesis by (simp add: getCpuTime_def)
qed

lemma thread_stat_core:
  assumes "12 \<le> length fs" "st \<noteq> CHR '')''" "CHR 0x00 \<notin> set name" "length (stat_text tid name st fs) < 2 ^ 31"
  shows "thread_stat (stat_text tid name st fs) = Some \<lparr>row_name = name, row_state = st, row_cpu = (fs ! 10, fs ! 11)\<rparr>"
proof -
  let ?pre = "dec_int tid @ '' ''" and ?tail = "CHR '' '' # fields_text fs"
  define after where "after = CHR '' '' # st # ?tail"
  have tail: "concat (map (\<lambda>f. CHR '' '' # dec_int f) fs) = ?tail" using assms(1) by (cases fs) (simp_all add: fields_text_def)
  have stat: "stat_text tid name st fs = ?pre @ CHR ''('' # name @ CHR '')'' # after"
    by (simp add: stat_text_def tail after_def)
  have "CHR '')'' \<notin> set ?tail" unfolding tail [symmetric] by auto
  then have rp: "str_rfind (CHR '')'') (stat_text tid name st fs) = Some (length ?pre + 1 + length name)"
    using str_rfind_append [of "CHR '')''" after "?pre @ CHR ''('' # name"] assms(2) by (simp add: stat after_def)
  have lp: "memchr (CHR ''('') (stat_text tid name st fs) = Some (length ?pre)"
    using memchr_append [of "CHR ''(''" ?pre] by (simp add: stat)
  have "length name < 2 ^ 31" using assms(4) by (simp add: stat)
  then have n: "to_int32 (int (length name)) = int (length name)" by simp
  then have name: "procname (stat_text tid name st fs) = \<lparr>sp_ptr = name @ CHR '')'' # after, sp_length = int (length name)\<rparr>"
    using lp rp by (simp add: procname_def sp_set_def StringPiece_null_def) (simp add: stat)
  have "length after \<ge> 3" by (simp add: after_def)
  have d: "drop (length (stat_text tid name st fs) - length after + 3) (stat_text tid name st fs) = fields_text fs"
  proof -
    let ?p = "?pre @ CHR ''('' # name @ [CHR '')'', CHR '' '', st, CHR '' '']"
    have e: "stat_text tid name st fs = ?p @ fields_text fs" by (simp add: stat after_def)
    have l: "length (stat_text tid name st fs) - length after + 3 = length ?p" by (simp add: e after_def)
    have q: "drop (length x) (x @ y) = y" for x y :: string by simp
    show ?thesis unfolding l unfolding e by (rule q)
  qed
  let ?data = "remove_prefix (length (stat_text tid name st fs) - length after + 3) (StringPiece_string (stat_text tid name st fs))"
  have "to_int32 (int (length (stat_text tid name st fs))) = int (length (stat_text tid name st fs))" using assms(4) by simp
  then have "whole ?data" "sp_ptr ?data = fields_text fs"
    using d by (simp_all add: whole_def remove_prefix_def StringPiece_string_def) (simp add: stat after_def)
  then have cpu: "getCpuTime ?data = (fs ! 10, fs ! 11)" using getCpuTime_fields assms(1) by blast
  have "takeWhile (\<lambda>c. c \<noteq> CHR 0x00) name = name" using assms(3) by (simp add: takeWhile_eq_all_conv) blast
  then show ?thesis
    unfolding thread_stat_def name Let_def using cpu \<open>length after \<ge> 3\<close>
    by (simp add: as_string_def) (simp add: after_def)
qed

text \<open>From the text of a \<open>stat\<close> file the page of the threads gets the name of the thread, whatever characters it has, parentheses
  and spaces included, its state, and its user and system times, the fields 14 and 15.\<close>

theorem thread_stat_correct:
  assumes "12 \<le> length fs" "st \<noteq> CHR '')''" "CHR 0x00 \<notin> set name" "length (stat_text tid name st fs) < 2 ^ 31"
  shows "thread_stat (stat_text tid name st fs) = Some \<lparr>row_name = name, row_state = st, row_cpu = (fs ! 10, fs ! 11)\<rparr>"
  by (rule thread_stat_core [OF assms])

theorem thread_stat_correct_witness:
  "thread_stat (stat_text 7 '':-) (x'' (CHR ''S'') [1, 7, 7, 0, -1, 64, 9, 0, 0, 0, 123, 45]) =
     Some \<lparr>row_name = '':-) (x'', row_state = CHR ''S'', row_cpu = (123, 45)\<rparr>"
proof -
  have "length (stat_text 7 '':-) (x'' (CHR ''S'') [1, 7, 7, 0, -1, 64, 9, 0, 0, 0, 123, 45]) < 2 ^ 31"
    by (simp add: stat_text_def dec_int_def dec_nat.simps)
  with thread_stat_correct [of "[1, 7, 7, 0, -1, 64, 9, 0, 0, 0, 123, 45]" "CHR ''S''" "'':-) (x''" 7] show ?thesis by simp
qed

text \<open>A text with no name in parentheses ends the process: the code reads through the null pointer of the empty name.\<close>

lemma thread_stat_no_name: "CHR '')'' \<notin> set stat \<Longrightarrow> thread_stat stat = None"
proof -
  assume "CHR '')'' \<notin> set stat"
  then have "\<not> find_index (\<lambda>x. x = CHR '')'') (rev stat) < length (rev stat)" by (subst find_index_less) auto
  then have "str_rfind (CHR '')'') stat = None" by (simp add: str_rfind_def memchr_def)
  then show ?thesis by (simp add: thread_stat_def procname_def StringPiece_null_def split: option.split)
qed

text \<open>The fields of an up time.\<close>

lemma uptime_fields:
  assumes "seconds = 86400 * d + 3600 * h + 60 * mi + s" "0 \<le> d" "h \<in> {0..23}" "mi \<in> {0..59}" "s \<in> {0..59}" "seconds < 2 ^ 31"
    and "microSecondsSinceEpoch now - microSecondsSinceEpoch start = seconds * kMicroSecondsPerSecond + us" "us \<in> {0..999999}"
  shows "uptime now start False = take 255 (dec_int d @ '' days '' @ two_digits h @ '':'' @ two_digits mi @ '':'' @ two_digits s)"
proof -
  have sec: "0 \<le> seconds" using assms by auto
  have "(seconds * kMicroSecondsPerSecond + us) div kMicroSecondsPerSecond = seconds"
    using assms(8) by (simp add: kMicroSecondsPerSecond_def)
  moreover have "0 \<le> seconds * kMicroSecondsPerSecond + us" using sec assms(8) by (simp add: kMicroSecondsPerSecond_def)
  ultimately have a: "to_int32 (c_div (microSecondsSinceEpoch now - microSecondsSinceEpoch start) kMicroSecondsPerSecond) = seconds"
    using sec assms(6,7) by (simp add: kMicroSecondsPerSecond_def)
  define k where "k = 3600 * h + 60 * mi + s"
  define j where "j = 60 * mi + s"
  have b: "0 \<le> k" "k < 86400" "0 \<le> j" "j < 3600" "0 \<le> s" "s < 60" using assms(3-5) by (auto simp: k_def j_def)
  have e: "seconds = k + d * 86400" "seconds = j + (24 * d + h) * 3600" "seconds = s + (1440 * d + 60 * h + mi) * 60" "k = j + h * 3600" "j = s + mi * 60"
    using assms(1) by (simp_all add: k_def j_def)
  have m1: "seconds mod 86400 = k" "seconds div 86400 = d" unfolding e(1) using b by simp_all
  have m2: "seconds mod 3600 = j" unfolding e(2) using b by (simp only: mod_mult_self1 mod_pos_pos_trivial)
  have m3: "seconds mod 60 = s" unfolding e(3) using b by (simp only: mod_mult_self1 mod_pos_pos_trivial)
  have m4: "k div 3600 = h" unfolding e(4) using b by simp
  have m5: "j div 60 = mi" unfolding e(5) using b by simp
  have c: "c_mod seconds 86400 = k" "c_div seconds 86400 = d" "c_mod seconds 3600 = j" "c_mod seconds 60 = s" "c_div k 3600 = h" "c_div j 60 = mi"
    using sec b(1,3) m1 m2 m3 m4 m5 by simp_all
  show ?thesis unfolding uptime_def Let_def a c by (simp only: if_False)
qed

end
