(* ===== verification/Net_Inspect.thy ===== *)
theory Net_Inspect
  imports Net_Http Base_ProcessInfo "HOL-Library.Product_Lexorder"
begin

section \<open>The inspector: \<open>net/inspect/\<close>\<close>

text \<open>
  A web server that shows the process it runs in. A path \<open>/module/command/arg/...\<close> calls the callback registered for the module and
  the command. The state is that of two maps of maps; a callback may be an empty \<open>std::function\<close>. The icon, and what
  the commands read from the system, are arguments.
\<close>

subsection \<open>\<open>Inspector\<close>\<close>

type_synonym callback = "Method \<Rightarrow> string list \<Rightarrow> string"

record inspector =
  ins_modules :: "(string \<times> (string \<times> callback option) list) list"
  ins_helps :: "(string \<times> (string \<times> string) list) list"

text \<open>The loop of \<open>split\<close> with its variables \<open>start\<close> and \<open>pos\<close>.\<close>

definition find_slash :: "string \<Rightarrow> nat \<Rightarrow> nat option" where
  "find_slash str start = map_option (\<lambda>i. start + i) (memchr (CHR ''/'') (drop start str))"

lemma find_slash_less: "find_slash str start = Some pos \<Longrightarrow> start \<le> pos \<and> pos < length str"
  by (auto simp: find_slash_def memchr_def Let_def split: if_splits)

function split_loop :: "string \<Rightarrow> nat \<Rightarrow> string list" where
  "split_loop str start =
     (case find_slash str start of
        Some pos \<Rightarrow> (if pos > start then [take (pos - start) (drop start str)] else []) @ split_loop str (pos + 1)
      | None \<Rightarrow> if start < length str then [drop start str] else [])"
  by auto
termination by (relation "measure (\<lambda>(str, start). Suc (length str) - start)") (auto dest: find_slash_less)

declare split_loop.simps [simp del]

definition insp_split :: "string \<Rightarrow> string list" where "insp_split str = split_loop str 0"

text \<open>\<open>operator[]\<close> of a map makes an empty value where there is none; \<open>erase\<close>.\<close>

definition map_sub :: "(string \<times> 'v list) list \<Rightarrow> string \<Rightarrow> 'v list" where
  "map_sub xs k = (case map_of xs k of Some v \<Rightarrow> v | None \<Rightarrow> [])"

definition map_erase :: "string \<Rightarrow> (string \<times> 'v) list \<Rightarrow> (string \<times> 'v) list" where
  "map_erase k xs = filter (\<lambda>p. fst p \<noteq> k) xs"

definition insp_add :: "string \<Rightarrow> string \<Rightarrow> callback option \<Rightarrow> string \<Rightarrow> inspector \<Rightarrow> inspector" where
  "insp_add modname cmd cb help s =
     s\<lparr>ins_modules := map_put modname (map_put cmd cb (map_sub (ins_modules s) modname)) (ins_modules s),
       ins_helps := map_put modname (map_put cmd help (map_sub (ins_helps s) modname)) (ins_helps s)\<rparr>"

definition insp_remove :: "string \<Rightarrow> string \<Rightarrow> inspector \<Rightarrow> inspector" where
  "insp_remove modname cmd s =
     (case map_of (ins_modules s) modname of
        Some it \<Rightarrow> s\<lparr>ins_modules := map_put modname (map_erase cmd it) (ins_modules s),
                     ins_helps := map_put modname (map_erase cmd (map_sub (ins_helps s) modname)) (ins_helps s)\<rparr>
      | None \<Rightarrow> s)"

definition help_line :: "string \<Rightarrow> string \<times> string \<Rightarrow> string" where
  "help_line modname e =
     (let len = length modname + length (fst e)
      in ''/'' @ modname @ ''/'' @ fst e @ replicate (if len \<ge> 25 then 1 else 25 - len) (CHR '' '') @ snd e @ [CHR 0x0A])"

definition ok_text :: "string \<Rightarrow> string \<Rightarrow> http_response \<Rightarrow> http_response" where
  "ok_text kind result resp = setBody result (setContentType kind (setStatusMessage ''OK'' (setStatusCode k200Ok resp)))"

definition not_found :: "http_response \<Rightarrow> http_response" where
  "not_found resp = setStatusMessage ''Not Found'' (setStatusCode k404NotFound resp)"

definition insp_onRequest :: "string \<Rightarrow> inspector \<Rightarrow> http_request \<Rightarrow> http_response \<Rightarrow> http_response" where
  "insp_onRequest favicon s req resp =
     (if path req = ''/''
      then ok_text ''text/plain'' (concat (map (\<lambda>(m, hl). concat (map (help_line m) hl)) (ins_helps s))) resp
      else let result = insp_split (path req) in
        if length result = 0 then not_found resp
        else if length result = 1
        then if result ! 0 = ''favicon.ico'' then ok_text ''image/png'' favicon resp else not_found resp
        else case map_of (ins_modules s) (result ! 0) of
               Some commList \<Rightarrow>
                 (case map_of commList (result ! 1) of
                    Some (Some cb) \<Rightarrow> ok_text ''text/plain'' (cb (req_method req) (drop 2 result)) resp
                  | _ \<Rightarrow> not_found resp)
             | None \<Rightarrow> not_found resp)"

subsection \<open>The commands\<close>

text \<open>What the commands find in the system: the \<open>stat\<close> file of each thread, or none when it could not be read. \<open>row_text\<close> is the
  \<open>snprintf\<close> of one line, \<open>mib\<close> and \<open>secs\<close> the \<open>%.3f\<close> of a quotient.\<close>

record proc_env =
  now_text :: string
  start_text :: string
  up_text :: string
  status :: string
  exe_path :: string
  user_name :: string
  host_name :: string
  debug_build :: bool
  process_id :: int
  pointer_bits :: nat
  fd_dir :: "string list"
  fd_limit :: "int option"
  cpu_text :: string
  mib :: "int \<Rightarrow> string"
  task_stats :: "(int \<times> string option) list"
  row_text :: "int \<Rightarrow> thread_row \<Rightarrow> string"

definition stringPrintf :: "string \<Rightarrow> string \<Rightarrow> string" where
  "stringPrintf acc printed = acc @ take 255 printed"

text \<open>None: the name of the process runs past the end of the text of \<open>status\<close>.\<close>

definition proc_overview :: "proc_env \<Rightarrow> string option" where
  "proc_overview e =
     do { name \<leftarrow> getProcessName (status e);
          let result = ''Page generated at '' @ now_text e @ '' (UTC)'' @ [CHR 0x0A] @ ''Started at '' @ start_text e @ '' (UTC), up for '' @ up_text e @ [CHR 0x0A]
            @ name @ '' ('' @ exe_path e @ '') running as '' @ user_name e @ '' on '' @ host_name e @ [CHR 0x0A]
            @ (if debug_build e then ''WARNING: debug build!'' @ [CHR 0x0A] else []);
          let result = stringPrintf result (''pid '' @ dec_int (process_id e) @ '', num of threads '' @ dec_int (getLong (status e) ''Threads:'')
            @ '', bits '' @ dec_nat (pointer_bits e) @ [CHR 0x0A]);
          let result = stringPrintf (result @ ''Virtual memory: '') (mib e (getLong (status e) ''VmSize:'') @ '' MiB, '');
          let result = stringPrintf (result @ ''RSS memory: '') (mib e (getLong (status e) ''VmRSS:'') @ '' MiB'' @ [CHR 0x0A]);
          let result = stringPrintf result (''Opened files: '' @ dec_int (openedFiles (fd_dir e)) @ '', limit: '' @ dec_int (maxOpenFiles (fd_limit e) (fd_dir e)) @ [CHR 0x0A]);
          Some (stringPrintf result (cpu_text e)) }"

definition proc_pid :: "proc_env \<Rightarrow> string" where "proc_pid e = take 31 (dec_int (process_id e))"
definition proc_status :: "proc_env \<Rightarrow> string" where "proc_status e = status e"

definition threads_header :: string where
  "threads_header = ''  TID NAME             S    User Time  System Time'' @ [CHR 0x0A]"

fun thread_lines :: "(int \<Rightarrow> thread_row \<Rightarrow> string) \<Rightarrow> (int \<times> string option) list \<Rightarrow> string option" where
  "thread_lines fmt [] = Some []"
| "thread_lines fmt ((tid, f) # ts) =
     (case f of
        None \<Rightarrow> thread_lines fmt ts
      | Some stat \<Rightarrow> do { row \<leftarrow> thread_stat stat; rest \<leftarrow> thread_lines fmt ts; Some (take 255 (fmt tid row) @ rest) })"

definition proc_threads_page :: "proc_env \<Rightarrow> string option" where
  "proc_threads_page e = map_option (\<lambda>ls. threads_header @ ls) (thread_lines (row_text e) (task_stats e))"

text \<open>The commands of the system: the files of \<open>/proc\<close>, at most their first 65536 bytes, and the five strings of \<open>uname\<close>.
  \<open>formatted\<close> is \<open>toFormattedString\<close>.\<close>

record sys_env =
  sys_now :: timestamp
  formatted :: "bool \<Rightarrow> timestamp \<Rightarrow> string"
  uname :: "(string \<times> string \<times> string \<times> string \<times> string) option"
  proc_stat :: string
  proc_loadavg :: string
  proc_meminfo :: string
  proc_version :: string
  proc_cpuinfo :: string

definition sys_loadavg :: "sys_env \<Rightarrow> string" where "sys_loadavg e = proc_loadavg e"
definition sys_version :: "sys_env \<Rightarrow> string" where "sys_version e = proc_version e"
definition sys_cpuinfo :: "sys_env \<Rightarrow> string" where "sys_cpuinfo e = proc_cpuinfo e"
definition sys_meminfo :: "sys_env \<Rightarrow> string" where "sys_meminfo e = proc_meminfo e"
definition sys_stat :: "sys_env \<Rightarrow> string" where "sys_stat e = proc_stat e"

text \<open>\<open>%6ld MiB\<close> of a number of kilobytes.\<close>

definition mib_line :: "string \<Rightarrow> int \<Rightarrow> string \<Rightarrow> string" where
  "mib_line name kb result =
     (let n = dec_int (c_div kb 1024) in stringPrintf result (name @ replicate (6 - length n) (CHR '' '') @ n @ '' MiB'' @ [CHR 0x0A]))"

definition sys_memory :: "string \<Rightarrow> string \<Rightarrow> string" where
  "sys_memory meminfo result =
     (let total_kb = getLong meminfo ''MemTotal:''; free_kb = getLong meminfo ''MemFree:'';
          buffers_kb = getLong meminfo ''Buffers:''; cached_kb = getLong meminfo ''Cached:'';
          result = mib_line ''Total Memory: '' total_kb result;
          result = mib_line ''Free Memory:  '' free_kb result;
          result = mib_line ''Buffers:      '' buffers_kb result;
          result = mib_line ''Cached:       '' cached_kb result;
          result = mib_line ''Real Used:    '' (total_kb - free_kb - buffers_kb - cached_kb) result
      in mib_line ''Real Free:    '' (free_kb + buffers_kb + cached_kb) result)"

definition sys_overview :: "sys_env \<Rightarrow> string" where
  "sys_overview e =
     (let line = [CHR 0x0A];
          result = ''Page generated at '' @ formatted e True (sys_now e) @ '' (UTC)'' @ line;
          result = (case uname e of
             Some (nodename, machine, sysname, release, ver) \<Rightarrow>
               stringPrintf (stringPrintf (stringPrintf result (''Hostname: '' @ nodename @ line)) (''Machine: '' @ machine @ line))
                 (''OS: '' @ sysname @ '' '' @ release @ '' '' @ ver @ line)
           | None \<Rightarrow> result);
          bootTime = Timestamp (kMicroSecondsPerSecond * getLong (proc_stat e) ''btime '');
          result = result @ ''Boot time: '' @ formatted e False bootTime @ '' (UTC)'' @ line
            @ ''Up time: '' @ uptime (sys_now e) bootTime False @ line;
          result = stringPrintf result (''Processes created: '' @ dec_int (getLong (proc_stat e) ''processes '') @ line);
          result = stringPrintf result (''Loadavg: '' @ takeWhile (\<lambda>c. c \<noteq> CHR 0x00) (proc_loadavg e) @ line)
      in sys_memory (proc_meminfo e) result)"

text \<open>The constructor: the commands of the process and of the system, in the order they are added; \<open>page\<close> gives the callback of a command.\<close>

definition proc_registerCommands :: "(string \<Rightarrow> callback) \<Rightarrow> inspector \<Rightarrow> inspector" where
  "proc_registerCommands page s =
     (let cb = \<lambda>c. Some (page c) in
      insp_add ''proc'' ''threads'' (cb ''threads'') ''list /proc/self/task''
       (insp_add ''proc'' ''status'' (cb ''status'') ''print /proc/self/status''
         (insp_add ''proc'' ''pid'' (cb ''pid'') ''print pid''
           (insp_add ''proc'' ''overview'' (cb ''overview'') ''print basic overview'' s))))"

definition sys_registerCommands :: "(string \<Rightarrow> callback) \<Rightarrow> inspector \<Rightarrow> inspector" where
  "sys_registerCommands page s =
     (let cb = \<lambda>c. Some (page c) in
      insp_add ''sys'' ''stat'' (cb ''stat'') ''print /proc/stat''
       (insp_add ''sys'' ''meminfo'' (cb ''meminfo'') ''print /proc/meminfo''
         (insp_add ''sys'' ''cpuinfo'' (cb ''cpuinfo'') ''print /proc/cpuinfo''
           (insp_add ''sys'' ''version'' (cb ''version'') ''print /proc/version''
             (insp_add ''sys'' ''loadavg'' (cb ''loadavg'') ''print /proc/loadavg''
               (insp_add ''sys'' ''overview'' (cb ''overview'') ''print system overview'' s))))))"

definition mk_inspector :: "bool \<Rightarrow> bool \<Rightarrow> (string \<Rightarrow> callback) \<Rightarrow> (string \<Rightarrow> callback) \<Rightarrow> inspector option" where
  "mk_inspector main_thread other_exists proc_page sys_page =
     assert_then main_thread (assert_then (\<not> other_exists)
      (Some (sys_registerCommands sys_page (proc_registerCommands proc_page \<lparr>ins_modules = [], ins_helps = []\<rparr>))))"

subsection \<open>Paths\<close>

text \<open>\<open>split\<close> gives the non-empty pieces between the slashes.\<close>

lemma split_on_head: "split_on d s = take (find_index (\<lambda>c. c = d) s) s #
    (if find_index (\<lambda>c. c = d) s < length s then split_on d (drop (Suc (find_index (\<lambda>c. c = d) s)) s) else [])"
  by (induction s) auto

lemma split_loop_pieces: "split_loop str start = filter (\<lambda>p. p \<noteq> []) (split_on (CHR ''/'') (drop start str))"
proof (induction str start rule: split_loop.induct)
  case (1 str start)
  let ?s = "drop start str" let ?i = "find_index (\<lambda>c. c = CHR ''/'') ?s"
  note h = split_on_head [of "CHR ''/''" ?s]
  show ?case
  proof (cases "?i < length ?s")
    case True
    then have f: "find_slash str start = Some (start + ?i)" by (simp add: find_slash_def memchr_def)
    have "drop (Suc ?i) ?s = drop (start + ?i + 1) str" by (simp add: add.commute)
    with h True 1 [OF f] show ?thesis by (subst split_loop.simps) (auto simp: f)
  next
    case False
    then have "find_slash str start = None" "?i = length ?s" using find_index_le [of "\<lambda>c. c = CHR ''/''" ?s] by (auto simp: find_slash_def memchr_def)
    with h show ?thesis by (subst split_loop.simps) auto
  qed
qed

lemma insp_split_pieces: "insp_split str = filter (\<lambda>p. p \<noteq> []) (split_on (CHR ''/'') str)"
  by (simp add: insp_split_def split_loop_pieces)

lemma insp_split_join:
  assumes "\<forall>p \<in> set ps. p \<noteq> [] \<and> CHR ''/'' \<notin> set p"
  shows "insp_split (concat (map (\<lambda>p. CHR ''/'' # p) ps)) = ps"
proof -
  have "filter (\<lambda>p. p \<noteq> []) (split_on (CHR ''/'') (concat (map (\<lambda>p. CHR ''/'' # p) ps))) = ps" using assms
  proof (induction ps)
    case (Cons p ps)
    show ?case
    proof (cases ps)
      case Nil
      then show ?thesis using Cons.prems by (simp add: split_on_none)
    next
      case (Cons q qs)
      then show ?thesis using Cons.IH Cons.prems split_on_append [of "CHR ''/''" p "q @ concat (map (\<lambda>p. CHR ''/'' # p) qs)"] by simp
    qed
  qed simp
  then show ?thesis by (simp add: insp_split_pieces)
qed

subsection \<open>Dispatch\<close>

text \<open>The abstract state: the callback of each module and command.\<close>

datatype insp_op = I_add string string "callback option" string | I_remove string string

fun insp_run :: "insp_op \<Rightarrow> inspector \<Rightarrow> inspector" where
  "insp_run (I_add m c cb h) s = insp_add m c cb h s"
| "insp_run (I_remove m c) s = insp_remove m c s"

fun table_run :: "insp_op \<Rightarrow> (string \<times> string \<Rightarrow> (callback option \<times> string) option) \<Rightarrow> (string \<times> string \<Rightarrow> (callback option \<times> string) option)" where
  "table_run (I_add m c cb h) t = t((m, c) \<mapsto> (cb, h))"
| "table_run (I_remove m c) t = t((m, c) := None)"

definition insp_lookup :: "inspector \<Rightarrow> string \<Rightarrow> string \<Rightarrow> callback option option" where
  "insp_lookup s m c = map_of (map_sub (ins_modules s) m) c"

definition insp_help :: "inspector \<Rightarrow> string \<Rightarrow> string \<Rightarrow> string option" where
  "insp_help s m c = map_of (map_sub (ins_helps s) m) c"

lemma map_of_erase [simp]: "map_of (map_erase k xs) = (map_of xs)(k := None)"
  by (induction xs) (auto simp: map_erase_def)

lemma map_sub_put: "map_sub (map_put k v xs) k' = (if k' = k then v else map_sub xs k')"
  by (simp add: map_sub_def)

lemma insp_run_table:
  assumes "\<forall>m c. map_option fst (t (m, c)) = insp_lookup s m c" "\<forall>m c. map_option snd (t (m, c)) = insp_help s m c"
  shows "map_option fst (table_run p t (m, c)) = insp_lookup (insp_run p s) m c"
    "map_option snd (table_run p t (m, c)) = insp_help (insp_run p s) m c"
proof -
  have "map_option fst (table_run p t (m, c)) = insp_lookup (insp_run p s) m c
      \<and> map_option snd (table_run p t (m, c)) = insp_help (insp_run p s) m c"
  proof (cases p)
    case (I_add m' c' cb h)
    then show ?thesis using assms by (simp add: insp_lookup_def insp_help_def insp_add_def map_sub_put)
  next
    case (I_remove m' c')
    show ?thesis
    proof (cases "map_of (ins_modules s) m'")
      case None
      then have "insp_lookup s m' c' = None" by (simp add: insp_lookup_def map_sub_def)
      then have "t (m', c') = None" using assms(1) by (metis option.map_disc_iff)
      moreover have "insp_help s m' c' = None" using assms(2) \<open>t (m', c') = None\<close> by (metis option.map_disc_iff)
      ultimately show ?thesis using None I_remove assms \<open>insp_lookup s m' c' = None\<close> by (simp add: insp_remove_def)
    next
      case (Some l)
      then have "l = map_sub (ins_modules s) m'" by (simp add: map_sub_def)
      with Some I_remove assms show ?thesis by (simp add: insp_lookup_def insp_help_def insp_remove_def map_sub_put)
    qed
  qed
  then show "map_option fst (table_run p t (m, c)) = insp_lookup (insp_run p s) m c"
    "map_option snd (table_run p t (m, c)) = insp_help (insp_run p s) m c" by simp_all
qed

lemma insp_runs_table:
  "map_option fst (fold table_run ps (\<lambda>_. None) (m, c)) = insp_lookup (fold insp_run ps \<lparr>ins_modules = [], ins_helps = []\<rparr>) m c \<and>
   map_option snd (fold table_run ps (\<lambda>_. None) (m, c)) = insp_help (fold insp_run ps \<lparr>ins_modules = [], ins_helps = []\<rparr>) m c"
proof (induction ps arbitrary: m c rule: rev_induct)
  case Nil
  show ?case by (simp add: insp_lookup_def insp_help_def map_sub_def)
next
  case (snoc p ps)
  then show ?case using insp_run_table [of "fold table_run ps (\<lambda>_. None)" "fold insp_run ps \<lparr>ins_modules = [], ins_helps = []\<rparr>" p m c] by simp
qed

lemma insp_onRequest_lookup:
  assumes "path req \<noteq> ''/''"
  shows "insp_onRequest favicon s req resp =
    (case insp_split (path req) of
       [] \<Rightarrow> not_found resp
     | [x] \<Rightarrow> if x = ''favicon.ico'' then ok_text ''image/png'' favicon resp else not_found resp
     | m # c # args \<Rightarrow> (case insp_lookup s m c of
          Some (Some cb) \<Rightarrow> ok_text ''text/plain'' (cb (req_method req) args) resp
        | _ \<Rightarrow> not_found resp))"
proof -
  consider "insp_split (path req) = []" | x where "insp_split (path req) = [x]" | m c args where "insp_split (path req) = m # c # args"
    by (cases "insp_split (path req)" rule: remdups_adj.cases) auto
  then show ?thesis
  proof cases
    case 3
    have "drop 2 (m # c # args) = args" by simp
    with 3 show ?thesis using assms
      by (cases "map_of (ins_modules s) m") (simp_all add: insp_onRequest_def Let_def insp_lookup_def map_sub_def split: option.split)
  qed (simp_all add: insp_onRequest_def assms Let_def)
qed

text \<open>The help page: the maps are sorted by their keys, so the lines come in the order of modules and commands.\<close>

definition flat :: "(string \<times> (string \<times> 'v) list) list \<Rightarrow> ((string \<times> string) \<times> 'v) list" where
  "flat xs = concat (map (\<lambda>(m, hl). map (\<lambda>(c, h). ((m, c), h)) hl) xs)"

definition sorted_maps :: "(string \<times> (string \<times> 'v) list) list \<Rightarrow> bool" where
  "sorted_maps xs \<longleftrightarrow> sorted_wrt (<) (map fst xs) \<and> (\<forall>hl \<in> snd ` set xs. sorted_wrt (<) (map fst hl))"

lemma map_put_set: "set (map_put k v xs) \<subseteq> insert (k, v) (set xs)"
  by (induction k v xs rule: map_put.induct) auto

lemma sorted_maps_put: "sorted_maps xs \<Longrightarrow> sorted_wrt (<) (map fst v) \<Longrightarrow> sorted_maps (map_put k v xs)"
  using map_put_set [of k v xs] map_put_sorted [of xs k v] unfolding sorted_maps_def by fastforce

lemma sorted_maps_sub: "sorted_maps xs \<Longrightarrow> sorted_wrt (<) (map fst (map_sub xs k))"
  using map_of_SomeD [of xs k] by (fastforce simp: sorted_maps_def map_sub_def split: option.splits)

lemma sorted_erase: "sorted_wrt (<) (map fst xs) \<Longrightarrow> sorted_wrt (<) (map fst (map_erase k xs))"
  by (induction xs) (auto simp: map_erase_def)

lemma insp_runs_sorted: "sorted_maps (ins_helps (fold insp_run ps \<lparr>ins_modules = [], ins_helps = []\<rparr>))"
proof (induction ps rule: rev_induct)
  case Nil
  show ?case by (simp add: sorted_maps_def)
next
  case (snoc p ps)
  then show ?case
    by (cases p) (auto simp: insp_add_def insp_remove_def sorted_maps_put sorted_maps_sub map_put_sorted sorted_erase split: option.splits)
qed

lemma flat_sorted: "sorted_maps xs \<Longrightarrow> sorted_wrt (<) (map fst (flat xs))"
proof (induction xs)
  case (Cons x xs)
  obtain m hl where x: "x = (m, hl)" by fastforce
  have hl: "sorted_wrt (<) (map fst hl)" and ih: "sorted_wrt (<) (map fst (flat xs))" and lt: "\<forall>y \<in> set xs. m < fst y"
    using Cons by (auto simp: sorted_maps_def x)
  have e: "map fst (flat (x # xs)) = map (Pair m) (map fst hl) @ map fst (flat xs)" by (simp add: flat_def x case_prod_unfold)
  have "sorted_wrt (<) (map (Pair m) cs)" if "sorted_wrt (<) cs" for cs
    using that by (induction cs) (auto simp: less_prod_def)
  moreover have "a < b" if "a \<in> set (map (Pair m) (map fst hl))" "b \<in> set (map fst (flat xs))" for a b
  proof -
    have "fst a = m" "m < fst b" using that lt by (fastforce simp: flat_def)+
    then show ?thesis by (simp add: less_prod_def)
  qed
  ultimately show ?case unfolding e sorted_wrt_append using hl ih by blast
qed (simp add: flat_def)

lemma map_of_flat: "sorted_maps xs \<Longrightarrow> map_of (flat xs) (m, c) = map_of (map_sub xs m) c"
proof (induction xs)
  case (Cons x xs)
  obtain k hl where x: "x = (k, hl)" by fastforce
  have s: "sorted_maps xs" "k \<notin> fst ` set xs" using Cons.prems by (auto simp: sorted_maps_def x)
  have a: "map_of (map (\<lambda>(c, h). ((k, c), h)) hl) (m, c) = (if m = k then map_of hl c else None)"
    by (induction hl) auto
  have "map_of xs k = None" using s(2) by (simp add: map_of_eq_None_iff)
  then have "map_of (map_sub xs k) c = None" by (simp add: map_sub_def)
  with Cons.IH [OF s(1)] a show ?case
    by (auto simp: flat_def x map_sub_def map_add_def split: option.splits)
qed (simp add: flat_def map_sub_def)

lemma page_flat:
  "concat (map (\<lambda>(m, hl). concat (map (help_line m) hl)) xs) = concat (map (\<lambda>((m, c), h). help_line m (c, h)) (flat xs))"
  by (induction xs) (auto simp: flat_def comp_def case_prod_unfold)

text \<open>A line as it is read: the command, filled up to 27 columns with at least one blank, and its help.\<close>

definition help_text :: "string \<Rightarrow> string \<Rightarrow> string \<Rightarrow> string" where
  "help_text m c h = (let cmd = ''/'' @ m @ ''/'' @ c in cmd @ replicate (max 1 (27 - length cmd)) (CHR '' '') @ h @ [CHR 0x0A])"

lemma help_line_text: "help_line m (c, h) = help_text m c h"
  by (auto simp: help_line_def help_text_def Let_def max_def)

lemma insp_page:
  assumes "\<And>m c. map_option snd (t (m, c)) = insp_help s m c" "sorted_maps (ins_helps s)"
  shows "concat (map (\<lambda>(m, hl). concat (map (help_line m) hl)) (ins_helps s))
    = concat (map (\<lambda>(m, c). help_text m c (snd (the (t (m, c))))) (sorted_list_of_set (dom t)))"
proof -
  let ?f = "flat (ins_helps s)"
  have f: "map_of ?f (m, c) = map_option snd (t (m, c))" for m c
    using assms(1) map_of_flat [OF assms(2)] by (simp add: insp_help_def)
  have st: "sorted_wrt (<) (map fst ?f)" by (rule flat_sorted [OF assms(2)])
  have "set (map fst ?f) = dom (map_of ?f)" by (simp add: dom_map_of_conv_image_fst)
  also have "\<dots> = dom t" using f by (auto simp: dom_def)
  finally have keys: "sorted_list_of_set (dom t) = map fst ?f"
    using st by (metis sorted_list_of_set.idem_if_sorted_distinct strict_sorted_iff)
  have "distinct (map fst ?f)" using st strict_sorted_iff by blast
  then have "((m, c), h) \<in> set ?f \<Longrightarrow> snd (the (t (m, c))) = h" for m c h
    using map_of_eq_Some_iff [of ?f "(m, c)" h] f [of m c] by auto
  then show ?thesis
    unfolding page_flat keys by (auto simp: help_line_text intro!: arg_cong [where f = concat])
qed

text \<open>C34: After any sequence of \<open>add\<close> and \<open>remove\<close>: a request for a path of a module, a command and arguments is answered with the
  text the callback last added for them gives for the method and exactly these arguments; when none was added, or it was
  removed, or it is empty, the answer is 404. The path \<open>/\<close> is answered with the help page: one line for each command present and
  for no other, in the order of the modules and commands, with the help last added for it. \<open>/favicon.ico\<close> gives the icon, every
  other path of a single piece, or of none, 404.\<close>

theorem inspector_dispatch:
  fixes favicon :: string and ps :: "insp_op list"
  assumes "\<forall>p \<in> set (m # c # args). p \<noteq> [] \<and> CHR ''/'' \<notin> set p"
    and "path req = concat (map (\<lambda>p. CHR ''/'' # p) (m # c # args))"
  defines "answer \<equiv> insp_onRequest favicon (fold insp_run ps \<lparr>ins_modules = [], ins_helps = []\<rparr>)"
    and "t \<equiv> fold table_run ps (\<lambda>_. None)"
  shows "answer req resp =
      (case t (m, c) of Some (Some cb, _) \<Rightarrow> ok_text ''text/plain'' (cb (req_method req) args) resp | _ \<Rightarrow> not_found resp)
    \<and> (\<forall>r. path r = ''/'' \<longrightarrow> answer r resp = ok_text ''text/plain''
          (concat (map (\<lambda>(m, c). help_text m c (snd (the (t (m, c))))) (sorted_list_of_set (dom t)))) resp)
    \<and> (\<forall>r x. path r = CHR ''/'' # x \<longrightarrow> x \<noteq> [] \<longrightarrow> CHR ''/'' \<notin> set x \<longrightarrow>
          answer r resp = (if x = ''favicon.ico'' then ok_text ''image/png'' favicon resp else not_found resp))
    \<and> (\<forall>kind x. statusCode (ok_text kind x resp) = k200Ok \<and> body (ok_text kind x resp) = x
          \<and> statusCode (not_found resp) = k404NotFound)"
proof -
  let ?s = "fold insp_run ps \<lparr>ins_modules = [], ins_helps = []\<rparr>"
  have p: "insp_split (path req) = m # c # args" using insp_split_join [OF assms(1)] assms(2) by simp
  have "path req \<noteq> ''/''" using assms(1,2) by simp
  note q = insp_onRequest_lookup [OF this, of favicon ?s resp]
  have l: "insp_lookup ?s m c = map_option fst (t (m, c))" using insp_runs_table [of ps m c] by (simp add: t_def)
  have "answer req resp =
      (case t (m, c) of Some (Some cb, _) \<Rightarrow> ok_text ''text/plain'' (cb (req_method req) args) resp | _ \<Rightarrow> not_found resp)"
    unfolding answer_def using q p l by (cases "t (m, c)") (auto split: option.splits)
  moreover have "answer r resp = ok_text ''text/plain''
      (concat (map (\<lambda>(m, c). help_text m c (snd (the (t (m, c))))) (sorted_list_of_set (dom t)))) resp" if "path r = ''/''" for r
    using insp_page [OF _ insp_runs_sorted, of t ps] insp_runs_table [of ps] that by (simp add: answer_def t_def insp_onRequest_def)
  moreover have "answer r resp = (if x = ''favicon.ico'' then ok_text ''image/png'' favicon resp else not_found resp)"
    if "path r = CHR ''/'' # x" "x \<noteq> []" "CHR ''/'' \<notin> set x" for r x
    using insp_split_join [of "[x]"] insp_onRequest_lookup [of r favicon ?s resp] that by (simp add: answer_def)
  moreover have "statusCode (ok_text kind x resp) = k200Ok \<and> body (ok_text kind x resp) = x \<and> statusCode (not_found resp) = k404NotFound"
    for kind x
    by (simp add: ok_text_def not_found_def setBody_def setContentType_def setStatusMessage_def setStatusCode_def resp_addHeader_def)
  ultimately show ?thesis by blast
qed

theorem inspector_dispatch_witness:
  "body (insp_onRequest [] (fold insp_run [I_add ''a'' ''b'' (Some (\<lambda>_ xs. concat xs)) ''h'', I_add ''a'' ''c'' None ''n'', I_remove ''a'' ''c'']
      \<lparr>ins_modules = [], ins_helps = []\<rparr>) (mk_http_request\<lparr>path := ''/a/b/x/yz''\<rparr>) (mk_http_response False)) = ''xyz''"
  using inspector_dispatch [where m = "''a''" and c = "''b''" and args = "[''x'', ''yz'']" and req = "mk_http_request\<lparr>path := ''/a/b/x/yz''\<rparr>"
      and favicon = "[]" and resp = "mk_http_response False"
      and ps = "[I_add ''a'' ''b'' (Some (\<lambda>_ xs. concat xs)) ''h'', I_add ''a'' ''c'' None ''n'', I_remove ''a'' ''c'']"]
  by (simp add: ok_text_def setBody_def)

end
