(* ===== verification/Ex_Common.thy ===== *)
theory Ex_Common
  imports Net_Protobuf Net_Http
begin

section \<open>What the example programs share\<close>

text \<open>A packet is a fresh buffer with a payload, in front of which a header is put; a connection that is up takes all of it. A program with
  many connections keeps them in a store.\<close>

lemma prepend_header:
  assumes "wf_buffer b" "kCheapPrepend \<le> prependableBytes b" "length h \<le> 8"
  obtains b' where "prepend h b = Some b'" "wf_buffer b'" "content b' = h @ content b"
  using prepend_total [OF assms(1), of h] assms(2,3) by (auto simp: kCheapPrepend_def)

lemma append_room:
  assumes "wf_buffer b" "kCheapPrepend \<le> prependableBytes b"
  obtains b' where "append_buf d b = Some b'" "wf_buffer b'" "kCheapPrepend \<le> prependableBytes b'" "content b' = content b @ d"
  using append_contract [OF assms(1), of d] room_kept(3) [of d b] assms(2) by metis

lemma fresh_room [simp]: "kCheapPrepend \<le> prependableBytes (mk_buffer n)"
  by (simp add: mk_buffer_room)

text \<open>The state of a connection that is up and reachable, as the sending operations need it.\<close>

definition conn_up :: "(chid \<Rightarrow> fd) \<Rightarrow> chid \<Rightarrow> tcp_conn \<Rightarrow> bool" where
  "conn_up fds ch c \<longleftrightarrow> tcp_inv fds ch c \<and> conn_state c = kConnected"

definition sys_good :: "sys_write \<Rightarrow> bool" where
  "sys_good sys \<longleftrightarrow> write_ok sys \<and> (\<forall>d. sys d \<noteq> Inl EPIPE \<and> sys d \<noteq> Inl ECONNRESET)"

lemma send_up:
  assumes "conn_up fds ch c" "sys_good sys"
  obtains c' where "sendInLoop sys d c = Some c'" "conn_up fds ch c'" "accepted c' = accepted c @ d" "inputBuffer c' = inputBuffer c"
proof -
  have i: "tcp_inv fds ch c" "conn_state c = kConnected" "write_ok sys" using assms by (simp_all add: conn_up_def sys_good_def)
  obtain c' where c': "sendInLoop sys d c = Some c'" "accepted c' = accepted c @ d"
    using sendInLoop_effect [OF i(1) _ i(3), of d] i(2) assms(2) unfolding Let_def active_def sys_good_def by metis
  moreover have "conn_up fds ch c'" using sendInLoop_inv [OF i(1) _ i(3), of d] i(2) c'(1) by (auto simp: conn_up_def active_def)
  ultimately show thesis using that sendInLoop_keeps [OF c'(1)] by blast
qed

lemma send_buffer_up:
  assumes "conn_up fds ch c" "sys_good sys" "wf_buffer b"
  obtains c' where "send_buffer True sys b c = Some (c', retrieveAll b)" "conn_up fds ch c'"
    "accepted c' = accepted c @ content b" "inputBuffer c' = inputBuffer c"
proof -
  have cb: "bytes_between (peek b) (peek b + readableBytes b) b = content b"
    using content_peek_take [OF assms(3), of "readableBytes b"] length_content [OF assms(3)] by simp
  show thesis
    by (rule send_up [OF assms(1,2), of "content b"]) (use that assms(1) cb in \<open>simp add: send_buffer_def conn_up_def\<close>)
qed

lemma send_bytes_up:
  assumes "conn_up fds ch c" "sys_good sys"
  obtains c' where "send True sys d c = Some c'" "conn_up fds ch c'" "accepted c' = accepted c @ d" "inputBuffer c' = inputBuffer c"
  by (rule send_up [OF assms, of d]) (use that assms(1) in \<open>simp add: send_def conn_up_def\<close>)

lemma established_up: "\<exists>c. connectEstablished (mk_tcp_conn 5) = Some c \<and> conn_up (\<lambda>_. 5) 0 c \<and> accepted c = [] \<and> inputBuffer c = mk_buffer kInitialSize"
proof -
  have b: "\<exists>c. connectEstablished (mk_tcp_conn 5) = Some c \<and> inputBuffer c = mk_buffer kInitialSize"
    by (simp add: connectEstablished_def mk_tcp_conn_def setState_def chan_op_defs chan_events_def emit_def Let_def)
  obtain c where c: "connectEstablished (mk_tcp_conn 5) = Some c" "tcp_reach 5 c" "conn_state c = kConnected" "content (outputBuffer c) = []" "wire c = []"
    using establishedE by metis
  obtain i: "tcp_inv (\<lambda>_. 5) 0 c" using tcp_reach_inv [OF c(2)] by blast
  then have "accepted c = wire c @ content (outputBuffer c)" by (simp add: tcp_inv_def)
  then show ?thesis using b c i by (auto simp: conn_up_def)
qed

text \<open>A 32-bit length in front of the stream.\<close>

definition len32 :: "bytes \<Rightarrow> nat" where
  "len32 s = unat (networkToHost32 (load_mem (take 4 s)) :: 32 word)"

lemma len32_be32 [simp]: "0 \<le> n \<Longrightarrow> n < 2 ^ 32 \<Longrightarrow> len32 (be32 n @ s) = nat n" "0 \<le> n \<Longrightarrow> n < 2 ^ 32 \<Longrightarrow> len32 (be32 n) = nat n"
  by (simp_all add: len32_def be32_def unsigned_of_int take_bit_int_eq_self)

lemma len32_append: "4 \<le> length s \<Longrightarrow> len32 (s @ u) = len32 s"
  by (simp add: len32_def)

lemma peek_len32:
  assumes "wf_buffer b" "4 \<le> length (content b)"
  obtains w where "peekInt32 b = Some w" "unat w = len32 (content b)" "sint w = asInt32 (content b)"
  using assms content_peek_take [OF assms(1), of 4] length_content [OF assms(1)]
  by (auto simp: peekInt32_def len32_def asInt32_def intro: that)

end
