(* ===== verification/Ex_Chat.thy ===== *)
theory Ex_Chat
  imports Ex_Common
begin

section \<open>The chat programs: \<open>examples/asio/\<close>\<close>

text \<open>
  Messages with a length of 32 bits in front. The server hands every message of a client to all the clients. A connection has a number, the
  order of the pointers to it, and the connections are in a store; \<open>in_loop\<close> tells which of them belong to the calling thread's loop.
\<close>

subsection \<open>\<open>Codec\<close>\<close>

definition HEADER_LEN :: nat where [const_defs]: "HEADER_LEN = 4"
definition UINT16_MAX :: nat where [const_defs]: "UINT16_MAX = 65535"

definition chat_fill :: "bytes \<Rightarrow> buffer option" where
  "chat_fill message =
     do { buff \<leftarrow> append_buf message (mk_buffer kInitialSize);
          let len = (of_nat (length message) :: 32 word);
          prepend (mem_of (hostToNetwork32 len)) buff }"

definition chat_send :: "bool \<Rightarrow> sys_write \<Rightarrow> bytes \<Rightarrow> tcp_conn \<Rightarrow> tcp_conn option" where
  "chat_send in_loop sys message conn =
     do { buff \<leftarrow> chat_fill message; (conn, buff) \<leftarrow> send_buffer in_loop sys buff conn; Some conn }"

text \<open>One pass of the loop of \<open>onMessage\<close>; \<open>set\<close> tells whether \<open>messageCallback_\<close> is one. \<open>Failed\<close> is \<open>forceClose\<close>.\<close>

definition chat_body :: "bool \<Rightarrow> (bytes, unit) loop_body" where
  "chat_body cb b =
     (if readableBytes b \<ge> HEADER_LEN
      then do {
        w \<leftarrow> peekInt32 b;
        let len = unat w;
        if len > UINT16_MAX then Some (False, [Failed ()], b)
        else if readableBytes b \<ge> len + HEADER_LEN
        then do { b \<leftarrow> retrieve HEADER_LEN b;
                  let msg = bytes_between (peek b) (peek b + len) b;
                  b \<leftarrow> retrieve len b;
                  Some (True, if cb then [Deliver msg] else [], b) }
        else Some (False, [], b) }
      else Some (False, [], b))"

subsection \<open>\<open>ChatServer\<close>\<close>

record chat_server =
  connections :: "nat set"
  kMaxConnectionNum :: int
  kConnectionNum :: int

definition ChatServer :: "int \<Rightarrow> chat_server" where
  "ChatServer open_max = \<lparr>connections = {}, kMaxConnectionNum = open_max - 10, kConnectionNum = 0\<rparr>"

text \<open>Whether the connection is shut down, and the new state.\<close>

definition chat_onConnection :: "bool \<Rightarrow> nat \<Rightarrow> chat_server \<Rightarrow> bool \<times> chat_server" where
  "chat_onConnection up conn s =
     (if up
      then let s = s\<lparr>connections := insert conn (connections s)\<rparr>;
               s = s\<lparr>kConnectionNum := kConnectionNum s + 1\<rparr>
           in (kConnectionNum s > kMaxConnectionNum s, s)
      else let s = s\<lparr>connections := connections s - {conn}\<rparr>
           in (False, s\<lparr>kConnectionNum := kConnectionNum s - 1\<rparr>))"

text \<open>The loop over a set of connections, in their order.\<close>

fun chat_sends :: "(nat \<Rightarrow> bool) \<Rightarrow> (nat \<Rightarrow> sys_write) \<Rightarrow> bytes \<Rightarrow> nat list \<Rightarrow> (nat \<Rightarrow> tcp_conn) \<Rightarrow> (nat \<Rightarrow> tcp_conn) option" where
  "chat_sends in_loop sys message [] store = Some store"
| "chat_sends in_loop sys message (conn # cs) store =
     do { c \<leftarrow> chat_send (in_loop conn) (sys conn) message (store conn);
          chat_sends in_loop sys message cs (store(conn := c)) }"

definition chat_onStringMessage :: "(nat \<Rightarrow> bool) \<Rightarrow> (nat \<Rightarrow> sys_write) \<Rightarrow> bytes \<Rightarrow> chat_server \<Rightarrow> (nat \<Rightarrow> tcp_conn) \<Rightarrow> (nat \<Rightarrow> tcp_conn) option" where
  "chat_onStringMessage in_loop sys message s store =
     (let tempConnections = connections s in chat_sends in_loop sys message (sorted_list_of_set tempConnections) store)"

subsection \<open>\<open>ChatServerHp\<close>\<close>

text \<open>One set of connections per loop. A message is handed to every loop, at once to the one it came in on; the others run it as a functor.\<close>

record chat_hp =
  hp_loops :: "nat set"
  LocalConnection :: "nat \<Rightarrow> nat set"
  hp_functors :: "nat \<Rightarrow> bytes list"

definition hp_onThreadInit :: "nat \<Rightarrow> chat_hp \<Rightarrow> chat_hp" where
  "hp_onThreadInit loop s = s\<lparr>hp_loops := insert loop (hp_loops s)\<rparr>"

definition hp_onConnection :: "bool \<Rightarrow> nat \<Rightarrow> nat \<Rightarrow> chat_hp \<Rightarrow> chat_hp" where
  "hp_onConnection up loop conn s =
     (if up then s\<lparr>LocalConnection := (LocalConnection s)(loop := insert conn (LocalConnection s loop))\<rparr>
      else s\<lparr>LocalConnection := (LocalConnection s)(loop := LocalConnection s loop - {conn})\<rparr>)"

definition hp_onDistributeMessage :: "(nat \<Rightarrow> sys_write) \<Rightarrow> nat \<Rightarrow> bytes \<Rightarrow> chat_hp \<Rightarrow> (nat \<Rightarrow> tcp_conn) \<Rightarrow> (nat \<Rightarrow> tcp_conn) option" where
  "hp_onDistributeMessage sys loop message s store =
     chat_sends (\<lambda>_. True) sys message (sorted_list_of_set (LocalConnection s loop)) store"

definition hp_onStringMessage :: "(nat \<Rightarrow> sys_write) \<Rightarrow> nat \<Rightarrow> bytes \<Rightarrow> chat_hp \<Rightarrow> (nat \<Rightarrow> tcp_conn) \<Rightarrow> (chat_hp \<times> (nat \<Rightarrow> tcp_conn)) option" where
  "hp_onStringMessage sys here message s store =
     do { store \<leftarrow> (if here \<in> hp_loops s then hp_onDistributeMessage sys here message s store else Some store);
          Some (s\<lparr>hp_functors := (\<lambda>l. if l \<in> hp_loops s \<and> l \<noteq> here then hp_functors s l @ [message] else hp_functors s l)\<rparr>, store) }"

text \<open>A loop runs the functor at the head of its queue.\<close>

definition hp_run :: "(nat \<Rightarrow> sys_write) \<Rightarrow> nat \<Rightarrow> chat_hp \<Rightarrow> (nat \<Rightarrow> tcp_conn) \<Rightarrow> (chat_hp \<times> (nat \<Rightarrow> tcp_conn)) option" where
  "hp_run sys loop s store =
     (case hp_functors s loop of
        [] \<Rightarrow> Some (s, store)
      | m # ms \<Rightarrow> do { store \<leftarrow> hp_onDistributeMessage sys loop m s store; Some (s\<lparr>hp_functors := (hp_functors s)(loop := ms)\<rparr>, store) })"

subsection \<open>\<open>ChatClient\<close>\<close>

text \<open>The connection of a client, while there is one.\<close>

definition client_onConnection :: "bool \<Rightarrow> nat \<Rightarrow> nat option \<Rightarrow> nat option" where
  "client_onConnection up conn connection = (if up then Some conn else None)"

definition client_write :: "bool \<Rightarrow> sys_write \<Rightarrow> bytes \<Rightarrow> nat option \<Rightarrow> (nat \<Rightarrow> tcp_conn) \<Rightarrow> (nat \<Rightarrow> tcp_conn) option" where
  "client_write in_loop sys message connection store =
     (case connection of
        Some tempConn \<Rightarrow> do { c \<leftarrow> chat_send in_loop sys message (store tempConn); Some (store(tempConn := c)) }
      | None \<Rightarrow> Some store)"

text \<open>\<open>printf("%s")\<close> of the message stops at its first NUL.\<close>

definition client_onStringMessage :: "bytes \<Rightarrow> string" where
  "client_onStringMessage message = ''<<< '' @ takeWhile (\<lambda>c. c \<noteq> CHR 0x00) message @ [CHR 0x0A]"

subsection \<open>The codec and the stream\<close>

definition chat_frame :: "bytes \<Rightarrow> bytes" where "chat_frame m = be32 (int (length m)) @ m"

definition chat_sendable :: "bytes \<Rightarrow> bool" where "chat_sendable m \<longleftrightarrow> length m \<le> UINT16_MAX"

definition chat_scan :: "bool \<Rightarrow> bytes \<Rightarrow> (bytes, unit) scan_result" where
  "chat_scan cb s =
     (if length s < 4 then More
      else if len32 s > UINT16_MAX then Bad ()
      else if length s < len32 s + 4 then More
      else Frame (if cb then [take (len32 s) (drop 4 s)] else []) (len32 s + 4))"

lemma chat_fill_frame: "\<exists>b. chat_fill m = Some b \<and> wf_buffer b \<and> content b = chat_frame m"
proof -
  obtain b1 where b1: "append_buf m (mk_buffer kInitialSize) = Some b1" "wf_buffer b1" "kCheapPrepend \<le> prependableBytes b1" "content b1 = m"
    using append_room [of "mk_buffer kInitialSize" m] by (auto simp: mk_buffer_geometry)
  obtain b2 where "prepend (be32 (int (length m))) b1 = Some b2" "wf_buffer b2" "content b2 = chat_frame m"
    using prepend_header [OF b1(2,3), of "be32 (int (length m))"] b1(4) by (auto simp: chat_frame_def)
  then show ?thesis using b1(1) by (auto simp: chat_fill_def be32_def)
qed

interpretation chat_rx: scanner "chat_scan cb" for cb
proof
  fix s u ms n e
  show "chat_scan cb s = Frame ms n \<Longrightarrow> 0 < n \<and> n \<le> length s" by (auto simp: chat_scan_def split: if_splits)
  show "chat_scan cb s = Frame ms n \<Longrightarrow> chat_scan cb (s @ u) = Frame ms n"
    by (auto simp: chat_scan_def len32_append split: if_splits)
  show "chat_scan cb s = Bad e \<Longrightarrow> chat_scan cb (s @ u) = Bad e"
    by (auto simp: chat_scan_def len32_append split: if_splits)
qed

interpretation chat: framing "chat_scan True" chat_frame chat_sendable
proof
  fix m u
  assume "chat_sendable m"
  then have l: "length m \<le> 65535" by (simp add: chat_sendable_def const_defs)
  then have "len32 (chat_frame m @ u) = length m" by (simp add: chat_frame_def)
  then show "chat_scan True (chat_frame m @ u) = Frame [m] (length (chat_frame m))"
    using l by (simp add: chat_scan_def const_defs) (simp add: chat_frame_def)
qed (simp add: chat_scan_def)

lemma chat_body_scans: "body_scans (chat_body cb) (chat_scan cb)"
  unfolding body_scans_def
proof (intro allI impI)
  fix b assume w: "wf_buffer b"
  let ?s = "content b"
  have r: "readableBytes b = length ?s" using length_content [OF w] by simp
  show "case chat_scan cb ?s of More \<Rightarrow> chat_body cb b = Some (False, [], b)
      | Frame ms n \<Rightarrow> \<exists>b'. chat_body cb b = Some (True, map Deliver ms, b') \<and> wf_buffer b' \<and> content b' = drop n ?s
      | Bad e \<Rightarrow> chat_body cb b = Some (False, [Failed e], b)"
  proof (cases "length ?s < 4")
    case True
    then show ?thesis using r by (simp add: chat_scan_def chat_body_def const_defs)
  next
    case False
    then obtain v where v: "peekInt32 b = Some v" "unat v = len32 ?s" using peek_len32 [OF w] by (metis not_less)
    show ?thesis
    proof (cases "len32 ?s \<le> UINT16_MAX \<and> len32 ?s + 4 \<le> length ?s")
      case True
      obtain b1 where b1: "retrieve 4 b = Some b1" "wf_buffer b1" "content b1 = drop 4 ?s"
        using retrieve_front [OF w append_take_drop_id [symmetric], of 4 4] False by (metis length_take min_absorb2 not_less)
      have l: "len32 ?s \<le> length (content b1)" using True False b1(3) by (simp add: le_diff_conv2)
      obtain b2 where b2: "retrieve (len32 ?s) b1 = Some b2" "wf_buffer b2" "content b2 = drop (len32 ?s) (content b1)"
        using retrieve_front [OF b1(2) append_take_drop_id [symmetric], of "len32 ?s" "len32 ?s"] l by (metis length_take min_absorb2)
      have m: "bytes_between (peek b1) (peek b1 + len32 ?s) b1 = take (len32 ?s) (drop 4 ?s)"
        using content_peek_take [OF b1(2), of "len32 ?s"] l length_content [OF b1(2)] b1(3) by simp
      have "chat_body cb b = Some (True, if cb then [Deliver (take (len32 ?s) (drop 4 ?s))] else [], b2)"
        using False True r v b1(1) b2(1) m by (simp add: chat_body_def const_defs Let_def)
      moreover have "chat_scan cb ?s = Frame (if cb then [take (len32 ?s) (drop 4 ?s)] else []) (len32 ?s + 4)"
        using False True by (simp add: chat_scan_def)
      ultimately show ?thesis using b2 b1(3) by (auto simp: add.commute)
    next
      case bad: False
      then consider "UINT16_MAX < len32 ?s" | "len32 ?s \<le> UINT16_MAX" "length ?s < len32 ?s + 4" by linarith
      then show ?thesis
      proof cases
        case 1
        then show ?thesis using False r v by (simp add: chat_scan_def chat_body_def HEADER_LEN_def)
      next
        case 2
        then show ?thesis using False r v by (simp add: chat_scan_def chat_body_def HEADER_LEN_def)
      qed
    qed
  qed
qed

subsection \<open>From client to client\<close>

fun chat_writes :: "sys_write \<Rightarrow> bytes list \<Rightarrow> tcp_conn \<Rightarrow> tcp_conn option" where
  "chat_writes sys [] c = Some c"
| "chat_writes sys (m # ms) c = do { c \<leftarrow> chat_send True sys m c; chat_writes sys ms c }"

fun chat_relays :: "(nat \<Rightarrow> sys_write) \<Rightarrow> bytes list \<Rightarrow> chat_server \<Rightarrow> (nat \<Rightarrow> tcp_conn) \<Rightarrow> (nat \<Rightarrow> tcp_conn) option" where
  "chat_relays sys [] s store = Some store"
| "chat_relays sys (m # ms) s store = do { store \<leftarrow> chat_onStringMessage (\<lambda>_. True) sys m s store; chat_relays sys ms s store }"

definition frames :: "bytes list \<Rightarrow> bytes" where "frames ms = concat (map chat_frame ms)"

lemma chat_send_up:
  assumes "conn_up fds ch c" "sys_good sys"
  obtains c' where "chat_send True sys m c = Some c'" "conn_up fds ch c'" "accepted c' = accepted c @ chat_frame m"
proof -
  obtain b where b: "chat_fill m = Some b" "wf_buffer b" "content b = chat_frame m" using chat_fill_frame by blast
  obtain c' where "send_buffer True sys b c = Some (c', retrieveAll b)" "conn_up fds ch c'" "accepted c' = accepted c @ chat_frame m"
    using send_buffer_up [OF assms b(2)] b(3) by metis
  then show thesis using b(1) that by (simp add: chat_send_def)
qed

lemma chat_writes_up:
  assumes "sys_good sys"
  shows "conn_up fds ch c \<Longrightarrow> \<exists>c'. chat_writes sys ms c = Some c' \<and> conn_up fds ch c' \<and> accepted c' = accepted c @ frames ms"
proof (induction ms arbitrary: c)
  case (Cons m ms)
  obtain c1 where c1: "chat_send True sys m c = Some c1" "conn_up fds ch c1" "accepted c1 = accepted c @ chat_frame m"
    using chat_send_up [OF Cons.prems assms] .
  with Cons.IH [OF c1(2)] show ?case by (auto simp: frames_def)
qed (simp add: frames_def)

definition store_up :: "nat set \<Rightarrow> (nat \<Rightarrow> tcp_conn) \<Rightarrow> bool" where
  "store_up C store \<longleftrightarrow> (\<forall>c \<in> C. \<exists>fds. conn_up fds c (store c))"

lemma chat_sends_up:
  assumes "\<forall>c \<in> C. sys_good (sys c)"
  shows "distinct cs \<Longrightarrow> set cs \<subseteq> C \<Longrightarrow> store_up C store \<Longrightarrow>
    \<exists>store'. chat_sends (\<lambda>_. True) sys m cs store = Some store' \<and> store_up C store' \<and>
      (\<forall>c \<in> set cs. accepted (store' c) = accepted (store c) @ chat_frame m) \<and> (\<forall>c. c \<notin> set cs \<longrightarrow> store' c = store c)"
proof (induction cs arbitrary: store)
  case (Cons c cs)
  then obtain fds where "conn_up fds c (store c)" by (auto simp: store_up_def)
  then obtain c1 where c1: "chat_send True (sys c) m (store c) = Some c1" "conn_up fds c c1" "accepted c1 = accepted (store c) @ chat_frame m"
    using chat_send_up assms Cons.prems(2) by (metis list.set_intros(1) subsetD)
  have "store_up C (store(c := c1))" using Cons.prems(3) c1(2) by (auto simp: store_up_def)
  moreover have "distinct cs" "set cs \<subseteq> C" using Cons.prems(1,2) by simp_all
  ultimately obtain store' where s: "chat_sends (\<lambda>_. True) sys m cs (store(c := c1)) = Some store'" "store_up C store'"
    "\<forall>d \<in> set cs. accepted (store' d) = accepted ((store(c := c1)) d) @ chat_frame m" "\<forall>d. d \<notin> set cs \<longrightarrow> store' d = (store(c := c1)) d"
    using Cons.IH by blast
  then show ?case using c1 Cons.prems(1) by (intro exI [of _ store']) auto
qed simp

lemma chat_relays_up:
  assumes "\<forall>c \<in> connections s. sys_good (sys c)" "finite (connections s)"
  shows "store_up (connections s) store \<Longrightarrow>
    \<exists>store'. chat_relays sys ms s store = Some store' \<and> store_up (connections s) store' \<and>
      (\<forall>c \<in> connections s. accepted (store' c) = accepted (store c) @ frames ms) \<and> (\<forall>c. c \<notin> connections s \<longrightarrow> store' c = store c)"
proof (induction ms arbitrary: store)
  case (Cons m ms)
  obtain s1 where s1: "chat_onStringMessage (\<lambda>_. True) sys m s store = Some s1" "store_up (connections s) s1"
    "\<forall>c \<in> connections s. accepted (s1 c) = accepted (store c) @ chat_frame m" "\<forall>c. c \<notin> connections s \<longrightarrow> s1 c = store c"
    using chat_sends_up [OF assms(1), of "sorted_list_of_set (connections s)" store m] Cons.prems assms(2)
    by (auto simp: chat_onStringMessage_def Let_def)
  from Cons.IH [OF s1(2)] s1 show ?case by (auto simp: frames_def)
qed (simp add: frames_def)

lemma chat_receive:
  assumes "\<forall>m \<in> set ms. chat_sendable m" "concat ds = frames ms"
  shows "\<exists>b. feed (chat_body True) ds [] (mk_buffer n) = Some (map Deliver ms, b) \<and> content b = []"
proof -
  have "decode (chat_scan True) (content (mk_buffer n) @ concat ds) = (ms, [], None)"
    using chat.decode_frames [OF assms(1)] assms(2) by (simp add: mk_buffer_geometry frames_def)
  moreover have "decode (chat_scan True) (content (mk_buffer n)) = ([], content (mk_buffer n), None)"
    by (simp add: chat_rx.decode_step chat_scan_def mk_buffer_geometry)
  ultimately show ?thesis
    using chat.feed_frames [OF body_scans_reads [OF chat_body_scans] assms(1) wf_mk_buffer, of n ds "[]"] by auto
qed

text \<open>C35: The whole way of chat messages of at most 65535 bytes (a longer one is sent as well, but makes the receiver close the
  connection: lemma \<open>chat_too_long\<close>): a client on a connection that is up writes them; in whatever segments
  these bytes reach the server, it gets exactly these messages, hands each of them to every one of its connections and to no other, and in whatever
  segments the bytes of one of these reach a client, it gets exactly the messages, in order.\<close>

theorem chat_relay:
  assumes "conn_up fds ch c0" "sys_good sys0" "\<forall>m \<in> set ms. chat_sendable m"
    and "finite (connections s)" "\<forall>c \<in> connections s. sys_good (sys c)" "store_up (connections s) store"
  shows "\<exists>c1 store'. chat_writes sys0 ms c0 = Some c1 \<and> chat_relays sys ms s store = Some store' \<and>
    (\<exists>sent. accepted c1 = accepted c0 @ sent \<and>
      (\<forall>ds n. concat ds = sent \<longrightarrow> (\<exists>b. feed (chat_body True) ds [] (mk_buffer n) = Some (map Deliver ms, b) \<and> content b = []))) \<and>
    (\<forall>c \<in> connections s. \<exists>sent. accepted (store' c) = accepted (store c) @ sent \<and>
      (\<forall>ds n. concat ds = sent \<longrightarrow> (\<exists>b. feed (chat_body True) ds [] (mk_buffer n) = Some (map Deliver ms, b) \<and> content b = []))) \<and>
    (\<forall>c. c \<notin> connections s \<longrightarrow> store' c = store c)"
proof -
  obtain c1 where c1: "chat_writes sys0 ms c0 = Some c1" "accepted c1 = accepted c0 @ frames ms"
    using chat_writes_up [OF assms(2,1)] by blast
  obtain store' where st: "chat_relays sys ms s store = Some store'"
    "\<forall>c \<in> connections s. accepted (store' c) = accepted (store c) @ frames ms" "\<forall>c. c \<notin> connections s \<longrightarrow> store' c = store c"
    using chat_relays_up [OF assms(5,4,6)] by blast
  note r = chat_receive [OF assms(3)]
  show ?thesis
    by (intro exI [of _ c1] exI [of _ store'] conjI c1(1) st(1,3) exI [of _ "frames ms"] ballI)
      (use c1(2) st(2) r in auto)
qed

theorem chat_relay_witness:
  "\<exists>c0 c1 store'. connectEstablished (mk_tcp_conn 5) = Some c0 \<and> chat_writes (\<lambda>d. Inr (length d)) [''hi'', ''''] c0 = Some c1 \<and>
     chat_relays (\<lambda>_ d. Inr (length d)) [''hi'', ''''] \<lparr>connections = {0}, kMaxConnectionNum = 9, kConnectionNum = 1\<rparr> (\<lambda>_. c0) = Some store' \<and>
     (\<exists>b. feed (chat_body True) [drop (length (accepted c0)) (accepted (store' 0))] [] (mk_buffer 7) = Some ([Deliver ''hi'', Deliver ''''], b))"
proof -
  obtain c0 where c0: "connectEstablished (mk_tcp_conn 5) = Some c0" "conn_up (\<lambda>_. 5) 0 c0" using established_up by blast
  have g: "sys_good (\<lambda>d. Inr (length d))" by (simp add: sys_good_def write_ok_def)
  let ?s = "\<lparr>connections = {0}, kMaxConnectionNum = 9, kConnectionNum = 1\<rparr>"
  have u: "store_up (connections ?s) (\<lambda>_. c0)" using c0(2) by (auto simp: store_up_def)
  have ok: "\<forall>m \<in> set [''hi'', '''']. chat_sendable m" by (simp add: chat_sendable_def const_defs)
  from chat_relay [OF c0(2) g ok _ _ u, of "\<lambda>_ d. Inr (length d)"] g obtain c1 store' sent where
    "chat_writes (\<lambda>d. Inr (length d)) [''hi'', ''''] c0 = Some c1"
    "chat_relays (\<lambda>_ d. Inr (length d)) [''hi'', ''''] ?s (\<lambda>_. c0) = Some store'"
    "accepted (store' 0) = accepted c0 @ sent"
    "\<forall>ds n. concat ds = sent \<longrightarrow> (\<exists>b. feed (chat_body True) ds [] (mk_buffer n) = Some (map Deliver [''hi'', ''''], b) \<and> content b = [])"
    by auto
  note f = this
  obtain b where "feed (chat_body True) [sent] [] (mk_buffer 7) = Some (map Deliver [''hi'', ''''], b)"
    using spec [OF spec [OF f(4), of "[sent]"], of 7] by fastforce
  then have b: "feed (chat_body True) [drop (length (accepted c0)) (accepted (store' 0))] [] (mk_buffer 7) = Some ([Deliver ''hi'', Deliver ''''], b)"
    unfolding f(3) by simp
  show ?thesis by (rule exI [of _ c0], rule exI [of _ c1], rule exI [of _ store']) (intro conjI c0(1) f(1,2) exI [of _ b] b)
qed

text \<open>A longer message is sent all the same, and makes the receiver close the connection.\<close>

lemma chat_too_long:
  assumes "UINT16_MAX < length m" "length m < 2 ^ 32"
  shows "\<exists>b. chat_fill m = Some b \<and> chat_body True b = Some (False, [Failed ()], b)"
proof -
  obtain b where b: "chat_fill m = Some b" "wf_buffer b" "content b = chat_frame m" using chat_fill_frame by blast
  have "chat_scan True (content b) = Bad ()" using assms by (simp add: b(3) chat_scan_def chat_frame_def)
  then show ?thesis using b chat_body_scans [of True, unfolded body_scans_def, rule_format, OF b(2)] by auto
qed

subsection \<open>The number of connections\<close>

text \<open>Connections coming up and going down; \<open>off\<close> are those the server has shut down and that are not down yet.\<close>

inductive chat_reach :: "int \<Rightarrow> chat_server \<Rightarrow> nat set \<Rightarrow> bool" for open_max where
  c_start: "chat_reach open_max (ChatServer open_max) {}"
| c_up: "chat_reach open_max s off \<Longrightarrow> conn \<notin> connections s \<Longrightarrow> chat_onConnection True conn s = (sh, s') \<Longrightarrow>
    chat_reach open_max s' (if sh then insert conn off else off)"
| c_down: "chat_reach open_max s off \<Longrightarrow> conn \<in> connections s \<Longrightarrow> chat_onConnection False conn s = (sh, s') \<Longrightarrow>
    chat_reach open_max s' (off - {conn})"

lemma chat_limit:
  assumes "chat_reach open_max s off"
  shows "finite (connections s) \<and> off \<subseteq> connections s \<and> kConnectionNum s = int (card (connections s)) \<and>
    int (card (connections s - off)) \<le> max 0 (open_max - 10)"
proof -
  have "kMaxConnectionNum s = open_max - 10 \<and> finite (connections s) \<and> off \<subseteq> connections s \<and> kConnectionNum s = int (card (connections s)) \<and>
    int (card (connections s - off)) \<le> max 0 (open_max - 10)" using assms
  proof (induction rule: chat_reach.induct)
    case c_start
    show ?case by (simp add: ChatServer_def)
  next
    case (c_up s off conn sh s')
    let ?n = "int (card (insert conn (connections s)))"
    have c: "?n = kConnectionNum s + 1" using c_up by simp
    have s': "connections s' = insert conn (connections s)" "kMaxConnectionNum s' = kMaxConnectionNum s" "kConnectionNum s' = ?n"
      "sh \<longleftrightarrow> ?n > open_max - 10" using c_up by (auto simp: chat_onConnection_def Let_def)
    show ?case
    proof (cases sh)
      case True
      then have "connections s' - insert conn off = connections s - off" using c_up.hyps(2) s'(1) by auto
      then show ?thesis using True c_up.IH s' by auto
    next
      case False
      have "card (connections s' - off) \<le> card (connections s')" using c_up.IH s'(1) by (intro card_mono) auto
      then show ?thesis using False c_up.IH s' by auto
    qed
  next
    case (c_down s off conn sh s')
    have s': "connections s' = connections s - {conn}" "kMaxConnectionNum s' = kMaxConnectionNum s" "kConnectionNum s' = kConnectionNum s - 1"
      using c_down by (auto simp: chat_onConnection_def Let_def)
    have "0 < card (connections s)" using c_down by (auto simp: card_gt_0_iff)
    then have "int (card (connections s - {conn})) = int (card (connections s)) - 1" using c_down by simp
    moreover have "card (connections s' - (off - {conn})) \<le> card (connections s - off)" using c_down s'(1) by (intro card_mono) auto
    ultimately show ?case using c_down.IH s' by auto
  qed
  then show ?thesis by blast
qed

subsection \<open>The two servers agree\<close>

fun hp_runs :: "(nat \<Rightarrow> sys_write) \<Rightarrow> nat list \<Rightarrow> chat_hp \<Rightarrow> (nat \<Rightarrow> tcp_conn) \<Rightarrow> (chat_hp \<times> (nat \<Rightarrow> tcp_conn)) option" where
  "hp_runs sys [] s store = Some (s, store)"
| "hp_runs sys (l # ls) s store = do { (s, store) \<leftarrow> hp_run sys l s store; hp_runs sys ls s store }"

definition hp_all :: "chat_hp \<Rightarrow> nat set" where "hp_all s = (\<Union>l \<in> hp_loops s. LocalConnection s l)"

definition hp_apart :: "chat_hp \<Rightarrow> bool" where
  "hp_apart s \<longleftrightarrow> finite (hp_loops s) \<and> (\<forall>l \<in> hp_loops s. finite (LocalConnection s l)) \<and>
     (\<forall>k \<in> hp_loops s. \<forall>l \<in> hp_loops s. k \<noteq> l \<longrightarrow> LocalConnection s k \<inter> LocalConnection s l = {})"

lemma hp_apartD: "hp_apart s \<Longrightarrow> k \<in> hp_loops s \<Longrightarrow> c \<in> LocalConnection s k \<Longrightarrow> l \<in> hp_loops s \<Longrightarrow> c \<in> LocalConnection s l \<Longrightarrow> l = k"
  unfolding hp_apart_def by blast

lemma hp_distribute_up:
  assumes "hp_apart s" "l \<in> hp_loops s" "\<forall>c \<in> hp_all s. sys_good (sys c)" "store_up (hp_all s) store"
  shows "\<exists>store'. hp_onDistributeMessage sys l m s store = Some store' \<and> store_up (hp_all s) store' \<and>
    (\<forall>c \<in> LocalConnection s l. accepted (store' c) = accepted (store c) @ chat_frame m) \<and> (\<forall>c. c \<notin> LocalConnection s l \<longrightarrow> store' c = store c)"
proof -
  have "finite (LocalConnection s l)" "LocalConnection s l \<subseteq> hp_all s" using assms(1,2) by (auto simp: hp_apart_def hp_all_def)
  then show ?thesis
    using chat_sends_up [OF assms(3), of "sorted_list_of_set (LocalConnection s l)" store m] assms(4) by (simp add: hp_onDistributeMessage_def)
qed

lemma hp_runs_up:
  "hp_apart s \<Longrightarrow> distinct ls \<Longrightarrow> set ls \<subseteq> hp_loops s \<Longrightarrow> \<forall>c \<in> hp_all s. sys_good (sys c) \<Longrightarrow> store_up (hp_all s) store \<Longrightarrow>
   hp_functors s = (\<lambda>l. if l \<in> set ls then [m] else []) \<Longrightarrow>
   \<exists>s' store'. hp_runs sys ls s store = Some (s', store') \<and> hp_functors s' = (\<lambda>_. []) \<and>
     (\<forall>c. accepted (store' c) = accepted (store c) @ (if c \<in> (\<Union>l \<in> set ls. LocalConnection s l) then chat_frame m else []))"
proof (induction ls arbitrary: s store)
  case (Cons l ls)
  note p = Cons.prems
  have l: "l \<in> hp_loops s" using p(3) by simp
  obtain st where st: "hp_onDistributeMessage sys l m s store = Some st" "store_up (hp_all s) st"
    "\<forall>c \<in> LocalConnection s l. accepted (st c) = accepted (store c) @ chat_frame m" "\<forall>c. c \<notin> LocalConnection s l \<longrightarrow> st c = store c"
    using hp_distribute_up [OF p(1) l p(4,5)] by blast
  let ?s = "s\<lparr>hp_functors := (hp_functors s)(l := [])\<rparr>"
  have r: "hp_run sys l s store = Some (?s, st)" using st(1) p(6) by (simp add: hp_run_def)
  have f: "hp_functors ?s = (\<lambda>k. if k \<in> set ls then [m] else [])" using p(2,6) by auto
  have a: "hp_apart ?s" "hp_all ?s = hp_all s" using p(1) by (simp_all add: hp_apart_def hp_all_def)
  obtain s' store' where s': "hp_runs sys ls ?s st = Some (s', store')" "hp_functors s' = (\<lambda>_. [])"
    "\<forall>c. accepted (store' c) = accepted (st c) @ (if c \<in> (\<Union>l \<in> set ls. LocalConnection s l) then chat_frame m else [])"
    using Cons.IH [of ?s st] a f p(2,3,4) st(2) by auto
  have "c \<notin> (\<Union>k \<in> set ls. LocalConnection s k)" if "c \<in> LocalConnection s l" for c
  proof
    assume "c \<in> (\<Union>k \<in> set ls. LocalConnection s k)"
    then obtain k where "k \<in> set ls" "c \<in> LocalConnection s k" by blast
    moreover from this have "k \<noteq> l" "k \<in> hp_loops s" using p(2,3) by auto
    ultimately show False using p(1) l that by (auto simp: hp_apart_def)
  qed
  then have "accepted (store' c) = accepted (store c) @ (if c \<in> (\<Union>l \<in> set (l # ls). LocalConnection s l) then chat_frame m else [])" for c
    using s'(3) st(3,4) by (cases "c \<in> LocalConnection s l") simp_all
  then show ?case using s'(1,2) r by auto
qed simp

text \<open>A message that reaches the server with one set of connections per loop is sent, once the loops have run their functors, in whatever
  order, exactly as the simple server sends it.\<close>

lemma chat_hp_agrees:
  assumes "hp_apart s" "here \<in> hp_loops s" "hp_functors s = (\<lambda>_. [])" "distinct ls" "set ls = hp_loops s - {here}"
    and "\<forall>c \<in> hp_all s. sys_good (sys c)" "store_up (hp_all s) store"
  shows "\<exists>s1 st1 s2 st2 store'. hp_onStringMessage sys here m s store = Some (s1, st1) \<and> hp_runs sys ls s1 st1 = Some (s2, st2) \<and>
    hp_functors s2 = (\<lambda>_. []) \<and> chat_onStringMessage (\<lambda>_. True) sys m \<lparr>connections = hp_all s, kMaxConnectionNum = k, kConnectionNum = n\<rparr> store = Some store' \<and>
    (\<forall>c. accepted (st2 c) = accepted (store' c))"
proof -
  let ?c = "\<lparr>connections = hp_all s, kMaxConnectionNum = k, kConnectionNum = n\<rparr>"
  have fin: "finite (hp_all s)" using assms(1) by (auto simp: hp_apart_def hp_all_def)
  obtain store' where st: "chat_onStringMessage (\<lambda>_. True) sys m ?c store = Some store'"
    "\<forall>c \<in> hp_all s. accepted (store' c) = accepted (store c) @ chat_frame m" "\<forall>c. c \<notin> hp_all s \<longrightarrow> store' c = store c"
    using chat_sends_up [OF assms(6), of "sorted_list_of_set (hp_all s)" store m] assms(7) fin by (auto simp: chat_onStringMessage_def Let_def)
  obtain st1 where st1: "hp_onDistributeMessage sys here m s store = Some st1" "store_up (hp_all s) st1"
    "\<forall>c \<in> LocalConnection s here. accepted (st1 c) = accepted (store c) @ chat_frame m" "\<forall>c. c \<notin> LocalConnection s here \<longrightarrow> st1 c = store c"
    using hp_distribute_up [OF assms(1,2,6,7)] by blast
  let ?s = "s\<lparr>hp_functors := (\<lambda>l. if l \<in> hp_loops s \<and> l \<noteq> here then hp_functors s l @ [m] else hp_functors s l)\<rparr>"
  have o: "hp_onStringMessage sys here m s store = Some (?s, st1)" using assms(2) st1(1) by (simp add: hp_onStringMessage_def)
  have f: "hp_functors ?s = (\<lambda>l. if l \<in> set ls then [m] else [])" by (rule ext) (simp add: fun_cong [OF assms(3)] assms(5))
  have a: "hp_apart ?s" "hp_all ?s = hp_all s" using assms(1) by (simp_all add: hp_apart_def hp_all_def)
  obtain s2 st2 where s2: "hp_runs sys ls ?s st1 = Some (s2, st2)" "hp_functors s2 = (\<lambda>_. [])"
    "\<forall>c. accepted (st2 c) = accepted (st1 c) @ (if c \<in> (\<Union>l \<in> set ls. LocalConnection s l) then chat_frame m else [])"
    using hp_runs_up [of ?s ls sys st1 m] a f assms(4,5,6) st1(2) by auto
  have "accepted (st2 c) = accepted (store' c)" for c
  proof (cases "c \<in> LocalConnection s here")
    case True
    then have "c \<notin> (\<Union>l \<in> set ls. LocalConnection s l)" using hp_apartD [OF assms(1,2) True] assms(5) by blast
    moreover have "c \<in> hp_all s" using True assms(2) by (auto simp: hp_all_def)
    ultimately show ?thesis using s2(3) st1(3) st(2) True by simp
  next
    case False
    then have "c \<in> (\<Union>l \<in> set ls. LocalConnection s l) \<longleftrightarrow> c \<in> hp_all s" using assms(5) by (auto simp: hp_all_def)
    then show ?thesis using s2(3) st1(4) st(2,3) False by simp
  qed
  then show ?thesis using o s2(1,2) st(1) by blast
qed

end
