(* ===== verification/Ex_Multiplexer.thy ===== *)
theory Ex_Multiplexer
  imports Ex_Common
begin

section \<open>The multiplexer: \<open>examples/multiplexer/\<close>\<close>

text \<open>
  The multiplexer carries the messages of many clients over one connection to a backend. A client gets an id from a queue; a packet
  is the length of its data, the id, a type and the data. The connections are numbers, looked up in a store; all of them belong to one loop, as the
  server is never given threads. The text of an address is an argument.
\<close>

definition MAX_CONNS :: nat where [const_defs]: "MAX_CONNS = 65535"
definition MAX_PACKET_LEN :: nat where [const_defs]: "MAX_PACKET_LEN = 512"
definition MUX_HEADER_LEN :: nat where [const_defs]: "MUX_HEADER_LEN = 8"

text \<open>\<open>ClientType\<close>, as the \<open>char\<close> it is sent as.\<close>

definition CONN :: char where "CONN = char_of (0::nat)"
definition DISCONN :: char where "DISCONN = char_of (1::nat)"
definition MSG :: char where "MSG = char_of (2::nat)"

record muxer =
  backendConnection :: "nat option"
  clientConnections :: "int \<Rightarrow> nat option"
  availIds :: "int list"
  context_of :: "nat \<Rightarrow> int option"
  conn_store :: "nat \<Rightarrow> tcp_conn"
  transferred :: "64 word"
  receivedMessage :: "64 word"
  oldCounter :: "64 word"
  quit_loop :: bool

definition Multiplexer :: "(nat \<Rightarrow> tcp_conn) \<Rightarrow> muxer" where
  "Multiplexer store = \<lparr>backendConnection = None, clientConnections = (\<lambda>_. None), availIds = [], context_of = (\<lambda>_. None),
     conn_store = store, transferred = 0, receivedMessage = 0, oldCounter = 0, quit_loop = False\<rparr>"

definition put_conn :: "nat \<Rightarrow> tcp_conn \<Rightarrow> muxer \<Rightarrow> muxer" where
  "put_conn c conn s = s\<lparr>conn_store := (conn_store s)(c := conn)\<rparr>"

type_synonym sys_writes = "nat \<Rightarrow> sys_write"

subsection \<open>To the backend\<close>

definition sendBackendPacket :: "sys_writes \<Rightarrow> int \<Rightarrow> buffer \<Rightarrow> muxer \<Rightarrow> muxer option" where
  "sendBackendPacket sys ident buff s =
     (let len = readableBytes buff in
      assert_then (len \<le> MAX_PACKET_LEN)
       (do { buff \<leftarrow> prepend (mem_of (hostToNetwork32 (word_of_int (int len) - 1)) @ mem_of (hostToNetwork32 (word_of_int ident))) buff;
             case backendConnection s of
               Some c \<Rightarrow> do { (conn, buff) \<leftarrow> send_buffer True (sys c) buff (conn_store s c); Some (put_conn c conn s) }
             | None \<Rightarrow> Some s }))"

definition sendBackendString :: "sys_writes \<Rightarrow> int \<Rightarrow> char \<Rightarrow> string \<Rightarrow> muxer \<Rightarrow> muxer option" where
  "sendBackendString sys ident type msg s =
     do { buf \<leftarrow> append_buf [type] (mk_buffer kInitialSize); buf \<leftarrow> append_buf msg buf; sendBackendPacket sys ident buf s }"

definition conn_text :: "int \<Rightarrow> string \<Rightarrow> string \<Rightarrow> string" where
  "conn_text ident peer state = take 255 (''CONN '' @ dec_int ident @ '' FROM '' @ peer @ state @ [CHR 0x0D, CHR 0x0A])"

definition onClientConnection :: "sys_writes \<Rightarrow> bool \<Rightarrow> nat \<Rightarrow> string \<Rightarrow> muxer \<Rightarrow> muxer option" where
  "onClientConnection sys up conn peer s =
     (if up
      then case availIds s of
             [] \<Rightarrow> Some (put_conn conn (shutdown True (conn_store s conn)) s)
           | ident # rest \<Rightarrow>
               let s = s\<lparr>availIds := rest, clientConnections := (clientConnections s)(ident \<mapsto> conn)\<rparr>;
                   s = s\<lparr>context_of := (context_of s)(conn \<mapsto> ident)\<rparr>
               in sendBackendString sys ident CONN (conn_text ident peer '' IS UP'') s
      else case context_of s conn of
             None \<Rightarrow> Some s
           | Some ident \<Rightarrow>
               assert_then (0 \<le> ident \<and> ident < int MAX_CONNS)
                (do { s \<leftarrow> sendBackendString sys ident DISCONN (conn_text ident peer '' is DOWN'') s;
                      Some (s\<lparr>availIds := availIds s @ [ident], clientConnections := (clientConnections s)(ident := None)\<rparr>) }))"

text \<open>The loop over the full packets of a client's buffer, then what is left.\<close>

partial_function (option) client_packets :: "sys_writes \<Rightarrow> int \<Rightarrow> buffer \<Rightarrow> muxer \<Rightarrow> (buffer \<times> muxer) option" where
  "client_packets sys ident buff s =
     (if readableBytes buff \<ge> MAX_PACKET_LEN
      then do { packet \<leftarrow> append_buf [MSG] (mk_buffer kInitialSize);
                packet \<leftarrow> append_buf (bytes_between (peek buff) (peek buff + MAX_PACKET_LEN) buff) packet;
                buff \<leftarrow> retrieve MAX_PACKET_LEN buff;
                s \<leftarrow> sendBackendPacket sys ident packet s;
                client_packets sys ident buff s }
      else Some (buff, s))"

definition last_packet :: "sys_writes \<Rightarrow> int \<Rightarrow> buffer \<Rightarrow> muxer \<Rightarrow> (buffer \<times> muxer) option" where
  "last_packet sys ident buff s =
     (if readableBytes buff > 0
      then let len = readableBytes buff in
        do { packet \<leftarrow> append_buf [MSG] (mk_buffer kInitialSize);
             packet \<leftarrow> append_buf (bytes_between (peek buff) (peek buff + len) buff) packet;
             buff \<leftarrow> retrieve len buff;
             s \<leftarrow> sendBackendPacket sys ident packet s;
             Some (buff, s) }
      else Some (buff, s))"

definition count_message :: "nat \<Rightarrow> muxer \<Rightarrow> muxer" where
  "count_message len s = s\<lparr>transferred := transferred s + of_nat len, receivedMessage := receivedMessage s + 1\<rparr>"

definition set_input :: "nat \<Rightarrow> buffer \<Rightarrow> muxer \<Rightarrow> muxer" where
  "set_input conn buff s = put_conn conn ((conn_store s conn)\<lparr>inputBuffer := buff\<rparr>) s"

definition onClientMessage :: "sys_writes \<Rightarrow> nat \<Rightarrow> muxer \<Rightarrow> muxer option" where
  "onClientMessage sys conn s =
     (let buff = inputBuffer (conn_store s conn); s = count_message (readableBytes buff) s in
      case context_of s conn of
        Some ident \<Rightarrow>
          do { (buff, s) \<leftarrow> client_packets sys ident buff s;
               (buff, s) \<leftarrow> last_packet sys ident buff s;
               Some (set_input conn buff s) }
      | None \<Rightarrow> Some (set_input conn (retrieveAll buff) s))"

subsection \<open>From the backend\<close>

definition onBackendConnection :: "bool \<Rightarrow> nat \<Rightarrow> muxer \<Rightarrow> muxer option" where
  "onBackendConnection up conn s =
     (if up
      then let s = s\<lparr>backendConnection := Some conn\<rparr>
           in assert_then (availIds s = []) (Some (s\<lparr>availIds := map int [0..<MAX_CONNS]\<rparr>))
      else let connsToDestroy = map (\<lambda>i. the (clientConnections s i)) (sorted_list_of_set (dom (clientConnections s)));
               s = s\<lparr>backendConnection := None, clientConnections := (\<lambda>_. None), availIds := []\<rparr>;
               s = fold (\<lambda>c s. put_conn c (shutdown True (conn_store s c)) s) connsToDestroy s
           in Some (s\<lparr>quit_loop := True\<rparr>))"

definition sendClientString :: "sys_writes \<Rightarrow> int \<Rightarrow> char \<Rightarrow> bytes \<Rightarrow> muxer \<Rightarrow> muxer option" where
  "sendClientString sys ident type msg s =
     (if type = MSG
      then case clientConnections s ident of
             Some c \<Rightarrow> do { conn \<leftarrow> send True (sys c) msg (conn_store s c); Some (put_conn c conn s) }
           | None \<Rightarrow> Some s
      else if type = DISCONN
      then case clientConnections s ident of
             Some c \<Rightarrow> let s = put_conn c (shutdown True (conn_store s c)) s
                       in Some (s\<lparr>clientConnections := (clientConnections s)(ident := None), availIds := availIds s @ [ident]\<rparr>)
           | None \<Rightarrow> Some s
      else Some s)"

text \<open>One pass of the loop of \<open>sendClientPacket\<close>. The sums of the lengths are compared as \<open>size_t\<close>: a negative one is huge. None also
  stands for the exception of \<open>string(p, len)\<close> with a negative length.\<close>

type_synonym packet = "int \<times> char \<times> bytes"

definition packet_at :: "int \<Rightarrow> buffer \<Rightarrow> packet" where
  "packet_at len b =
     (let ident = asInt32 (bytes_between (peek b + 4) (beginWrite b) b);
          type = bytes_between (peek b) (beginWrite b) b ! MUX_HEADER_LEN;
          msg = bytes_between (peek b + MUX_HEADER_LEN + 1) (peek b + MUX_HEADER_LEN + 1 + nat len) b
      in (ident, type, msg))"

definition client_body :: "(packet, unit) loop_body" where
  "client_body b =
     (if readableBytes b > MUX_HEADER_LEN + 1
      then do {
        w \<leftarrow> peekInt32 b;
        let len = sint w;
        if len + int MUX_HEADER_LEN + 1 < 0 \<or> readableBytes b < nat (len + int MUX_HEADER_LEN + 1) then Some (False, [], b)
        else assert_then (0 \<le> len)
          (do { let p = packet_at len b;
                b \<leftarrow> retrieve (nat (int MUX_HEADER_LEN + len + 1)) b;
                Some (True, [Deliver p], b) }) }
      else Some (False, [], b))"

fun to_clients :: "sys_writes \<Rightarrow> (packet, unit) codec_event list \<Rightarrow> muxer \<Rightarrow> muxer option" where
  "to_clients sys [] s = Some s"
| "to_clients sys (Deliver (ident, type, msg) # es) s = do { s \<leftarrow> sendClientString sys ident type msg s; to_clients sys es s }"
| "to_clients sys (Failed e # es) s = to_clients sys es s"

definition onBackendMessage :: "sys_writes \<Rightarrow> nat \<Rightarrow> muxer \<Rightarrow> muxer option" where
  "onBackendMessage sys conn s =
     (let buff = inputBuffer (conn_store s conn); s = count_message (readableBytes buff) s in
      do { (es, buff) \<leftarrow> buffer_loop client_body [] buff; s \<leftarrow> to_clients sys es s; Some (set_input conn buff s) })"

text \<open>\<open>printStatis\<close>: the bytes and messages since the last time.\<close>

definition printStatis :: "muxer \<Rightarrow> (64 word \<times> 64 word) \<times> muxer" where
  "printStatis s =
     (let newCounter = transferred s; n = newCounter - oldCounter s; msgs = receivedMessage s
      in ((n, msgs), s\<lparr>receivedMessage := 0, oldCounter := newCounter\<rparr>))"

subsection \<open>\<open>backend.cpp\<close>\<close>

text \<open>\<open>Failed\<close> is the \<open>shutdown\<close> of the connection, after which the loop goes on.\<close>

definition backend_body :: "(packet, unit) loop_body" where
  "backend_body b =
     (if readableBytes b > MUX_HEADER_LEN + 1
      then do {
        w \<leftarrow> peekInt32 b;
        let len = sint w;
        let bad = (if len < 0 \<or> len > int MAX_PACKET_LEN then [Failed ()] else []);
        if int MUX_HEADER_LEN + 1 + len < 0 \<or> readableBytes b < nat (int MUX_HEADER_LEN + 1 + len) then Some (False, bad, b)
        else assert_then (0 \<le> len)
          (do { let p = packet_at len b;
                b \<leftarrow> retrieve (nat (int MUX_HEADER_LEN + 1 + len)) b;
                Some (True, bad @ [Deliver p], b) }) }
      else Some (False, [], b))"

subsection \<open>Packets in a stream\<close>

definition packet_frame :: "packet \<Rightarrow> bytes" where
  "packet_frame p = (case p of (ident, type, msg) \<Rightarrow> be32 (int (length msg)) @ be32 ident @ type # msg)"

definition packet_sendable :: "packet \<Rightarrow> bool" where
  "packet_sendable p \<longleftrightarrow> (case p of (ident, type, msg) \<Rightarrow> msg \<noteq> [] \<and> length msg < MAX_PACKET_LEN \<and> -(2 ^ 31) \<le> ident \<and> ident < 2 ^ 31)"

definition packet_scan :: "bytes \<Rightarrow> (packet, unit) scan_result" where
  "packet_scan s =
     (if length s \<le> 9 then More
      else let len = asInt32 s in
        if len < 0 \<or> len > int MAX_PACKET_LEN then Bad ()
        else if length s < nat len + 9 then More
        else Frame [(asInt32 (drop 4 s), s ! 8, take (nat len) (drop 9 s))] (nat len + 9))"

interpretation packets: framing packet_scan packet_frame packet_sendable
proof
  fix s u ms n e
  show "packet_scan s = Frame ms n \<Longrightarrow> 0 < n \<and> n \<le> length s" by (auto simp: packet_scan_def Let_def split: if_splits)
  show "packet_scan s = Frame ms n \<Longrightarrow> packet_scan (s @ u) = Frame ms n"
    by (auto simp: packet_scan_def Let_def asInt32_append nth_append split: if_splits)
  show "packet_scan s = Bad e \<Longrightarrow> packet_scan (s @ u) = Bad e"
    by (auto simp: packet_scan_def Let_def asInt32_append split: if_splits)
next
  fix p u
  assume a: "packet_sendable p"
  obtain ident type msg where p: "p = (ident, type, msg)" by (cases p)
  have n: "msg \<noteq> []" "length msg < 512" "-(2 ^ 31) \<le> ident" "ident < 2 ^ 31" using a by (simp_all add: packet_sendable_def p const_defs)
  have l: "asInt32 (be32 (int (length msg)) @ t) = int (length msg)" for t
    using n(2) by (simp add: signed_take_bit_int_eq_self)
  have i: "asInt32 (be32 ident @ t) = ident" for t using n(3,4) by (simp add: signed_take_bit_int_eq_self)
  have f: "packet_frame p = be32 (int (length msg)) @ be32 ident @ type # msg" by (simp add: packet_frame_def p)
  have g: "length msg > 0" using n(1) by simp
  show "packet_scan (packet_frame p @ u) = Frame [p] (length (packet_frame p))"
    unfolding f using g n(2) l i by (simp add: packet_scan_def p const_defs nth_append del: asInt32_be32)
qed (simp add: packet_scan_def)

lemma rest_content: "bytes_between (peek b + n) (beginWrite b) b = drop n (content b)"
  by (simp add: bytes_between_def content_def peek_def beginWrite_def drop_take add.commute)

lemma packet_at_content:
  assumes "wf_buffer b" "nat len + 9 \<le> length (content b)"
  shows "packet_at len b = (asInt32 (drop 4 (content b)), content b ! 8, take (nat len) (drop 9 (content b)))"
proof -
  have "9 + nat len \<le> writerIndex b - readerIndex b" using assms length_content [OF assms(1)] by (simp add: readableBytes_def)
  then have "bytes_between (peek b + 9) (peek b + 9 + nat len) b = take (nat len) (drop 9 (content b))"
    by (simp add: bytes_between_def content_def peek_def drop_take min_def add.commute)
  moreover have "peek b + MUX_HEADER_LEN + 1 = peek b + 9" by (simp add: MUX_HEADER_LEN_def)
  ultimately show ?thesis using rest_content [of b 4] rest_content [of b 0]
    by (simp only: packet_at_def Let_def) (simp add: MUX_HEADER_LEN_def)
qed

lemma retrieve_drop:
  assumes "wf_buffer b" "n \<le> length (content b)"
  obtains b' where "retrieve n b = Some b'" "wf_buffer b'" "content b' = drop n (content b)"
  using retrieve_front [OF assms(1) append_take_drop_id [symmetric], of n n] assms(2) by (metis length_take min_absorb2)

lemma packet_bodies_read: "body_reads client_body packet_scan" "body_reads backend_body packet_scan"
proof -
  have "(case packet_scan (content b) of
        More \<Rightarrow> bd b = Some (False, [], b)
      | Frame ms n \<Rightarrow> \<exists>b'. bd b = Some (True, map Deliver ms, b') \<and> wf_buffer b' \<and> content b' = drop n (content b)
      | Bad e \<Rightarrow> True)" if w: "wf_buffer b" and bd: "bd = client_body \<or> bd = backend_body" for b bd
  proof (cases "length (content b) \<le> 9")
    case True
    then have "readableBytes b \<le> 9" using length_content [OF w] by simp
    then show ?thesis using True bd by (auto simp: packet_scan_def client_body_def backend_body_def MUX_HEADER_LEN_def)
  next
    case False
    then have l: "9 < length (content b)" by simp
    have "4 \<le> length (content b)" using l by simp
    then obtain v where v: "peekInt32 b = Some v" "sint v = asInt32 (content b)" using peek_len32 [OF w] by metis
    have r: "readableBytes b = length (content b)" using length_content [OF w] by simp
    define len where "len = asInt32 (content b)"
    show ?thesis
    proof (cases "0 \<le> len \<and> len \<le> 512")
      case False
      then show ?thesis using l by (auto simp: packet_scan_def len_def MAX_PACKET_LEN_def)
    next
      case ok: True
      have n: "nat (len + 9) = nat len + 9" "nat (9 + len) = nat len + 9" using ok nat_add_distrib [of len 9] by (simp_all add: add.commute)
      show ?thesis
      proof (cases "nat len + 9 \<le> length (content b)")
        case True
        obtain b' where b': "retrieve (nat len + 9) b = Some b'" "wf_buffer b'" "content b' = drop (nat len + 9) (content b)"
          using retrieve_drop [OF w True] .
        note p = packet_at_content [OF w True]
        have "bd b = Some (True, [Deliver (packet_at len b)], b')"
          using bd l r v ok n True b'(1) by (auto simp: client_body_def backend_body_def MUX_HEADER_LEN_def MAX_PACKET_LEN_def len_def [symmetric] Let_def)
        moreover have "packet_scan (content b) = Frame [packet_at len b] (nat len + 9)"
          using l ok True p by (simp add: packet_scan_def MAX_PACKET_LEN_def len_def [symmetric])
        ultimately show ?thesis using b'(2,3) by simp
      next
        case short: False
        then have "bd b = Some (False, [], b)"
          using bd l r v ok n by (auto simp: client_body_def backend_body_def MUX_HEADER_LEN_def MAX_PACKET_LEN_def len_def [symmetric] Let_def)
        then show ?thesis using l ok short by (simp add: packet_scan_def MAX_PACKET_LEN_def len_def [symmetric])
      qed
    qed
  qed
  then show "body_reads client_body packet_scan" "body_reads backend_body packet_scan" by (simp_all add: body_reads_def)
qed

lemma packets_receive:
  assumes "\<forall>p \<in> set ps. packet_sendable p" "concat ds = concat (map packet_frame ps)" "bd = client_body \<or> bd = backend_body"
  shows "\<exists>b. feed bd ds [] (mk_buffer n) = Some (map Deliver ps, b) \<and> content b = []"
proof -
  have "decode packet_scan (content (mk_buffer n) @ concat ds) = (ps, [], None)"
    using packets.decode_frames [OF assms(1)] assms(2) by (simp add: mk_buffer_geometry)
  moreover have "decode packet_scan (content (mk_buffer n)) = ([], content (mk_buffer n), None)"
    by (simp add: packets.decode_step packet_scan_def mk_buffer_geometry)
  moreover have "body_reads bd packet_scan" using packet_bodies_read assms(3) by blast
  ultimately show ?thesis using packets.feed_frames [of bd, OF _ assms(1) wf_mk_buffer, of n ds "[]"] by auto
qed

subsection \<open>Messages of clients\<close>

lemma sendBackendPacket_up:
  assumes "backendConnection s = Some k" "conn_up fds k (conn_store s k)" "sys_good (sys k)"
    and "wf_buffer b" "kCheapPrepend \<le> prependableBytes b" "content b = type # msg" "length msg < MAX_PACKET_LEN"
  shows "\<exists>conn. sendBackendPacket sys ident b s = Some (put_conn k conn s) \<and> conn_up fds k conn
    \<and> accepted conn = accepted (conn_store s k) @ packet_frame (ident, type, msg) \<and> inputBuffer conn = inputBuffer (conn_store s k)"
proof -
  have r: "readableBytes b = length msg + 1" using length_content [OF assms(4)] assms(6) by simp
  have w: "word_of_int (int (length msg + 1)) - 1 = (word_of_int (int (length msg)) :: 32 word)" by simp
  obtain b1 where b1: "prepend (be32 (int (length msg)) @ be32 ident) b = Some b1" "wf_buffer b1" "content b1 = packet_frame (ident, type, msg)"
    using prepend_header [OF assms(4,5), of "be32 (int (length msg)) @ be32 ident"] assms(6) by (auto simp: packet_frame_def)
  obtain conn where "send_buffer True (sys k) b1 (conn_store s k) = Some (conn, retrieveAll b1)" "conn_up fds k conn"
      "accepted conn = accepted (conn_store s k) @ content b1" "inputBuffer conn = inputBuffer (conn_store s k)"
    using send_buffer_up [OF assms(2,3) b1(2)] .
  then show ?thesis using assms(1,7) r w b1 by (intro exI [of _ conn]) (simp add: sendBackendPacket_def Let_def be32_def)
qed

lemma onClientMessage_up:
  assumes "backendConnection s = Some k" "conn_up fds k (conn_store s k)" "sys_good (sys k)" "conn \<noteq> k" "context_of s conn = Some ident"
    and "wf_buffer (inputBuffer (conn_store s conn))" "content (inputBuffer (conn_store s conn)) = msg" "msg \<noteq> []" "length msg < MAX_PACKET_LEN"
  shows "\<exists>s'. onClientMessage sys conn s = Some s' \<and> conn_up fds k (conn_store s' k) \<and>
    accepted (conn_store s' k) = accepted (conn_store s k) @ packet_frame (ident, MSG, msg) \<and>
    wf_buffer (inputBuffer (conn_store s' conn)) \<and> content (inputBuffer (conn_store s' conn)) = [] \<and>
    (\<forall>c. c \<noteq> k \<and> c \<noteq> conn \<longrightarrow> conn_store s' c = conn_store s c) \<and>
    backendConnection s' = backendConnection s \<and> context_of s' = context_of s"
proof -
  let ?b = "inputBuffer (conn_store s conn)" and ?s = "count_message (readableBytes (inputBuffer (conn_store s conn))) s"
  have r: "readableBytes ?b = length msg" using length_content [OF assms(6)] assms(7) by simp
  have cs: "client_packets sys ident ?b ?s = Some (?b, ?s)" using r assms(9) by (subst client_packets.simps) simp
  obtain p1 where p1: "append_buf [MSG] (mk_buffer kInitialSize) = Some p1" "wf_buffer p1" "kCheapPrepend \<le> prependableBytes p1" "content p1 = [MSG]"
    using append_room [of "mk_buffer kInitialSize" "[MSG]"] by (auto simp: mk_buffer_geometry)
  have m: "bytes_between (peek ?b) (peek ?b + length msg) ?b = msg" using content_peek_take [OF assms(6), of "length msg"] r assms(7) by simp
  obtain p2 where p2: "append_buf msg p1 = Some p2" "wf_buffer p2" "kCheapPrepend \<le> prependableBytes p2" "content p2 = MSG # msg"
    using append_room [OF p1(2,3), of msg] p1(4) by auto
  obtain b1 where b1: "retrieve (length msg) ?b = Some b1" "wf_buffer b1" "content b1 = []"
    using retrieve_drop [OF assms(6), of "length msg"] assms(7) by auto
  have c: "conn_store ?s = conn_store s" "backendConnection ?s = backendConnection s" "context_of ?s = context_of s" by (simp_all add: count_message_def)
  obtain cn where cn: "sendBackendPacket sys ident p2 ?s = Some (put_conn k cn ?s)" "conn_up fds k cn"
      "accepted cn = accepted (conn_store s k) @ packet_frame (ident, MSG, msg)"
    using sendBackendPacket_up [of ?s k fds sys p2 MSG msg ident] assms(1,2,3,9) p2 c by auto
  have "last_packet sys ident ?b ?s = Some (b1, put_conn k cn ?s)"
    using r assms(8) p1(1) p2(1) b1(1) cn(1) m by (simp add: last_packet_def Let_def)
  then have "onClientMessage sys conn s = Some (set_input conn b1 (put_conn k cn ?s))"
    using cs assms(5) c by (simp add: onClientMessage_def Let_def)
  then show ?thesis using cn b1(2,3) assms(4) c by (auto simp: set_input_def put_conn_def)
qed

text \<open>The messages of clients, one after the other: the bytes arrive in the client's buffer, then its callback runs.\<close>

fun client_messages :: "sys_writes \<Rightarrow> (nat \<times> bytes) list \<Rightarrow> muxer \<Rightarrow> muxer option" where
  "client_messages sys [] s = Some s"
| "client_messages sys ((conn, data) # ms) s =
     do { b \<leftarrow> append_buf data (inputBuffer (conn_store s conn)); s \<leftarrow> onClientMessage sys conn (set_input conn b s); client_messages sys ms s }"

lemma client_messages_up:
  assumes "sys_good (sys k)"
  shows "backendConnection s = Some k \<Longrightarrow> conn_up fds k (conn_store s k) \<Longrightarrow>
    \<forall>(conn, d) \<in> set ms. conn \<noteq> k \<and> context_of s conn = Some (ident conn) \<and> wf_buffer (inputBuffer (conn_store s conn)) \<and>
       content (inputBuffer (conn_store s conn)) = [] \<and> d \<noteq> [] \<and> length d < MAX_PACKET_LEN \<Longrightarrow>
    \<exists>s'. client_messages sys ms s = Some s' \<and>
      accepted (conn_store s' k) = accepted (conn_store s k) @ concat (map (\<lambda>(conn, d). packet_frame (ident conn, MSG, d)) ms)"
proof (induction ms arbitrary: s)
  case (Cons m ms)
  obtain conn d where m: "m = (conn, d)" by (cases m)
  note p = Cons.prems
  have h: "conn \<noteq> k" "context_of s conn = Some (ident conn)" "wf_buffer (inputBuffer (conn_store s conn))"
    "content (inputBuffer (conn_store s conn)) = []" "d \<noteq> []" "length d < MAX_PACKET_LEN" using p(3) by (auto simp: m)
  obtain b where b: "append_buf d (inputBuffer (conn_store s conn)) = Some b" "wf_buffer b" "content b = d"
    using append_contract [OF h(3), of d] h(4) by auto
  let ?s = "set_input conn b s"
  have f: "backendConnection ?s = backendConnection s" "context_of ?s = context_of s" "conn_store ?s k = conn_store s k"
    "inputBuffer (conn_store ?s conn) = b" "\<And>c. c \<noteq> conn \<Longrightarrow> conn_store ?s c = conn_store s c"
    using h(1) by (simp_all add: set_input_def put_conn_def)
  from onClientMessage_up [of ?s k fds sys conn "ident conn" d] obtain s1 where
    s1: "onClientMessage sys conn ?s = Some s1" "conn_up fds k (conn_store s1 k)"
      "accepted (conn_store s1 k) = accepted (conn_store s k) @ packet_frame (ident conn, MSG, d)"
      "wf_buffer (inputBuffer (conn_store s1 conn))" "content (inputBuffer (conn_store s1 conn)) = []"
      "\<forall>c. c \<noteq> k \<and> c \<noteq> conn \<longrightarrow> conn_store s1 c = conn_store ?s c" "backendConnection s1 = backendConnection s" "context_of s1 = context_of s"
    using f p(1,2) assms h b by auto
  have "\<forall>(c, d) \<in> set ms. c \<noteq> k \<and> context_of s1 c = Some (ident c) \<and> wf_buffer (inputBuffer (conn_store s1 c)) \<and>
       content (inputBuffer (conn_store s1 c)) = [] \<and> d \<noteq> [] \<and> length d < MAX_PACKET_LEN"
  proof (clarify, goal_cases)
    case (1 c e)
    then have "c \<noteq> k \<and> context_of s c = Some (ident c) \<and> wf_buffer (inputBuffer (conn_store s c)) \<and>
       content (inputBuffer (conn_store s c)) = [] \<and> e \<noteq> [] \<and> length e < MAX_PACKET_LEN" using p(3) by (auto simp: m)
    then show ?case using s1(4,5,6,8) f(5) by (cases "c = conn") auto
  qed
  from Cons.IH [of s1, OF _ s1(2) this] s1 p(1) b(1) show ?case by (auto simp: m)
qed simp

text \<open>C37: Messages of 1 to 511 bytes of clients that have an id are carried to the backend whole: the multiplexer hands its connection
  to the backend exactly one packet for each, and in whatever segments these bytes arrive, the backend gets exactly the
  messages with the ids of their clients, in order.\<close>

theorem mux_forwards:
  assumes "backendConnection s = Some k" "conn_up fds k (conn_store s k)" "sys_good (sys k)"
    and "\<forall>(conn, d) \<in> set ms. conn \<noteq> k \<and> context_of s conn = Some (ident conn) \<and> 0 \<le> ident conn \<and> ident conn < int MAX_CONNS \<and>
      wf_buffer (inputBuffer (conn_store s conn)) \<and> content (inputBuffer (conn_store s conn)) = [] \<and> d \<noteq> [] \<and> length d < MAX_PACKET_LEN"
  shows "\<exists>s' sent. client_messages sys ms s = Some s' \<and> accepted (conn_store s' k) = accepted (conn_store s k) @ sent \<and>
    (\<forall>ds n. concat ds = sent \<longrightarrow>
       (\<exists>b. feed backend_body ds [] (mk_buffer n) = Some (map Deliver (map (\<lambda>(conn, d). (ident conn, MSG, d)) ms), b) \<and> content b = []))"
proof -
  let ?ps = "map (\<lambda>(conn, d). (ident conn, MSG, d)) ms"
  obtain s' where s': "client_messages sys ms s = Some s'"
    "accepted (conn_store s' k) = accepted (conn_store s k) @ concat (map (\<lambda>(conn, d). packet_frame (ident conn, MSG, d)) ms)"
    using client_messages_up [where sys = sys and k = k and s = s and fds = fds and ms = ms and ident = ident, OF assms(3,1,2)] assms(4) by (auto simp: case_prod_unfold)
  have "\<forall>p \<in> set ?ps. packet_sendable p" using assms(4) by (auto simp: packet_sendable_def const_defs)
  moreover have "concat (map (\<lambda>(conn, d). packet_frame (ident conn, MSG, d)) ms) = concat (map packet_frame ?ps)"
    by (simp add: case_prod_unfold comp_def)
  ultimately have "\<exists>b. feed backend_body ds [] (mk_buffer n) = Some (map Deliver ?ps, b) \<and> content b = []"
    if "concat ds = concat (map (\<lambda>(conn, d). packet_frame (ident conn, MSG, d)) ms)" for ds n
    using packets_receive [of ?ps ds backend_body n] that by simp
  then show ?thesis using s' by blast
qed

theorem mux_forwards_witness:
  "\<exists>c0 s' sent. connectEstablished (mk_tcp_conn 5) = Some c0 \<and>
     client_messages (\<lambda>_ d. Inr (length d)) [(1, ''ab''), (2, ''c'')]
       (Multiplexer (\<lambda>_. c0)\<lparr>backendConnection := Some 0, context_of := [1 \<mapsto> 7, 2 \<mapsto> 8]\<rparr>) = Some s' \<and>
     accepted (conn_store s' 0) = accepted c0 @ sent \<and>
     (\<exists>b. feed backend_body [sent] [] (mk_buffer 9) = Some ([Deliver (7, MSG, ''ab''), Deliver (8, MSG, ''c'')], b))"
proof -
  obtain c0 where c0: "connectEstablished (mk_tcp_conn 5) = Some c0" "conn_up (\<lambda>_. 5) 0 c0" "inputBuffer c0 = mk_buffer kInitialSize"
    using established_up by blast
  then have e: "wf_buffer (inputBuffer c0)" "content (inputBuffer c0) = []" by (simp_all add: mk_buffer_geometry)
  let ?s = "Multiplexer (\<lambda>_. c0)\<lparr>backendConnection := Some 0, context_of := [1 \<mapsto> 7, 2 \<mapsto> 8]\<rparr>" and ?sys = "\<lambda>_ d. Inr (length d) :: int + nat"
  have "\<exists>s' sent. client_messages ?sys [(1, ''ab''), (2, ''c'')] ?s = Some s' \<and> accepted (conn_store s' 0) = accepted (conn_store ?s 0) @ sent \<and>
    (\<forall>ds n. concat ds = sent \<longrightarrow> (\<exists>b. feed backend_body ds [] (mk_buffer n) =
       Some (map Deliver (map (\<lambda>(conn, d). (if conn = 1 then 7 else 8, MSG, d)) [(1::nat, ''ab''), (2, ''c'')]), b) \<and> content b = []))"
    by (rule mux_forwards [where fds = "\<lambda>_. 5"]) (use c0(2) e in \<open>simp_all add: Multiplexer_def sys_good_def write_ok_def const_defs\<close>)
  then obtain s' sent where s': "client_messages ?sys [(1, ''ab''), (2, ''c'')] ?s = Some s'" "accepted (conn_store s' 0) = accepted (conn_store ?s 0) @ sent"
    and f: "\<forall>ds n. concat ds = sent \<longrightarrow> (\<exists>b. feed backend_body ds [] (mk_buffer n) =
       Some (map Deliver (map (\<lambda>(conn, d). (if conn = 1 then 7 else 8, MSG, d)) [(1::nat, ''ab''), (2, ''c'')]), b) \<and> content b = [])" by blast
  have "\<exists>b. feed backend_body [sent] [] (mk_buffer 9) = Some ([Deliver (7, MSG, ''ab''), Deliver (8, MSG, ''c'')], b)"
    using spec [OF spec [OF f, of "[sent]"], of 9] by fastforce
  moreover have "accepted (conn_store s' 0) = accepted c0 @ sent" using s'(2) by (simp add: Multiplexer_def)
  ultimately show ?thesis using c0(1) s'(1) by blast
qed

text \<open>A client message of 512 bytes or more ends the process: a full packet has one byte too many for the assertion.\<close>

lemma mux_big_message:
  assumes "context_of s conn = Some ident" "wf_buffer (inputBuffer (conn_store s conn))"
    and "MAX_PACKET_LEN \<le> length (content (inputBuffer (conn_store s conn)))"
  shows "onClientMessage sys conn s = None"
proof -
  let ?b = "inputBuffer (conn_store s conn)"
  have r: "readableBytes ?b = length (content ?b)" using length_content [OF assms(2)] by simp
  have l: "512 \<le> length (content ?b)" using assms(3) by (simp add: const_defs)
  obtain p1 where p1: "append_buf [MSG] (mk_buffer kInitialSize) = Some p1" "wf_buffer p1" "content p1 = [MSG]"
    using append_contract [OF wf_mk_buffer, of "[MSG]"] by (auto simp: mk_buffer_geometry)
  obtain p2 where p2: "append_buf (take 512 (content ?b)) p1 = Some p2" "wf_buffer p2" "content p2 = MSG # take 512 (content ?b)"
    using append_contract [OF p1(2), of "take 512 (content ?b)"] p1(3) by auto
  obtain b1 where b1: "retrieve 512 ?b = Some b1" using retrieve_drop [OF assms(2) l] by blast
  have "readableBytes p2 = 513" using length_content [OF p2(2)] p2(3) l by simp
  then have n: "sendBackendPacket sys ident p2 u = None" for u by (simp add: sendBackendPacket_def const_defs)
  have m: "bytes_between (peek ?b) (peek ?b + 512) ?b = take 512 (content ?b)" using content_peek_take [OF assms(2)] r l by simp
  have "client_packets sys ident ?b u = None" for u
    using r l p1(1) p2(1) b1 m n by (subst client_packets.simps) (simp add: MAX_PACKET_LEN_def)
  then show ?thesis using assms(1) by (simp add: onClientMessage_def count_message_def Let_def)
qed

text \<open>What the backend sends to an id that is in use reaches the client that has it, and no other.\<close>

lemma sendClientString_up:
  assumes "clientConnections s ident = Some c" "conn_up fds ch (conn_store s c)" "sys_good (sys c)"
  shows "\<exists>s'. sendClientString sys ident MSG msg s = Some s' \<and> accepted (conn_store s' c) = accepted (conn_store s c) @ msg \<and>
    (\<forall>d. d \<noteq> c \<longrightarrow> conn_store s' d = conn_store s d)"
proof -
  obtain c' where "send True (sys c) msg (conn_store s c) = Some c'" "accepted c' = accepted (conn_store s c) @ msg"
    using send_bytes_up [OF assms(2,3), of msg] by metis
  then show ?thesis using assms(1) by (auto simp: sendClientString_def put_conn_def)
qed

subsection \<open>Ids\<close>

definition ids_of :: "muxer \<Rightarrow> int list \<times> (int \<Rightarrow> nat option) \<times> (nat \<Rightarrow> int option)" where
  "ids_of s = (availIds s, clientConnections s, context_of s)"

lemma put_conn_ids [simp]: "ids_of (put_conn c conn s) = ids_of s" "ids_of (set_input c b s) = ids_of s" "ids_of (count_message n s) = ids_of s"
  by (simp_all add: ids_of_def put_conn_def set_input_def count_message_def)

lemma send_ids:
  "sendBackendPacket sys ident b s = Some s' \<Longrightarrow> ids_of s' = ids_of s"
  "sendBackendString sys ident type msg s = Some s' \<Longrightarrow> ids_of s' = ids_of s"
proof -
  show p: "sendBackendPacket sys ident b s = Some s' \<Longrightarrow> ids_of s' = ids_of s" for b
    by (auto simp: sendBackendPacket_def Let_def split: option.splits)
  show "sendBackendString sys ident type msg s = Some s' \<Longrightarrow> ids_of s' = ids_of s"
    using p by (auto simp: sendBackendString_def)
qed

lemma client_packets_ids:
  assumes "client_packets sys ident b s = Some r"
  shows "ids_of (snd r) = ids_of s"
proof (rule client_packets.raw_induct [where P = "\<lambda>sys ident b s r. ids_of (snd r) = ids_of s", OF _ assms], goal_cases)
  case (1 loop sys ident b s r)
  then show ?case by (cases "readableBytes b \<ge> MAX_PACKET_LEN") (auto dest!: send_ids(1) 1(1))
qed

lemma onClientMessage_ids: "onClientMessage sys conn s = Some s' \<Longrightarrow> ids_of s' = ids_of s"
  by (auto simp: onClientMessage_def last_packet_def Let_def split: option.splits if_splits dest!: client_packets_ids send_ids(1))

text \<open>Clients coming and going and messages both ways while the backend is up and does not itself disconnect clients; \<open>U\<close> are
  the clients that are up. A connection is a new object each time.\<close>

inductive mux_reach :: "sys_writes \<Rightarrow> muxer \<Rightarrow> nat set \<Rightarrow> bool" for sys where
  m_start: "onBackendConnection True k (Multiplexer store) = Some s \<Longrightarrow> mux_reach sys s {}"
| m_up: "mux_reach sys s U \<Longrightarrow> conn \<notin> U \<Longrightarrow> context_of s conn = None \<Longrightarrow> onClientConnection sys True conn peer s = Some s' \<Longrightarrow>
    mux_reach sys s' (insert conn U)"
| m_down: "mux_reach sys s U \<Longrightarrow> conn \<in> U \<Longrightarrow> onClientConnection sys False conn peer s = Some s' \<Longrightarrow> mux_reach sys s' (U - {conn})"
| m_client: "mux_reach sys s U \<Longrightarrow> onClientMessage sys conn s = Some s' \<Longrightarrow> mux_reach sys s' U"
| m_backend: "mux_reach sys s U \<Longrightarrow> type \<noteq> DISCONN \<Longrightarrow> sendClientString sys ident type msg s = Some s' \<Longrightarrow> mux_reach sys s' U"

definition ids_ok :: "muxer \<Rightarrow> nat set \<Rightarrow> bool" where
  "ids_ok s U \<longleftrightarrow> distinct (availIds s) \<and> set (availIds s) \<inter> dom (clientConnections s) = {} \<and>
     set (availIds s) \<union> dom (clientConnections s) = {0..<int MAX_CONNS} \<and>
     (\<forall>i c. clientConnections s i = Some c \<longleftrightarrow> c \<in> U \<and> context_of s c = Some i)"

lemma ids_ok_cong: "ids_of s' = ids_of s \<Longrightarrow> ids_ok s' U = ids_ok s U"
  by (simp add: ids_ok_def ids_of_def)

lemma ids_ok_free: "ids_ok s U \<Longrightarrow> clientConnections s i = Some c \<Longrightarrow> i \<notin> set (availIds s)"
  unfolding ids_ok_def by (blast dest: domI)

lemma ids_ok_take:
  assumes "ids_ok s U" "availIds s = i # rest" "conn \<notin> U"
    and "ids_of s' = (rest, (clientConnections s)(i \<mapsto> conn), (context_of s)(conn \<mapsto> i))"
  shows "ids_ok s' (insert conn U)"
proof -
  note a = assms(1) [unfolded ids_ok_def]
  have s': "availIds s' = rest" "clientConnections s' = (clientConnections s)(i \<mapsto> conn)" "context_of s' = (context_of s)(conn \<mapsto> i)"
    using assms(4) by (simp_all add: ids_of_def)
  have i: "clientConnections s i = None" using a assms(2) by (auto simp: dom_def)
  have "\<forall>j c. clientConnections s' j = Some c \<longleftrightarrow> c \<in> insert conn U \<and> context_of s' c = Some j"
  proof (intro allI)
    fix j c
    show "clientConnections s' j = Some c \<longleftrightarrow> c \<in> insert conn U \<and> context_of s' c = Some j"
    proof (cases "c = conn")
      case True
      then have "clientConnections s j \<noteq> Some c" using a assms(3) by blast
      then show ?thesis using True s' by auto
    next
      case False
      moreover have "clientConnections s j = Some c \<longleftrightarrow> c \<in> U \<and> context_of s c = Some j" using a by blast
      ultimately show ?thesis using s' i by (cases "j = i") auto
    qed
  qed
  then show ?thesis using a assms(2) s' unfolding ids_ok_def by auto
qed

lemma ids_ok_give:
  assumes "ids_ok s U" "conn \<in> U" "context_of s conn = Some i"
    and "ids_of s' = (availIds s @ [i], (clientConnections s)(i := None), context_of s)"
  shows "ids_ok s' (U - {conn})"
proof -
  note a = assms(1) [unfolded ids_ok_def]
  have s': "availIds s' = availIds s @ [i]" "clientConnections s' = (clientConnections s)(i := None)" "context_of s' = context_of s"
    using assms(4) by (simp_all add: ids_of_def)
  have i: "clientConnections s i = Some conn" using a assms(2,3) by blast
  then have "i \<in> dom (clientConnections s)" "i \<notin> set (availIds s)" using ids_ok_free [OF assms(1)] by auto
  moreover have "clientConnections s' j = Some c \<longleftrightarrow> c \<in> U - {conn} \<and> context_of s' c = Some j" for j c
  proof -
    have "clientConnections s j = Some c \<longleftrightarrow> c \<in> U \<and> context_of s c = Some j" using a by blast
    then show ?thesis using s' i assms(3) by (cases "j = i") auto
  qed
  ultimately show ?thesis using a s' unfolding ids_ok_def by auto
qed

lemma mux_reach_ok: "mux_reach sys s U \<Longrightarrow> ids_ok s U"
proof (induction rule: mux_reach.induct)
  case (m_start k store s)
  then show ?case by (auto simp: onBackendConnection_def Multiplexer_def ids_ok_def Let_def distinct_map image_iff)
      (metis atLeastLessThan_iff int_nat_eq of_nat_0_le_iff of_nat_less_iff zero_le)
next
  case (m_up s U conn peer s')
  show ?case
  proof (cases "availIds s")
    case Nil
    then have "ids_of s' = ids_of s" using m_up.hyps(4) by (auto simp: onClientConnection_def)
    moreover have "ids_ok s (insert conn U)" using m_up.IH m_up.hyps(2,3) unfolding ids_ok_def by auto
    ultimately show ?thesis using ids_ok_cong by blast
  next
    case (Cons i rest)
    then have "ids_of s' = (rest, (clientConnections s)(i \<mapsto> conn), (context_of s)(conn \<mapsto> i))"
      using m_up.hyps(4) by (auto simp: onClientConnection_def Let_def dest!: send_ids(2)) (simp add: ids_of_def)
    then show ?thesis using ids_ok_take [OF m_up.IH Cons m_up.hyps(2)] by blast
  qed
next
  case (m_down s U conn peer s')
  show ?case
  proof (cases "context_of s conn")
    case None
    then have "s' = s" using m_down.hyps(3) by (simp add: onClientConnection_def)
    then show ?thesis using m_down.IH None unfolding ids_ok_def by auto
  next
    case (Some i)
    then obtain s1 where s1: "sendBackendString sys i DISCONN (conn_text i peer '' is DOWN'') s = Some s1"
      "s' = s1\<lparr>availIds := availIds s1 @ [i], clientConnections := (clientConnections s1)(i := None)\<rparr>"
      using m_down.hyps(3) by (auto simp: onClientConnection_def)
    then have "ids_of s' = (availIds s @ [i], (clientConnections s)(i := None), context_of s)"
      using send_ids(2) [OF s1(1)] by (simp add: ids_of_def)
    then show ?thesis using ids_ok_give [OF m_down.IH m_down.hyps(2) Some] by blast
  qed
next
  case (m_client s U conn s')
  then show ?case using ids_ok_cong [OF onClientMessage_ids] by blast
next
  case (m_backend s U type ident msg s')
  then have "ids_of s' = ids_of s" by (auto simp: sendClientString_def split: if_splits option.splits)
  then show ?case using m_backend.IH ids_ok_cong by blast
qed

text \<open>C36: While the backend does not disconnect clients itself, over every sequence of clients coming and going and messages both
  ways: the id of a client that is up leads back to exactly this client, no two have the same, none is in the queue of free ids, and no id is ever lost or
  in the queue twice.\<close>

theorem mux_ids:
  assumes "mux_reach sys s U"
  shows "(\<forall>c \<in> U. \<forall>i. context_of s c = Some i \<longrightarrow> clientConnections s i = Some c \<and> i \<notin> set (availIds s)) \<and>
    (\<forall>c \<in> U. \<forall>d \<in> U. c \<noteq> d \<longrightarrow> context_of s c = None \<or> context_of s c \<noteq> context_of s d) \<and>
    distinct (availIds s) \<and> set (availIds s) \<union> dom (clientConnections s) = {0..<int MAX_CONNS}"
proof -
  note a = mux_reach_ok [OF assms, unfolded ids_ok_def]
  have l: "clientConnections s i = Some c" if "c \<in> U" "context_of s c = Some i" for c i using a that by blast
  have "i \<notin> set (availIds s)" if "c \<in> U" "context_of s c = Some i" for c i
    using ids_ok_free [OF mux_reach_ok [OF assms]] l [OF that] by blast
  moreover have "context_of s c = None \<or> context_of s c \<noteq> context_of s d" if "c \<in> U" "d \<in> U" "c \<noteq> d" for c d
    using l [OF that(1)] l [OF that(2)] that(3) by (cases "context_of s c") auto
  ultimately show ?thesis using a l by blast
qed

lemma sendBackendString_idle:
  assumes "backendConnection s = Some k" "conn_state (conn_store s k) \<noteq> kConnected" "length msg < MAX_PACKET_LEN"
  shows "sendBackendString sys ident type msg s = Some (put_conn k (conn_store s k) s)"
proof -
  obtain b1 where b1: "append_buf [type] (mk_buffer kInitialSize) = Some b1" "wf_buffer b1" "kCheapPrepend \<le> prependableBytes b1" "content b1 = [type]"
    using append_room [of "mk_buffer kInitialSize" "[type]"] by (auto simp: mk_buffer_geometry)
  obtain b2 where b2: "append_buf msg b1 = Some b2" "wf_buffer b2" "kCheapPrepend \<le> prependableBytes b2" "content b2 = type # msg"
    using append_room [OF b1(2,3), of msg] b1(4) by auto
  have r: "readableBytes b2 = length msg + 1" using length_content [OF b2(2)] b2(4) by simp
  let ?h = "mem_of (hostToNetwork32 (word_of_int (int (readableBytes b2)) - 1)) @ mem_of (hostToNetwork32 (word_of_int ident))"
  obtain b3 where "prepend ?h b2 = Some b3" using prepend_header [OF b2(2,3), of ?h] by auto
  then show ?thesis using assms b1(1) b2(1) r by (simp add: sendBackendString_def sendBackendPacket_def Let_def send_buffer_def)
qed

theorem mux_ids_witness:
  "\<exists>s. mux_reach (\<lambda>_ _. Inl 0) s {3} \<and> context_of s 3 = Some 0 \<and> clientConnections s 0 = Some 3 \<and> 0 \<notin> set (availIds s) \<and>
     set (availIds s) \<union> dom (clientConnections s) = {0..<65535}"
proof -
  let ?sys = "\<lambda>_ _. Inl 0 :: int + nat" and ?m = "Multiplexer (\<lambda>_. mk_tcp_conn 5)"
  let ?s0 = "?m\<lparr>backendConnection := Some 0, availIds := map int [0..<MAX_CONNS]\<rparr>"
  have "onBackendConnection True 0 ?m = Some ?s0" by (simp add: onBackendConnection_def Multiplexer_def)
  then have r0: "mux_reach ?sys ?s0 {}" by (rule m_start)
  have a: "availIds ?s0 = 0 # map int [1..<MAX_CONNS]"
  proof -
    have "[0..<MAX_CONNS] = 0 # [1..<MAX_CONNS]" by (subst upt_conv_Cons) (simp_all add: MAX_CONNS_def)
    then show ?thesis by (simp del: upt_Suc)
  qed
  define s1 where "s1 = ?s0\<lparr>availIds := map int [1..<MAX_CONNS], clientConnections := [0 \<mapsto> 3], context_of := [3 \<mapsto> 0]\<rparr>"
  have t: "length (conn_text 0 ''p'' '' IS UP'') < MAX_PACKET_LEN" by (simp add: conn_text_def const_defs)
  have "sendBackendString ?sys 0 CONN (conn_text 0 ''p'' '' IS UP'') s1 = Some (put_conn 0 (conn_store s1 0) s1)"
    by (rule sendBackendString_idle [OF _ _ t]) (simp_all add: s1_def Multiplexer_def mk_tcp_conn_def)
  moreover have "?s0\<lparr>availIds := map int [1..<MAX_CONNS], clientConnections := (clientConnections ?s0)(0 \<mapsto> 3), context_of := (context_of ?s0)(3 \<mapsto> 0)\<rparr> = s1"
    by (simp add: s1_def Multiplexer_def)
  ultimately have u: "onClientConnection ?sys True 3 ''p'' ?s0 = Some (put_conn 0 (conn_store s1 0) s1)"
    unfolding onClientConnection_def a by (simp add: Let_def)
  have r: "mux_reach ?sys (put_conn 0 (conn_store s1 0) s1) {3}"
    using m_up [OF r0 _ _ u] by (simp add: Multiplexer_def)
  have c: "context_of (put_conn 0 (conn_store s1 0) s1) 3 = Some 0" by (simp add: put_conn_def s1_def)
  from mux_ids [OF r] c have "clientConnections (put_conn 0 (conn_store s1 0) s1) 0 = Some 3 \<and> 0 \<notin> set (availIds (put_conn 0 (conn_store s1 0) s1)) \<and>
      set (availIds (put_conn 0 (conn_store s1 0) s1)) \<union> dom (clientConnections (put_conn 0 (conn_store s1 0) s1)) = {0..<65535}"
    by (simp add: MAX_CONNS_def)
  with r c show ?thesis by blast
qed

text \<open>When the backend disconnects a client, the id is given back at once, and again when the connection goes down; in
  between another client may have got it, and then loses its entry.\<close>

lemma mux_id_twice:
  assumes "clientConnections s i = Some c" "context_of s c = Some i" "sendClientString sys i DISCONN msg s = Some s1"
    and "onClientConnection sys False c peer s1 = Some s2"
  shows "availIds s2 = availIds s @ [i, i]"
proof -
  have d: "DISCONN \<noteq> MSG" by (simp add: DISCONN_def MSG_def)
  have s1: "availIds s1 = availIds s @ [i]" "context_of s1 = context_of s"
    using assms(1,3) d by (auto simp: sendClientString_def Let_def put_conn_def)
  obtain s' where "sendBackendString sys i DISCONN (conn_text i peer '' is DOWN'') s1 = Some s'" "availIds s2 = availIds s' @ [i]"
    using assms(2,4) s1(2) by (auto simp: onClientConnection_def)
  then show ?thesis using send_ids(2) s1(1) by (fastforce simp: ids_of_def)
qed

lemma mux_id_stolen:
  assumes "context_of s c = Some i" "onClientConnection sys False c peer s = Some s'"
  shows "clientConnections s' i = None"
  using assms by (auto simp: onClientConnection_def)

end
