(* ===== verification/Ex_Protobuf.thy ===== *)
theory Ex_Protobuf
  imports Ex_Common
begin

section \<open>Messages of any type: \<open>examples/protobuf/\<close>\<close>

text \<open>
  Wire format: a length, the length of the type's name, the name with its NUL, the serialized message, and an Adler-32 checksum of
  the part between. The arguments \<open>type_name\<close>, \<open>ser\<close> and \<open>create\<close> are protobuf: the name of a message's type, its
  bytes, and the factory, which gives for the name of a known type the parser into a new message of it.
\<close>

datatype x_error = X_NoError | X_InvalidLength | X_CheckSumError | X_InvalidNameLen | X_UnknowMessageType | X_ParseError

fun x_errorCodeToString :: "x_error \<Rightarrow> string" where
  "x_errorCodeToString X_NoError = ''NoError''"
| "x_errorCodeToString X_InvalidLength = ''InvalidLength''"
| "x_errorCodeToString X_CheckSumError = ''CheckSumError''"
| "x_errorCodeToString X_InvalidNameLen = ''InvalidNameLen''"
| "x_errorCodeToString X_UnknowMessageType = ''UnknowMessageTypeError''"
| "x_errorCodeToString X_ParseError = ''ParseError''"

definition x_kHeaderLen :: int where [const_defs]: "x_kHeaderLen = 4"
definition x_kMinMessageLen :: int where [const_defs]: "x_kMinMessageLen = 2 * x_kHeaderLen + 2"
definition x_kMaxMessageLen :: int where [const_defs]: "x_kMaxMessageLen = 64 * 1024 * 1024"

text \<open>Whether \<open>errorCallback_\<close> is set. The constructor takes an error callback and does not store it.\<close>

record x_codec =
  errorCallback :: bool

definition mk_x_codec :: x_codec where "mk_x_codec = \<lparr>errorCallback = False\<rparr>"

definition x_parse :: "adler \<Rightarrow> (string \<Rightarrow> (bytes \<Rightarrow> 'm option) option) \<Rightarrow> bytes \<Rightarrow> int \<Rightarrow> x_error + 'm" where
  "x_parse adler32 create mem len =
     (let expectCheckSum = asInt32 (drop (nat (len - x_kHeaderLen)) mem);
          checkSum = checksum adler32 mem (len - x_kHeaderLen)
      in if checkSum = expectCheckSum
         then let nameLen = asInt32 mem in
           if nameLen \<ge> 2 \<and> nameLen \<le> len - 2 * x_kHeaderLen
           then let typeName = take (nat (nameLen - 1)) (drop (nat x_kHeaderLen) mem) in
             (case create typeName of
                Some parser \<Rightarrow>
                  let data = drop (nat (x_kHeaderLen + nameLen)) mem; dataLen = len - nameLen - 2 * x_kHeaderLen in
                  (case parser (take (nat dataLen) data) of Some message \<Rightarrow> Inr message | None \<Rightarrow> Inl X_ParseError)
              | None \<Rightarrow> Inl X_UnknowMessageType)
           else Inl X_InvalidLength
         else Inl X_CheckSumError)"

text \<open>A call of \<open>errorCallback_\<close>: an empty \<open>std::function\<close> throws, which ends the process.\<close>

definition x_failed :: "x_codec \<Rightarrow> bool \<Rightarrow> x_error \<Rightarrow> buffer \<Rightarrow> (bool \<times> ('m, x_error) codec_event list \<times> buffer) option" where
  "x_failed k go_on e b = (if errorCallback k then Some (go_on, [Failed e], b) else None)"

text \<open>One pass of the loop of \<open>onMessage\<close>; after an invalid length the loop goes on.\<close>

definition x_body :: "adler \<Rightarrow> (string \<Rightarrow> (bytes \<Rightarrow> 'm option) option) \<Rightarrow> x_codec \<Rightarrow> ('m, x_error) loop_body" where
  "x_body adler32 create k b =
     (if int (readableBytes b) \<ge> x_kMinMessageLen + x_kHeaderLen
      then do {
        w \<leftarrow> peekInt32 b;
        let len = sint w;
        if len > x_kMaxMessageLen \<or> len < x_kMinMessageLen then x_failed k True X_InvalidLength b
        else if readableBytes b \<ge> nat (len + x_kHeaderLen)
        then (case x_parse adler32 create (bytes_between (peek b + nat x_kHeaderLen) (beginWrite b) b) len of
                Inr message \<Rightarrow> do { b \<leftarrow> retrieve (nat (x_kHeaderLen + len)) b; Some (True, [Deliver message], b) }
              | Inl errorCode \<Rightarrow> x_failed k False errorCode b)
        else Some (False, [], b) }
      else Some (False, [], b))"

definition x_onMessage :: "adler \<Rightarrow> (string \<Rightarrow> (bytes \<Rightarrow> 'm option) option) \<Rightarrow> x_codec \<Rightarrow> buffer \<Rightarrow> (('m, x_error) codec_event list \<times> buffer) option" where
  "x_onMessage adler32 create k b = buffer_loop (x_body adler32 create k) [] b"

definition x_fillEmptyBuffer :: "adler \<Rightarrow> ('m \<Rightarrow> string) \<Rightarrow> ('m \<Rightarrow> bytes) \<Rightarrow> 'm \<Rightarrow> buffer \<Rightarrow> buffer option" where
  "x_fillEmptyBuffer adler32 type_name ser message buff =
     (let typeName = type_name message; nameLen = to_int32 (int (length typeName) + 1) in
      do { buff \<leftarrow> appendInt32 (word_of_int nameLen) buff;
           buff \<leftarrow> append_buf (take (nat nameLen) (typeName @ [CHR 0x00])) buff;
           let byteSize = to_int32 (int (length (ser message)));
           buff \<leftarrow> ensureWritableBytes (nat byteSize) buff;
           buff \<leftarrow> hasWritten (nat byteSize) (buff\<lparr>buf := write_at (beginWrite buff) (ser message) (buf buff)\<rparr>);
           let checkSum = checksum adler32 (bytes_between (peek buff) (beginWrite buff) buff) (to_int32 (int (readableBytes buff)));
           buff \<leftarrow> appendInt32 (word_of_int checkSum) buff;
           let len = hostToNetwork32 (word_of_int (to_int32 (int (readableBytes buff))));
           prepend (mem_of len) buff })"

definition x_send :: "adler \<Rightarrow> ('m \<Rightarrow> string) \<Rightarrow> ('m \<Rightarrow> bytes) \<Rightarrow> sys_write \<Rightarrow> 'm \<Rightarrow> tcp_conn \<Rightarrow> tcp_conn option" where
  "x_send adler32 type_name ser sys message conn =
     do { buff \<leftarrow> x_fillEmptyBuffer adler32 type_name ser message (mk_buffer kInitialSize);
          (conn, buff) \<leftarrow> send_buffer True sys buff conn; Some conn }"

definition x_defaultErrorCallback :: "tcp_conn \<Rightarrow> tcp_conn" where
  "x_defaultErrorCallback conn = (if connected conn then shutdown True conn else conn)"

subsection \<open>\<open>Dispatcher\<close>\<close>

text \<open>The callbacks by descriptor, here the name of the type.\<close>

record 'm dispatcher =
  callbacks :: "string \<Rightarrow> ('m \<Rightarrow> string) option"
  defaultCallback :: "'m \<Rightarrow> string"

definition registerMessageCallback :: "string \<Rightarrow> ('m \<Rightarrow> string) \<Rightarrow> 'm dispatcher \<Rightarrow> 'm dispatcher" where
  "registerMessageCallback descriptor callback d = d\<lparr>callbacks := (callbacks d)(descriptor \<mapsto> callback)\<rparr>"

definition onProtobufMessage :: "('m \<Rightarrow> string) \<Rightarrow> 'm \<Rightarrow> 'm dispatcher \<Rightarrow> string" where
  "onProtobufMessage type_name msg d = (case callbacks d (type_name msg) of Some cb \<Rightarrow> cb msg | None \<Rightarrow> defaultCallback d msg)"

subsection \<open>The wire format\<close>

definition x_payload :: "('m \<Rightarrow> string) \<Rightarrow> ('m \<Rightarrow> bytes) \<Rightarrow> 'm \<Rightarrow> bytes" where
  "x_payload type_name ser m = be32 (int (length (type_name m)) + 1) @ type_name m @ [CHR 0x00] @ ser m"

definition x_frame :: "adler \<Rightarrow> ('m \<Rightarrow> string) \<Rightarrow> ('m \<Rightarrow> bytes) \<Rightarrow> 'm \<Rightarrow> bytes" where
  "x_frame adler32 type_name ser m =
     (let p = x_payload type_name ser m in be32 (int (length p) + 4) @ p @ be32 (sint (ucast (adler32 1 p) :: 32 word)))"

definition x_sendable where
  "x_sendable type_name ser create m \<longleftrightarrow> type_name m \<noteq> [] \<and> int (length (x_payload type_name ser m)) + 4 \<le> x_kMaxMessageLen
     \<and> (\<exists>parser. create (type_name m) = Some parser \<and> parser (ser m) = Some m)"

definition x_scan :: "adler \<Rightarrow> (string \<Rightarrow> (bytes \<Rightarrow> 'm option) option) \<Rightarrow> bytes \<Rightarrow> ('m, x_error) scan_result" where
  "x_scan adler32 create s =
     (if length s < 14 then More
      else let len = asInt32 s; n = nat (4 + len) in
        if len > x_kMaxMessageLen \<or> len < x_kMinMessageLen then Bad X_InvalidLength
        else if length s < n then More
        else (case x_parse adler32 create (drop 4 (take n s)) len of Inr m \<Rightarrow> Frame [m] n | Inl e \<Rightarrow> Bad e))"

lemma x_scan_more: "x_scan adler32 create s \<noteq> More \<Longrightarrow> x_scan adler32 create (s @ u) = x_scan adler32 create s"
proof -
  assume m: "x_scan adler32 create s \<noteq> More"
  then have s: "14 \<le> length s" by (simp add: x_scan_def split: if_splits)
  then have a: "asInt32 (s @ u) = asInt32 s" by (intro asInt32_append) simp
  show ?thesis
  proof (cases "asInt32 s > x_kMaxMessageLen \<or> asInt32 s < x_kMinMessageLen")
    case True
    with a s show ?thesis by (simp add: x_scan_def Let_def)
  next
    case False
    with m s have "nat (4 + asInt32 s) \<le> length s" by (simp add: x_scan_def Let_def split: if_splits)
    with a s show ?thesis by (simp add: x_scan_def Let_def)
  qed
qed

lemma x_int32: "0 \<le> n \<Longrightarrow> n \<le> x_kMaxMessageLen \<Longrightarrow> signed_take_bit 31 n = n \<and> to_int32 n = n \<and> n mod 2 ^ 32 = n"
  by (simp add: const_defs signed_take_bit_int_eq_self)

lemma x_parse_frame:
  assumes "x_sendable type_name ser create m"
  shows "x_parse adler32 create (x_payload type_name ser m @ be32 (sint (ucast (adler32 1 (x_payload type_name ser m)) :: 32 word)) @ u)
           (int (length (x_payload type_name ser m)) + 4) = Inr m"
proof -
  let ?p = "x_payload type_name ser m"
  let ?c = "sint (ucast (adler32 1 ?p) :: 32 word)" and ?n = "int (length (type_name m)) + 1"
  define mem where "mem = ?p @ be32 ?c @ u"
  define len where "len = int (length ?p) + 4"
  obtain parser where a: "type_name m \<noteq> []" "len \<le> x_kMaxMessageLen" "create (type_name m) = Some parser" "parser (ser m) = Some m"
    using assms by (auto simp: x_sendable_def len_def)
  have lp: "int (length ?p) = 4 + ?n + int (length (ser m))" by (simp add: x_payload_def)
  have "(len - 4) mod 2 ^ 32 = len - 4" using x_int32 [of "len - 4"] a(2) by (simp add: len_def)
  then have cs: "checksum adler32 mem (len - 4) = ?c" by (simp add: checksum_def len_def mem_def)
  have "signed_take_bit 31 ?c = ?c" by (rule signed_take_bit_int_eq_self) (use sint_ge [of "ucast (adler32 1 ?p) :: 32 word"] sint_lt [of "ucast (adler32 1 ?p) :: 32 word"] in simp_all)
  then have ex: "asInt32 (drop (nat (len - 4)) mem) = ?c" by (simp add: mem_def len_def)
  have nl: "asInt32 mem = ?n" using x_int32 [of ?n] a(2) lp by (simp add: mem_def x_payload_def len_def)
  have tn: "take (nat (?n - 1)) (drop 4 mem) = type_name m" by (simp add: mem_def x_payload_def)
  have d: "take (nat (len - ?n - 8)) (drop (nat (4 + ?n)) mem) = ser m"
  proof -
    have "nat (4 + ?n) = length (be32 ?n @ type_name m @ [CHR 0x00])" by simp
    moreover have "mem = (be32 ?n @ type_name m @ [CHR 0x00]) @ ser m @ be32 ?c @ u" by (simp add: mem_def x_payload_def)
    moreover have "drop (length x) (x @ y) = y" for x y :: bytes by simp
    ultimately have "drop (nat (4 + ?n)) mem = ser m @ be32 ?c @ u" by metis
    moreover have "nat (len - ?n - 8) = length (ser m)" using lp by (simp add: len_def)
    ultimately show ?thesis by simp
  qed
  have "1 \<le> int (length (type_name m))" using a(1) by (cases "type_name m") simp_all
  then have "x_parse adler32 create mem len = Inr m"
    using cs ex nl tn d a(3,4) lp by (simp add: x_parse_def Let_def x_kHeaderLen_def len_def)
  then show ?thesis by (simp add: mem_def len_def)
qed

lemma asInt32_take: "i + 4 \<le> n \<Longrightarrow> asInt32 (drop i (take n p)) = asInt32 (drop i p)"
  by (simp add: asInt32_def drop_take min_def)

lemma x_parse_take:
  assumes "10 \<le> n" "n \<le> length p" "int n \<le> x_kMaxMessageLen"
  shows "x_parse adler32 create (take n p) (int n) = x_parse adler32 create p (int n)"
proof -
  have a: "asInt32 (drop (nat (int n - x_kHeaderLen)) (take n p)) = asInt32 (drop (nat (int n - x_kHeaderLen)) p)"
    by (rule asInt32_take) (use assms in \<open>simp add: const_defs nat_diff_distrib\<close>)
  have h: "asInt32 (take n p) = asInt32 p" using asInt32_take [of 0 n p] assms(1) by simp
  have m: "(int n - x_kHeaderLen) mod 2 ^ 32 = int n - x_kHeaderLen" using assms by (simp add: const_defs)
  have c: "checksum adler32 (take n p) (int n - x_kHeaderLen) = checksum adler32 p (int n - x_kHeaderLen)"
    unfolding checksum_def m using assms by (simp add: min_def nat_le_iff const_defs)
  have d: "take (nat (nl - 1)) (drop (nat x_kHeaderLen) (take n p)) = take (nat (nl - 1)) (drop (nat x_kHeaderLen) p)"
      "take (nat (int n - nl - 2 * x_kHeaderLen)) (drop (nat (x_kHeaderLen + nl)) (take n p))
        = take (nat (int n - nl - 2 * x_kHeaderLen)) (drop (nat (x_kHeaderLen + nl)) p)"
    if "2 \<le> nl \<and> nl \<le> int n - 2 * x_kHeaderLen" for nl :: int
  proof -
    have "nat (nl - 1) \<le> n - 4" "nat (int n - nl - 8) \<le> n - nat (4 + nl)" using that assms(1) by (simp_all add: const_defs; linarith)+
    then show "take (nat (nl - 1)) (drop (nat x_kHeaderLen) (take n p)) = take (nat (nl - 1)) (drop (nat x_kHeaderLen) p)"
      "take (nat (int n - nl - 2 * x_kHeaderLen)) (drop (nat (x_kHeaderLen + nl)) (take n p))
        = take (nat (int n - nl - 2 * x_kHeaderLen)) (drop (nat (x_kHeaderLen + nl)) p)"
      by (simp_all add: drop_take const_defs min_def)
  qed
  show ?thesis unfolding x_parse_def a h c using d [of "asInt32 p"] by (auto simp: Let_def split: option.split)
qed

lemma x_scan_frame:
  assumes "x_sendable type_name ser create m"
  shows "x_scan adler32 create (x_frame adler32 type_name ser m @ u) = Frame [m] (length (x_frame adler32 type_name ser m))"
proof -
  let ?f = "x_frame adler32 type_name ser m" and ?p = "x_payload type_name ser m"
  let ?c = "sint (ucast (adler32 1 ?p) :: 32 word)"
  define len where "len = int (length ?p) + 4"
  have f: "?f = be32 len @ ?p @ be32 ?c" by (simp add: x_frame_def Let_def len_def)
  have "1 \<le> length (type_name m)" using assms by (cases "type_name m") (simp_all add: x_sendable_def)
  then have p: "6 \<le> length ?p" by (simp add: x_payload_def)
  have b: "len \<le> x_kMaxMessageLen" "10 \<le> len" using assms p by (simp_all add: len_def x_sendable_def)
  then have l: "asInt32 (?f @ u) = len" using x_int32 [of len] by (simp add: f)
  have n: "nat (4 + len) = length ?f" "length ?f = length ?p + 8" by (simp_all add: len_def f)
  have q: "drop 4 ?f = ?p @ be32 ?c" by (simp add: f)
  have "x_parse adler32 create (?p @ be32 ?c) len = Inr m"
    using x_parse_frame [OF assms, of adler32 "[]"] by (simp add: len_def)
  then show ?thesis using b l n q p by (simp add: x_scan_def Let_def x_kMinMessageLen_def x_kHeaderLen_def)
qed

interpretation xp: framing "x_scan adler32 create" "x_frame adler32 type_name ser" "x_sendable type_name ser create"
  for adler32 create type_name ser
proof
  show "x_scan adler32 create s = Frame ms n \<Longrightarrow> 0 < n \<and> n \<le> length s" for s ms n
    by (auto simp: x_scan_def Let_def const_defs split: if_splits sum.splits)
  show "x_scan adler32 create s = Frame ms n \<Longrightarrow> x_scan adler32 create (s @ u) = Frame ms n" for s ms n u
    by (simp add: x_scan_more)
  show "x_scan adler32 create s = Bad e \<Longrightarrow> x_scan adler32 create (s @ u) = Bad e" for s e u
    by (simp add: x_scan_more)
  show "x_sendable type_name ser create m \<Longrightarrow> x_scan adler32 create (x_frame adler32 type_name ser m @ u) = Frame [m] (length (x_frame adler32 type_name ser m))" for m u
    by (rule x_scan_frame)
  show "x_scan adler32 create [] = More" by (simp add: x_scan_def)
qed

text \<open>The body of the loop on the bytes of the buffer: as the scan says, and what it does on an error.\<close>

lemma x_body_cases:
  assumes w: "wf_buffer b"
  shows "case x_scan adler32 create (content b) of
      More \<Rightarrow> x_body adler32 create k b = Some (False, [], b)
    | Frame ms n \<Rightarrow> \<exists>b'. x_body adler32 create k b = Some (True, map Deliver ms, b') \<and> wf_buffer b' \<and> content b' = drop n (content b)
    | Bad e \<Rightarrow> \<exists>go_on. x_body adler32 create k b = x_failed k go_on e b \<and>
        (asInt32 (content b) > x_kMaxMessageLen \<or> asInt32 (content b) < x_kMinMessageLen \<longrightarrow> go_on)"
proof -
  let ?s = "content b" and ?body = "x_body adler32 create k b"
  have r: "readableBytes b = length ?s" using length_content [OF w] by simp
  show ?thesis
  proof (cases "length ?s < 14")
    case True
    then show ?thesis using r by (simp add: x_scan_def x_body_def const_defs)
  next
    case False
    then have g: "int (readableBytes b) \<ge> x_kMinMessageLen + x_kHeaderLen" using r by (simp add: const_defs)
    define len where "len = asInt32 ?s"
    obtain w' where p: "peekInt32 b = Some w'" "sint w' = len" using peek_len32 [OF w] False by (auto simp: len_def)
    show ?thesis
    proof (cases "len > x_kMaxMessageLen \<or> len < x_kMinMessageLen")
      case True
      with False p g show ?thesis by (auto simp: x_scan_def x_body_def Let_def len_def)
    next
      case ok: False
      define n where "n = nat (4 + len)"
      have mn: "x_kMinMessageLen = 10" by (simp add: const_defs)
      have n: "nat (len + x_kHeaderLen) = n" "nat (x_kHeaderLen + len) = n" "int n = 4 + len"
        using ok mn by (simp_all add: n_def x_kHeaderLen_def add.commute [of len 4] del: nat_add_distrib)
      show ?thesis
      proof (cases "length ?s < n")
        case True
        with False p g ok n r show ?thesis by (simp add: x_scan_def x_body_def Let_def len_def n_def)
      next
        case full: False
        obtain b' where b': "retrieve n b = Some b'" "wf_buffer b'" "content b' = drop n ?s"
          using retrieve_front [OF w append_take_drop_id [symmetric], of n n] full by (metis length_take min_absorb2 not_less)
        have rest: "bytes_between (peek b + nat x_kHeaderLen) (beginWrite b) b = drop 4 ?s"
          by (simp add: bytes_between_def content_def peek_def beginWrite_def const_defs drop_take add.commute)
        have "n - 4 = nat len" using n(3) by linarith
        then have "drop 4 (take n ?s) = take (nat len) (drop 4 ?s)" by (simp add: drop_take)
        moreover have "x_parse adler32 create (take (nat len) (drop 4 ?s)) (int (nat len)) = x_parse adler32 create (drop 4 ?s) (int (nat len))"
          by (rule x_parse_take) (use ok mn full n in auto)
        ultimately have pp: "x_parse adler32 create (drop 4 (take n ?s)) len = x_parse adler32 create (drop 4 ?s) len"
          using ok mn by simp
        show ?thesis
          using False p g ok n r full b' rest pp
          by (auto simp: x_scan_def x_body_def Let_def len_def n_def split: sum.split)
      qed
    qed
  qed
qed

lemma x_body_reads: "body_reads (x_body adler32 create k) (x_scan adler32 create)"
  unfolding body_reads_def using x_body_cases [of _ adler32 create k] by (fastforce split: scan_result.splits)

lemma x_fill_frame:
  assumes "x_sendable type_name ser create m"
  shows "\<exists>b'. x_fillEmptyBuffer adler32 type_name ser m (mk_buffer kInitialSize) = Some b' \<and> wf_buffer b'
    \<and> content b' = x_frame adler32 type_name ser m"
proof -
  let ?p = "x_payload type_name ser m" and ?n = "int (length (type_name m)) + 1"
  let ?c = "sint (ucast (adler32 1 ?p) :: 32 word)"
  have lp: "int (length ?p) = 4 + ?n + int (length (ser m))" by (simp add: x_payload_def)
  have mx: "int (length ?p) + 4 \<le> x_kMaxMessageLen" using assms by (simp add: x_sendable_def)
  have sz: "to_int32 ?n = ?n" "to_int32 (int (length (ser m))) = int (length (ser m))" "to_int32 (int (length ?p)) = int (length ?p)"
    "to_int32 (int (length ?p) + 4) = int (length ?p) + 4" "int (length ?p) mod 2 ^ 32 = int (length ?p)"
  proof -
    have k: "0 \<le> n \<Longrightarrow> n \<le> x_kMaxMessageLen \<Longrightarrow> to_int32 n = n" "0 \<le> n \<Longrightarrow> n \<le> x_kMaxMessageLen \<Longrightarrow> n mod 2 ^ 32 = n" for n
      using x_int32 by blast+
    show "to_int32 ?n = ?n" "to_int32 (int (length (ser m))) = int (length (ser m))" by (rule k(1); use mx lp in linarith)+
    show "to_int32 (int (length ?p)) = int (length ?p)" "to_int32 (int (length ?p) + 4) = int (length ?p) + 4" by (rule k(1); use mx in linarith)+
    show "int (length ?p) mod 2 ^ 32 = int (length ?p)" by (rule k(2)) (use mx in linarith)+
  qed
  obtain b1 where b1: "append_buf (be32 ?n) (mk_buffer kInitialSize) = Some b1" "wf_buffer b1" "kCheapPrepend \<le> prependableBytes b1" "content b1 = be32 ?n"
    using append_room [of "mk_buffer kInitialSize" "be32 ?n"] by (auto simp: mk_buffer_geometry)
  have nm: "take (nat ?n) (type_name m @ [CHR 0x00]) = type_name m @ [CHR 0x00]" by simp
  obtain b2 where b2: "append_buf (type_name m @ [CHR 0x00]) b1 = Some b2" "wf_buffer b2" "kCheapPrepend \<le> prependableBytes b2"
      "content b2 = be32 ?n @ type_name m @ [CHR 0x00]"
    using append_room [OF b1(2,3), of "type_name m @ [CHR 0x00]"] b1(4) by auto
  obtain b3 where b3: "ensureWritableBytes (length (ser m)) b2 = Some b3" "wf_buffer b3" "content b3 = content b2" "length (ser m) \<le> writableBytes b3"
    using ensureWritableBytes_contract [OF b2(2)] by metis
  have r3: "kCheapPrepend \<le> prependableBytes b3" using room_kept(2) [OF b3(1) b2(3)] .
  obtain b4 where b4: "hasWritten (length (ser m)) (b3\<lparr>buf := write_at (beginWrite b3) (ser m) (buf b3)\<rparr>) = Some b4"
      "wf_buffer b4" "content b4 = ?p" "prependableBytes b4 = prependableBytes b3"
    using write_contract [OF b3(2,4)] b3(3) b2(4) by (metis append_assoc x_payload_def)
  have l4: "readableBytes b4 = length ?p" using length_content [OF b4(2)] b4(3) by simp
  have c: "checksum adler32 (content b4) (int (length ?p)) = ?c" by (simp only: checksum_def sz(5) b4(3)) simp
  obtain b5 where b5: "append_buf (be32 ?c) b4 = Some b5" "wf_buffer b5" "kCheapPrepend \<le> prependableBytes b5" "content b5 = ?p @ be32 ?c"
    using append_room [OF b4(2), of "be32 ?c"] b4(3,4) r3 by auto
  have l5: "int (readableBytes b5) = int (length ?p) + 4" using length_content [OF b5(2)] b5(4) by simp
  obtain b6 where b6: "prepend (be32 (int (length ?p) + 4)) b5 = Some b6" "wf_buffer b6" "content b6 = be32 (int (length ?p) + 4) @ ?p @ be32 ?c"
    using prepend_header [OF b5(2,3), of "be32 (int (length ?p) + 4)"] b5(4) by auto
  have ae: "appendInt32 (word_of_int x) = append_buf (be32 x)" for x by (simp add: fun_eq_iff appendInt32_def be32_def)
  have "x_fillEmptyBuffer adler32 type_name ser m (mk_buffer kInitialSize) = Some b6"
    unfolding x_fillEmptyBuffer_def Let_def sz(1,2) nm ae be32_def [symmetric]
    using b1(1) b2(1) b3(1) b4(1) b5(1) b6(1) l5 c
    by (simp add: content_peek_all l4 sz)
  with b6 show ?thesis by (simp add: x_frame_def Let_def)
qed

text \<open>C38: What one codec sends another receives, for messages of any types the factory knows: if the bytes of the buffers that
  \<open>fillEmptyBuffer\<close> makes arrive in any segments, \<open>onMessage\<close>, called after each segment, always returns, delivers exactly these
  messages in order, calls no error callback (which is not even set), and has consumed everything at the end.\<close>

theorem x_stream_roundtrip:
  assumes "\<forall>m \<in> set ms. x_sendable type_name ser create m"
    and "list_all2 (\<lambda>m f. \<exists>b. x_fillEmptyBuffer adler32 type_name ser m (mk_buffer kInitialSize) = Some b \<and> content b = f) ms fs"
    and "concat ds = concat fs"
  shows "\<exists>b. feed (x_body adler32 create mk_x_codec) ds [] (mk_buffer n) = Some (map Deliver ms, b) \<and> content b = []"
proof -
  have "fs = map (x_frame adler32 type_name ser) ms"
    using assms(2,1)
  proof (induction rule: list_all2_induct)
    case (Cons m ms f fs)
    with x_fill_frame [of type_name ser create m adler32] show ?case by auto
  qed simp
  then have d: "decode (x_scan adler32 create) (content (mk_buffer n) @ concat ds) = (ms, [], None)"
    using xp.decode_frames [OF assms(1)] assms(3) by (simp add: mk_buffer_geometry)
  have "decode (x_scan adler32 create) (content (mk_buffer n)) = ([], content (mk_buffer n), None)"
    by (simp add: xp.decode_step x_scan_def mk_buffer_geometry)
  from xp.feed_frames [OF x_body_reads assms(1) wf_mk_buffer this d, of mk_x_codec "[]"] show ?thesis
    by auto
qed

theorem x_stream_roundtrip_witness:
  "\<exists>b1 b2 b. x_fillEmptyBuffer (\<lambda>a d. a + of_nat (length d)) (\<lambda>_. ''Q'') id ''ab'' (mk_buffer kInitialSize) = Some b1
     \<and> x_fillEmptyBuffer (\<lambda>a d. a + of_nat (length d)) (\<lambda>_. ''Q'') id ''c'' (mk_buffer kInitialSize) = Some b2
     \<and> feed (x_body (\<lambda>a d. a + of_nat (length d)) [''Q'' \<mapsto> Some] mk_x_codec)
          [take 3 (content b1), drop 3 (content b1) @ content b2] [] (mk_buffer 10) = Some ([Deliver ''ab'', Deliver ''c''], b)"
proof -
  let ?ad = "\<lambda>a d. a + of_nat (length d) :: 64 word" and ?tn = "\<lambda>_. ''Q''" and ?cr = "[''Q'' \<mapsto> Some] :: string \<Rightarrow> (bytes \<Rightarrow> bytes option) option"
  have ok: "\<forall>m \<in> set [''ab'', ''c'']. x_sendable ?tn id ?cr m" by (simp add: x_sendable_def x_payload_def const_defs)
  obtain b1 where b1: "x_fillEmptyBuffer ?ad ?tn id ''ab'' (mk_buffer kInitialSize) = Some b1"
    using x_fill_frame [of ?tn id ?cr "''ab''" ?ad] ok by auto
  obtain b2 where b2: "x_fillEmptyBuffer ?ad ?tn id ''c'' (mk_buffer kInitialSize) = Some b2"
    using x_fill_frame [of ?tn id ?cr "''c''" ?ad] ok by auto
  have "\<exists>b. feed (x_body ?ad ?cr mk_x_codec) [take 3 (content b1), drop 3 (content b1) @ content b2] [] (mk_buffer 10)
      = Some (map Deliver [''ab'', ''c''], b) \<and> content b = []"
    by (rule x_stream_roundtrip [OF ok, of _ "[content b1, content b2]"]) (simp_all add: b1 b2)
  with b1 b2 show ?thesis by auto
qed

subsection \<open>Errors\<close>

text \<open>The constructor leaves \<open>errorCallback_\<close> empty, so on any stream with an error \<open>onMessage\<close> does not return.\<close>

lemma x_error_throws:
  assumes "wf_buffer b" "decode (x_scan adler32 create) (content b) = (ms, rest, Some e)"
  shows "x_onMessage adler32 create mk_x_codec b = None"
proof -
  obtain b' where b': "buffer_loop (x_body adler32 create mk_x_codec) [] b = buffer_loop (x_body adler32 create mk_x_codec) ([] @ map Deliver ms) b'"
      "wf_buffer b'" "content b' = rest"
    using xp.buffer_loop_reads [OF x_body_reads assms(2,1) refl, of mk_x_codec "[]"] by auto
  have "x_body adler32 create mk_x_codec b' = None"
    using x_body_cases [OF b'(2), of adler32 create mk_x_codec] xp.bad_left [OF assms(2)] b'(3) by (auto simp: x_failed_def mk_x_codec_def)
  with b'(1) show ?thesis by (simp add: x_onMessage_def buffer_loop.simps [of _ _ b'])
qed

text \<open>With an error callback that leaves the buffer as it is, an invalid length keeps \<open>onMessage\<close> in its loop for ever: the branch has no \<open>break\<close>.\<close>

lemma x_loop_spins:
  assumes "lb b = Some (True, es, b)"
  shows "buffer_loop lb evs b = None"
proof (rule ccontr)
  assume "buffer_loop lb evs b \<noteq> None"
  then obtain y where y: "buffer_loop lb evs b = Some y" by auto
  have "lb = lb \<longrightarrow> b \<noteq> b"
  proof (rule buffer_loop.raw_induct [where P = "\<lambda>l evs b' y. l = lb \<longrightarrow> b' \<noteq> b", OF _ y], goal_cases)
    case (1 f l evs b' y)
    show ?case
    proof (rule impI, rule notI)
      assume l: "l = lb" "b' = b"
      then have "f lb (evs @ es) b = Some y" using 1(2) assms by auto
      then show False using 1(1) [of lb "evs @ es" b y] by simp
    qed
  qed
  then show False by simp
qed

lemma x_bad_length_spins:
  assumes "wf_buffer b" "14 \<le> length (content b)" "errorCallback k"
    and "asInt32 (content b) > x_kMaxMessageLen \<or> asInt32 (content b) < x_kMinMessageLen"
  shows "x_onMessage adler32 create k b = None"
proof -
  have "x_scan adler32 create (content b) = Bad X_InvalidLength" using assms(2,4) by (auto simp: x_scan_def Let_def)
  then have "x_body adler32 create k b = Some (True, [Failed X_InvalidLength], b)"
    using x_body_cases [OF assms(1), of adler32 create k] assms(3,4) by (auto simp: x_failed_def)
  then show ?thesis by (simp add: x_onMessage_def x_loop_spins)
qed

end
