(* ===== verification/Ex_Download.thy ===== *)
theory Ex_Download
  imports Ex_Common
begin

section \<open>Sending a file: \<open>examples/filetransfer/\<close>\<close>

text \<open>
  Three servers that send a file to every client. \<open>download\<close> sends it at once; \<open>download2\<close> and \<open>download3\<close> send a piece whenever the one before
  is written, and keep the open file in the context of the connection, a \<open>FILE*\<close> or a shared pointer to it. An open file is what has not been
  read of it. The argument \<open>file\<close> is the content, \<open>None\<close> when it cannot be opened.
\<close>

definition dl_kSize :: nat where [const_defs]: "dl_kSize = 1024"

definition fread :: "bytes \<Rightarrow> bytes \<times> bytes" where
  "fread f = (take dl_kSize f, drop dl_kSize f)"

subsection \<open>\<open>download.cpp\<close>\<close>

text \<open>\<open>readFile\<close> throws when the file cannot be opened, which ends the process.\<close>

definition dl_onConnection :: "sys_write \<Rightarrow> bytes option \<Rightarrow> tcp_conn \<Rightarrow> tcp_conn option" where
  "dl_onConnection sys file conn =
     (if connected conn
      then do { fileContent \<leftarrow> file;
                conn \<leftarrow> send True sys fileContent conn;
                Some (shutdown True conn) }
      else Some conn)"

subsection \<open>\<open>download2.cpp\<close>\<close>

text \<open>The pointer in the context: null, to an open file, or to one that has been closed. Using a closed file is undefined.\<close>

datatype file_ptr = Null | Opened bytes | Freed

definition d2_onConnection :: "sys_write \<Rightarrow> bytes option \<Rightarrow> tcp_conn \<times> file_ptr option \<Rightarrow> (tcp_conn \<times> file_ptr option) option" where
  "d2_onConnection sys file = (\<lambda>(conn, context).
     if connected conn
     then let conn = setHighWaterMarkCallback (dl_kSize + 1) conn in
       (case file of
          None \<Rightarrow> Some (shutdown True conn, context)
        | Some fp \<Rightarrow>
            let (chunk, fp) = fread fp in
            do { conn \<leftarrow> send True sys chunk conn; Some (conn, Some (Opened fp)) })
     else (case context of
             None \<Rightarrow> Some (conn, context)
           | Some Null \<Rightarrow> Some (conn, context)
           | Some (Opened fp) \<Rightarrow> Some (conn, Some Freed)
           | Some Freed \<Rightarrow> None))"

definition d2_onWriteComplete :: "sys_write \<Rightarrow> tcp_conn \<times> file_ptr option \<Rightarrow> (tcp_conn \<times> file_ptr option) option" where
  "d2_onWriteComplete sys = (\<lambda>(conn, context).
     case context of
       Some (Opened fp) \<Rightarrow>
         (let (chunk, fp) = fread fp in
          if length chunk > 0
          then do { conn \<leftarrow> send True sys chunk conn; Some (conn, Some (Opened fp)) }
          else Some (shutdown True conn, Some Null))
     | _ \<Rightarrow> None)"

subsection \<open>\<open>download3.cpp\<close>\<close>

text \<open>The shared pointer closes the file when the connection is deleted.\<close>

definition d3_onConnection :: "sys_write \<Rightarrow> bytes option \<Rightarrow> tcp_conn \<times> bytes option \<Rightarrow> (tcp_conn \<times> bytes option) option" where
  "d3_onConnection sys file = (\<lambda>(conn, context).
     if connected conn
     then let conn = setHighWaterMarkCallback (dl_kSize + 1) conn in
       (case file of
          None \<Rightarrow> Some (shutdown True conn, context)
        | Some fp \<Rightarrow>
            let (chunk, fp) = fread fp in
            do { conn \<leftarrow> send True sys chunk conn; Some (conn, Some fp) })
     else Some (conn, context))"

definition d3_onWriteComplete :: "sys_write \<Rightarrow> tcp_conn \<times> bytes option \<Rightarrow> (tcp_conn \<times> bytes option) option" where
  "d3_onWriteComplete sys = (\<lambda>(conn, context).
     do { fp \<leftarrow> context;
          let (chunk, fp) = fread fp;
          if length chunk > 0
          then do { conn \<leftarrow> send True sys chunk conn; Some (conn, Some fp) }
          else Some (shutdown True conn, Some fp) })"

text \<open>\<open>onMessage\<close> of both.\<close>

definition dl_onMessage :: "tcp_conn \<times> 'x \<Rightarrow> (tcp_conn \<times> 'x) option" where
  "dl_onMessage = (\<lambda>(conn, context). do { (msg, b) \<leftarrow> retrieveAllAsString (inputBuffer conn); Some (conn\<lparr>inputBuffer := b\<rparr>, context) })"

subsection \<open>A connection with its callbacks\<close>

type_synonym 'x on_connection = "sys_write \<Rightarrow> bytes option \<Rightarrow> tcp_conn \<times> 'x \<Rightarrow> (tcp_conn \<times> 'x) option"
type_synonym 'x on_write_complete = "sys_write \<Rightarrow> tcp_conn \<times> 'x \<Rightarrow> (tcp_conn \<times> 'x) option"

fun dl_callback :: "'x on_connection \<Rightarrow> 'x on_write_complete \<Rightarrow> sys_write \<Rightarrow> bytes option \<Rightarrow> tcp_effect \<Rightarrow> tcp_conn \<times> 'x \<Rightarrow> (tcp_conn \<times> 'x) option" where
  "dl_callback onConnection onWriteComplete sys file (E_connection b) s = onConnection sys file s"
| "dl_callback onConnection onWriteComplete sys file (E_message t) s = dl_onMessage s"
| "dl_callback onConnection onWriteComplete sys file E_writeComplete s = onWriteComplete sys s"
| "dl_callback onConnection onWriteComplete sys file _ s = Some s"

fun dl_callbacks where
  "dl_callbacks oc ow sys file [] s = Some s"
| "dl_callbacks oc ow sys file (e # es) s = do { s \<leftarrow> dl_callback oc ow sys file e s; dl_callbacks oc ow sys file es s }"

text \<open>The loop acts on the connection, which then makes its callbacks.\<close>

definition dl_step :: "'x on_connection \<Rightarrow> 'x on_write_complete \<Rightarrow> sys_write \<Rightarrow> bytes option \<Rightarrow> tcp_event \<Rightarrow> tcp_conn \<times> 'x \<Rightarrow> (tcp_conn \<times> 'x) option" where
  "dl_step oc ow sys file e = (\<lambda>(conn, context).
     do { conn' \<leftarrow> tcp_step e conn;
          dl_callbacks oc ow sys file (drop (length (trace conn)) (trace conn')) (conn', context) })"

fun by_loop :: "tcp_event \<Rightarrow> bool" where
  "by_loop Establish = True" | "by_loop Destroy = True" | "by_loop (Io re rd wr t) = True" | "by_loop (Run_pending sys) = True"
| "by_loop _ = False"

inductive dl_reach :: "'x on_connection \<Rightarrow> 'x on_write_complete \<Rightarrow> 'x \<Rightarrow> bytes option \<Rightarrow> tcp_conn \<times> 'x \<Rightarrow> bool" for oc ow x0 fl where
  Start: "dl_reach oc ow x0 fl (setWriteCompleteCallback (mk_tcp_conn sockfd), x0)"
| Step: "dl_reach oc ow x0 fl s \<Longrightarrow> by_loop e \<Longrightarrow> legal e (fst s) \<Longrightarrow> write_ok sys
    \<Longrightarrow> dl_step oc ow sys fl e s = Some s' \<Longrightarrow> dl_reach oc ow x0 fl s'"

subsection \<open>What the loop changes\<close>

text \<open>The write completions still to come: those queued, and one for the bytes waiting.\<close>

definition owed :: "tcp_conn \<Rightarrow> nat" where
  "owed c = count_list (pending c) F_writeComplete + (if content (outputBuffer c) = [] then 0 else 1)"

definition calm :: "tcp_functor list \<Rightarrow> bool" where
  "calm fs \<longleftrightarrow> (\<forall>f \<in> set fs. f = F_writeComplete \<or> (\<exists>n. f = F_highWaterMark n))"

fun silent :: "tcp_effect \<Rightarrow> bool" where
  "silent (E_connection True) = False" | "silent E_writeComplete = False" | "silent (E_accept d) = False" | "silent _ = True"

definition mild :: "bool \<Rightarrow> bool \<Rightarrow> tcp_effect list \<Rightarrow> bool" where
  "mild ending down es \<longleftrightarrow> (\<forall>e \<in> set es. silent e \<and> (e = E_shutdownWrite \<longrightarrow> ending) \<and> (e = E_connection False \<longrightarrow> down))"

lemma mild_append: "mild q d es \<Longrightarrow> mild q' d' es' \<Longrightarrow> (q' \<longrightarrow> q) \<Longrightarrow> (d \<longrightarrow> d') \<Longrightarrow> mild q d' (es @ es')"
  by (fastforce simp: mild_def)

definition moved :: "tcp_conn \<Rightarrow> tcp_conn \<Rightarrow> bool" where
  "moved c c' \<longleftrightarrow> writeCompleteCb c' = writeCompleteCb c \<and> owed c' = owed c \<and> (calm (pending c) \<longrightarrow> calm (pending c'))
     \<and> (conn_state c' = conn_state c \<or> conn_state c' = kDisconnected)
     \<and> (\<exists>es. trace c' = trace c @ es \<and> mild (conn_state c = kDisconnecting) (conn_state c' = kDisconnected) es)"

lemma movedI:
  assumes "writeCompleteCb c' = writeCompleteCb c" "owed c' = owed c" "calm (pending c) \<Longrightarrow> calm (pending c')"
    "conn_state c' = conn_state c \<or> conn_state c' = kDisconnected"
    "trace c' = trace c @ es" "mild (conn_state c = kDisconnecting) (conn_state c' = kDisconnected) es"
  shows "moved c c'"
  using assms unfolding moved_def by blast

lemma moved_refl: "moved c c"
  by (rule movedI [of _ _ "[]"]) (simp_all add: mild_def)

lemma moved_trans:
  assumes "moved a b" "moved b c"
  shows "moved a c"
proof -
  obtain es es' where e: "trace b = trace a @ es" "mild (conn_state a = kDisconnecting) (conn_state b = kDisconnected) es"
    "trace c = trace b @ es'" "mild (conn_state b = kDisconnecting) (conn_state c = kDisconnected) es'"
    using assms unfolding moved_def by auto
  have s: "conn_state b = conn_state a \<or> conn_state b = kDisconnected" "conn_state c = conn_state b \<or> conn_state c = kDisconnected"
    using assms by (simp_all add: moved_def)
  have "mild (conn_state a = kDisconnecting) (conn_state c = kDisconnected) (es @ es')"
    by (rule mild_append [OF e(2,4)]) (use s in auto)
  then show ?thesis using assms e(1,3) s by (intro movedI [of _ _ "es @ es'"]) (auto simp: moved_def)
qed

lemma handleClose_moved:
  assumes "handleClose c = Some c'"
  shows "moved c c'"
proof (rule movedI [of _ _ "[E_update kNoneEvent, E_connection False, E_close]"])
  have c': "c' = emit E_close (emit (E_connection False) (chan_disableAll (setState kDisconnected c)))"
    using assms by (simp add: handleClose_def split: if_splits)
  show "trace c' = trace c @ [E_update kNoneEvent, E_connection False, E_close]"
    "mild (conn_state c = kDisconnecting) (conn_state c' = kDisconnected) [E_update kNoneEvent, E_connection False, E_close]"
    "writeCompleteCb c' = writeCompleteCb c" "owed c' = owed c" "conn_state c' = conn_state c \<or> conn_state c' = kDisconnected"
    "calm (pending c) \<Longrightarrow> calm (pending c')"
    by (simp_all add: c' setState_def chan_op_defs owed_def mild_def)
qed

lemma handleRead_moved:
  assumes "handleRead rd t c = Some c'"
  shows "moved c c'"
proof -
  obtain n err b where r: "readFd rd (inputBuffer c) = Some (n, err, b)" using assms by (auto simp: handleRead_def split: option.splits)
  define c1 where "c1 = c\<lparr>inputBuffer := b\<rparr>"
  have m: "moved c c1" by (rule movedI [of _ _ "[]"]) (simp_all add: c1_def owed_def mild_def)
  have e: "moved c1 (emit (E_message t) c1)" by (rule movedI [of _ _ "[E_message t]"]) (simp_all add: owed_def mild_def)
  have "c' = emit (E_message t) c1 \<or> handleClose c1 = Some c' \<or> c' = c1"
    using assms r by (auto simp: handleRead_def c1_def Let_def split: if_splits)
  then show ?thesis using moved_trans [OF m] e handleClose_moved m by blast
qed

lemma handleWrite_moved:
  assumes "tcp_inv fds ch c" "writeCompleteCb c" "handleWrite sys c = Some c'"
  shows "moved c c'"
proof (cases "isWriting (chan c)")
  case False
  then show ?thesis using assms(3) moved_refl by (simp add: handleWrite_def)
next
  case True
  note inv = tcp_invD [OF assms(1)]
  let ?out = "content (outputBuffer c)"
  have ne: "?out \<noteq> []" using tcp_writing [OF assms(1)] True by simp
  have arg: "bytes_between (peek (outputBuffer c)) (peek (outputBuffer c) + readableBytes (outputBuffer c)) (outputBuffer c) = ?out"
    using content_peek_take [OF inv(2), of "readableBytes (outputBuffer c)"] length_content [OF inv(2)] by simp
  show ?thesis
  proof (cases "\<exists>n. sys ?out = Inr n \<and> n > 0")
    case False
    then show ?thesis using True assms(3) moved_refl by (auto simp: handleWrite_def arg split: sum.splits)
  next
    case w: True
    then obtain n where n: "sys ?out = Inr n" "n > 0" by blast
    then obtain b where b: "retrieve n (outputBuffer c) = Some b" using True assms(3) by (auto simp: handleWrite_def arg split: option.splits)
    then have wb: "wf_buffer b" using retrieve_contract(2) [OF inv(2)] by simp
    define c1 where "c1 = emit (E_wrote (take n ?out)) (c\<lparr>outputBuffer := b\<rparr>)"
    define c2 where "c2 = queueInLoop F_writeComplete (chan_disableWriting c1)"
    have "c' = (if readableBytes b = 0 then (if conn_state c = kDisconnecting then shutdownInLoop c2 else c2) else c1)"
      using True assms(3) n b assms(2) by (auto simp: handleWrite_def arg c1_def c2_def Let_def chan_op_defs)
    moreover have m1: "moved c c1" if "readableBytes b \<noteq> 0"
      by (rule movedI [of _ _ "[E_wrote (take n ?out)]"]) (use ne that empty_content [OF wb] in \<open>simp_all add: c1_def owed_def mild_def\<close>)
    moreover have m2: "moved c c2" if "readableBytes b = 0"
      by (rule movedI [of _ _ "[E_wrote (take n ?out), E_update (events (chan c) AND NOT kWriteEvent)]"])
        (use ne that empty_content [OF wb] in \<open>simp_all add: c1_def c2_def owed_def mild_def chan_op_defs calm_def\<close>)
    moreover have "moved c2 (shutdownInLoop c2)" if "conn_state c = kDisconnecting"
    proof -
      have "conn_state c2 = kDisconnecting" using that by (simp add: c1_def c2_def chan_op_defs)
      then have "moved c2 (emit E_shutdownWrite c2)" by (intro movedI [of _ _ "[E_shutdownWrite]"]) (simp_all add: owed_def mild_def)
      then show ?thesis using moved_refl by (simp add: shutdownInLoop_def)
    qed
    ultimately show ?thesis using moved_trans by (auto split: if_splits)
  qed
qed

lemma run_callback_live:
  assumes "tcp_inv fds ch c" "active c \<or> conn_state c = kDisconnected" "write_ok wr" "readv_ok rd" "run_callback rd wr x c = Some c'"
  shows "tcp_inv fds ch c' \<and> (active c' \<or> conn_state c' = kDisconnected)"
proof (cases x)
  case (ReadCallback t)
  show ?thesis
  proof (cases "active c")
    case True
    then show ?thesis using handleRead_inv [OF assms(1) _ assms(4), of t] assms(5) ReadCallback by auto
  next
    case False
    obtain n err b where rf: "readFd rd (inputBuffer c) = Some (n, err, b)" "wf_buffer b"
      using readFd_total [OF tcp_invD(1) [OF assms(1)] assms(4)] by blast
    have d: "conn_state c = kDisconnected" using False assms(2) by simp
    have "tcp_inv fds ch (c\<lparr>inputBuffer := b\<rparr>)" by (rule tcp_inv_input [OF assms(1) rf(2)])
    moreover have "tcp_inv fds ch (emit (E_message t) (c\<lparr>inputBuffer := b\<rparr>))"
      by (rule tcp_inv_quiet [OF calculation]) (simp_all add: d rf(2))
    ultimately show ?thesis using assms(5) ReadCallback rf(1) d by (auto simp: handleRead_def handleClose_def Let_def split: if_splits)
  qed
next
  case WriteCallback
  then show ?thesis using handleWrite_inv [OF assms(1,2,3)] assms(2,5) by (auto simp: active_def)
next
  case CloseCallback
  then have "active c" using assms(5) by (auto simp: handleClose_def active_def split: if_splits)
  then show ?thesis using handleClose_inv [OF assms(1)] assms(5) CloseCallback by auto
qed (use assms in \<open>simp add: handleError_def\<close>)

lemma run_callbacks_moved:
  assumes "write_ok wr" "readv_ok rd"
  shows "tcp_inv fds ch c \<Longrightarrow> active c \<or> conn_state c = kDisconnected \<Longrightarrow> writeCompleteCb c \<Longrightarrow> run_callbacks rd wr xs c = Some c' \<Longrightarrow> moved c c'"
proof (induction xs arbitrary: c)
  case (Cons x xs)
  obtain c1 where c1: "run_callback rd wr x c = Some c1" "run_callbacks rd wr xs c1 = Some c'" using Cons.prems(4) by (auto split: option.splits)
  have m: "moved c c1"
    using c1(1) handleRead_moved handleClose_moved handleWrite_moved [OF Cons.prems(1,3)] moved_refl
    by (cases x) (auto simp: handleError_def)
  then have "writeCompleteCb c1" using Cons.prems(3) by (simp add: moved_def)
  with Cons.IH run_callback_live [OF Cons.prems(1,2) assms c1(1)] c1(2) have "moved c1 c'" by blast
  with m show ?case by (rule moved_trans)
qed (simp add: moved_refl)

lemma dispatch_moved:
  assumes "tcp_inv fds ch c" "readv_ok rd" "write_ok wr" "io_ok (chan c) re" "writeCompleteCb c" "dispatch re rd wr t c = Some c'"
  shows "moved c c'"
proof -
  define c1 where "c1 = c\<lparr>chan := set_revents re (chan c)\<rparr>"
  have act: "active c" using tcp_invD(4) [OF assms(1)] assms(4) by (auto simp: io_ok_def)
  have "tcp_inv fds ch c1" "active c1" "writeCompleteCb c1"
    using act tcp_invD(1) [OF assms(1)] assms(5)
    by (auto intro!: tcp_inv_quiet [OF assms(1)] simp: c1_def set_revents_def active_def history_defs)
  then have "moved c1 c'" using run_callbacks_moved [OF assms(3,2)] assms(6) by (auto simp: dispatch_def c1_def Let_def)
  then show ?thesis by (simp add: moved_def owed_def c1_def)
qed

subsection \<open>What a step of the sender does\<close>

lemma mark_inv: "tcp_inv fds ch c \<Longrightarrow> tcp_inv fds ch (setHighWaterMarkCallback n c)"
  by (simp add: tcp_inv_def polled_def setHighWaterMarkCallback_def active_def history_defs cong: if_cong split del: if_split)

lemma sendInLoop_trace:
  assumes "sendInLoop sys d c = Some c'"
  shows "writeCompleteCb c' = writeCompleteCb c \<and> (\<exists>es. trace c' = trace c @ es \<and> E_shutdownWrite \<notin> set es)"
proof (cases "conn_state c = kDisconnected")
  case False
  show ?thesis
    by (rule sendInLoop_shape [OF assms False])
      (auto simp: Let_def chan_op_defs bind_eq_Some_conv split: if_split_asm)
qed (use assms in \<open>simp add: sendInLoop_def\<close>)

lemma send_out:
  assumes "tcp_inv fds ch c" "conn_state c = kConnected" "owed c = 0" "writeCompleteCb c" "calm (pending c)" "write_ok sys"
    and "send True sys d c = Some c'"
  shows "tcp_inv fds ch c'" "conn_state c' = kConnected" "writeCompleteCb c'" "calm (pending c')"
    "\<exists>es. trace c' = trace c @ es \<and> E_shutdownWrite \<notin> set es"
    "accepted c' = accepted c \<and> owed c' = 0 \<or> accepted c' = accepted c @ d \<and> owed c' \<le> 1"
proof -
  have s: "sendInLoop sys d c = Some c'" using assms(2,7) by (simp add: send_def)
  have act: "active c" using assms(2) by (simp add: active_def)
  have o: "content (outputBuffer c) = []" "count_list (pending c) F_writeComplete = 0" using assms(3) by (simp_all add: owed_def split: if_splits)
  show "tcp_inv fds ch c'" "conn_state c' = kConnected" using sendInLoop_inv [OF assms(1) _ assms(6), of d] act s assms(2) by auto
  show "writeCompleteCb c'" "\<exists>es. trace c' = trace c @ es \<and> E_shutdownWrite \<notin> set es" using sendInLoop_trace [OF s] assms(4) by auto
  define n where "n = (case sys d of Inr n \<Rightarrow> n | Inl _ \<Rightarrow> 0)"
  define hw where "hw = (if n < length d \<and> 0 < highWaterMark c \<and> highWaterMark c \<le> length d - n \<and> highWaterMarkCb c then [F_highWaterMark (length d - n)] else [])"
  note eff = sendInLoop_effect [OF assms(1) act assms(6), of d, unfolded o(1), simplified, unfolded s, simplified]
  have hc: "count_list hw F_writeComplete = 0" "calm hw" by (simp_all add: hw_def calm_def)
  have e: "c' = c \<or> accepted c' = accepted c @ d \<and> content (outputBuffer c') = drop n d
      \<and> pending c' = pending c @ (if sys d = Inr (length d) then [F_writeComplete] else []) @ hw"
    using eff assms(4) by (auto simp: n_def hw_def Let_def split: if_splits)
  have "calm (xs @ ys) \<longleftrightarrow> calm xs \<and> calm ys" for xs ys by (auto simp: calm_def)
  moreover have "calm (F_writeComplete # xs) = calm xs" "calm []" for xs by (simp_all add: calm_def)
  ultimately show "calm (pending c')" using e assms(5) hc(2) by (auto split: if_splits)
  show "accepted c' = accepted c \<and> owed c' = 0 \<or> accepted c' = accepted c @ d \<and> owed c' \<le> 1"
  proof (cases "sys d = Inr (length d)")
    case True
    then show ?thesis using e assms(3) o hc(1) by (auto simp: owed_def n_def)
  next
    case False
    then show ?thesis using e assms(3) o hc(1) by (auto simp: owed_def)
  qed
qed

definition fin_ok :: "bytes \<Rightarrow> tcp_effect list \<Rightarrow> bool" where
  "fin_ok f tr \<longleftrightarrow> (\<forall>tr1 tr2. tr = tr1 @ E_shutdownWrite # tr2 \<longrightarrow> concat (map accept_of tr1) = f)"

lemma fin_ok_append:
  assumes "fin_ok f tr" "E_shutdownWrite \<in> set es \<longrightarrow> concat (map accept_of tr) = f \<and> (\<forall>e \<in> set es. accept_of e = [])"
  shows "fin_ok f (tr @ es)"
  unfolding fin_ok_def
proof (intro allI impI)
  fix tr1 tr2 assume t: "tr @ es = tr1 @ E_shutdownWrite # tr2"
  then obtain us where "tr = tr1 @ us \<and> us @ es = E_shutdownWrite # tr2 \<or> tr @ us = tr1 \<and> es = us @ E_shutdownWrite # tr2"
    by (auto simp: append_eq_append_conv2)
  then show "concat (map accept_of tr1) = f"
  proof (elim disjE conjE)
    assume u: "tr = tr1 @ us" "us @ es = E_shutdownWrite # tr2"
    show ?thesis
    proof (cases us)
      case Nil
      then show ?thesis using u assms(2) by (cases es) auto
    next
      case (Cons e us')
      then have "tr = tr1 @ E_shutdownWrite # us'" using u by simp
      then show ?thesis using assms(1) by (simp add: fin_ok_def)
    qed
  next
    assume u: "tr @ us = tr1" "es = us @ E_shutdownWrite # tr2"
    then have "concat (map accept_of us) = []" "concat (map accept_of tr) = f" using assms(2) by auto
    then show ?thesis using u(1) by auto
  qed
qed

lemma dl_callbacks_mild:
  "dl_callbacks oc ow sys fl es (c, x) = Some (c', x') \<Longrightarrow> mild q d es \<Longrightarrow> (d \<longrightarrow> \<not> connected c) \<Longrightarrow> wf_buffer (inputBuffer c)
    \<Longrightarrow> (\<And>c x c' x'. \<not> connected c \<Longrightarrow> oc sys fl (c, x) = Some (c', x') \<Longrightarrow> c' = c)
    \<Longrightarrow> (\<exists>b. wf_buffer b \<and> c' = c\<lparr>inputBuffer := b\<rparr>) \<and> (\<not> d \<longrightarrow> x' = x)"
proof (induction es arbitrary: c x)
  case Nil
  then show ?case by (auto intro!: exI [of _ "inputBuffer c"])
next
  case (Cons e es)
  obtain c1 x1 where s: "dl_callback oc ow sys fl e (c, x) = Some (c1, x1)" "dl_callbacks oc ow sys fl es (c1, x1) = Some (c', x')"
    using Cons.prems(1) by (auto split: option.splits)
  have m: "silent e" "e = E_connection False \<longrightarrow> d" "mild q d es" using Cons.prems(2) by (auto simp: mild_def)
  have 1: "(\<exists>b. wf_buffer b \<and> c1 = c\<lparr>inputBuffer := b\<rparr>) \<and> (\<not> d \<longrightarrow> x1 = x)"
  proof (cases e)
    case (E_connection b)
    then have "c1 = c" "d" using s(1) m(1,2) Cons.prems(3,5) by (cases b; auto)+
    then show ?thesis using Cons.prems(4) by (auto intro!: exI [of _ "inputBuffer c"])
  next
    case (E_message t)
    obtain b where "retrieveAllAsString (inputBuffer c) = Some (content (inputBuffer c), b)" "wf_buffer b"
      using retrieveAsString_contract [OF Cons.prems(4), of "length (content (inputBuffer c))"] length_content [OF Cons.prems(4)]
      by (auto simp: retrieveAllAsString_def)
    then show ?thesis using s(1) E_message by (auto simp: dl_onMessage_def)
  qed (use s(1) m(1) Cons.prems(4) in \<open>auto intro!: exI [of _ "inputBuffer c"]\<close>)
  then obtain b where b: "wf_buffer b" "c1 = c\<lparr>inputBuffer := b\<rparr>" by blast
  then have "(\<exists>b. wf_buffer b \<and> c' = c1\<lparr>inputBuffer := b\<rparr>) \<and> (\<not> d \<longrightarrow> x' = x1)"
    using Cons.IH [OF s(2) m(3)] Cons.prems(3,5) by (simp add: connected_def)
  then show ?case using 1 b by auto
qed

subsection \<open>The interface of a sender\<close>

text \<open>\<open>left\<close> is what the context has not sent yet, \<open>None\<close> when it has no open file.\<close>

locale file_sender =
  fixes onConnection :: "'x on_connection" and onWriteComplete :: "'x on_write_complete" and left :: "'x \<Rightarrow> bytes option"
  assumes up: "connected c \<Longrightarrow> onConnection sys (Some f) (c, x) = Some (c', x') \<Longrightarrow>
        send True sys (take dl_kSize f) (setHighWaterMarkCallback (dl_kSize + 1) c) = Some c' \<and> left x' = Some (drop dl_kSize f)"
    and down: "\<not> connected c \<Longrightarrow> onConnection sys fl (c, x) = Some (c', x') \<Longrightarrow> c' = c"
    and more: "left x = Some r \<Longrightarrow> r \<noteq> [] \<Longrightarrow> onWriteComplete sys (c, x) = Some (c', x') \<Longrightarrow>
        send True sys (take dl_kSize r) c = Some c' \<and> left x' = Some (drop dl_kSize r)"
    and finish: "left x = Some [] \<Longrightarrow> onWriteComplete sys (c, x) = Some (c', x') \<Longrightarrow> c' = shutdown True c"
    and closed: "left x = None \<Longrightarrow> onWriteComplete sys (c, x) = None"
begin

definition sender_inv :: "bytes \<Rightarrow> tcp_conn \<times> 'x \<Rightarrow> bool" where
  "sender_inv f = (\<lambda>(c, x). tcp_inv (\<lambda>_. 0) 0 c \<and> writeCompleteCb c \<and> calm (pending c) \<and> fin_ok f (trace c)
     \<and> (\<exists>t. accepted c @ t = f) \<and> (conn_state c = kDisconnecting \<longrightarrow> accepted c = f)
     \<and> (conn_state c = kConnected \<longrightarrow> owed c \<le> 1 \<and> (\<exists>r. left x = Some r \<and> (owed c = 1 \<longrightarrow> accepted c @ r = f))))"

lemma inv_sent:
  assumes "tcp_inv (\<lambda>_. 0) 0 c" "conn_state c = kConnected" "owed c = 0" "writeCompleteCb c" "calm (pending c)" "write_ok sys"
    "fin_ok f (trace c)" "accepted c @ d @ r = f" "send True sys d c = Some c'" "left x = Some r"
  shows "sender_inv f (c', x)"
proof -
  note o = send_out [OF assms(1-6,9)]
  obtain es where es: "trace c' = trace c @ es" "E_shutdownWrite \<notin> set es" using o(5) by blast
  have "fin_ok f (trace c')" unfolding es(1) by (rule fin_ok_append [OF assms(7)]) (use es(2) in simp)
  with o(1-4,6) assms(8,10) show ?thesis by (auto simp: sender_inv_def)
qed

lemma inv_moved:
  assumes "sender_inv f (c, x)" "moved c c'" "tcp_inv (\<lambda>_. 0) 0 c'"
    and "dl_callbacks onConnection onWriteComplete sys (Some f) (drop (length (trace c)) (trace c')) (c', x) = Some (c'', x'')"
  shows "sender_inv f (c'', x'')"
proof -
  obtain es where es: "trace c' = trace c @ es" "mild (conn_state c = kDisconnecting) (conn_state c' = kDisconnected) es"
    using assms(2) by (auto simp: moved_def)
  obtain b where b: "wf_buffer b" "c'' = c'\<lparr>inputBuffer := b\<rparr>" "conn_state c' \<noteq> kDisconnected \<longrightarrow> x'' = x"
    using dl_callbacks_mild [OF _ es(2) _ tcp_invD(1) [OF assms(3)], where oc = onConnection and ow = onWriteComplete and sys = sys and fl = "Some f"
        and x = x and c' = c'' and x' = x''] assms(4) down es(1)
    by (auto simp: connected_def)
  have q: "\<forall>e \<in> set es. accept_of e = []" using es(2) unfolding mild_def by (metis accept_of.simps silent.simps(3) tcp_effect.exhaust)
  then have "concat (map accept_of es) = []" by simp
  then have a: "accepted c'' = accepted c" by (simp add: b(2) accepted_def es(1))
  have "tcp_inv (\<lambda>_. 0) 0 c''" unfolding b(2) by (rule tcp_inv_input [OF assms(3) b(1)])
  moreover have "fin_ok f (trace c'')"
    unfolding b(2) using es q assms(1) by (simp add: sender_inv_def mild_def, intro fin_ok_append) (auto simp: accepted_def)
  moreover have "owed c'' = owed c" "writeCompleteCb c'' = writeCompleteCb c" "calm (pending c'')"
      "conn_state c'' = conn_state c \<and> x'' = x \<or> conn_state c'' = kDisconnected"
    using assms(1,2) b by (auto simp: moved_def owed_def sender_inv_def)
  ultimately show ?thesis using assms(1) a by (auto simp: sender_inv_def)
qed

lemma inv_completed:
  assumes "sender_inv f (c, x)" "pending c = F_writeComplete # fs" "write_ok sys" "active c \<or> conn_state c = kDisconnected"
    and "onWriteComplete sys (emit E_writeComplete (c\<lparr>pending := fs\<rparr>), x) = Some (c', x')"
  shows "sender_inv f (c', x')"
proof -
  define c1 where "c1 = emit E_writeComplete (c\<lparr>pending := fs\<rparr>)"
  note i = assms(1) [unfolded sender_inv_def prod.case]
  have "tcp_inv (\<lambda>_. 0) 0 (c\<lparr>pending := fs\<rparr>)" using queued_inv i assms(4) by blast
  then have t1: "tcp_inv (\<lambda>_. 0) 0 c1"
    using run_functor_inv [of _ _ "c\<lparr>pending := fs\<rparr>" sys F_writeComplete] assms(3,4) by (auto simp: c1_def active_def)
  have k: "conn_state c1 = conn_state c" "writeCompleteCb c1" "calm (pending c1)" "accepted c1 = accepted c" "Suc (owed c1) = owed c"
    using i assms(2) by (auto simp: c1_def calm_def accepted_def owed_def)
  have fin1: "fin_ok f (trace c1)" using i fin_ok_append [of f "trace c" "[E_writeComplete]"] by (simp add: c1_def)
  have "left x \<noteq> None"
  proof
    assume "left x = None"
    from closed [OF this] assms(5) show False by simp
  qed
  then obtain r where r: "left x = Some r" by blast
  have step: "r \<noteq> [] \<Longrightarrow> send True sys (take dl_kSize r) c1 = Some c' \<and> left x' = Some (drop dl_kSize r)"
      "r = [] \<Longrightarrow> c' = shutdown True c1"
    using more [OF r] finish [of x] r assms(5) by (auto simp: c1_def)
  show ?thesis
  proof (cases "conn_state c = kConnected")
    case True
    then have o: "owed c1 = 0" "accepted c1 @ r = f" using i k r by auto
    show ?thesis
    proof (cases "r = []")
      case False
      show ?thesis
        by (rule inv_sent [OF t1 _ o(1) k(2,3) assms(3) fin1, where d = "take dl_kSize r" and r = "drop dl_kSize r"])
          (use True False k step(1) o(2) in simp_all)
    next
      case r0: True
      have "tcp_inv (\<lambda>_. 0) 0 (shutdown True c1)" using tcp_step_inv [OF t1, of "Call_shutdown True"] by (simp add: legal_def)
      moreover have "fin_ok f (trace (shutdown True c1))"
        using fin_ok_append [OF fin1, of "[E_shutdownWrite]"] fin1 o(2) r0
        by (simp add: shutdown_def shutdownInLoop_def setState_def accepted_def Let_def)
      ultimately show ?thesis
        using step(2) [OF r0] True k o r0
        by (simp add: sender_inv_def shutdown_def shutdownInLoop_def setState_def accepted_def Let_def)
    qed
  next
    case False
    then have "c' = c1" using step k(1) by (cases "r = []") (simp_all add: send_def shutdown_def)
    with False k i t1 fin1 show ?thesis by (simp add: sender_inv_def)
  qed
qed

end

lemma Destroy_moved: "connectDestroyed c = Some c' \<Longrightarrow> moved c c'"
proof -
  assume a: "connectDestroyed c = Some c'"
  show "moved c c'"
  proof (cases "conn_state c = kConnected")
    case True
    then show ?thesis
      using a by (intro movedI [of _ _ "[E_update kNoneEvent, E_connection False, E_remove]"])
        (auto simp: connectDestroyed_def chan_remove_def setState_def chan_op_defs owed_def mild_def Let_def split: if_splits)
  next
    case False
    then show ?thesis
      using a by (intro movedI [of _ _ "[E_remove]"])
        (auto simp: connectDestroyed_def chan_remove_def owed_def mild_def Let_def split: if_splits)
  qed
qed

lemma step_moved:
  assumes "tcp_inv fds ch c" "writeCompleteCb c" "calm (pending c)" "by_loop e" "legal e c" "tcp_step e c = Some c'"
  obtains "e = Establish" "conn_state c = kConnecting" | wr fs where "e = Run_pending wr" "pending c = F_writeComplete # fs" "c' = emit E_writeComplete (c\<lparr>pending := fs\<rparr>)"
    | "e \<noteq> Establish" "moved c c'"
proof (cases e rule: by_loop.cases)
  case 1
  with assms(5) that(1) show ?thesis by (simp add: legal_def)
next
  case 2
  then show ?thesis using that(3) Destroy_moved assms(6) by simp
next
  case (3 re rd wr tm)
  then have "moved c c'" using dispatch_moved [OF assms(1) _ _ _ assms(2), of rd wr re tm c'] assms(5,6) by (simp add: legal_def)
  with that(3) 3 show ?thesis by simp
next
  case (4 wr)
  show ?thesis
  proof (cases "pending c")
    case Nil
    then show ?thesis using that(3) moved_refl 4 assms(6) by simp
  next
    case (Cons g fs)
    have "g = F_writeComplete \<or> (\<exists>n. g = F_highWaterMark n)" using assms(3) Cons by (simp add: calm_def)
    then show ?thesis
    proof (elim disjE exE)
      assume "g = F_writeComplete"
      then show ?thesis using that(2) [OF 4, of fs] Cons 4 assms(6) by simp
    next
      fix n assume g: "g = F_highWaterMark n"
      then have "c' = emit (E_highWaterMark n) (c\<lparr>pending := fs\<rparr>)" using assms(6) 4 Cons by simp
      then have "moved c c'"
        using Cons g by (intro movedI [of _ _ "[E_highWaterMark n]"]) (simp_all add: owed_def mild_def calm_def)
      with that(3) 4 show ?thesis by simp
    qed
  qed
qed (use assms(4) in simp_all)

lemma live_pending: "tcp_inv fds ch c \<Longrightarrow> pending c \<noteq> [] \<Longrightarrow> active c \<or> conn_state c = kDisconnected"
  by (cases "conn_state c") (simp_all add: active_def tcp_inv_def)

context file_sender
begin

lemma inv_established:
  assumes "sender_inv f (c, x)" "conn_state c = kConnecting" "write_ok sys"
    and "dl_step onConnection onWriteComplete sys (Some f) Establish (c, x) = Some (c', x')"
  shows "sender_inv f (c', x')"
proof -
  note i = assms(1) [unfolded sender_inv_def prod.case]
  have t: "tcp_inv (\<lambda>_. 0) 0 c" "writeCompleteCb c" using i by simp_all
  then have fresh: "trace c = []" "pending c = []" "content (outputBuffer c) = []" using assms(2) by (simp_all add: tcp_inv_def)
  obtain c1 where c1: "connectEstablished c = Some c1" "tcp_inv (\<lambda>_. 0) 0 c1" "conn_state c1 = kConnected"
    using connectEstablished_inv [OF t(1) assms(2)] by blast
  have k: "writeCompleteCb c1" "pending c1 = []" "content (outputBuffer c1) = []" "trace c1 = [E_update (events (chan c) OR kReadEvent), E_connection True]"
    using c1(1) fresh t(2) by (auto simp: connectEstablished_def setState_def chan_op_defs channel_tie_def Let_def split: if_splits)
  define c2 where "c2 = setHighWaterMarkCallback (dl_kSize + 1) c1"
  have "onConnection sys (Some f) (c1, x) = Some (c', x')"
    using assms(4) c1(1) fresh(1) k(4) by (auto simp: dl_step_def split: option.splits)
  with up [of c1 sys f x c' x'] c1(3) have s: "send True sys (take dl_kSize f) c2 = Some c'" "left x' = Some (drop dl_kSize f)"
    by (simp_all add: connected_def c2_def)
  have c2: "conn_state c2 = kConnected" "owed c2 = 0" "writeCompleteCb c2" "calm (pending c2)" "fin_ok f (trace c2)" "accepted c2 = []"
    using c1(3) k by (simp_all add: c2_def setHighWaterMarkCallback_def owed_def calm_def accepted_def fin_ok_def Cons_eq_append_conv)
  show ?thesis
    by (rule inv_sent [where d = "take dl_kSize f" and r = "drop dl_kSize f", OF _ c2(1-4) assms(3) c2(5) _ s])
      (simp_all add: c2(6), simp add: c2_def mark_inv [OF c1(2)])
qed

lemma inv_step:
  assumes "sender_inv f (c, x)" "by_loop e" "legal e c" "write_ok sys"
    and "dl_step onConnection onWriteComplete sys (Some f) e (c, x) = Some (c', x')"
  shows "sender_inv f (c', x')"
proof -
  note i = assms(1) [unfolded sender_inv_def prod.case]
  have t: "tcp_inv (\<lambda>_. 0) 0 c" "writeCompleteCb c" "calm (pending c)" using i by simp_all
  obtain c1 where c1: "tcp_step e c = Some c1" "tcp_inv (\<lambda>_. 0) 0 c1" using tcp_step_inv [OF t(1) assms(3)] by blast
  have cb: "dl_callbacks onConnection onWriteComplete sys (Some f) (drop (length (trace c)) (trace c1)) (c1, x) = Some (c', x')"
    using assms(5) c1(1) by (simp add: dl_step_def)
  show ?thesis
  proof (rule step_moved [OF t assms(2,3) c1(1)])
    assume "e = Establish" "conn_state c = kConnecting"
    then show ?thesis using inv_established [OF assms(1) _ assms(4)] assms(5) by simp
  next
    fix wr fs assume w: "pending c = F_writeComplete # fs" "c1 = emit E_writeComplete (c\<lparr>pending := fs\<rparr>)"
    have "active c \<or> conn_state c = kDisconnected" by (rule live_pending [OF t(1)]) (simp add: w)
    with inv_completed [OF assms(1) w(1) assms(4)] cb w(2) show ?thesis by (auto split: option.splits)
  next
    assume "moved c c1"
    then show ?thesis by (rule inv_moved [OF assms(1) _ c1(2) cb])
  qed
qed

lemma reach_inv:
  assumes "dl_reach onConnection onWriteComplete x0 (Some f) s"
  shows "sender_inv f s"
  using assms
proof (induction rule: dl_reach.induct)
  case (Start sockfd)
  have r: "tcp_reach sockfd (setWriteCompleteCallback (mk_tcp_conn sockfd))" by (intro tcp_reach.intros)
  have k: "conn_state (setWriteCompleteCallback (mk_tcp_conn sockfd)) = kConnecting" "writeCompleteCb (setWriteCompleteCallback (mk_tcp_conn sockfd))"
    "pending (setWriteCompleteCallback (mk_tcp_conn sockfd)) = []" "trace (setWriteCompleteCallback (mk_tcp_conn sockfd)) = []"
    by (simp_all add: setWriteCompleteCallback_def mk_tcp_conn_def)
  then show ?case using tcp_reach_inv [OF r] by (simp add: sender_inv_def calm_def fin_ok_def accepted_def)
next
  case (Step s e sys s')
  then show ?case by (cases s; cases s') (auto intro: inv_step)
qed

text \<open>When the writing side is shut down while the connection is up, the whole file has been written.\<close>

lemma complete:
  assumes "dl_reach onConnection onWriteComplete x0 (Some f) (c, x)"
  shows "\<exists>t. wire c @ t = f"
    and "trace c = tr1 @ E_shutdownWrite # tr2 \<Longrightarrow> E_connection False \<notin> set tr1 \<Longrightarrow> concat (map wrote_of tr1) = f"
proof -
  note i = reach_inv [OF assms, unfolded sender_inv_def prod.case]
  have s: "wire c @ content (outputBuffer c) = accepted c" "shut_ok (trace c)" using i by (simp_all add: tcp_inv_def)
  then show "\<exists>t. wire c @ t = f" using i by (metis append_assoc)
  assume t: "trace c = tr1 @ E_shutdownWrite # tr2" "E_connection False \<notin> set tr1"
  then have "concat (map wrote_of tr1) = concat (map accept_of tr1)"
    using s(2) [unfolded shut_ok_def, rule_format, of "length tr1"] by simp
  with i t(1) show "concat (map wrote_of tr1) = f" by (simp add: fin_ok_def)
qed

end

subsection \<open>The two programs\<close>

fun d2_left :: "file_ptr option \<Rightarrow> bytes option" where
  "d2_left (Some (Opened fp)) = Some fp" | "d2_left _ = None"

interpretation d2: file_sender d2_onConnection d2_onWriteComplete d2_left
proof
  fix c :: tcp_conn and x x' :: "file_ptr option" and f r :: bytes and sys c' and fl :: "bytes option"
  show "connected c \<Longrightarrow> d2_onConnection sys (Some f) (c, x) = Some (c', x') \<Longrightarrow>
      send True sys (take dl_kSize f) (setHighWaterMarkCallback (dl_kSize + 1) c) = Some c' \<and> d2_left x' = Some (drop dl_kSize f)"
    by (auto simp: d2_onConnection_def fread_def Let_def split: option.splits)
  show "\<not> connected c \<Longrightarrow> d2_onConnection sys fl (c, x) = Some (c', x') \<Longrightarrow> c' = c"
    by (auto simp: d2_onConnection_def split: option.splits file_ptr.splits)
  show "d2_left x = Some r \<Longrightarrow> r \<noteq> [] \<Longrightarrow> d2_onWriteComplete sys (c, x) = Some (c', x') \<Longrightarrow>
      send True sys (take dl_kSize r) c = Some c' \<and> d2_left x' = Some (drop dl_kSize r)"
    by (cases x rule: d2_left.cases) (auto simp: d2_onWriteComplete_def fread_def const_defs Let_def split: option.splits)
  show "d2_left x = Some [] \<Longrightarrow> d2_onWriteComplete sys (c, x) = Some (c', x') \<Longrightarrow> c' = shutdown True c"
    by (cases x rule: d2_left.cases) (auto simp: d2_onWriteComplete_def fread_def)
  show "d2_left x = None \<Longrightarrow> d2_onWriteComplete sys (c, x) = None"
    by (cases x rule: d2_left.cases) (simp_all add: d2_onWriteComplete_def)
qed

interpretation d3: file_sender d3_onConnection d3_onWriteComplete "\<lambda>x. x"
proof
  fix c :: tcp_conn and x x' :: "bytes option" and f r :: bytes and sys c' and fl :: "bytes option"
  show "connected c \<Longrightarrow> d3_onConnection sys (Some f) (c, x) = Some (c', x') \<Longrightarrow>
      send True sys (take dl_kSize f) (setHighWaterMarkCallback (dl_kSize + 1) c) = Some c' \<and> x' = Some (drop dl_kSize f)"
    by (auto simp: d3_onConnection_def fread_def Let_def split: option.splits)
  show "\<not> connected c \<Longrightarrow> d3_onConnection sys fl (c, x) = Some (c', x') \<Longrightarrow> c' = c"
    by (auto simp: d3_onConnection_def)
  show "x = Some r \<Longrightarrow> r \<noteq> [] \<Longrightarrow> d3_onWriteComplete sys (c, x) = Some (c', x') \<Longrightarrow>
      send True sys (take dl_kSize r) c = Some c' \<and> x' = Some (drop dl_kSize r)"
    by (auto simp: d3_onWriteComplete_def fread_def const_defs Let_def split: option.splits)
  show "x = Some [] \<Longrightarrow> d3_onWriteComplete sys (c, x) = Some (c', x') \<Longrightarrow> c' = shutdown True c"
    by (auto simp: d3_onWriteComplete_def fread_def)
  show "x = None \<Longrightarrow> d3_onWriteComplete sys (c, x) = None"
    by (simp add: d3_onWriteComplete_def)
qed

text \<open>No step of \<open>download3\<close> fails: a write completion always finds an open file.\<close>

lemma d3_mild_total:
  "mild q d es \<Longrightarrow> (d \<longrightarrow> \<not> connected c) \<Longrightarrow> wf_buffer (inputBuffer c) \<Longrightarrow>
     \<exists>c'. dl_callbacks d3_onConnection d3_onWriteComplete sys fl es (c, x) = Some (c', x)"
proof (induction es arbitrary: c)
  case (Cons e es)
  have m: "silent e" "e = E_connection False \<longrightarrow> d" "mild q d es" using Cons.prems(1) by (auto simp: mild_def)
  have "\<exists>b. dl_callback d3_onConnection d3_onWriteComplete sys fl e (c, x) = Some (c\<lparr>inputBuffer := b\<rparr>, x) \<and> wf_buffer b"
  proof (cases e)
    case (E_connection b)
    then show ?thesis using m(1,2) Cons.prems(2,3) by (cases b) (auto simp: d3_onConnection_def intro!: exI [of _ "inputBuffer c"])
  next
    case (E_message t)
    obtain b where "retrieveAllAsString (inputBuffer c) = Some (content (inputBuffer c), b)" "wf_buffer b"
      using retrieveAsString_contract [OF Cons.prems(3), of "length (content (inputBuffer c))"] length_content [OF Cons.prems(3)]
      by (auto simp: retrieveAllAsString_def)
    then show ?thesis using E_message by (auto simp: dl_onMessage_def)
  qed (use m(1) Cons.prems(3) in \<open>auto intro!: exI [of _ "inputBuffer c"]\<close>)
  then obtain b where b: "dl_callback d3_onConnection d3_onWriteComplete sys fl e (c, x) = Some (c\<lparr>inputBuffer := b\<rparr>, x)" "wf_buffer b" by blast
  then show ?case using Cons.IH [OF m(3), of "c\<lparr>inputBuffer := b\<rparr>"] Cons.prems(2) by (simp add: connected_def)
qed simp

lemma send_total:
  assumes "tcp_inv fds ch c" "active c \<or> conn_state c = kDisconnected" "write_ok sys"
  shows "\<exists>c'. send True sys d c = Some c' \<and> conn_state c' = conn_state c"
  using sendInLoop_inv [OF assms, of d] by (auto simp: send_def)

lemma d3_step:
  assumes "d3.sender_inv f (c, x)" "conn_state c = kConnecting \<or> x \<noteq> None" "by_loop e" "legal e c" "write_ok sys"
  shows "\<exists>c' x'. dl_step d3_onConnection d3_onWriteComplete sys (Some f) e (c, x) = Some (c', x') \<and> (conn_state c' = kConnecting \<or> x' \<noteq> None)"
proof -
  have t: "tcp_inv (\<lambda>_. 0) 0 c" "writeCompleteCb c" "calm (pending c)" using assms(1) by (simp_all add: d3.sender_inv_def)
  obtain c1 where c1: "tcp_step e c = Some c1" "tcp_inv (\<lambda>_. 0) 0 c1" using tcp_step_inv [OF t(1) assms(4)] by blast
  show ?thesis
  proof (rule step_moved [OF t assms(3,4) c1(1)])
    assume e: "e = Establish" "conn_state c = kConnecting"
    obtain c2 where c2: "connectEstablished c = Some c2" "conn_state c2 = kConnected"
      using connectEstablished_inv [OF t(1) e(2)] by blast
    with c1 e have c2': "c1 = c2" by simp
    have fresh: "trace c = []" using t(1) e(2) by (simp add: tcp_inv_def)
    have tr: "trace c1 = [E_update (events (chan c) OR kReadEvent), E_connection True]"
      using c2(1) fresh c2' by (auto simp: connectEstablished_def setState_def chan_op_defs channel_tie_def Let_def split: if_splits)
    obtain c' where "send True sys (take dl_kSize f) (setHighWaterMarkCallback (dl_kSize + 1) c1) = Some c'"
      using send_total [OF mark_inv [OF c1(2)] _ assms(5), of "dl_kSize + 1" "take dl_kSize f"] c2(2) c2'
      by (auto simp: active_def setHighWaterMarkCallback_def)
    then show ?thesis
      using c1(1) tr fresh c2(2) c2' by (simp add: dl_step_def d3_onConnection_def connected_def fread_def)
  next
    fix wr fs assume w: "e = Run_pending wr" "pending c = F_writeComplete # fs" "c1 = emit E_writeComplete (c\<lparr>pending := fs\<rparr>)"
    have a: "active c1 \<or> conn_state c1 = kDisconnected" using live_pending [OF t(1)] w(2,3) by (simp add: active_def)
    then obtain r where r: "x = Some r" using assms(2) w(3) by (auto simp: active_def)
    obtain c' where "send True sys (take dl_kSize r) c1 = Some c'" using send_total [OF c1(2) a assms(5)] by blast
    then show ?thesis using c1(1) w(3) r by (simp add: dl_step_def d3_onWriteComplete_def fread_def)
  next
    assume m: "e \<noteq> Establish" "moved c c1"
    then obtain es where es: "trace c1 = trace c @ es" "mild (conn_state c = kDisconnecting) (conn_state c1 = kDisconnected) es" by (auto simp: moved_def)
    obtain c' where c': "dl_callbacks d3_onConnection d3_onWriteComplete sys (Some f) es (c1, x) = Some (c', x)"
      using d3_mild_total [OF es(2) _ tcp_invD(1) [OF c1(2)], where sys = sys and fl = "Some f" and x = x] by (auto simp: connected_def)
    have "conn_state c1 = kConnecting \<or> x \<noteq> None"
    proof (rule ccontr)
      assume n: "\<not> ?thesis"
      then have k: "conn_state c = kConnecting" using assms(2) by simp
      with t(1) tcp_invD(4) [OF t(1)] have "pending c = []" "\<not> addedToLoop (chan c)" "events (chan c) = 0" by (auto simp: tcp_inv_def active_def)
      with assms(3,4) c1(1) k n m(1) show False by (cases e rule: by_loop.cases) (auto simp: legal_def io_ok_def)
    qed
    moreover obtain b where "c' = c1\<lparr>inputBuffer := b\<rparr>"
      using dl_callbacks_mild [OF c' es(2) _ tcp_invD(1) [OF c1(2)]] d3.down by (auto simp: connected_def)
    ultimately show ?thesis using c1(1) es(1) c' by (simp add: dl_step_def)
  qed
qed

lemma d3_total:
  assumes "dl_reach d3_onConnection d3_onWriteComplete None (Some f) (c, x)" "by_loop e" "legal e c" "write_ok sys"
  shows "dl_step d3_onConnection d3_onWriteComplete sys (Some f) e (c, x) \<noteq> None"
proof -
  have "conn_state (fst s) = kConnecting \<or> snd s \<noteq> None"
    if "dl_reach d3_onConnection d3_onWriteComplete None (Some f) s" for s :: "tcp_conn \<times> bytes option"
    using that
  proof (induction rule: dl_reach.induct)
    case (Step s e sys s')
    obtain c x where s: "s = (c, x)" by (cases s)
    show ?case
      using d3_step [OF d3.reach_inv [OF Step.hyps(1) [unfolded s]] _ Step.hyps(2) _ Step.hyps(4)] Step.hyps(3,5) Step.IH s by auto
  qed (simp add: setWriteCompleteCallback_def mk_tcp_conn_def)
  from this [OF assms(1)] d3_step [OF d3.reach_inv [OF assms(1)] _ assms(2-4)] show ?thesis by auto
qed

text \<open>C39: Whatever the kernel takes of each write and whenever the peer goes away, the bytes \<open>download2\<close> and \<open>download3\<close> have written to a client are
  a prefix of the file, and when such a server ends the stream with the connection up, the client has been sent the whole file.\<close>

theorem download_complete:
  assumes "(\<exists>x. dl_reach d2_onConnection d2_onWriteComplete None (Some f) (c, x)) \<or> (\<exists>x. dl_reach d3_onConnection d3_onWriteComplete None (Some f) (c, x))"
  shows "(\<exists>t. wire c @ t = f) \<and>
    (\<forall>tr1 tr2. trace c = tr1 @ E_shutdownWrite # tr2 \<and> E_connection False \<notin> set tr1 \<longrightarrow> concat (map wrote_of tr1) = f)"
  using assms d2.complete d3.complete by blast

text \<open>A run of \<open>download3\<close> on a file of three bytes: everything is written at once, and the completion finds the end of the file.\<close>

definition take_all :: sys_write where "take_all d = Inr (length d)"

lemma write_ok_take_all: "write_ok take_all"
  by (simp add: write_ok_def take_all_def)

lemmas run_defs = dl_step_def setWriteCompleteCallback_def mk_tcp_conn_def connectEstablished_def setState_def chan_op_defs chan_events_def
  emit_def channel_tie_def mk_channel_def setErrorCallback_def setCloseCallback_def setWriteCallback_def setReadCallback_def
  setHighWaterMarkCallback_def connected_def send_def sendInLoop_def take_all_def isWriting_def queueInLoop_def fread_def dl_kSize_def kWriteEvent_def
  kReadEvent_def POLLIN_def POLLPRI_def POLLOUT_def shutdown_def shutdownInLoop_def

lemma fresh_legal: "legal Establish (setWriteCompleteCallback (mk_tcp_conn n))"
  by (simp add: legal_def setWriteCompleteCallback_def mk_tcp_conn_def)

lemma d3_run:
  "\<exists>c. dl_step d3_onConnection d3_onWriteComplete take_all (Some ''abc'') Establish (setWriteCompleteCallback (mk_tcp_conn 5), None) = Some (c, Some [])
     \<and> pending c = [F_writeComplete] \<and> conn_state c = kConnected \<and> \<not> isWriting (chan c)
     \<and> trace c = [E_update 3, E_connection True, E_wrote ''abc'', E_accept ''abc'']"
  by (simp add: run_defs d3_onConnection_def mk_buffer_geometry Let_def)

lemma d3_ends:
  assumes "pending c = [F_writeComplete]" "conn_state c = kConnected" "\<not> isWriting (chan c)"
  shows "\<exists>c'. dl_step d3_onConnection d3_onWriteComplete take_all fl (Run_pending take_all) (c, Some []) = Some (c', Some [])
     \<and> trace c' = trace c @ [E_writeComplete, E_shutdownWrite]"
  using assms by (simp add: dl_step_def d3_onWriteComplete_def fread_def shutdown_def shutdownInLoop_def setState_def emit_def Let_def isWriting_def)

theorem download_complete_witness:
  "\<exists>c x tr. dl_reach d3_onConnection d3_onWriteComplete None (Some ''abc'') (c, x) \<and> trace c = tr @ [E_shutdownWrite]
     \<and> concat (map wrote_of tr) = ''abc''"
proof -
  obtain c where c: "dl_step d3_onConnection d3_onWriteComplete take_all (Some ''abc'') Establish (setWriteCompleteCallback (mk_tcp_conn 5), None) = Some (c, Some [])"
    "pending c = [F_writeComplete]" "conn_state c = kConnected" "\<not> isWriting (chan c)" "trace c = [E_update 3, E_connection True, E_wrote ''abc'', E_accept ''abc'']"
    using d3_run by blast
  obtain c' where c': "dl_step d3_onConnection d3_onWriteComplete take_all (Some ''abc'') (Run_pending take_all) (c, Some []) = Some (c', Some [])"
    "trace c' = trace c @ [E_writeComplete, E_shutdownWrite]"
    using d3_ends [OF c(2-4)] by blast
  have "dl_reach d3_onConnection d3_onWriteComplete None (Some ''abc'') (c, Some [])"
    by (rule dl_reach.Step [OF dl_reach.Start _ _ write_ok_take_all c(1)]) (simp_all add: fresh_legal)
  then have r: "dl_reach d3_onConnection d3_onWriteComplete None (Some ''abc'') (c', Some [])"
    by (rule dl_reach.Step [OF _ _ _ write_ok_take_all c'(1)]) (simp_all add: legal_def c(2) write_ok_take_all)
  then have "concat (map wrote_of (trace c @ [E_writeComplete])) = ''abc''"
    using download_complete [of "''abc''" c'] c'(2) c(5) by fastforce
  then show ?thesis using r c'(2) by (intro exI [of _ c'] exI [of _ "Some []"] exI [of _ "trace c @ [E_writeComplete]"]) simp
qed

text \<open>\<open>download2\<close> leaves the closed file in the context when the connection goes down, and a write completion that was queued before uses it.\<close>

lemma d2_run:
  "\<exists>c. dl_step d2_onConnection d2_onWriteComplete take_all (Some ''abc'') Establish (setWriteCompleteCallback (mk_tcp_conn 5), None) = Some (c, Some (Opened []))
     \<and> pending c = [F_writeComplete] \<and> conn_state c = kConnected \<and> events (chan c) = 3 \<and> readCallback (chan c) \<and> tied (chan c)"
  by (simp add: run_defs d2_onConnection_def mk_buffer_geometry Let_def)

lemma d2_down:
  assumes "pending c = [F_writeComplete]" "conn_state c = kConnected" "events (chan c) = 3" "readCallback (chan c)" "tied (chan c)"
  shows "\<exists>c'. dl_step d2_onConnection d2_onWriteComplete take_all fl (Io 1 (\<lambda>_. Inr []) take_all t) (c, Some (Opened [])) = Some (c', Some Freed)
     \<and> pending c' = [F_writeComplete] \<and> conn_state c' = kDisconnected"
  using assms
  by (simp add: dl_step_def dispatch_def set_revents_def handleEvent_def handleEventWithGuard_def handleRead_def readFd_def handleClose_def
      setState_def chan_op_defs chan_events_def emit_def d2_onConnection_def connected_def Let_def
      POLLIN_def POLLPRI_def POLLHUP_def POLLERR_def POLLNVAL_def POLLRDHUP_def POLLOUT_def)

lemma d2_use_after_close:
  "\<exists>s. dl_reach d2_onConnection d2_onWriteComplete None (Some ''abc'') s \<and> legal (Run_pending take_all) (fst s)
     \<and> dl_step d2_onConnection d2_onWriteComplete take_all (Some ''abc'') (Run_pending take_all) s = None"
proof -
  obtain c where c: "dl_step d2_onConnection d2_onWriteComplete take_all (Some ''abc'') Establish (setWriteCompleteCallback (mk_tcp_conn 5), None) = Some (c, Some (Opened []))"
    "pending c = [F_writeComplete]" "conn_state c = kConnected" "events (chan c) = 3" "readCallback (chan c)" "tied (chan c)"
    using d2_run by blast
  obtain c' where c': "dl_step d2_onConnection d2_onWriteComplete take_all (Some ''abc'') (Io 1 (\<lambda>_. Inr []) take_all (Timestamp 1)) (c, Some (Opened [])) = Some (c', Some Freed)"
    "pending c' = [F_writeComplete]" "conn_state c' = kDisconnected"
    using d2_down [OF c(2-6)] by blast
  have "dl_reach d2_onConnection d2_onWriteComplete None (Some ''abc'') (c, Some (Opened []))"
    by (rule dl_reach.Step [OF dl_reach.Start _ _ write_ok_take_all c(1)]) (simp_all add: fresh_legal)
  then have "dl_reach d2_onConnection d2_onWriteComplete None (Some ''abc'') (c', Some Freed)"
    by (rule dl_reach.Step [OF _ _ _ write_ok_take_all c'(1)])
      (simp_all add: legal_def io_ok_def c(4) readv_ok_def write_ok_take_all isReading_def isWriting_def kReadEvent_def
        POLLIN_def POLLPRI_def POLLHUP_def POLLERR_def POLLNVAL_def POLLRDHUP_def POLLOUT_def)
  moreover have "legal (Run_pending take_all) c'" by (simp add: legal_def write_ok_take_all c'(2))
  moreover have "dl_step d2_onConnection d2_onWriteComplete take_all (Some ''abc'') (Run_pending take_all) (c', Some Freed) = None"
    using c'(2) by (simp add: dl_step_def emit_def d2_onWriteComplete_def)
  ultimately show ?thesis by (intro exI [of _ "(c', Some Freed)"]) simp
qed

end
