(* ===== verification/Ex_Socks4a.thy ===== *)
theory Ex_Socks4a
  imports Ex_Common Net_InetAddress
begin

section \<open>A SOCKS4a proxy: \<open>examples/socks4a/Sock4aServer.cpp\<close>\<close>

text \<open>
  A client of the proxy asks for a connection to an address, and the proxy relays between the two. One such pair is a record: the
  connection to the client, and the \<open>TcpClient\<close> its context holds once that is connected, with the connection the \<open>TcpClient\<close> has, if any.
  The argument \<open>resolve_name\<close> is \<open>InetAddress::resolve\<close>, which gives the bytes of an IPv4 address.
\<close>

definition MAX_BUFFER :: nat where [const_defs]: "MAX_BUFFER = 10 * 1024 * 1024"

record socks =
  serverConn :: tcp_conn
  serverContext :: bool
  clientConn :: "tcp_conn option"
  clientContext :: bool
  connecting :: "sock_addr list"

definition zero :: char where "zero = CHR 0x00"

definition sock_in :: "bytes \<Rightarrow> bytes \<Rightarrow> sock_addr" where
  "sock_in port dest = write_at 4 dest (write_at 2 port (write_at 0 (mem_of AF_INET) (replicate 16 zero)))"

datatype verdict = Wait_more | Connect sock_addr nat | Reject

text \<open>The request at the front of the bytes, more than eight: where it goes and its length.\<close>

definition socks_request :: "(string \<Rightarrow> bytes option) \<Rightarrow> bytes \<Rightarrow> verdict" where
  "socks_request resolve_name d =
     (let at = 8 + find_index (\<lambda>c. c = zero) (drop 8 d) in
      if at \<noteq> length d
      then let ver = d ! 0; cmd = d ! 1; port = take 2 (drop 2 d); dest = take 4 (drop 4 d);
               sock4a = networkToHost32 (load_mem dest :: 32 word) < 256;
               answer = (\<lambda>ok dest at. if ver = CHR 0x04 \<and> cmd = CHR 0x01 \<and> ok then Connect (sock_in port dest) (at + 1) else Reject)
           in if sock4a
              then let endOfHostName = at + 1 + find_index (\<lambda>c. c = zero) (drop (at + 1) d) in
                   if endOfHostName \<noteq> length d
                   then let hostname = take (endOfHostName - (at + 1)) (drop (at + 1) d) in
                     (case resolve_name hostname of
                        Some ip \<Rightarrow> answer True ip endOfHostName
                      | None \<Rightarrow> answer False dest endOfHostName)
                   else Wait_more
              else answer True dest at
      else Wait_more)"

text \<open>The two replies are string literals; in \<open>"\000\0x5b..."\<close> the escape ends before the \<open>x\<close>.\<close>

definition refused :: bytes where
  "refused = [zero, zero] @ ''x5bUVWXYZ'' @ [zero]"

definition granted :: "sock_addr \<Rightarrow> bytes" where
  "granted addr = write_at 4 (sin_addr addr) (write_at 2 (take 2 (drop 2 addr)) ([zero, zero] @ ''x5aUVWXYZ'' @ [zero]))"

definition setupClientConnection :: "sock_addr \<Rightarrow> socks \<Rightarrow> socks" where
  "setupClientConnection addr s = s\<lparr>connecting := connecting s @ [addr]\<rparr>"

definition socks_onServerConnection :: "socks \<Rightarrow> socks" where
  "socks_onServerConnection s =
     (if connected (serverConn s)
      then s\<lparr>serverConn := setHighWaterMarkCallback MAX_BUFFER (serverConn s)\<rparr>
      else if serverContext s
      then s\<lparr>clientConn := map_option (shutdown True) (clientConn s)\<rparr>
      else s)"

definition onServerMessage :: "(string \<Rightarrow> bytes option) \<Rightarrow> sys_write \<Rightarrow> socks \<Rightarrow> socks option" where
  "onServerMessage resolve_name sys s =
     (let conn = serverConn s; buff = inputBuffer conn in
      if \<not> serverContext s
      then if readableBytes buff > 512 then Some (s\<lparr>serverConn := shutdown True conn\<rparr>)
        else if readableBytes buff > 8
        then (case socks_request resolve_name (bytes_between (peek buff) (peek buff + readableBytes buff) buff) of
                Wait_more \<Rightarrow> Some s
              | Connect serverAddr n \<Rightarrow>
                  do { buff \<leftarrow> retrieveUntil (peek buff + n) buff;
                       Some (setupClientConnection serverAddr (s\<lparr>serverConn := conn\<lparr>inputBuffer := buff\<rparr>\<rparr>)) }
              | Reject \<Rightarrow>
                  do { conn \<leftarrow> send True sys refused conn;
                       Some (s\<lparr>serverConn := shutdown True conn\<rparr>) })
        else Some s
      else do { c \<leftarrow> clientConn s;
                (c, buff) \<leftarrow> send_buffer True sys buff c;
                Some (s\<lparr>clientConn := Some c, serverConn := conn\<lparr>inputBuffer := buff\<rparr>\<rparr>) })"

text \<open>The connection of the \<open>TcpClient\<close> goes up or down; the \<open>TcpClient\<close> has stored it before it is up and forgets it after it is down.\<close>

definition onClientConnection_socks :: "sock_addr \<Rightarrow> sys_write \<Rightarrow> socks \<Rightarrow> socks option" where
  "onClientConnection_socks clientAddress sys s =
     do { conn \<leftarrow> clientConn s;
          if connected conn
          then do { let s = s\<lparr>clientConn := Some (setHighWaterMarkCallback MAX_BUFFER conn), serverContext := True, clientContext := True\<rparr>;
                    c \<leftarrow> send True sys (granted clientAddress) (serverConn s);
                    Some (s\<lparr>serverConn := c\<rparr>) }
          else if clientContext s
          then Some (s\<lparr>serverConn := shutdown True (serverConn s)\<rparr>)
          else Some s }"

definition onClientMessage_socks :: "sys_write \<Rightarrow> socks \<Rightarrow> socks option" where
  "onClientMessage_socks sys s =
     do { conn \<leftarrow> clientConn s;
          if clientContext s
          then do { (c, buff) \<leftarrow> send_buffer True sys (inputBuffer conn) (serverConn s);
                    Some (s\<lparr>serverConn := c, clientConn := Some (conn\<lparr>inputBuffer := buff\<rparr>)\<rparr>) }
          else None }"

definition socks_onHighWaterMark :: "tcp_conn \<Rightarrow> tcp_conn" where "socks_onHighWaterMark conn = stopRead True conn"
definition socks_onWriteComplete :: "tcp_conn \<Rightarrow> tcp_conn" where "socks_onWriteComplete conn = startRead True conn"

subsection \<open>Requests\<close>

text \<open>A request to an address, with the name of a user, and one to a host by name (the address is \<open>0.0.0.x\<close>).\<close>

definition socks4 :: "bytes \<Rightarrow> bytes \<Rightarrow> string \<Rightarrow> bytes" where
  "socks4 port ip user = [CHR 0x04, CHR 0x01] @ port @ ip @ user @ [zero]"

definition invalid_ip :: "bytes \<Rightarrow> bool" where
  "invalid_ip ip \<longleftrightarrow> networkToHost32 (load_mem ip :: 32 word) < 256"

lemma socks4_fields:
  assumes "length port = 2" "length ip = 4"
  shows "(socks4 port ip user @ u) ! 0 = CHR 0x04" "(socks4 port ip user @ u) ! 1 = CHR 0x01"
    "take 2 (drop 2 (socks4 port ip user @ u)) = port" "take 4 (drop 4 (socks4 port ip user @ u)) = ip"
    "drop 8 (socks4 port ip user @ u) = user @ zero # u"
proof -
  obtain p0 p1 where p: "port = [p0, p1]" using assms(1) by (auto simp: length_Suc_conv numeral_2_eq_2)
  obtain i0 i1 i2 i3 where i: "ip = [i0, i1, i2, i3]" using assms(2) by (auto simp: length_Suc_conv numeral_eq_Suc)
  show "(socks4 port ip user @ u) ! 0 = CHR 0x04" "(socks4 port ip user @ u) ! 1 = CHR 0x01"
    "take 2 (drop 2 (socks4 port ip user @ u)) = port" "take 4 (drop 4 (socks4 port ip user @ u)) = ip"
    "drop 8 (socks4 port ip user @ u) = user @ zero # u"
    by (simp_all add: socks4_def p i)
qed

lemma socks4_length: "length port = 2 \<Longrightarrow> length ip = 4 \<Longrightarrow> length (socks4 port ip user) = 9 + length user"
  by (simp add: socks4_def)

lemma socks4_request:
  assumes "length port = 2" "length ip = 4" "zero \<notin> set user" "\<not> invalid_ip ip"
  shows "socks_request resolve_name (socks4 port ip user @ u) = Connect (sock_in port ip) (length (socks4 port ip user))"
proof -
  define d where "d = socks4 port ip user @ u"
  note f = socks4_fields [OF assms(1,2), of user u, folded d_def]
  have "find_index (\<lambda>c. c = zero) (user @ zero # u) = length user" using assms(3) by (intro find_index_append_hit) auto
  moreover have "length d = 9 + length user + length u" by (simp add: d_def socks4_length [OF assms(1,2)])
  ultimately show ?thesis
    unfolding d_def [symmetric] using assms(4) by (simp add: socks_request_def f f(2) [simplified] socks4_length [OF assms(1,2)] invalid_ip_def Let_def)
qed

lemma socks4a_request:
  assumes "length port = 2" "length ip = 4" "zero \<notin> set user" "invalid_ip ip" "zero \<notin> set host" "resolve_name host = Some a"
  shows "socks_request resolve_name (socks4 port ip user @ host @ zero # u) = Connect (sock_in port a) (length (socks4 port ip user) + length host + 1)"
proof -
  define d where "d = socks4 port ip user @ host @ zero # u"
  note f = socks4_fields [OF assms(1,2), of user "host @ zero # u", folded d_def]
  have i: "find_index (\<lambda>c. c = zero) (user @ zero # host @ zero # u) = length user" using assms(3) by (intro find_index_append_hit) auto
  have l: "length d = 10 + length user + length host + length u" by (simp add: d_def socks4_length [OF assms(1,2)])
  have e: "drop (9 + length user) d = host @ zero # u" by (simp add: d_def socks4_length [OF assms(1,2)])
  have j: "find_index (\<lambda>c. c = zero) (host @ zero # u) = length host" using assms(5) by (intro find_index_append_hit) auto
  show ?thesis
    unfolding d_def [symmetric] using assms(4,6) by (simp add: socks_request_def f f(2) [simplified] socks4_length [OF assms(1,2)] i l e j invalid_ip_def Let_def)
qed

text \<open>A request that is cut off is left alone.\<close>

lemma socks4_part:
  assumes "length port = 2" "length ip = 4" "zero \<notin> set user" "socks4 port ip user = s @ t" "t \<noteq> []" "8 < length s"
  shows "socks_request resolve_name s = Wait_more"
proof -
  have "drop 8 s @ t = user @ [zero]"
    using socks4_fields(5) [OF assms(1,2), of user "[]"] assms(4,6) by simp
  then have "\<forall>c \<in> set (drop 8 s). c \<noteq> zero"
    using assms(3,5) by (cases t rule: rev_cases) auto
  then have "find_index (\<lambda>c. c = zero) (drop 8 s) = length (drop 8 s)"
    using find_index_less [of "\<lambda>c. c = zero" "drop 8 s"] find_index_le [of "\<lambda>c. c = zero" "drop 8 s"] by auto
  then show ?thesis using assms(6) by (simp add: socks_request_def)
qed

subsection \<open>The proxy\<close>

text \<open>Requests are served whatever their segments: after each segment that does not complete the request nothing has changed but the bytes
  received, and the last one leads to one connection to the address asked for; bytes after the request stay in the buffer.\<close>

definition asking :: "socks \<Rightarrow> bool" where
  "asking s \<longleftrightarrow> \<not> serverContext s \<and> wf_buffer (inputBuffer (serverConn s))"

lemma asking_bytes:
  assumes "asking s"
  shows "readableBytes (inputBuffer (serverConn s)) = length (content (inputBuffer (serverConn s)))"
    "bytes_between (peek (inputBuffer (serverConn s))) (peek (inputBuffer (serverConn s)) + readableBytes (inputBuffer (serverConn s))) (inputBuffer (serverConn s))
      = content (inputBuffer (serverConn s))"
  using assms content_peek_take [of "inputBuffer (serverConn s)" "readableBytes (inputBuffer (serverConn s))"]
    length_content [of "inputBuffer (serverConn s)"] by (simp_all add: asking_def)

lemma onServerMessage_waits:
  assumes "asking s" "length port = 2" "length ip = 4" "zero \<notin> set user" "socks4 port ip user = content (inputBuffer (serverConn s)) @ t" "t \<noteq> []"
    "length (socks4 port ip user) \<le> 512"
  shows "onServerMessage resolve_name sys s = Some s"
proof -
  have "length (content (inputBuffer (serverConn s))) \<le> 512" using assms(5,7) by simp
  then show ?thesis
    using assms(1) asking_bytes [OF assms(1)] socks4_part [OF assms(2-6), of resolve_name]
    by (auto simp: onServerMessage_def asking_def Let_def)
qed

lemma onServerMessage_connects:
  assumes "asking s" "content (inputBuffer (serverConn s)) = d @ u" "length (d @ u) \<le> 512" "8 < length d"
    and "socks_request resolve_name (d @ u) = Connect addr (length d)"
  shows "\<exists>b. onServerMessage resolve_name sys s = Some (s\<lparr>serverConn := (serverConn s)\<lparr>inputBuffer := b\<rparr>, connecting := connecting s @ [addr]\<rparr>)
    \<and> wf_buffer b \<and> content b = u"
proof -
  let ?b = "inputBuffer (serverConn s)"
  have w: "wf_buffer ?b" using assms(1) by (simp add: asking_def)
  obtain b where b: "retrieve (length d) ?b = Some b" "wf_buffer b" "content b = u"
    using retrieve_front [OF w assms(2) refl] .
  have "length d \<le> readableBytes ?b" using asking_bytes(1) [OF assms(1)] assms(2) by simp
  then have "peek ?b + length d \<le> beginWrite ?b" using assms(4) by (auto simp: readableBytes_def peek_def beginWrite_def)
  then have "retrieveUntil (peek ?b + length d) ?b = Some b" using retrieveUntil_eq [OF w] b(1) by simp
  then show ?thesis
    using b assms asking_bytes [OF assms(1)] by (auto simp: onServerMessage_def setupClientConnection_def asking_def Let_def)
qed

text \<open>The reply to a request is twelve bytes long and its second byte, the code, is zero; SOCKS4 has eight bytes and the codes 90 and 91.\<close>

lemma reply_bytes:
  assumes "length addr = 16"
  shows "length (granted addr) = 12" "granted addr ! 1 = zero" "length refused = 12" "refused ! 1 = zero"
  using assms by (simp_all add: granted_def refused_def write_at_def sin_addr_def nth_append)

text \<open>When the target has closed its connection, the \<open>TcpClient\<close> has none, but the context of the other side still holds it: the next bytes
  of the client end the process.\<close>

lemma late_message: "serverContext s \<Longrightarrow> clientConn s = None \<Longrightarrow> onServerMessage resolve_name sys s = None"
  by (simp add: onServerMessage_def)

text \<open>While the connection to the target is not up, bytes left in the buffer are read as another request at the next message.\<close>

lemma early_bytes:
  assumes "asking s" "content (inputBuffer (serverConn s)) = socks4 port ip user @ socks4 port' ip' user'"
    and "length (socks4 port ip user @ socks4 port' ip' user') \<le> 512"
    and "length port = 2" "length ip = 4" "zero \<notin> set user" "\<not> invalid_ip ip" "length port' = 2" "length ip' = 4" "zero \<notin> set user'" "\<not> invalid_ip ip'"
  shows "\<exists>s' s''. onServerMessage resolve_name sys s = Some s' \<and> onServerMessage resolve_name sys s' = Some s''
    \<and> connecting s'' = connecting s @ [sock_in port ip, sock_in port' ip']"
proof -
  obtain b where b: "onServerMessage resolve_name sys s = Some (s\<lparr>serverConn := (serverConn s)\<lparr>inputBuffer := b\<rparr>, connecting := connecting s @ [sock_in port ip]\<rparr>)"
    "wf_buffer b" "content b = socks4 port' ip' user'"
    using onServerMessage_connects [OF assms(1-3) _ socks4_request [OF assms(4-7)], of resolve_name sys] socks4_length [OF assms(4,5)] by auto
  let ?s = "s\<lparr>serverConn := (serverConn s)\<lparr>inputBuffer := b\<rparr>, connecting := connecting s @ [sock_in port ip]\<rparr>"
  have "asking ?s" "content (inputBuffer (serverConn ?s)) = socks4 port' ip' user' @ []" using assms(1) b(2,3) by (simp_all add: asking_def)
  from onServerMessage_connects [OF this _ _ socks4_request [OF assms(8-11)], of resolve_name sys] assms(3) socks4_length [OF assms(8,9)] b(1)
  show ?thesis by auto
qed

text \<open>While both connections are up, the bytes each side has sent are the other's output, in order.\<close>

lemma relay:
  assumes "conn_up fds ch c" "conn_up fds ch' (serverConn s)" "clientConn s = Some c" "serverContext s" "clientContext s" "sys_good sys"
  shows "\<exists>s' c'. onServerMessage resolve_name sys s = Some s' \<and> clientConn s' = Some c' \<and> content (inputBuffer (serverConn s')) = []
      \<and> accepted c' = accepted c @ content (inputBuffer (serverConn s))"
    and "\<exists>s' c'. onClientMessage_socks sys s = Some s' \<and> clientConn s' = Some c' \<and> content (inputBuffer c') = []
      \<and> accepted (serverConn s') = accepted (serverConn s) @ content (inputBuffer c)"
proof -
  have w: "wf_buffer (inputBuffer (serverConn s))" "wf_buffer (inputBuffer c)"
    using assms(1,2) by (simp_all add: conn_up_def tcp_inv_def)
  obtain c1 where "send_buffer True sys (inputBuffer (serverConn s)) c = Some (c1, retrieveAll (inputBuffer (serverConn s)))"
      "accepted c1 = accepted c @ content (inputBuffer (serverConn s))"
    using send_buffer_up [OF assms(1,6) w(1)] by metis
  then show "\<exists>s' c'. onServerMessage resolve_name sys s = Some s' \<and> clientConn s' = Some c' \<and> content (inputBuffer (serverConn s')) = []
      \<and> accepted c' = accepted c @ content (inputBuffer (serverConn s))"
    using assms(3,4) by (simp add: onServerMessage_def Let_def)
  obtain c2 where "send_buffer True sys (inputBuffer c) (serverConn s) = Some (c2, retrieveAll (inputBuffer c))"
      "accepted c2 = accepted (serverConn s) @ content (inputBuffer c)"
    using send_buffer_up [OF assms(2,6) w(2)] by metis
  then show "\<exists>s' c'. onClientMessage_socks sys s = Some s' \<and> clientConn s' = Some c' \<and> content (inputBuffer c') = []
      \<and> accepted (serverConn s') = accepted (serverConn s) @ content (inputBuffer c)"
    using assms(3,5) by (simp add: onClientMessage_socks_def Let_def)
qed

end
