(* ===== verification/Ex_Sudoku_Server.thy ===== *)
theory Ex_Sudoku_Server
  imports Ex_Sudoku_Correct Ex_Common
begin

section \<open>Sudoku over the network: \<open>examples/sudoku/server_basic.cpp\<close>, \<open>server_threadpool.cpp\<close>\<close>

text \<open>
  A request is a line: the 81 characters of a puzzle, after an id and a colon or alone. The reply is the solution behind the same id. The first server
  solves in the message callback; the second gives the puzzle to a pool of threads, here the list of its tasks.
\<close>

definition sd_MAX_DATA_LEN :: nat where [const_defs]: "sd_MAX_DATA_LEN = 1024"
definition sp_MAX_DATA_LEN :: nat where [const_defs]: "sp_MAX_DATA_LEN = 4096"

definition sd_bad_request :: bytes where "sd_bad_request = ''Bad request!'' @ kCRLF"

text \<open>The id before the first colon, and the rest.\<close>

definition split_id :: "string \<Rightarrow> string \<times> string" where
  "split_id req =
     (let colon = find_index (\<lambda>c. c = CHR '':'') req in
      if colon \<noteq> length req then (take colon req, drop (colon + 1) req) else ([], req))"

definition sd_reply :: "string \<Rightarrow> string \<Rightarrow> bytes" where
  "sd_reply ident result = (if ident = [] then result @ kCRLF else ident @ '':'' @ result @ kCRLF)"

text \<open>The next line, taken out of the buffer.\<close>

definition take_line :: "nat \<Rightarrow> buffer \<Rightarrow> (string \<times> buffer) option" where
  "take_line crlf b = do { let req = bytes_between (peek b) crlf b; b \<leftarrow> retrieveUntil (crlf + 2) b; Some (req, b) }"

text \<open>The loop of \<open>onMessage\<close>; \<open>len\<close> is read before the loop.\<close>

partial_function (option) sd_loop :: "sys_write \<Rightarrow> nat \<Rightarrow> tcp_conn \<Rightarrow> tcp_conn option" where
  "sd_loop sys len conn =
     (if len \<ge> kCells + 2
      then let crlf = findCRLF (inputBuffer conn);
               conn = (if crlf = None \<and> len \<ge> sd_MAX_DATA_LEN then shutdown True conn else conn)
           in case crlf of
                Some crlf \<Rightarrow>
                  do { (req, b) \<leftarrow> take_line crlf (inputBuffer conn);
                       let conn = conn\<lparr>inputBuffer := b\<rparr>;
                       let (ident, req) = split_id req;
                       conn \<leftarrow> (if length req = kCells
                                then do { result \<leftarrow> solveSudoku req; send True sys (sd_reply ident result) conn }
                                else do { conn \<leftarrow> send True sys sd_bad_request conn; Some (shutdown True conn) });
                       sd_loop sys len conn }
              | None \<Rightarrow> Some conn
      else Some conn)"

definition sd_onMessage :: "sys_write \<Rightarrow> tcp_conn \<Rightarrow> tcp_conn option" where
  "sd_onMessage sys conn = sd_loop sys (readableBytes (inputBuffer conn)) conn"

text \<open>The other server: tasks are pairs of a puzzle and an id.\<close>

partial_function (option) sp_loop :: "sys_write \<Rightarrow> nat \<Rightarrow> (string \<times> string) list \<Rightarrow> tcp_conn \<Rightarrow> ((string \<times> string) list \<times> tcp_conn) option" where
  "sp_loop sys len tasks conn =
     (if len \<ge> kCells + 2
      then let crlf = findCRLF (inputBuffer conn);
               conn = (if crlf = None \<and> len \<ge> sp_MAX_DATA_LEN then shutdown True conn else conn)
           in case crlf of
                Some crlf \<Rightarrow>
                  do { (req, b) \<leftarrow> take_line crlf (inputBuffer conn);
                       let conn = conn\<lparr>inputBuffer := b\<rparr>;
                       let (ident, req) = split_id req;
                       (tasks, conn) \<leftarrow> (if length req = kCells
                                then Some (tasks @ [(req, ident)], conn)
                                else do { conn \<leftarrow> send True sys sd_bad_request conn; Some (tasks, shutdown True conn) });
                       sp_loop sys len tasks conn }
              | None \<Rightarrow> Some (tasks, conn)
      else Some (tasks, conn))"

definition sp_onMessage :: "sys_write \<Rightarrow> (string \<times> string) list \<Rightarrow> tcp_conn \<Rightarrow> ((string \<times> string) list \<times> tcp_conn) option" where
  "sp_onMessage sys tasks conn = sp_loop sys (readableBytes (inputBuffer conn)) tasks conn"

text \<open>\<open>resolve\<close> runs in a thread of the pool.\<close>

definition sp_resolve :: "sys_write \<Rightarrow> string \<Rightarrow> string \<Rightarrow> tcp_conn \<Rightarrow> tcp_conn option" where
  "sp_resolve sys puzzle ident conn =
     do { result \<leftarrow> solveSudoku puzzle;
          if connected conn then send False sys (sd_reply ident result) conn else Some conn }"

subsection \<open>Requests\<close>

definition plain :: "string \<Rightarrow> bool" where
  "plain s \<longleftrightarrow> CHR '':'' \<notin> set s \<and> CHR 0x0D \<notin> set s"

fun request_line :: "string \<times> string \<Rightarrow> bytes" where
  "request_line (ident, puzzle) = (if ident = [] then puzzle else ident @ '':'' @ puzzle) @ kCRLF"

definition proper :: "string \<times> string \<Rightarrow> bool" where
  "proper r \<longleftrightarrow> plain (fst r) \<and> plain (snd r) \<and> length (snd r) = kCells"

definition solved :: "string \<Rightarrow> string" where
  "solved puzzle = the (solveSudoku puzzle)"

lemma solved: "length p = kCells \<Longrightarrow> solveSudoku p = Some (solved p)"
  using solveSudoku_core [of p] by (auto simp: solved_def)

lemma split_request:
  assumes "proper (ident, puzzle)"
  shows "split_id (if ident = [] then puzzle else ident @ '':'' @ puzzle) = (ident, puzzle)"
proof (cases "ident = []")
  case True
  have "\<not> find_index (\<lambda>c. c = CHR '':'') puzzle < length puzzle"
    using find_index_less [of "\<lambda>c. c = CHR '':''" puzzle] assms by (auto simp: proper_def plain_def)
  then have "find_index (\<lambda>c. c = CHR '':'') puzzle = length puzzle" by (metis find_index_le le_neq_implies_less)
  then show ?thesis using True by (simp add: split_id_def)
next
  case False
  have "find_index (\<lambda>c. c = CHR '':'') (ident @ CHR '':'' # puzzle) = length ident"
    using assms by (intro find_index_append_hit) (auto simp: proper_def plain_def)
  then show ?thesis using False by (simp add: split_id_def)
qed

lemma line_found:
  assumes "proper r"
  obtains line where "request_line r = line @ kCRLF" "find_crlf (line @ kCRLF @ u) = Some (length line)" "split_id line = r"
proof -
  obtain ident puzzle where r: "r = (ident, puzzle)" by (cases r)
  define line where "line = (if ident = [] then puzzle else ident @ '':'' @ puzzle)"
  have "CHR 0x0D \<notin> set line" using assms by (auto simp: proper_def plain_def line_def r)
  from that [OF _ find_crlf_line [OF this]] split_request assms show thesis by (simp add: r line_def)
qed

lemma take_line_front:
  assumes "wf_buffer b" "content b = line @ kCRLF @ u"
  obtains b' where "take_line (peek b + length line) b = Some (line, b')" "wf_buffer b'" "content b' = u"
proof -
  have two: "length kCRLF = 2" by (simp add: const_defs)
  obtain b' where b': "retrieve (length line + 2) b = Some b'" "wf_buffer b'" "content b' = u"
    using retrieve_front [OF assms(1), of "line @ kCRLF" u "length line + 2"] assms(2) two by auto
  have r: "readableBytes b = length line + 2 + length u" using length_content [OF assms(1)] assms(2) two by simp
  then have "peek b + (length line + 2) \<le> beginWrite b" by (auto simp: readableBytes_def peek_def beginWrite_def)
  then have "retrieveUntil (peek b + (length line + 2)) b = Some b'" using retrieveUntil_eq [OF assms(1)] b'(1) by metis
  then have "retrieveUntil (peek b + length line + 2) b = Some b'" by (simp only: add.assoc)
  moreover have "bytes_between (peek b) (peek b + length line) b = line"
    using content_peek_take [OF assms(1), of "length line"] assms(2) r by simp
  ultimately show thesis using that b' by (simp add: take_line_def)
qed

subsection \<open>The server\<close>

abbreviation answer :: "string \<times> string \<Rightarrow> bytes" where
  "answer r \<equiv> sd_reply (fst r) (solved (snd r))"

lemma input_up: "conn_up fds ch c \<Longrightarrow> wf_buffer b \<Longrightarrow> conn_up fds ch (c\<lparr>inputBuffer := b\<rparr>)"
  by (simp add: conn_up_def tcp_inv_input)

lemma sd_loop_lines:
  assumes "sys_good sys" "kCells + 2 \<le> len" "find_crlf u = None"
  shows "conn_up fds ch c \<Longrightarrow> list_all proper rs \<Longrightarrow> content (inputBuffer c) = concat (map request_line rs) @ u \<Longrightarrow>
    \<exists>c'. sd_loop sys len c = Some c' \<and> accepted c' = accepted c @ concat (map answer rs) \<and> content (inputBuffer c') = u
      \<and> conn_state c' = (if len \<ge> sd_MAX_DATA_LEN then kDisconnecting else kConnected)"
proof (induction rs arbitrary: c)
  case Nil
  then have w: "wf_buffer (inputBuffer c)" by (simp add: conn_up_def tcp_inv_def)
  have "findCRLF (inputBuffer c) = None" using findCRLF_find [OF w] Nil.prems(3) assms(3) by simp
  then have "sd_loop sys len c = Some (if len \<ge> sd_MAX_DATA_LEN then shutdown True c else c)"
    using assms(2) by (subst sd_loop.simps) simp
  moreover have "conn_state c = kConnected" using Nil.prems(1) by (simp add: conn_up_def)
  ultimately show ?case
    using Nil.prems(3) by (simp add: shutdown_def shutdownInLoop_def setState_def emit_def accepted_def Let_def)
next
  case (Cons r rs)
  let ?u = "concat (map request_line rs) @ u"
  have w: "wf_buffer (inputBuffer c)" using Cons.prems(1) by (simp add: conn_up_def tcp_inv_def)
  obtain line where l: "request_line r = line @ kCRLF" "find_crlf (line @ kCRLF @ ?u) = Some (length line)" "split_id line = r"
    using line_found [of r ?u] Cons.prems(2) by auto
  have ct: "content (inputBuffer c) = line @ kCRLF @ ?u" using Cons.prems(3) l(1) by simp
  have f: "findCRLF (inputBuffer c) = Some (peek (inputBuffer c) + length line)" using findCRLF_find [OF w] l(2) ct by simp
  obtain b where b: "take_line (peek (inputBuffer c) + length line) (inputBuffer c) = Some (line, b)" "wf_buffer b" "content b = ?u"
    using take_line_front [OF w ct] .
  obtain ident puzzle where r: "r = (ident, puzzle)" by (cases r)
  have p: "length puzzle = kCells" using Cons.prems(2) by (simp add: r proper_def)
  obtain c1 where c1: "send True sys (sd_reply ident (solved puzzle)) (c\<lparr>inputBuffer := b\<rparr>) = Some c1" "conn_up fds ch c1"
      "accepted c1 = accepted c @ answer r" "content (inputBuffer c1) = ?u"
    using send_bytes_up [OF input_up [OF Cons.prems(1) b(2)] assms(1), of "sd_reply ident (solved puzzle)"] b(3) by (auto simp: accepted_def r)
  have "sd_loop sys len c = sd_loop sys len c1"
    using assms(2) f b(1) l(3) p c1(1) solved [OF p] by (subst sd_loop.simps) (simp add: r)
  with Cons.IH [OF c1(2) _ c1(4)] Cons.prems(2) c1(3) show ?case by simp
qed

lemma line_length: "proper r \<Longrightarrow> kCells + 2 \<le> length (request_line r)"
  by (cases r) (simp add: proper_def const_defs)

text \<open>C40: Requests in the input buffer of a connection that is up, with at most a part of a line after them, are answered in order, each with its own id
  and a solution of its puzzle, or \<open>NoSolution\<close> when there is none, and leave the buffer; but when they are 1024 bytes or more together,
  the connection is then shut down, although every request was small.\<close>

theorem sudoku_server_answers:
  assumes "conn_up fds ch c" "sys_good sys" "list_all proper rs" "find_crlf u = None" "content (inputBuffer c) = concat (map request_line rs) @ u"
  shows "\<exists>c'. sd_onMessage sys c = Some c' \<and> content (inputBuffer c') = u
    \<and> accepted c' = accepted c @ concat (map (\<lambda>r. sd_reply (fst r) (solved (snd r))) rs)
    \<and> (\<forall>p \<in> snd ` set rs. if valid_board (digits p) \<and> (\<exists>b. completes (digits p) b)
         then completes (digits p) (digits (solved p)) else solved p = kNoSolution)
    \<and> conn_state c' = (if length (content (inputBuffer c)) \<ge> sd_MAX_DATA_LEN then kDisconnecting else kConnected)"
proof -
  have w: "wf_buffer (inputBuffer c)" using assms(1) by (simp add: conn_up_def tcp_inv_def)
  let ?n = "length (content (inputBuffer c))"
  have n: "readableBytes (inputBuffer c) = ?n" using length_content [OF w] by simp
  have s: "\<forall>p \<in> snd ` set rs. if valid_board (digits p) \<and> (\<exists>b. completes (digits p) b)
         then completes (digits p) (digits (solved p)) else solved p = kNoSolution"
  proof
    fix p assume "p \<in> snd ` set rs"
    then have "length p = kCells" using assms(3) by (auto simp: list_all_iff proper_def)
    from solveSudoku_core [OF this] obtain r where "solveSudoku p = Some r"
        "if valid_board (digits p) \<and> (\<exists>b. completes (digits p) b) then completes (digits p) (digits r) else r = kNoSolution" by blast
    then show "if valid_board (digits p) \<and> (\<exists>b. completes (digits p) b)
         then completes (digits p) (digits (solved p)) else solved p = kNoSolution" by (simp add: solved_def)
  qed
  show ?thesis
  proof (cases "kCells + 2 \<le> ?n")
    case True
    from sd_loop_lines [OF assms(2) True assms(4,1,3,5)] s show ?thesis unfolding sd_onMessage_def n by blast
  next
    case False
    have "rs = []"
    proof (cases rs)
      case (Cons r rs')
      then show ?thesis using line_length [of r] assms(3,5) False by simp
    qed
    moreover have "sd_onMessage sys c = Some c" using False by (simp add: sd_onMessage_def n sd_loop.simps)
    moreover have "conn_state c = kConnected" "?n < sd_MAX_DATA_LEN" using assms(1) False by (simp_all add: conn_up_def const_defs)
    ultimately show ?thesis using assms(5) by simp
  qed
qed

theorem sudoku_server_answers_witness:
  "\<exists>c c'. conn_up (\<lambda>_. 5) 0 c \<and> content (inputBuffer c) = request_line (''1'', example_puzzle) @ ''2:''
     \<and> sd_onMessage (\<lambda>d. Inr (length d)) c = Some c' \<and> content (inputBuffer c') = ''2:'' \<and> conn_state c' = kConnected
     \<and> accepted c' = ''1:'' @ solved example_puzzle @ kCRLF \<and> completes (digits example_puzzle) (digits (solved example_puzzle))"
proof -
  let ?d = "request_line (''1'', example_puzzle) @ ''2:''"
  obtain c0 where c0: "conn_up (\<lambda>_. 5) 0 c0" "accepted c0 = []" using established_up by blast
  obtain b where b: "wf_buffer b" "content b = ?d"
    using append_contract [OF wf_mk_buffer, of ?d kInitialSize] by (metis append_Nil mk_buffer_geometry(4))
  define c where "c = c0\<lparr>inputBuffer := b\<rparr>"
  have up: "conn_up (\<lambda>_. 5) 0 c" using input_up [OF c0(1) b(1)] by (simp add: c_def)
  have g: "sys_good (\<lambda>d. Inr (length d))" by (simp add: sys_good_def write_ok_def)
  have p: "list_all proper [(''1'', example_puzzle)]" by (simp add: proper_def plain_def example_puzzle_def kCells_def)
  have u: "find_crlf ''2:'' = None" by (simp add: find_crlf_def const_defs)
  have ct: "content (inputBuffer c) = concat (map request_line [(''1'', example_puzzle)]) @ ''2:''" by (simp add: c_def b(2))
  have short: "\<not> sd_MAX_DATA_LEN \<le> length (content (inputBuffer c))" by (simp add: ct example_puzzle_def const_defs)
  have ex: "valid_board (digits example_puzzle)" "\<exists>g. completes (digits example_puzzle) g"
    using example_completes by (auto simp: example_digits valid_board_def kCells_def)
  have a: "accepted c = []" using c0(2) by (simp add: c_def accepted_def)
  from sudoku_server_answers [OF up g p u ct] obtain c' where
    "sd_onMessage (\<lambda>d. Inr (length d)) c = Some c'" "content (inputBuffer c') = ''2:''"
    "accepted c' = ''1:'' @ solved example_puzzle @ kCRLF" "completes (digits example_puzzle) (digits (solved example_puzzle))" "conn_state c' = kConnected"
    using short ex a by (auto simp: sd_reply_def)
  with up ct show ?thesis by (intro exI [of _ c] exI [of _ c']) simp
qed

text \<open>The other server puts the same puzzles and ids into its pool, in order, and sends nothing itself.\<close>

lemma sp_loop_lines:
  assumes "kCells + 2 \<le> len" "find_crlf u = None" "len < sp_MAX_DATA_LEN"
  shows "conn_up fds ch c \<Longrightarrow> list_all proper rs \<Longrightarrow> content (inputBuffer c) = concat (map request_line rs) @ u \<Longrightarrow>
    \<exists>b. sp_loop sys len tasks c = Some (tasks @ map prod.swap rs, c\<lparr>inputBuffer := b\<rparr>) \<and> content b = u"
proof (induction rs arbitrary: c tasks)
  case Nil
  then have w: "wf_buffer (inputBuffer c)" by (simp add: conn_up_def tcp_inv_def)
  have "findCRLF (inputBuffer c) = None" using findCRLF_find [OF w] Nil.prems(3) assms(2) by simp
  then have "sp_loop sys len tasks c = Some (tasks, c)" using assms(1,3) by (subst sp_loop.simps) simp
  then show ?case using Nil.prems(3) by (intro exI [of _ "inputBuffer c"]) simp
next
  case (Cons r rs)
  let ?u = "concat (map request_line rs) @ u"
  have w: "wf_buffer (inputBuffer c)" using Cons.prems(1) by (simp add: conn_up_def tcp_inv_def)
  obtain line where l: "request_line r = line @ kCRLF" "find_crlf (line @ kCRLF @ ?u) = Some (length line)" "split_id line = r"
    using line_found [of r ?u] Cons.prems(2) by auto
  have ct: "content (inputBuffer c) = line @ kCRLF @ ?u" using Cons.prems(3) l(1) by simp
  have f: "findCRLF (inputBuffer c) = Some (peek (inputBuffer c) + length line)" using findCRLF_find [OF w] l(2) ct by simp
  obtain b where b: "take_line (peek (inputBuffer c) + length line) (inputBuffer c) = Some (line, b)" "wf_buffer b" "content b = ?u"
    using take_line_front [OF w ct] .
  obtain ident puzzle where r: "r = (ident, puzzle)" by (cases r)
  have p: "length puzzle = kCells" using Cons.prems(2) by (simp add: r proper_def)
  have "sp_loop sys len tasks c = sp_loop sys len (tasks @ [(puzzle, ident)]) (c\<lparr>inputBuffer := b\<rparr>)"
    using assms(1) f b(1) l(3) p by (subst sp_loop.simps) (simp add: r)
  with Cons.IH [OF input_up [OF Cons.prems(1) b(2)], of "tasks @ [(puzzle, ident)]"] Cons.prems(2) b(3) show ?case by (simp add: r)
qed

end
