(* ===== verification/Ex_Simple.thy ===== *)
theory Ex_Simple
  imports Ex_Sudoku_Server
begin

section \<open>Small servers: \<open>examples/simple/\<close>, \<open>finger/\<close>, \<open>shorturl/\<close>\<close>

text \<open>
  The callbacks of the echo, time, daytime and character generator servers, of the time client, of the last finger server, and of the server
  that redirects short paths. The clock is an argument.
\<close>

subsection \<open>Echo, daytime, time\<close>

definition echo_onMessage :: "sys_write \<Rightarrow> tcp_conn \<Rightarrow> tcp_conn option" where
  "echo_onMessage sys conn =
     do { (msg, b) \<leftarrow> retrieveAllAsString (inputBuffer conn);
          send True sys msg (conn\<lparr>inputBuffer := b\<rparr>) }"

definition daytime_onConnection :: "string \<Rightarrow> sys_write \<Rightarrow> tcp_conn \<Rightarrow> tcp_conn option" where
  "daytime_onConnection now sys conn =
     (if connected conn
      then do { conn \<leftarrow> send True sys (now @ kCRLF) conn; Some (shutdown True conn) }
      else Some conn)"

definition time_onConnection :: "64 word \<Rightarrow> sys_write \<Rightarrow> tcp_conn \<Rightarrow> tcp_conn option" where
  "time_onConnection now sys conn =
     (if connected conn
      then do { let be64 = hostToNetwork64 now;
                conn \<leftarrow> send True sys (mem_of be64) conn;
                Some (shutdown True conn) }
      else Some conn)"

text \<open>The client: the time it reports, if any.\<close>

definition timeclient_onMessage :: "tcp_conn \<Rightarrow> (64 word option \<times> tcp_conn) option" where
  "timeclient_onMessage conn =
     (let buff = inputBuffer conn in
      if readableBytes buff \<ge> 8
      then do { let be64 = load_mem (bytes_between (peek buff) (peek buff + 8) buff);
                b \<leftarrow> retrieve 8 buff;
                let t = networkToHost64 be64;
                Some (Some t, shutdown True (conn\<lparr>inputBuffer := b\<rparr>)) }
      else Some (None, conn))"

subsection \<open>The character generator\<close>

definition CHAR_LEN :: nat where [const_defs]: "CHAR_LEN = 40"
definition LINE_LEN :: nat where [const_defs]: "LINE_LEN = 50"
definition START_CHAR :: char where [const_defs]: "START_CHAR = CHR ''#''"

definition fillMsg :: "string list" where
  "fillMsg = map (\<lambda>i. map (\<lambda>j. char_of (of_char START_CHAR + i + j :: nat)) [0..<CHAR_LEN]) [0..<LINE_LEN]"

text \<open>\<open>msgTranffered_\<close> belongs to the server, so it is the same for all its connections. Reading \<open>message_\<close> out of range is undefined.\<close>

definition next_message :: "sys_write \<Rightarrow> nat \<times> tcp_conn \<Rightarrow> (nat \<times> tcp_conn) option" where
  "next_message sys = (\<lambda>(msgTranffered, conn).
     assert_then (msgTranffered < length fillMsg)
      (do { conn \<leftarrow> send True sys (fillMsg ! msgTranffered @ kCRLF) conn; Some (msgTranffered + 1, conn) }))"

definition chargen_onConnection :: "sys_write \<Rightarrow> nat \<times> tcp_conn \<Rightarrow> (nat \<times> tcp_conn) option" where
  "chargen_onConnection sys s = (if connected (snd s) then next_message sys s else Some s)"

definition chargen_onWriteComplete :: "sys_write \<Rightarrow> nat \<times> tcp_conn \<Rightarrow> (nat \<times> tcp_conn) option" where
  "chargen_onWriteComplete sys s =
     (if fst s = LINE_LEN then Some (fst s, shutdown True (snd s)) else next_message sys s)"

subsection \<open>Finger\<close>

definition getUser :: "(string \<rightharpoonup> string) \<Rightarrow> string \<Rightarrow> string" where
  "getUser users user = (case users user of Some res \<Rightarrow> res | None \<Rightarrow> ''No such user'')"

definition finger_onMessage :: "(string \<rightharpoonup> string) \<Rightarrow> sys_write \<Rightarrow> tcp_conn \<Rightarrow> tcp_conn option" where
  "finger_onMessage users sys conn =
     (case findCRLF (inputBuffer conn) of
        Some clf \<Rightarrow>
          do { let user = bytes_between (peek (inputBuffer conn)) clf (inputBuffer conn);
               conn \<leftarrow> send True sys (getUser users user @ kCRLF) conn;
               b \<leftarrow> retrieveUntil (clf + 2) (inputBuffer conn);
               Some (shutdown True (conn\<lparr>inputBuffer := b\<rparr>)) }
      | None \<Rightarrow> Some conn)"

subsection \<open>Short paths\<close>

definition k301MovedPermanently :: nat where "k301MovedPermanently = 301"

definition shorturl_onRequest :: "(string \<times> string) list \<Rightarrow> string \<Rightarrow> http_request \<Rightarrow> http_response \<Rightarrow> http_response" where
  "shorturl_onRequest redirections now req resp =
     (case map_of redirections (path req) of
        Some url \<Rightarrow> resp_addHeader ''Location'' url (setStatusMessage ''Moved permanently'' (setStatusCode k301MovedPermanently resp))
      | None \<Rightarrow>
          if path req = ''/''
          then let txt = concat (map (\<lambda>(p, url). ''<ul>'' @ p @ '' =&gt; '' @ url @ ''</ul>'') redirections)
               in setBody (''<html><head><title>My tiny short url service</title></head><body><h1>Know redirections</h1>'' @ txt @ ''Now is '' @ now @ ''</body></html>'')
                    (setContentType ''text/html'' (setStatusMessage ''OK'' (setStatusCode k200Ok resp)))
          else setCloseConnection True (setStatusMessage ''Not Found'' (setStatusCode k404NotFound resp)))"

subsection \<open>What they send\<close>

lemma echo_sends:
  assumes "conn_up fds ch c" "sys_good sys"
  shows "\<exists>c'. echo_onMessage sys c = Some c' \<and> conn_up fds ch c' \<and> accepted c' = accepted c @ content (inputBuffer c) \<and> content (inputBuffer c') = []"
proof -
  have w: "wf_buffer (inputBuffer c)" using assms(1) by (simp add: conn_up_def tcp_inv_def)
  obtain b where b: "retrieveAllAsString (inputBuffer c) = Some (content (inputBuffer c), b)" "wf_buffer b" "content b = []"
    using retrieveAsString_contract [OF w, of "length (content (inputBuffer c))"] length_content [OF w] by (auto simp: retrieveAllAsString_def)
  obtain c' where "send True sys (content (inputBuffer c)) (c\<lparr>inputBuffer := b\<rparr>) = Some c'" "conn_up fds ch c'"
      "accepted c' = accepted c @ content (inputBuffer c)" "inputBuffer c' = b"
    using send_bytes_up [OF input_up [OF assms(1) b(2)] assms(2), of "content (inputBuffer c)"] by (auto simp: accepted_def)
  then show ?thesis using b by (simp add: echo_onMessage_def)
qed

lemma shutdown_accepted [simp]: "accepted (shutdown True c) = accepted c" "inputBuffer (shutdown True c) = inputBuffer c"
  by (simp_all add: shutdown_def shutdownInLoop_def setState_def emit_def accepted_def Let_def)

text \<open>The time a client reports, however the eight bytes arrive, is the time the server sent.\<close>

lemma time_sent:
  assumes "conn_up fds ch c" "sys_good sys"
  shows "\<exists>c'. time_onConnection now sys c = Some c' \<and> accepted c' = accepted c @ mem_of (hostToNetwork64 now)"
proof -
  obtain c' where "send True sys (mem_of (hostToNetwork64 now)) c = Some c'" "accepted c' = accepted c @ mem_of (hostToNetwork64 now)"
    using send_bytes_up [OF assms, of "mem_of (hostToNetwork64 now)"] by metis
  then show ?thesis using assms(1) by (simp add: time_onConnection_def connected_def conn_up_def)
qed

lemma time_received:
  assumes "wf_buffer (inputBuffer c)" "content (inputBuffer c) @ rest = mem_of (hostToNetwork64 now)"
  shows "\<exists>c'. timeclient_onMessage c = Some (if rest = [] then Some now else None, c')"
proof -
  have l: "length (content (inputBuffer c)) + length rest = 8" using arg_cong [OF assms(2), of length] by simp
  have r: "readableBytes (inputBuffer c) = length (content (inputBuffer c))" using length_content [OF assms(1)] by simp
  show ?thesis
  proof (cases "rest = []")
    case True
    have "bytes_between (peek (inputBuffer c)) (peek (inputBuffer c) + 8) (inputBuffer c) = mem_of (hostToNetwork64 now)"
      using content_peek_take [OF assms(1), of 8] r l True assms(2) by simp
    moreover have "load_mem (mem_of (hostToNetwork64 now)) = hostToNetwork64 now" by (rule load_mem_of) simp
    moreover obtain b where "retrieve 8 (inputBuffer c) = Some b" using retrieve_total [OF assms(1), of 8] l True by auto
    ultimately show ?thesis using r l True by (simp add: timeclient_onMessage_def)
  next
    case False
    then have "length (content (inputBuffer c)) < 8" using l by (cases rest) auto
    then show ?thesis using r False by (simp add: timeclient_onMessage_def)
  qed
qed

text \<open>After one client has got its fifty lines, the server has none for the next one.\<close>

lemma chargen_second_client: "conn_state c = kConnected \<Longrightarrow> chargen_onConnection sys (LINE_LEN, c) = None"
  by (simp add: chargen_onConnection_def next_message_def connected_def fillMsg_def)

lemma chargen_line:
  assumes "conn_up fds ch c" "sys_good sys" "n < LINE_LEN"
  shows "\<exists>c'. chargen_onWriteComplete sys (n, c) = Some (n + 1, c') \<and> conn_up fds ch c' \<and> accepted c' = accepted c @ fillMsg ! n @ kCRLF"
proof -
  obtain c' where "send True sys (fillMsg ! n @ kCRLF) c = Some c'" "conn_up fds ch c'" "accepted c' = accepted c @ fillMsg ! n @ kCRLF"
    using send_bytes_up [OF assms(1,2), of "fillMsg ! n @ kCRLF"] by metis
  then show ?thesis using assms(3) by (simp add: chargen_onWriteComplete_def next_message_def fillMsg_def)
qed

text \<open>The reply of the finger server to a whole line; a part of a line waits.\<close>

lemma finger_replies:
  assumes "conn_up fds ch c" "sys_good sys" "content (inputBuffer c) = user @ kCRLF @ u" "CHR 0x0D \<notin> set user"
  shows "\<exists>c'. finger_onMessage users sys c = Some c' \<and> accepted c' = accepted c @ getUser users user @ kCRLF \<and> content (inputBuffer c') = u"
proof -
  have w: "wf_buffer (inputBuffer c)" using assms(1) by (simp add: conn_up_def tcp_inv_def)
  have f: "findCRLF (inputBuffer c) = Some (peek (inputBuffer c) + length user)"
    using findCRLF_find [OF w] find_crlf_line [OF assms(4), of u] assms(3) by simp
  obtain b where b: "take_line (peek (inputBuffer c) + length user) (inputBuffer c) = Some (user, b)" "content b = u"
    using take_line_front [OF w assms(3)] by metis
  then have t: "bytes_between (peek (inputBuffer c)) (peek (inputBuffer c) + length user) (inputBuffer c) = user"
      "retrieveUntil (peek (inputBuffer c) + length user + 2) (inputBuffer c) = Some b"
    by (auto simp: take_line_def split: option.splits)
  obtain c' where "send True sys (getUser users user @ kCRLF) c = Some c'" "accepted c' = accepted c @ getUser users user @ kCRLF" "inputBuffer c' = inputBuffer c"
    using send_bytes_up [OF assms(1,2), of "getUser users user @ kCRLF"] by metis
  moreover have "accepted (c'\<lparr>inputBuffer := b\<rparr>) = accepted c'" for c' by (simp add: accepted_def)
  ultimately show ?thesis using f t b(2) by (simp add: finger_onMessage_def)
qed

end
