(* ===== verification/Spec2Isabelle.thy ===== *)
theory Spec2Isabelle
  imports Net_Buffer Net_EventLoop Net_TcpServer Base_AsyncLogging Net_Http Net_Protobuf Net_Rpc Base_Sync Base_Thread Ex_Sudoku_Correct Ex_TimingWheel Net_InetAddress Net_Inspect Ex_Chat Ex_Multiplexer Ex_Protobuf Ex_Download Ex_Socks4a Ex_Simple
begin

text \<open>
  A verification development of muduo, a C++ library for TCP servers and clients (\<open>src/muduo/muduo\<close>), and of programs written
  with it (\<open>src/examples\<close>). It is a shallow embedding: every function of the source that is modelled is a function here, under the
  name it has there as far as names allow, and the theorems are about these functions.

  \<^bold>\<open>The program.\<close> A thread runs an \<open>EventLoop\<close>. Each turn polls the kernel through a \<open>Poller\<close>, lets every active \<open>Channel\<close>
  call its callbacks, and then runs the functors other threads have queued; a byte written to an eventfd wakes the loop for them. Timers
  are one more channel, on a timerfd. \<open>Acceptor\<close> and \<open>Connector\<close> obtain connected sockets; a \<open>TcpServer\<close> or a \<open>TcpClient\<close> makes a
  \<open>TcpConnection\<close> of each, with an input and an output \<open>Buffer\<close>, in one of the loops of an \<open>EventLoopThreadPool\<close>. HTTP, the
  protobuf codec, RPC and the inspector are message callbacks on such connections. The base library gives dates, time zones, log
  formatting, the logging thread, queues, thread pools and mutexes.

  \<^bold>\<open>Conventions.\<close> A class is a \<open>record\<close> of its fields and an operation a function from the record to the record after it. An
  \<open>assert\<close> of the source is \<open>assert_then\<close>: \<open>None\<close> when it fails, so that a result \<open>Some\<close> says that no assertion fails on
  the way. \<open>LOG_FATAL\<close>, \<open>abort\<close>, a dereferenced null pointer and a call of an empty \<open>std::function\<close> are \<open>None\<close> too. Integers keep
  their width where the code computes with them near its limits: dates and broken-down times, byte order, lengths in frames, the text of
  numbers, hashes and indexes that wrap, as words, as \<open>to_int32\<close> and \<open>to_int64\<close> of an unbounded value, or with the wrap-around written
  out. They are unbounded, and their overflow is not modelled, where they only count up or measure memory: the numbers of timers, of
  connections (\<open>nextConnId_\<close>, an \<open>int\<close> in the code) and of turns of a loop, the sizes of containers and buffers, the bytes written to a log file,
  and microseconds since the epoch where they are only compared and added. Bytes are characters, and addresses are numbers into a
  record's map. System calls, zlib, protobuf, the clock and the text of a \<open>double\<close> are arguments of the definitions that use them. User
  callbacks appear as the list of calls the code makes. Threads are interleaved: the code between two places where another thread can come in is one step of an \<open>inductive\<close> relation, and the
  theorems are about every state such steps reach.

  \<^bold>\<open>The theories.\<close>
  \<^item> Prelude: assertions, the collections \<open>const_defs\<close> and \<open>op_defs\<close>, and lemmas on lists, words and \<open>split_on\<close> for all others.
  \<^item> Net_Endian (\<open>net/Endian.h\<close>): byte order; each conversion inverts the other.
  \<^item> Byte_Queue, Net_Buffer (\<open>net/Buffer.h\<close>, \<open>.cc\<close>): the abstract queue of bytes and the buffer, a vector with two indexes. The
    well-formedness of the indexes is kept, the operations refine the queue, integers are read back as written.
  \<^item> Base_StringPiece (\<open>base/StringPiece.h\<close>): pieces of memory; their comparison is that of the strings they show.
  \<^item> Base_Date, Base_Time (\<open>base/Date\<close>, \<open>Timestamp\<close>, \<open>TimeZone\<close>): day numbers and calendar dates, UTC time in both
    directions, zone files and the search for the local time. Round trips hold on all dates
    up to the year 1465101, where the 32-bit day count overflows (lemma \<open>date_overflow\<close>), and on times in about the same span, negative ones too.
  \<^item> Net_Channel, Net_Poller (\<open>net/Channel\<close>, \<open>net/poller/\<close>): events and the order of callbacks; both pollers beside the set the
    kernel keeps, with their index bookkeeping.
  \<^item> Net_Timer (\<open>net/Timer\<close>, \<open>TimerQueue\<close>): the two sets of timers, alarms, repetition, and callbacks that add and
    cancel timers.
  \<^item> Net_TcpConnection (\<open>net/TcpConnection\<close>): sending, reading, closing, the queued functors, and what each operation asks of the
    poller. One invariant \<open>tcp_inv\<close> carries the safety theorems, the stream theorem and the liveness of output.
  \<^item> Net_EventLoop, Net_EventLoopThread (\<open>net/EventLoop\<close>, \<open>EventLoopThread\<close>, \<open>EventLoopThreadPool\<close>): wakeups among threads, where
    a call from another thread to \<open>queueInLoop\<close> or \<open>quit\<close> is in two steps and the loop can run between them; the queue of functors, the handshake at the start of a loop thread, round robin.
  \<^item> Net_Connect (\<open>net/Acceptor\<close>, \<open>Connector\<close>): which descriptors are open at any time, whatever the
    channel of an attempt reports, and the retry delays.
  \<^item> Net_TcpServer (\<open>net/TcpServer\<close>, \<open>TcpClient\<close>): a server with all its loops and connections as one system of steps, built from the
    operations of the connection; names, removal across loops, destruction.
  \<^item> Decimal, Base_LogStream (\<open>base/LogStream\<close>, \<open>Logging\<close>): digits of integers at every width, the fixed buffer, log lines.
  \<^item> Base_AsyncLogging (\<open>base/AsyncLogging\<close>, \<open>LogFile\<close>, \<open>FileUtil\<close>): the writers and the logging thread over rolling
    files: what is kept, in which order, and which lines are lost (too long ones, and those in the front end at \<open>stop\<close>).
  \<^item> Net_Http (\<open>net/http/\<close>): requests, responses, the parser over a buffer with \<open>aparse\<close>, its reference on bytes, and the server.
  \<^item> Net_Frames, Net_Protobuf, Net_Rpc (\<open>net/protobuf/\<close>, \<open>net/protorpc/\<close>): streams of messages, the codec, and the calls in flight on
    a channel with the ownership of their response objects.
  \<^item> Base_Sync, Base_Thread (\<open>base/BlockingQueue.h\<close>, \<open>BoundedBlockingQueue.h\<close>, \<open>ThreadPool\<close>, \<open>CountDownLatch\<close>, \<open>Thread\<close>, \<open>Mutex.h\<close>,
    \<open>Condition\<close>): critical sections as steps with the signals they send; start of a thread; the holder of a mutex.
  \<^item> Net_InetAddress (\<open>net/InetAddress\<close>, \<open>SocketsOps\<close>, \<open>Socket\<close>): socket addresses as their bytes, and their text.
  \<^item> Base_ProcessInfo, Net_Inspect (\<open>base/ProcessInfo\<close>, \<open>net/inspect/\<close>): parsers of the texts of \<open>/proc\<close>; the table of commands
    and the dispatch of requests.
  \<^item> Ex_Sudoku, Ex_Sudoku_Links, Ex_Sudoku_Cover, Ex_Sudoku_Search, Ex_Sudoku_Build, Ex_Sudoku_Solve, Ex_Sudoku_Grid, Ex_Sudoku_Correct
    (\<open>examples/sudoku/sudoku.cpp\<close>): dancing links over an explicit array of nodes. The links form rings; covering and uncovering
    undo each other; the search finds an exact cover when there is one; exact covers are the solutions of the grid.
  \<^item> Ex_Sudoku_Server (\<open>sudoku/server_basic.cpp\<close>, \<open>server_threadpool.cpp\<close>): the servers around the solver; request lines are answered
    in order with correct solutions.
  \<^item> Ex_TimingWheel (\<open>examples/timingwheel\<close>): the wheel of entries that closes idle connections.
  \<^item> Ex_Common, Ex_Chat, Ex_Multiplexer, Ex_Protobuf (\<open>examples/asio\<close>, \<open>multiplexer\<close>, \<open>protobuf\<close>): connections that are up, and
    three protocols over them, from the sender's buffer through the segments of the stream to the receiver's callbacks.
  \<^item> Ex_Download (\<open>examples/filetransfer\<close>): a connection together with the callbacks of a server that sends a file piece by piece; the file is
    sent whole or the connection went down.
  \<^item> Ex_Socks4a, Ex_Simple (\<open>examples/socks4a\<close>, \<open>simple\<close>, \<open>finger\<close>, \<open>shorturl\<close>): a proxy's requests, replies and relay; small servers.

  \<^bold>\<open>Interfaces.\<close> Where components share a contract it is a locale, and the code's definitions are instances of it.
  \<^item> \<open>byte_queue\<close> (Byte_Queue): what a buffer promises; \<open>bq\<close> in Net_Buffer.
  \<^item> \<open>poller\<close> (Net_Poller): interest map, requests and their assertions; \<open>epoll\<close> and \<open>ppoll\<close> for the two pollers, so that a
    connection's requests succeed in either.
  \<^item> \<open>log_sink\<close> (Base_AsyncLogging): what the logging thread needs of a file; \<open>log_to_file\<close> for the rolling file.
  \<^item> \<open>scanner\<close> and its extension \<open>framing\<close> (Net_Frames): a decoder that looks at the front of a stream, and the frames a sender
    makes for it. Inside it is proved once that the messages do not depend on the segments. \<open>pb\<close> is the library's codec, \<open>chat_rx\<close>
    and \<open>chat\<close>, \<open>packets\<close> and \<open>xp\<close> those of the examples.
  \<^item> \<open>waiting_queue\<close> (Base_Sync): a queue whose takers sleep on a condition; the items come out in the order they
    went in, and items that wait always have a taker awake when one sleeps; a change that closes the queue wakes every taker. \<open>bq\<close>,
    \<open>bbq\<close> and \<open>pool\<close> are the two queues and the thread pool.
  \<^item> \<open>file_sender\<close> (Ex_Download): the callbacks of a server that sends pieces; \<open>d2\<close> and \<open>d3\<close> are the two servers that do.

  \<^bold>\<open>Loops.\<close> Most loops are structural, or run over a range of numbers given in advance. Digits, writing until everything is written,
  and the splitting of a path are \<open>function\<close>s with a measure. Where the source may not terminate, the loop is a \<open>partial_function\<close>
  on options (the HTTP parser, the loops of the codecs, the walks along the links, the search), and its result is proved to exist: the parser on every
  buffer, the codecs on every stream of frames, the solver on every puzzle of 81 characters. No fuel is used.

  \<^bold>\<open>Assumptions of the theorems.\<close> The main ones are named definitions: \<open>write_ok\<close> (a \<open>write\<close> never reports more than it was given),
  \<open>sys_good\<close> (and does not fail with a broken pipe), the \<open>sendable\<close> messages of each codec (short enough, and what protobuf serializes it parses
  back). Every property that has a hypothesis is followed by an instance at concrete values.

  \<^bold>\<open>Not modelled.\<close> Code that only passes its arguments to one system call (socket options, \<open>fopen\<close>, \<open>pthread\<close> calls without state, the
  wrappers of \<open>SocketsOps\<close>), the formatting of \<open>double\<close> and \<open>snprintf\<close> of it, the demangled stack of \<open>Exception\<close>; type-level helpers
  without behaviour in these terms (\<open>Types.h\<close>, \<open>copyable\<close>, \<open>noncopyable\<close>, \<open>Callbacks.h\<close>, \<open>WeakCallback.h\<close>, \<open>Singleton\<close>, \<open>ThreadLocal\<close>,
  \<open>Atomic.h\<close>, whose counters are numbers here); \<open>PerformanceInspector\<close>, which forwards to gperftools; \<open>GzipFile.h\<close> and \<open>ZlibStream.h\<close>, thin layers over zlib;
  files protoc generates (\<open>query.pb.*\<close>); tests, main programs, and examples that only log what they receive or only print on timers. The memory model of C++
  is not modelled: interleaved steps are sequentially consistent, which the code ensures by its mutexes. Data races on fields accessed without
  them are noted as findings where they were seen.
\<close>

end
